(* ===== verification/Prelude.thy ===== *)
theory Prelude
  imports Main "HOL-Library.Word" "HOL-Library.Signed_Division" "HOL-Library.Multiset"
begin

text \<open>
  Shared vocabulary of the development: how a C computation can end, the machine types
  of the program, the allocator, and the generic lemmas on lists, sums and words that
  the component theories use.
\<close>

unbundle bit_operations_syntax

section \<open>How a computation ends\<close>

text \<open>
  A C function either returns (\<open>Ok\<close>), ends the process with \<open>exit(EXIT_FAILURE)\<close>
  (\<open>Exit\<close>), has undefined behaviour such as a null dereference, an index out of range,
  a use after free or a read of an uninitialised variable (\<open>UB\<close>), or waits for something
  that nobody is going to do (\<open>Stuck\<close>).
\<close>

datatype 'a res = Ok 'a | Exit | UB | Stuck

fun rbind :: "'a res \<Rightarrow> ('a \<Rightarrow> 'b res) \<Rightarrow> 'b res" where
  "rbind (Ok x) f = f x"
| "rbind Exit f = Exit"
| "rbind UB f = UB"
| "rbind Stuck f = Stuck"

lemma rbind_cong [fundef_cong]:
  "m = m' \<Longrightarrow> (\<And>x. m' = Ok x \<Longrightarrow> f x = g x) \<Longrightarrow> rbind m f = rbind m' g"
  by (cases m') auto

lemma rbind_eq_Ok: "rbind m f = Ok y \<longleftrightarrow> (\<exists>x. m = Ok x \<and> f x = Ok y)"
  by (cases m) auto

lemma rbind_assoc: "rbind (rbind m f) g = rbind m (\<lambda>x. rbind (f x) g)"
  by (cases m) auto

lemma rbind_return [simp]: "rbind m Ok = m"
  by (cases m) auto

text \<open>The same for computations that may not end (\<open>None\<close>).\<close>

fun lbind :: "'a res option \<Rightarrow> ('a \<Rightarrow> 'b res option) \<Rightarrow> 'b res option" where
  "lbind None f = None"
| "lbind (Some (Ok x)) f = f x"
| "lbind (Some Exit) f = Some Exit"
| "lbind (Some UB) f = Some UB"
| "lbind (Some Stuck) f = Some Stuck"

section \<open>Machine types\<close>

type_synonym byte = "8 word"
type_synonym u32 = "32 word"   \<comment> \<open>\<open>unsigned int\<close>\<close>
type_synonym u64 = "64 word"   \<comment> \<open>\<open>unsigned long\<close>, \<open>size_t\<close>\<close>

text \<open>A path is the bytes of a C string, without the terminating NUL.\<close>

type_synonym path = "byte list"

text \<open>
  \<open>int\<close> and \<open>long\<close> values are kept as unbounded integers where the program never leaves
  their range; a conversion that can change the value is written with these functions.
\<close>

definition to_int32 :: "int \<Rightarrow> int" where
  "to_int32 x = sint (word_of_int x :: u32)"

definition to_long :: "u64 \<Rightarrow> int" where
  "to_long w = sint w"

lemma to_int32_id: "- (2 ^ 31) \<le> x \<Longrightarrow> x < 2 ^ 31 \<Longrightarrow> to_int32 x = x"
  unfolding to_int32_def by (simp add: sint_sbintrunc' signed_take_bit_int_eq_self)

text \<open>The values of \<open>errno\<close> that the program sets or tests.\<close>

datatype errno =
    EINVAL | ENOMEM | ENOENT | ENOTCONN | EISCONN | ETIMEDOUT | EBADE | ENOTRECOVERABLE
  | EEXIST | EBUSY | EPERM | EFBIG | ENOKEY | EACCES | ENOTTY | EIO | ENOTEMPTY | ECANCELED
  | ENOSYS | ENAMETOOLONG | ERANGE | ENOTDIR | Errno_0

section \<open>The allocator\<close>

text \<open>
  \<open>malloc\<close> may fail. \<open>Ample\<close> is an allocator that never does, \<open>Budget n\<close> one whose
  next \<open>n\<close> calls succeed and whose later calls return \<open>NULL\<close>; freed memory is not
  given back to the budget. \<open>malloc_bytes\<close> also fails on a request of more than
  \<open>PTRDIFF_MAX\<close> bytes, as the C library does.
\<close>

datatype mem = Ample | Budget nat

fun malloc :: "mem \<Rightarrow> bool \<times> mem" where
  "malloc Ample = (True, Ample)"
| "malloc (Budget 0) = (False, Budget 0)"
| "malloc (Budget (Suc n)) = (True, Budget n)"

definition malloc_bytes :: "u64 \<Rightarrow> mem \<Rightarrow> bool \<times> mem" where
  "malloc_bytes n m = (if unat n < 2 ^ 63 then malloc m else (False, m))"

section \<open>Lemma collections\<close>

named_theorems wf_intros \<open>introduction rules for well-formedness invariants\<close>
named_theorems fold_spec \<open>closed forms of operations run with ample memory\<close>

section \<open>Lists\<close>

text \<open>Removing the first element that satisfies a test, as the bucket scans do.\<close>

fun remove_first :: "('a \<Rightarrow> bool) \<Rightarrow> 'a list \<Rightarrow> 'a list" where
  "remove_first P [] = []"
| "remove_first P (x # xs) = (if P x then xs else x # remove_first P xs)"

lemma remove_first_none: "\<forall>x \<in> set xs. \<not> P x \<Longrightarrow> remove_first P xs = xs"
  by (induction xs) auto

lemma remove_first_append:
  "remove_first P (xs @ ys) =
     (if \<exists>x \<in> set xs. P x then remove_first P xs @ ys else xs @ remove_first P ys)"
  by (induction xs) auto

lemma set_remove_first_subset: "set (remove_first P xs) \<subseteq> set xs"
  by (induction xs) auto

lemma length_remove_first:
  "x \<in> set xs \<Longrightarrow> P x \<Longrightarrow> Suc (length (remove_first P xs)) = length xs"
  by (induction xs) auto

lemma mset_remove_first:
  "find P xs = Some x \<Longrightarrow> mset (remove_first P xs) = mset xs - {#x#}"
  by (induction xs) (auto split: if_splits simp: find_Some_iff)

lemma find_Some_mem: "find P xs = Some x \<Longrightarrow> x \<in> set xs \<and> P x"
  by (auto simp: find_Some_iff)

lemma mset_nth_subset_concat: "i < length xss \<Longrightarrow> mset (xss ! i) \<subseteq># mset (concat xss)"
proof (induction xss arbitrary: i)
  case (Cons xs xss)
  show ?case
  proof (cases i)
    case 0
    then show ?thesis by simp
  next
    case (Suc j)
    with Cons have "mset (xss ! j) \<subseteq># mset (concat xss)" by simp
    with Suc show ?thesis by (simp add: subset_mset.add_increasing)
  qed
qed simp

lemma mset_concat_update:
  assumes "i < length xss"
  shows "mset (concat (xss[i := ys])) = mset (concat xss) - mset (xss ! i) + mset ys"
  using assms
proof (induction xss arbitrary: i)
  case Nil
  then show ?case by simp
next
  case (Cons xs xss)
  show ?case
  proof (cases i)
    case 0
    then show ?thesis by simp
  next
    case (Suc j)
    with Cons.prems have j: "j < length xss" by simp
    have sub: "mset (xss ! j) \<subseteq># mset (concat xss)"
      using j by (rule mset_nth_subset_concat)
    then obtain R where "mset (concat xss) = mset (xss ! j) + R"
      by (auto simp: mset_subset_eq_exists_conv)
    with Suc Cons.IH [OF j] show ?thesis by (simp add: add.left_commute add.commute)
  qed
qed

section \<open>Sums over the entries of a container\<close>

lemma sum_list_map_member_le:
  "x \<in> set xs \<Longrightarrow> f x \<le> sum_list (map f xs)" for f :: "'a \<Rightarrow> nat"
  by (induction xs) auto

lemma sum_list_remove_first:
  fixes f :: "'a \<Rightarrow> nat"
  assumes "find P xs = Some x"
  shows "sum_list (map f xs) = f x + sum_list (map f (remove_first P xs))"
  using assms by (induction xs) (auto split: if_splits)

lemma sum_list_map_update_one:
  fixes f g :: "'a \<Rightarrow> nat"
  assumes "distinct xs" "x \<in> set xs" "\<And>y. y \<in> set xs \<Longrightarrow> y \<noteq> x \<Longrightarrow> g y = f y"
  shows "sum_list (map g xs) + f x = sum_list (map f xs) + g x"
  using assms
proof (induction xs)
  case (Cons y ys)
  show ?case
  proof (cases "y = x")
    case True
    with Cons.prems have "map g ys = map f ys" by auto
    then have "sum_list (map g ys) = sum_list (map f ys)" by (rule arg_cong)
    with True show ?thesis by simp
  next
    case False
    with Cons.prems have "sum_list (map g ys) + f x = sum_list (map f ys) + g x"
      by (intro Cons.IH) auto
    moreover have "g y = f y" using False Cons.prems by auto
    ultimately show ?thesis by simp
  qed
qed simp

section \<open>Words read as naturals\<close>

lemma unat_add_no_wrap:
  "unat a + unat b < 2 ^ LENGTH('n) \<Longrightarrow> unat (a + b) = unat a + unat b" for a b :: "'n::len word"
  by (simp add: unat_word_ariths take_bit_nat_eq_self)

lemma unat_sub_no_wrap:
  "unat b \<le> unat a \<Longrightarrow> unat (a - b) = unat a - unat b" for a b :: "'n::len word"
  by (simp add: unat_sub word_le_nat_alt)

lemma unat_Suc_no_wrap:
  "Suc (unat a) < 2 ^ LENGTH('n) \<Longrightarrow> unat (a + 1) = Suc (unat a)" for a :: "'n::len word"
  using unat_add_no_wrap [of a 1] by simp

lemma unat_pred_no_wrap:
  "0 < unat a \<Longrightarrow> unat (a - 1) = unat a - 1" for a :: "'n::len word"
  using unat_sub_no_wrap [of 1 a] by simp

lemma sint_pos_unat: "unat w < 2 ^ 63 \<Longrightarrow> sint w = int (unat w)" for w :: u64
proof -
  assume a: "unat w < 2 ^ 63"
  have "int (unat w) < int (2 ^ 63)" using a by (simp only: of_nat_less_iff)
  then have "signed_take_bit 63 (int (unat w)) = int (unat w)"
    by (intro signed_take_bit_int_eq_self) (auto intro: order_trans [of _ 0])
  then show ?thesis by (simp only: sint_uint uint_nat) simp
qed

end
