(* ===== verification/Buckets.thy ===== *)
theory Buckets
  imports Prelude
begin

text \<open>
  The bucket arrays that \<open>util/hash/hashtable.c\<close> and \<open>util/hash/hashmap.c\<close> share word for
  word: initialisation, insertion and the doubling of the array. An entry \<open>e\<close> is hashed on
  \<open>kf e\<close>: the entry itself in a hash table of integers, its first component in a hash map.
  Buckets are HOL lists; \<open>Node_List\<close> shows that the linked lists of the code implement them.
\<close>

section \<open>The structure\<close>

record ('k, 'e) htab =
  nlist :: int
  nelem :: int
  lists :: "'e list list"
  hash_funct :: "'k \<Rightarrow> int \<Rightarrow> u64"

definition entries :: "('k, 'e) htab \<Rightarrow> 'e list" where
  "entries t = concat (lists t)"

text \<open>
  The position \<open>hash_funct(k, nlist) % nlist\<close>; the remainder is taken on \<open>unsigned long\<close>.
  An access outside the array of lists is undefined, and so is the remainder by 0.
\<close>

definition tab_index :: "('k, 'e) htab \<Rightarrow> 'k \<Rightarrow> nat" where
  "tab_index t k = unat (hash_funct t k (nlist t) mod word_of_int (nlist t))"

definition tab_slot :: "('k, 'e) htab \<Rightarrow> 'k \<Rightarrow> nat res" where
  "tab_slot t k =
     (if nlist t = 0 then UB
      else if tab_index t k < length (lists t) then Ok (tab_index t k) else UB)"

section \<open>Operations\<close>

text \<open>The loop that allocates the \<open>n\<close> empty lists; it stops at the first failure.\<close>

fun init_lists :: "nat \<Rightarrow> mem \<Rightarrow> 'e list list \<times> bool \<times> mem" where
  "init_lists 0 m = ([], True, m)"
| "init_lists (Suc n) m =
     (case malloc m of
        (False, m) \<Rightarrow> ([], False, m)
      | (True, m) \<Rightarrow> (case init_lists n m of (ls, ok, m) \<Rightarrow> ([] # ls, ok, m)))"

definition tab_init ::
  "int \<Rightarrow> ('k \<Rightarrow> int \<Rightarrow> u64) \<Rightarrow> mem \<Rightarrow> (errno + unit) \<times> ('k, 'e) htab option \<times> mem" where
  "tab_init n hf m =
     (case malloc m of
        (False, m) \<Rightarrow> (Inl ENOMEM, None, m)
      | (True, m) \<Rightarrow>
          (case malloc_bytes (word_of_int n * 8) m of
             (False, m) \<Rightarrow>
               (Inl ENOMEM, Some \<lparr>nlist = n, nelem = 0, lists = [], hash_funct = hf\<rparr>, m)
           | (True, m) \<Rightarrow>
               (case init_lists (nat n) m of
                  (ls, ok, m) \<Rightarrow>
                    (if ok then Inr () else Inl ENOMEM,
                     Some \<lparr>nlist = n, nelem = 0, lists = ls, hash_funct = hf\<rparr>, m))))"

definition tab_push ::
  "('e \<Rightarrow> 'k) \<Rightarrow> 'e \<Rightarrow> ('k, 'e) htab \<Rightarrow> mem \<Rightarrow> ((errno + unit) \<times> ('k, 'e) htab \<times> mem) res" where
  "tab_push kf e t m =
     rbind (tab_slot t (kf e)) (\<lambda>i.
       case malloc m of
         (False, m) \<Rightarrow> Ok (Inl ENOMEM, t, m)
       | (True, m) \<Rightarrow>
           Ok (Inr (), t\<lparr>lists := (lists t)[i := lists t ! i @ [e]], nelem := nelem t + 1\<rparr>, m))"

fun tab_copy_list ::
  "('e \<Rightarrow> 'k) \<Rightarrow> 'e list \<Rightarrow> ('k, 'e) htab \<Rightarrow> mem \<Rightarrow> ((errno + unit) \<times> ('k, 'e) htab \<times> mem) res" where
  "tab_copy_list kf [] new m = Ok (Inr (), new, m)"
| "tab_copy_list kf (e # es) new m =
     rbind (tab_push kf e new m) (\<lambda>(r, new, m).
       case r of Inl err \<Rightarrow> Ok (Inl err, new, m) | Inr _ \<Rightarrow> tab_copy_list kf es new m)"

fun tab_copy ::
  "('e \<Rightarrow> 'k) \<Rightarrow> 'e list list \<Rightarrow> ('k, 'e) htab \<Rightarrow> mem \<Rightarrow> ((errno + unit) \<times> ('k, 'e) htab \<times> mem) res" where
  "tab_copy kf [] new m = Ok (Inr (), new, m)"
| "tab_copy kf (es # ls) new m =
     rbind (tab_copy_list kf es new m) (\<lambda>(r, new, m).
       case r of Inl err \<Rightarrow> Ok (Inl err, new, m) | Inr _ \<Rightarrow> tab_copy kf ls new m)"

text \<open>
  Doubling: \<open>nlist * 2\<close> is a \<open>long\<close> passed as an \<open>int\<close>. The loop visits \<open>nlist\<close> lists; past
  the end of the array its read is undefined. On an error the old table stays.
\<close>

definition tab_expand ::
  "('e \<Rightarrow> 'k) \<Rightarrow> ('k, 'e) htab \<Rightarrow> mem \<Rightarrow> ((errno + unit) \<times> ('k, 'e) htab \<times> mem) res" where
  "tab_expand kf t m =
     (case tab_init (to_int32 (nlist t * 2)) (hash_funct t) m of
        (Inl err, _, m) \<Rightarrow> Ok (Inl err, t, m)
      | (Inr _, None, m) \<Rightarrow> UB
      | (Inr _, Some new, m) \<Rightarrow>
          rbind (tab_copy kf (take (nat (nlist t)) (lists t)) new m) (\<lambda>(r, new, m).
            case r of
              Inl err \<Rightarrow> Ok (Inl err, t, m)
            | Inr _ \<Rightarrow> if length (lists t) < nat (nlist t) then UB else Ok (Inr (), new, m)))"

definition tab_insert ::
  "('e \<Rightarrow> 'k) \<Rightarrow> ('k, 'e) htab option \<Rightarrow> 'e \<Rightarrow> mem
     \<Rightarrow> ((errno + unit) \<times> ('k, 'e) htab option \<times> mem) res" where
  "tab_insert kf tp e m =
     (case tp of None \<Rightarrow> Ok (Inl EINVAL, None, m)
      | Some t \<Rightarrow>
          rbind (if nelem t + 1 > nlist t sdiv 2 then tab_expand kf t m else Ok (Inr (), t, m))
            (\<lambda>(r, t, m). case r of
               Inl err \<Rightarrow> Ok (Inl err, Some t, m)
             | Inr _ \<Rightarrow> rbind (tab_push kf e t m) (\<lambda>(r, t, m). Ok (r, Some t, m))))"

text \<open>The scan of one bucket for a key, and the removal of what it finds.\<close>

definition tab_find :: "('e \<Rightarrow> 'k) \<Rightarrow> 'k \<Rightarrow> nat \<Rightarrow> ('k, 'e) htab \<Rightarrow> 'e option" where
  "tab_find kf k i t = find (\<lambda>e. kf e = k) (lists t ! i)"

definition tab_unlink :: "('e \<Rightarrow> 'k) \<Rightarrow> 'k \<Rightarrow> nat \<Rightarrow> ('k, 'e) htab \<Rightarrow> ('k, 'e) htab" where
  "tab_unlink kf k i t =
     t\<lparr>lists := (lists t)[i := remove_first (\<lambda>e. kf e = k) (lists t ! i)], nelem := nelem t - 1\<rparr>"

section \<open>Well-formed tables\<close>

text \<open>
  Every entry is in the bucket its hash selects, the counter counts the entries, and the size
  of the array is an \<open>int\<close> that can still be doubled or is the largest power that was reached.
\<close>

definition tab_wf :: "('e \<Rightarrow> 'k) \<Rightarrow> ('k, 'e) htab \<Rightarrow> bool" where
  "tab_wf kf t \<longleftrightarrow>
     0 < nlist t \<and> nlist t < 2 ^ 31 \<and> length (lists t) = nat (nlist t) \<and>
     nelem t = int (length (entries t)) \<and>
     (\<forall>i < length (lists t). \<forall>e \<in> set (lists t ! i). tab_index t (kf e) = i)"

definition tab_load :: "('k, 'e) htab \<Rightarrow> bool" where
  "tab_load t \<longleftrightarrow> nelem t \<le> nlist t div 2"

lemma unat_of_int_id: "0 \<le> n \<Longrightarrow> n < 2 ^ 64 \<Longrightarrow> unat (word_of_int n :: u64) = nat n"
  by (simp add: unsigned_of_int take_bit_int_eq_self)

lemma word_of_int_pos: "0 < n \<Longrightarrow> n < 2 ^ 31 \<Longrightarrow> unat (word_of_int n :: u64) = nat n"
  by (simp add: unat_of_int_id)

lemma tab_index_less:
  assumes "0 < nlist t" "nlist t < 2 ^ 31"
  shows "tab_index t k < nat (nlist t)"
  using assms by (simp add: tab_index_def unat_mod_distrib word_of_int_pos)

lemma tab_slot_wf:
  assumes "tab_wf kf t"
  shows "tab_slot t k = Ok (tab_index t k)" "tab_index t k < length (lists t)"
  using assms tab_index_less [of t k] by (auto simp: tab_wf_def tab_slot_def)

section \<open>Initialisation and insertion\<close>

lemma init_lists_Ample: "init_lists n Ample = (replicate n [], True, Ample)"
  by (induction n) auto

lemma malloc_bytes_small: "0 \<le> n \<Longrightarrow> n < 2 ^ 31 \<Longrightarrow> malloc_bytes (word_of_int n * 8) Ample = (True, Ample)"
proof -
  assume n: "0 \<le> n" "n < 2 ^ 31"
  have "unat (word_of_int (n * 8) :: u64) = nat (n * 8)"
    using n by (intro unat_of_int_id) auto
  moreover have "word_of_int n * 8 = (word_of_int (n * 8) :: u64)" by simp
  ultimately have eq: "unat (word_of_int n * 8 :: u64) = nat (n * 8)" by (simp only:)
  have "unat (word_of_int n * 8 :: u64) < 2 ^ 63" unfolding eq using n by simp
  then show ?thesis unfolding malloc_bytes_def by (simp only: if_True malloc.simps)
qed

lemma tab_init_Ample:
  assumes "0 \<le> n" "n < 2 ^ 31"
  shows "tab_init n hf Ample =
    (Inr (), Some \<lparr>nlist = n, nelem = 0, lists = replicate (nat n) [], hash_funct = hf\<rparr>, Ample)"
  using assms by (simp add: tab_init_def malloc_bytes_small init_lists_Ample)

lemma entries_replicate [simp]: "concat (replicate n []) = []"
  by (induction n) auto

lemma tab_init_wf:
  assumes "0 < n" "n < 2 ^ 31"
  shows "tab_wf kf \<lparr>nlist = n, nelem = 0, lists = replicate (nat n) [], hash_funct = hf\<rparr>"
  using assms by (auto simp: tab_wf_def entries_def)

text \<open>The table after one push with memory available.\<close>

definition tab_add :: "('e \<Rightarrow> 'k) \<Rightarrow> 'e \<Rightarrow> ('k, 'e) htab \<Rightarrow> ('k, 'e) htab" where
  "tab_add kf e t =
     (let i = tab_index t (kf e)
      in t\<lparr>lists := (lists t)[i := lists t ! i @ [e]], nelem := nelem t + 1\<rparr>)"

lemma tab_add_fields [simp]:
  "nlist (tab_add kf e t) = nlist t" "hash_funct (tab_add kf e t) = hash_funct t"
  "length (lists (tab_add kf e t)) = length (lists t)" "nelem (tab_add kf e t) = nelem t + 1"
  by (simp_all add: tab_add_def Let_def)

lemma tab_index_add [simp]: "tab_index (tab_add kf e t) k = tab_index t k"
  by (simp add: tab_index_def)

lemma tab_push_Ample: "tab_wf kf t \<Longrightarrow> tab_push kf e t Ample = Ok (Inr (), tab_add kf e t, Ample)"
  by (simp add: tab_push_def tab_slot_wf tab_add_def Let_def)

lemma tab_add_entries:
  assumes "tab_wf kf t"
  shows "mset (entries (tab_add kf e t)) = add_mset e (mset (entries t))"
proof -
  let ?i = "tab_index t (kf e)"
  have i: "?i < length (lists t)" by (rule tab_slot_wf [OF assms])
  obtain R where "mset (concat (lists t)) = mset (lists t ! ?i) + R"
    using mset_nth_subset_concat [OF i] by (auto simp: mset_subset_eq_exists_conv)
  then show ?thesis
    using mset_concat_update [OF i, of "lists t ! ?i @ [e]"]
    by (simp add: entries_def tab_add_def Let_def)
qed

lemma tab_add_wf:
  assumes "tab_wf kf t"
  shows "tab_wf kf (tab_add kf e t)"
proof -
  have "length (entries (tab_add kf e t)) = Suc (length (entries t))"
    using arg_cong [OF tab_add_entries [OF assms], of size] by simp
  moreover have "tab_index t (kf x) = i"
    if "i < length (lists t)" "x \<in> set (lists (tab_add kf e t) ! i)" for i x
    using that assms tab_slot_wf [OF assms, of "kf e"]
    by (auto simp: tab_wf_def tab_add_def Let_def nth_list_update split: if_splits)
  ultimately show ?thesis using assms by (auto simp: tab_wf_def)
qed

lemma tab_copy_list_Ample:
  "tab_wf kf t \<Longrightarrow> \<exists>t'. tab_copy_list kf es t Ample = Ok (Inr (), t', Ample) \<and> tab_wf kf t' \<and>
     nlist t' = nlist t \<and> hash_funct t' = hash_funct t \<and>
     mset (entries t') = mset (entries t) + mset es"
proof (induction es arbitrary: t)
  case (Cons e es)
  from Cons.IH [OF tab_add_wf [OF Cons.prems, of e]]
  show ?case using Cons.prems by (auto simp: tab_push_Ample tab_add_entries)
qed simp

lemma tab_copy_Ample:
  "tab_wf kf t \<Longrightarrow> \<exists>t'. tab_copy kf ls t Ample = Ok (Inr (), t', Ample) \<and> tab_wf kf t' \<and>
     nlist t' = nlist t \<and> hash_funct t' = hash_funct t \<and>
     mset (entries t') = mset (entries t) + mset (concat ls)"
proof (induction ls arbitrary: t)
  case (Cons es ls)
  from tab_copy_list_Ample [OF Cons.prems, of es] obtain t1 where
    "tab_copy_list kf es t Ample = Ok (Inr (), t1, Ample)" "tab_wf kf t1" "nlist t1 = nlist t"
    "hash_funct t1 = hash_funct t" "mset (entries t1) = mset (entries t) + mset es" by blast
  with Cons.IH [of t1] show ?case by auto
qed simp

lemma tab_expand_Ample:
  assumes wf: "tab_wf kf t" and small: "nlist t < 2 ^ 30"
  shows "\<exists>t'. tab_expand kf t Ample = Ok (Inr (), t', Ample) \<and> tab_wf kf t' \<and>
           nlist t' = 2 * nlist t \<and> hash_funct t' = hash_funct t \<and>
           mset (entries t') = mset (entries t)"
proof -
  let ?n = "nlist t * 2"
  have n: "0 < ?n" "?n < 2 ^ 31" using wf small by (auto simp: tab_wf_def)
  then have "to_int32 ?n = ?n" by (intro to_int32_id) auto
  let ?new = "\<lparr>nlist = ?n, nelem = 0, lists = replicate (nat ?n) [], hash_funct = hash_funct t\<rparr>"
  have init: "tab_init (to_int32 ?n) (hash_funct t) Ample = (Inr (), Some ?new, Ample)"
    using n \<open>to_int32 ?n = ?n\<close> by (simp add: tab_init_Ample)
  have len: "length (lists t) = nat (nlist t)" using wf by (simp add: tab_wf_def)
  from tab_copy_Ample [OF tab_init_wf [OF n], of kf "lists t" "hash_funct t"] obtain t' where
    "tab_copy kf (lists t) ?new Ample = Ok (Inr (), t', Ample)" "tab_wf kf t'" "nlist t' = ?n"
    "hash_funct t' = hash_funct t" "mset (entries t') = mset (entries t)"
    by (auto simp: entries_def)
  moreover have "tab_expand kf t Ample = Ok (Inr (), t', Ample)"
    unfolding tab_expand_def init using calculation len by simp
  ultimately show ?thesis by auto
qed

lemma sdiv_2_nonneg: "0 \<le> n \<Longrightarrow> n sdiv 2 = n div (2 :: int)"
  by (simp add: signed_divide_int_def sgn_if)

text \<open>
  Insertion with memory available: it succeeds, keeps the invariant and the load bound, and
  adds exactly the new entry. The array doubles only when it has to.
\<close>

lemma tab_insert_Ample:
  assumes wf: "tab_wf kf t" and load: "tab_load t" and small: "nlist t < 2 ^ 30"
  shows "\<exists>t'. tab_insert kf (Some t) e Ample = Ok (Inr (), Some t', Ample) \<and> tab_wf kf t' \<and>
           tab_load t' \<and> hash_funct t' = hash_funct t \<and>
           mset (entries t') = add_mset e (mset (entries t)) \<and>
           nlist t' = (if nelem t + 1 > nlist t div 2 then 2 * nlist t else nlist t)"
proof (cases "nelem t + 1 > nlist t div 2")
  case True
  from tab_expand_Ample [OF wf small] obtain t1 where t1: "tab_expand kf t Ample = Ok (Inr (), t1, Ample)"
    "tab_wf kf t1" "nlist t1 = 2 * nlist t" "hash_funct t1 = hash_funct t"
    "mset (entries t1) = mset (entries t)" by blast
  have "nelem t1 = nelem t"
    using t1 wf mset_eq_length [OF t1(5)] by (simp add: tab_wf_def)
  moreover have "0 < nlist t" using wf by (simp add: tab_wf_def)
  ultimately have "tab_load (tab_add kf e t1)"
    using load t1 by (simp add: tab_load_def)
  moreover have "nlist t sdiv 2 = nlist t div 2" using \<open>0 < nlist t\<close> by (simp add: sdiv_2_nonneg)
  ultimately show ?thesis
    using True t1 tab_add_wf [OF t1(2), of e] by (simp add: tab_insert_def tab_push_Ample tab_add_entries)
next
  case False
  moreover have "tab_load (tab_add kf e t)" using False by (simp add: tab_load_def)
  moreover have "nlist t sdiv 2 = nlist t div 2" using wf by (simp add: sdiv_2_nonneg tab_wf_def)
  ultimately show ?thesis
    using wf tab_add_wf [OF wf, of e] by (simp add: tab_insert_def tab_push_Ample tab_add_entries)
qed

section \<open>Lookup and removal\<close>

lemma tab_find_spec:
  assumes "tab_wf kf t"
  shows "case tab_find kf k (tab_index t k) t of
           None \<Rightarrow> \<forall>e \<in> set (entries t). kf e \<noteq> k
         | Some e \<Rightarrow> e \<in> set (entries t) \<and> kf e = k"
proof (cases "tab_find kf k (tab_index t k) t")
  case None
  have "kf e \<noteq> k" if "e \<in> set (entries t)" for e
  proof
    assume k: "kf e = k"
    from that obtain b where "b \<in> set (lists t)" "e \<in> set b" by (auto simp: entries_def)
    then obtain i where i: "i < length (lists t)" "e \<in> set (lists t ! i)"
      by (auto simp: in_set_conv_nth [of b])
    with assms have "tab_index t (kf e) = i" by (auto simp: tab_wf_def)
    with None k i show False by (auto simp: tab_find_def find_None_iff)
  qed
  with None show ?thesis by simp
next
  case (Some e)
  with tab_slot_wf [OF assms, of k] have "e \<in> set (lists t ! tab_index t k)" "kf e = k"
    "lists t ! tab_index t k \<in> set (lists t)"
    by (auto simp: tab_find_def dest: find_Some_mem)
  with Some show ?thesis by (auto simp: entries_def)
qed

lemma tab_unlink_fields [simp]:
  "nlist (tab_unlink kf k i t) = nlist t" "hash_funct (tab_unlink kf k i t) = hash_funct t"
  "length (lists (tab_unlink kf k i t)) = length (lists t)"
  "nelem (tab_unlink kf k i t) = nelem t - 1"
  by (simp_all add: tab_unlink_def)

lemma tab_index_unlink [simp]: "tab_index (tab_unlink kf k' i t) k = tab_index t k"
  by (simp add: tab_index_def)

lemma tab_unlink_entries:
  assumes "tab_find kf k i t = Some e" "i < length (lists t)"
  shows "mset (entries t) = add_mset e (mset (entries (tab_unlink kf k i t)))"
proof -
  let ?b = "lists t ! i"
  obtain R where R: "mset (concat (lists t)) = mset ?b + R"
    using mset_nth_subset_concat [OF assms(2)] by (auto simp: mset_subset_eq_exists_conv)
  have f: "find (\<lambda>e. kf e = k) ?b = Some e" using assms by (simp add: tab_find_def)
  then have m: "mset (remove_first (\<lambda>e. kf e = k) ?b) = mset ?b - {#e#}" and "e \<in># mset ?b"
    by (auto simp: mset_remove_first dest: find_Some_mem)
  then show ?thesis
    using R mset_concat_update [OF assms(2), of "remove_first (\<lambda>e. kf e = k) ?b"]
    by (simp add: entries_def tab_unlink_def multiset_add_sub_el_shuffle)
qed

lemma tab_unlink_wf:
  assumes wf: "tab_wf kf t" and f: "tab_find kf k i t = Some e" and i: "i < length (lists t)"
  shows "tab_wf kf (tab_unlink kf k i t)"
proof -
  have "length (entries t) = Suc (length (entries (tab_unlink kf k i t)))"
    using arg_cong [OF tab_unlink_entries [OF f i], of size] by simp
  moreover have "tab_index t (kf x) = j"
    if "j < length (lists t)" "x \<in> set (lists (tab_unlink kf k i t) ! j)" for j x
    using that wf i set_remove_first_subset
    by (fastforce simp: tab_wf_def tab_unlink_def nth_list_update split: if_splits)
  ultimately show ?thesis using wf by (auto simp: tab_wf_def)
qed

lemma tab_unlink_load: "tab_load t \<Longrightarrow> tab_load (tab_unlink kf k i t)"
  by (simp add: tab_load_def)

section \<open>The container contract\<close>

text \<open>
  What the server relies on: a container holds a bag of entries, insertion adds one, lookup
  finds an entry with the given key if there is one, removal takes one such entry out. When
  keys are not duplicated this is a finite map, \<open>bag_map\<close>.
\<close>

definition bag_map :: "('e \<Rightarrow> 'k) \<Rightarrow> 'e multiset \<Rightarrow> ('k \<Rightarrow> 'e option) \<Rightarrow> bool" where
  "bag_map kf B M \<longleftrightarrow> (\<forall>k e. M k = Some e \<longleftrightarrow> e \<in># B \<and> kf e = k) \<and> (\<forall>e. count B e \<le> 1)"

lemma bag_map_lookup: "bag_map kf B M \<Longrightarrow> M k = Some e \<longleftrightarrow> e \<in># B \<and> kf e = k"
  by (simp add: bag_map_def)

lemma bag_map_member: "bag_map kf B M \<Longrightarrow> e \<in># B \<Longrightarrow> M (kf e) = Some e"
  by (simp add: bag_map_def)

lemma bag_map_add:
  assumes "bag_map kf B M" "M (kf e) = None"
  shows "bag_map kf (add_mset e B) (M(kf e \<mapsto> e))"
proof -
  have "e \<notin># B" using assms bag_map_member [OF assms(1), of e] by auto
  then have "count B e = 0" by (simp add: not_in_iff)
  moreover have "kf x \<noteq> kf e" if "x \<in># B" for x
    using assms bag_map_member [OF assms(1) that] by auto
  ultimately show ?thesis using assms by (auto simp: bag_map_def)
qed

lemma bag_map_remove:
  assumes "bag_map kf (add_mset e B) M"
  shows "bag_map kf B (M(kf e := None))"
proof -
  have "count (add_mset e B) e \<le> 1" using assms unfolding bag_map_def by blast
  then have "count B e = 0" by simp
  then have "e \<notin># B" by (simp add: count_eq_zero_iff)
  moreover have M: "M k = Some x \<longleftrightarrow> x \<in># add_mset e B \<and> kf x = k" for k x
    using assms by (simp add: bag_map_def)
  moreover have "x = e" if "x \<in># B" "kf x = kf e" for x
    using M [of "kf e" x] M [of "kf e" e] that by auto
  moreover have "count B x \<le> 1" for x
  proof -
    have "count (add_mset e B) x \<le> 1" using assms unfolding bag_map_def by blast
    then show ?thesis by (simp split: if_splits)
  qed
  ultimately show ?thesis by (auto simp: bag_map_def)
qed

locale keyed_bag =
  fixes inv :: "'t \<Rightarrow> bool"
    and room :: "'t \<Rightarrow> bool"
    and bag :: "'t \<Rightarrow> 'e multiset"
    and kf :: "'e \<Rightarrow> 'k"
    and ins :: "'e \<Rightarrow> 't \<Rightarrow> ((errno + unit) \<times> 't) res"
    and look :: "'k \<Rightarrow> 't \<Rightarrow> 'e option res"
    and del :: "'k \<Rightarrow> 't \<Rightarrow> ('e option \<times> 't) res"
  assumes ins_bag: "inv t \<Longrightarrow> room t \<Longrightarrow>
      \<exists>t'. ins e t = Ok (Inr (), t') \<and> inv t' \<and> bag t' = add_mset e (bag t)"
    and look_bag: "inv t \<Longrightarrow> \<exists>r. look k t = Ok r \<and>
      (case r of None \<Rightarrow> \<forall>e. e \<in># bag t \<longrightarrow> kf e \<noteq> k | Some e \<Rightarrow> e \<in># bag t \<and> kf e = k)"
    and del_bag: "inv t \<Longrightarrow> \<exists>r t'. del k t = Ok (r, t') \<and> inv t' \<and>
      (case r of None \<Rightarrow> (\<forall>e. e \<in># bag t \<longrightarrow> kf e \<noteq> k) \<and> t' = t
       | Some e \<Rightarrow> kf e = k \<and> bag t = add_mset e (bag t'))"
begin

lemma look_map:
  assumes "inv t" "bag_map kf (bag t) M"
  shows "look k t = Ok (M k)"
proof -
  from look_bag [OF assms(1), of k] obtain r where r: "look k t = Ok r"
    "case r of None \<Rightarrow> \<forall>e. e \<in># bag t \<longrightarrow> kf e \<noteq> k | Some e \<Rightarrow> e \<in># bag t \<and> kf e = k" by blast
  then have "M k = r"
    using bag_map_lookup [OF assms(2), of k] by (cases r; cases "M k") auto
  with r show ?thesis by simp
qed

lemma ins_map:
  assumes "inv t" "room t" "bag_map kf (bag t) M" "M (kf e) = None"
  shows "\<exists>t'. ins e t = Ok (Inr (), t') \<and> inv t' \<and> bag t' = add_mset e (bag t) \<and>
           bag_map kf (bag t') (M(kf e \<mapsto> e))"
  using ins_bag [OF assms(1,2), of e] bag_map_add [OF assms(3,4)] by auto

lemma del_map:
  assumes "inv t" "bag_map kf (bag t) M"
  shows "\<exists>t'. del k t = Ok (M k, t') \<and> inv t' \<and> bag_map kf (bag t') (M(k := None)) \<and>
           (case M k of None \<Rightarrow> t' = t | Some e \<Rightarrow> bag t = add_mset e (bag t'))"
proof -
  from del_bag [OF assms(1), of k] obtain r t' where r: "del k t = Ok (r, t')" "inv t'"
    "case r of None \<Rightarrow> (\<forall>e. e \<in># bag t \<longrightarrow> kf e \<noteq> k) \<and> t' = t
       | Some e \<Rightarrow> kf e = k \<and> bag t = add_mset e (bag t')" by blast
  show ?thesis
  proof (cases r)
    case None
    with r bag_map_lookup [OF assms(2), of k] have "M k = None" by (cases "M k") auto
    moreover from this have "M(k := None) = M" by auto
    ultimately show ?thesis using None r assms(2) by auto
  next
    case (Some e)
    with r have "M k = Some e" by (simp add: bag_map_lookup [OF assms(2)])
    moreover have "bag_map kf (bag t') (M(kf e := None))"
      using assms(2) r Some by (auto intro: bag_map_remove)
    ultimately show ?thesis using Some r by auto
  qed
qed

end

end
