(* ===== verification/Hashtable.thy ===== *)
theory Hashtable
  imports Buckets
begin

text \<open>
  \<open>util/hash/hashtable.c\<close>: the hash table of \<open>long\<close> values, used for the clients that opened a
  file (\<open>fd_open\<close>) and for the connected clients.
\<close>

section \<open>Operations\<close>

type_synonym hashtbl = "(int, int) htab"

text \<open>\<open>val % nlist\<close> on \<open>long\<close> truncates towards zero; the result is converted to \<open>unsigned long\<close>.\<close>

definition default_hashtbl_hash :: "int \<Rightarrow> int \<Rightarrow> u64" where
  "default_hashtbl_hash v n = word_of_int (v smod n)"

definition hashtbl_init ::
  "int \<Rightarrow> (int \<Rightarrow> int \<Rightarrow> u64) \<Rightarrow> mem \<Rightarrow> (errno + unit) \<times> hashtbl option \<times> mem" where
  "hashtbl_init n hf m = tab_init n hf m"

definition hashtbl_expand :: "hashtbl \<Rightarrow> mem \<Rightarrow> ((errno + unit) \<times> hashtbl \<times> mem) res" where
  "hashtbl_expand t m = tab_expand id t m"

definition hashtbl_insert ::
  "hashtbl option \<Rightarrow> int \<Rightarrow> mem \<Rightarrow> ((errno + unit) \<times> hashtbl option \<times> mem) res" where
  "hashtbl_insert tp item m = tab_insert id tp item m"

definition hashtbl_contains :: "hashtbl option \<Rightarrow> int \<Rightarrow> bool res" where
  "hashtbl_contains tp item =
     (case tp of None \<Rightarrow> Ok False
      | Some t \<Rightarrow> rbind (tab_slot t item) (\<lambda>i. Ok (tab_find id item i t \<noteq> None)))"

text \<open>
  Removal uses the hash itself as the position, as a \<open>long\<close>, without the remainder that insertion
  and lookup take. \<open>Inr True\<close> is the return value 0 (removed), \<open>Inr False\<close> is 1 (not found).
\<close>

definition hashtbl_remove ::
  "hashtbl option \<Rightarrow> int \<Rightarrow> ((errno + bool) \<times> hashtbl option) res" where
  "hashtbl_remove tp item =
     (case tp of None \<Rightarrow> Ok (Inl EINVAL, None)
      | Some t \<Rightarrow>
          (let h = to_long (hash_funct t item (nlist t))
           in if h < 0 \<or> int (length (lists t)) \<le> h then UB
              else case tab_find id item (nat h) t of
                     None \<Rightarrow> Ok (Inr False, Some t)
                   | Some _ \<Rightarrow> Ok (Inr True, Some (tab_unlink id item (nat h) t))))"

text \<open>Freeing a table frees the nodes of every list, in order; the caller's pointer is not reset.\<close>

definition hashtbl_free :: "hashtbl option \<Rightarrow> int list" where
  "hashtbl_free tp = (case tp of None \<Rightarrow> [] | Some t \<Rightarrow> concat (lists t))"

section \<open>Tables of file descriptors\<close>

text \<open>
  A table made with the default hash function, as all tables of the program are.
\<close>

definition tbl_wf :: "hashtbl \<Rightarrow> bool" where
  "tbl_wf t \<longleftrightarrow> tab_wf id t \<and> tab_load t \<and> hash_funct t = default_hashtbl_hash \<and>
     (\<forall>x \<in> set (entries t). 0 \<le> x)"

definition items :: "hashtbl \<Rightarrow> int multiset" where
  "items t = mset (entries t)"

lemma default_hash_nonneg:
  assumes "0 \<le> v" "0 < n" "n < 2 ^ 31"
  shows "to_long (default_hashtbl_hash v n) = v mod n"
    "unat (default_hashtbl_hash v n mod word_of_int n) = nat (v mod n)"
proof -
  have sm: "v smod n = v mod n" using assms by (simp add: smod_int_alt_def sgn_if)
  have b: "0 \<le> v mod n" "v mod n < n" using assms by auto
  have u: "unat (default_hashtbl_hash v n) = nat (v mod n)"
    unfolding default_hashtbl_hash_def sm using b less_trans [OF b(2) assms(3)]
    by (intro unat_of_int_id) (auto intro: less_trans [of _ "2 ^ 31"])
  have "v mod n < 2 ^ 31" by (rule less_trans [OF b(2) assms(3)])
  with u assms have "unat (default_hashtbl_hash v n) < 2 ^ 63" by (simp add: nat_less_iff)
  then show "to_long (default_hashtbl_hash v n) = v mod n"
    using u b by (simp add: to_long_def sint_pos_unat)
  show "unat (default_hashtbl_hash v n mod word_of_int n) = nat (v mod n)"
    using u b assms by (simp add: unat_mod_distrib word_of_int_pos)
qed

lemma tbl_remove_slot:
  assumes "tbl_wf t" "0 \<le> x"
  shows "to_long (hash_funct t x (nlist t)) = int (tab_index t x)"
  using assms default_hash_nonneg [of x "nlist t"]
  by (auto simp: tbl_wf_def tab_wf_def tab_index_def)

lemma tbl_wf_fields:
  assumes "tbl_wf t"
  shows "tab_wf id t" "tab_load t" "hash_funct t = default_hashtbl_hash"
    "length (lists t) = nat (nlist t)" "0 < nlist t"
  using assms by (auto simp: tbl_wf_def tab_wf_def)

lemma hashtbl_init_Ample:
  assumes "0 < n" "n < 2 ^ 31"
  shows "\<exists>t. hashtbl_init n default_hashtbl_hash Ample = (Inr (), Some t, Ample) \<and>
           tbl_wf t \<and> items t = {#} \<and> nlist t = n"
  using tab_init_Ample [of n default_hashtbl_hash] tab_init_wf [OF assms, of id default_hashtbl_hash] assms
  by (auto simp: hashtbl_init_def tbl_wf_def tab_load_def items_def entries_def)

lemma hashtbl_insert_Ample:
  assumes "tbl_wf t" "nlist t < 2 ^ 30" "0 \<le> x"
  shows "\<exists>t'. hashtbl_insert (Some t) x Ample = Ok (Inr (), Some t', Ample) \<and> tbl_wf t' \<and>
           items t' = add_mset x (items t) \<and>
           nlist t' = (if nelem t + 1 > nlist t div 2 then 2 * nlist t else nlist t)"
proof -
  from tab_insert_Ample [of id t x] assms obtain t' where
    t': "tab_insert id (Some t) x Ample = Ok (Inr (), Some t', Ample)" "tab_wf id t'" "tab_load t'"
      "hash_funct t' = hash_funct t" "mset (entries t') = add_mset x (mset (entries t))"
      "nlist t' = (if nelem t + 1 > nlist t div 2 then 2 * nlist t else nlist t)"
    by (auto simp: tbl_wf_def)
  have "set (entries t') = insert x (set (entries t))"
    using arg_cong [OF t'(5), of set_mset] by simp
  with t' assms show ?thesis
    by (auto simp: hashtbl_insert_def tbl_wf_def items_def)
qed

lemma hashtbl_contains_items:
  assumes "tbl_wf t"
  shows "hashtbl_contains (Some t) x = Ok (x \<in># items t)"
proof -
  have wf: "tab_wf id t" using assms by (simp add: tbl_wf_def)
  from tab_find_spec [OF wf, of x] show ?thesis
    by (auto simp: hashtbl_contains_def tab_slot_wf [OF wf] items_def split: option.splits)
qed

lemma hashtbl_remove_items:
  assumes "tbl_wf t" "0 \<le> x"
  shows "\<exists>t'. hashtbl_remove (Some t) x = Ok (Inr (x \<in># items t), Some t') \<and> tbl_wf t' \<and>
           items t' = items t - {#x#} \<and> nlist t' = nlist t"
proof -
  let ?i = "tab_index t x"
  have wf: "tab_wf id t" using assms by (simp add: tbl_wf_def)
  have i: "?i < length (lists t)" by (rule tab_slot_wf [OF wf])
  have slot: "to_long (hash_funct t x (nlist t)) = int ?i" by (rule tbl_remove_slot [OF assms])
  show ?thesis
  proof (cases "tab_find id x ?i t")
    case None
    with tab_find_spec [OF wf, of x] have "x \<notin># items t" by (auto simp: items_def)
    with None i slot assms show ?thesis
      by (simp add: hashtbl_remove_def Let_def diff_single_trivial)
  next
    case (Some y)
    with tab_find_spec [OF wf, of x] have "y = x" "x \<in># items t" by (auto simp: items_def)
    moreover have e: "mset (entries t) = add_mset y (mset (entries (tab_unlink id x ?i t)))"
      by (rule tab_unlink_entries [OF Some i])
    moreover have "set (entries (tab_unlink id x ?i t)) \<subseteq> set (entries t)"
      using arg_cong [OF e, of set_mset] by auto
    ultimately show ?thesis
      using Some i slot assms tab_unlink_wf [OF wf Some i]
      by (auto simp: hashtbl_remove_def Let_def tbl_wf_def items_def intro!: tab_unlink_load)
  qed
qed

section \<open>The contract holds\<close>

text \<open>Descriptors as naturals: entries are their own keys.\<close>

definition tbl_ins :: "nat \<Rightarrow> hashtbl \<Rightarrow> ((errno + unit) \<times> hashtbl) res" where
  "tbl_ins x t = rbind (hashtbl_insert (Some t) (int x) Ample) (\<lambda>(r, t, m).
     case t of None \<Rightarrow> UB | Some t \<Rightarrow> Ok (r, t))"

definition tbl_look :: "nat \<Rightarrow> hashtbl \<Rightarrow> nat option res" where
  "tbl_look x t = rbind (hashtbl_contains (Some t) (int x)) (\<lambda>b. Ok (if b then Some x else None))"

definition tbl_del :: "nat \<Rightarrow> hashtbl \<Rightarrow> (nat option \<times> hashtbl) res" where
  "tbl_del x t = rbind (hashtbl_remove (Some t) (int x)) (\<lambda>(r, t). case t of None \<Rightarrow> UB
     | Some t \<Rightarrow> Ok (if r = Inr True then Some x else None, t))"

definition fds :: "hashtbl \<Rightarrow> nat multiset" where
  "fds t = image_mset nat (items t)"

lemma fds_items: "tbl_wf t \<Longrightarrow> x \<in># fds t \<longleftrightarrow> int x \<in># items t"
  by (force simp: fds_def tbl_wf_def items_def)

interpretation tbl: keyed_bag tbl_wf "\<lambda>t. nlist t < 2 ^ 30" fds id tbl_ins tbl_look tbl_del
proof
  fix t x
  assume "tbl_wf t" "nlist t < 2 ^ 30"
  with hashtbl_insert_Ample [of t "int x"]
  show "\<exists>t'. tbl_ins x t = Ok (Inr (), t') \<and> tbl_wf t' \<and> fds t' = add_mset x (fds t)"
    by (auto simp: tbl_ins_def fds_def)
next
  fix t x
  assume wf: "tbl_wf t"
  then show "\<exists>r. tbl_look x t = Ok r \<and> (case r of None \<Rightarrow> \<forall>e. e \<in># fds t \<longrightarrow> id e \<noteq> x
      | Some e \<Rightarrow> e \<in># fds t \<and> id e = x)"
    by (auto simp: tbl_look_def hashtbl_contains_items fds_items)
next
  fix t x
  assume wf: "tbl_wf t"
  from hashtbl_remove_items [OF wf, of "int x"] obtain t' where
    t': "hashtbl_remove (Some t) (int x) = Ok (Inr (int x \<in># items t), Some t')" "tbl_wf t'"
      "items t' = items t - {#int x#}" by auto
  have same: "t' = t" if "int x \<notin># items t"
    using t'(1) that by (auto simp: hashtbl_remove_def Let_def split: if_splits option.splits)
  have "fds t = add_mset x (fds t')" if "int x \<in># items t"
    using that t'(3) insert_DiffM [OF that] by (metis fds_def image_mset_add_mset nat_int)
  with t' same wf show "\<exists>r t'. tbl_del x t = Ok (r, t') \<and> tbl_wf t' \<and>
      (case r of None \<Rightarrow> (\<forall>e. e \<in># fds t \<longrightarrow> id e \<noteq> x) \<and> t' = t
       | Some e \<Rightarrow> id e = x \<and> fds t = add_mset e (fds t'))"
    by (auto simp: tbl_del_def fds_items)
qed

text \<open>
  A negative value shows that removal and lookup disagree on the bucket: it can be inserted and
  found, but its removal reads outside the array. The program only stores file descriptors.
\<close>

lemma hashtbl_remove_negative:
  "rbind (hashtbl_insert (fst (snd (hashtbl_init 4 default_hashtbl_hash Ample))) (-3) Ample)
     (\<lambda>(r, t, m). Ok (r, hashtbl_contains t (-3), hashtbl_remove t (-3))) = Ok (Inr (), Ok True, UB)"
  by (simp add: hashtbl_init_def tab_init_def malloc_bytes_def hashtbl_insert_def tab_insert_def
      sdiv_2_nonneg tab_push_def tab_slot_def tab_index_def default_hashtbl_hash_def
      hashtbl_contains_def tab_find_def hashtbl_remove_def to_long_def smod_int_alt_def
      init_lists_Ample)

end
