(* ===== verification/Hashmap.thy ===== *)
theory Hashmap
  imports Buckets
begin

text \<open>
  \<open>util/hash/hashmap.c\<close>: the hash map from strings to pointers that holds the files of the
  server, and \<open>util/hash.c\<close>: the iterators over its entries.
\<close>

section \<open>Operations\<close>

type_synonym 'd hashmap = "(path, path \<times> 'd) htab"

text \<open>
  \<open>c\<close> is an \<open>int\<close> read from a \<open>char\<close>, which is signed: a byte above 127 is sign-extended before it
  is added.
\<close>

fun djb2 :: "u64 \<Rightarrow> byte list \<Rightarrow> u64" where
  "djb2 h [] = h"
| "djb2 h (c # str) = (if c = 0 then h else djb2 ((push_bit 5 h + h) + scast c) str)"

definition default_hashmap_hash :: "path \<Rightarrow> int \<Rightarrow> u64" where
  "default_hashmap_hash str n = djb2 5381 str"

definition hashmap_init ::
  "int \<Rightarrow> (path \<Rightarrow> int \<Rightarrow> u64) \<Rightarrow> mem \<Rightarrow> (errno + unit) \<times> 'd hashmap option \<times> mem" where
  "hashmap_init n hf m = tab_init n hf m"

definition hashmap_expand :: "'d hashmap \<Rightarrow> mem \<Rightarrow> ((errno + unit) \<times> 'd hashmap \<times> mem) res" where
  "hashmap_expand t m = tab_expand fst t m"

definition hashmap_insert ::
  "'d hashmap option \<Rightarrow> path \<Rightarrow> 'd \<Rightarrow> mem \<Rightarrow> ((errno + unit) \<times> 'd hashmap option \<times> mem) res" where
  "hashmap_insert mp k d m = tab_insert fst mp (k, d) m"

text \<open>\<open>Inr (Some kd)\<close> is the return value 0 with the removed key and data, \<open>Inr None\<close> is 1.\<close>

definition hashmap_remove ::
  "'d hashmap option \<Rightarrow> path \<Rightarrow> ((errno + (path \<times> 'd) option) \<times> 'd hashmap option) res" where
  "hashmap_remove mp k =
     (case mp of None \<Rightarrow> Ok (Inl EINVAL, None)
      | Some t \<Rightarrow>
          rbind (tab_slot t k) (\<lambda>i.
            case tab_find fst k i t of
              None \<Rightarrow> Ok (Inr None, Some t)
            | Some e \<Rightarrow> Ok (Inr (Some e), Some (tab_unlink fst k i t))))"

text \<open>The nodes that reach the node cleaner, in order; the caller's pointer becomes \<open>NULL\<close>.\<close>

definition hashmap_free :: "'d hashmap option \<Rightarrow> (path \<times> 'd) list \<times> 'd hashmap option" where
  "hashmap_free mp = ((case mp of None \<Rightarrow> [] | Some t \<Rightarrow> concat (lists t)), None)"

definition hashmap_get_by_key :: "'d hashmap option \<Rightarrow> path \<Rightarrow> (errno + 'd) res" where
  "hashmap_get_by_key mp k =
     (case mp of None \<Rightarrow> Ok (Inl EINVAL)
      | Some t \<Rightarrow>
          rbind (tab_slot t k) (\<lambda>i.
            case tab_find fst k i t of
              None \<Rightarrow> Ok (Inl ENOENT)
            | Some e \<Rightarrow> Ok (Inr (snd e))))"

definition hashmap_contains :: "'d hashmap option \<Rightarrow> path \<Rightarrow> bool res" where
  "hashmap_contains mp k =
     (case mp of None \<Rightarrow> Ok False
      | Some t \<Rightarrow> rbind (tab_slot t k) (\<lambda>i. Ok (tab_find fst k i t \<noteq> None)))"

section \<open>Iterators\<close>

text \<open>
  A position is an index into the bucket \<open>current_list\<close>; \<open>None\<close> is \<open>NULL\<close>. The two functions
  of \<open>hash.c\<close>, for tables and for maps, have the same body.
\<close>

record hash_iter =
  current_pos :: "nat option"
  current_list :: int

definition hash_iter_init :: hash_iter where
  "hash_iter_init = \<lparr>current_pos = None, current_list = -1\<rparr>"

function iter_advance :: "('k, 'e) htab \<Rightarrow> int \<Rightarrow> (nat option \<times> int) res" where
  "iter_advance t cl =
     (if cl + 1 < nlist t
      then (let cl' = cl + 1
            in if cl' < 0 \<or> int (length (lists t)) \<le> cl' then UB
               else if lists t ! nat cl' \<noteq> [] then Ok (Some 0, cl')
               else iter_advance t cl')
      else Ok (None, cl))"
  by pat_completeness auto
termination
  by (relation "measure (\<lambda>(t, cl). nat (nlist t - cl))") auto

declare iter_advance.simps [simp del]

text \<open>\<open>Inr True\<close> is the return value 0 (an entry was reached), \<open>Inr False\<close> is 1 (the end).\<close>

definition hash_iter_get_next ::
  "hash_iter \<Rightarrow> ('k, 'e) htab option \<Rightarrow> ((errno + bool) \<times> hash_iter) res" where
  "hash_iter_get_next it tp =
     (case tp of None \<Rightarrow> Ok (Inl EINVAL, it)
      | Some t \<Rightarrow>
          rbind (case current_pos it of
                   None \<Rightarrow> Ok None
                 | Some j \<Rightarrow>
                     if current_list it < 0 \<or> int (length (lists t)) \<le> current_list it then UB
                     else if Suc j < length (lists t ! nat (current_list it))
                     then Ok (Some (Suc j)) else Ok None) (\<lambda>pos.
          case pos of
            Some j \<Rightarrow> Ok (Inr True, it\<lparr>current_pos := Some j\<rparr>)
          | None \<Rightarrow>
              rbind (iter_advance t (current_list it)) (\<lambda>(pos, cl).
                case pos of
                  Some j \<Rightarrow> Ok (Inr True, \<lparr>current_pos = Some j, current_list = cl\<rparr>)
                | None \<Rightarrow> Ok (Inr False, \<lparr>current_pos = None, current_list = -2\<rparr>))))"

definition iter_entry :: "hash_iter \<Rightarrow> ('k, 'e) htab \<Rightarrow> 'e res" where
  "iter_entry it t =
     (case current_pos it of
        None \<Rightarrow> UB
      | Some j \<Rightarrow>
          if current_list it < 0 \<or> int (length (lists t)) \<le> current_list it then UB
          else if j < length (lists t ! nat (current_list it))
          then Ok (lists t ! nat (current_list it) ! j) else UB)"

text \<open>
  The loops \<open>while(... && get_next(iter, map) == 0)\<close> over a map that the body does not change.
  \<open>iter_upto n\<close> visits at most \<open>n\<close> entries, and also returns the last value of \<open>get_next\<close>,
  if it was called at all; \<open>iter_all\<close> goes on until the end.
\<close>

fun iter_upto ::
  "nat \<Rightarrow> hash_iter \<Rightarrow> (errno + bool) option \<Rightarrow> ('k, 'e) htab option
     \<Rightarrow> ('e list \<times> (errno + bool) option) res" where
  "iter_upto 0 it err tp = Ok ([], err)"
| "iter_upto (Suc n) it err tp =
     rbind (hash_iter_get_next it tp) (\<lambda>(r, it).
       if r = Inr True
       then (case tp of None \<Rightarrow> UB
             | Some t \<Rightarrow> rbind (iter_entry it t) (\<lambda>e.
                 rbind (iter_upto n it (Some r) tp) (\<lambda>(es, err). Ok (e # es, err))))
       else Ok ([], Some r))"

definition iter_all :: "('k, 'e) htab option \<Rightarrow> ('e list \<times> (errno + bool) option) res" where
  "iter_all tp =
     rbind (iter_upto (case tp of None \<Rightarrow> 1 | Some t \<Rightarrow> Suc (length (entries t))) hash_iter_init None tp)
       (\<lambda>(es, err). if err = Some (Inr True) then Stuck else Ok (es, err))"

section \<open>Iteration visits every entry once, in order\<close>

definition iter_rest :: "hash_iter \<Rightarrow> ('k, 'e) htab \<Rightarrow> 'e list" where
  "iter_rest it t =
     (case current_pos it of
        None \<Rightarrow> concat (lists t)
      | Some j \<Rightarrow> drop (Suc j) (lists t ! nat (current_list it)) @
                  concat (drop (Suc (nat (current_list it))) (lists t)))"

definition iter_ok :: "hash_iter \<Rightarrow> ('k, 'e) htab \<Rightarrow> bool" where
  "iter_ok it t \<longleftrightarrow>
     (case current_pos it of
        None \<Rightarrow> current_list it = -1
      | Some j \<Rightarrow> 0 \<le> current_list it \<and> current_list it < int (length (lists t)) \<and>
                  j < length (lists t ! nat (current_list it)))"

lemma iter_advance_spec:
  assumes "int (length (lists t)) = nlist t" "-1 \<le> cl"
  shows "case concat (drop (nat (cl + 1)) (lists t)) of
      [] \<Rightarrow> \<exists>cl'. iter_advance t cl = Ok (None, cl')
    | e # es \<Rightarrow> \<exists>cl'. iter_advance t cl = Ok (Some 0, cl') \<and> 0 \<le> cl' \<and> cl' < nlist t \<and>
        (\<exists>bs. lists t ! nat cl' = e # bs \<and> es = bs @ concat (drop (Suc (nat cl')) (lists t)))"
  using assms
proof (induction t cl rule: iter_advance.induct)
  case (1 t cl)
  show ?case
  proof (cases "cl + 1 < nlist t")
    case False
    with 1 have "drop (nat (cl + 1)) (lists t) = []" by simp
    with False show ?thesis by (simp add: iter_advance.simps [of t cl])
  next
    case True
    let ?i = "nat (cl + 1)"
    have i: "?i < length (lists t)" using True 1 by linarith
    have d: "drop ?i (lists t) = lists t ! ?i # drop (Suc ?i) (lists t)"
      using i by (simp add: Cons_nth_drop_Suc)
    have su: "nat (cl + 1 + 1) = Suc ?i" using 1 by simp
    show ?thesis
    proof (cases "lists t ! ?i")
      case Nil
      then have e1: "iter_advance t cl = iter_advance t (cl + 1)"
        using True 1 by (simp add: iter_advance.simps [of t cl] Let_def)
      have e2: "concat (drop ?i (lists t)) = concat (drop (nat (cl + 1 + 1)) (lists t))"
        using Nil d su by simp
      show ?thesis
        unfolding e1 e2 by (rule "1.IH" [OF True refl]) (use Nil True "1.prems" in auto)
    next
      case (Cons e bs)
      then have "iter_advance t cl = Ok (Some 0, cl + 1)"
        using True 1 by (simp add: iter_advance.simps [of t cl] Let_def)
      moreover have "concat (drop ?i (lists t)) = e # bs @ concat (drop (Suc ?i) (lists t))"
        using Cons d by simp
      ultimately show ?thesis using Cons True 1 by simp
    qed
  qed
qed

lemma hash_iter_next_spec:
  assumes len: "int (length (lists t)) = nlist t" and ok: "iter_ok it t"
  shows "case iter_rest it t of
      [] \<Rightarrow> \<exists>it'. hash_iter_get_next it (Some t) = Ok (Inr False, it')
    | e # es \<Rightarrow> \<exists>it'. hash_iter_get_next it (Some t) = Ok (Inr True, it') \<and> iter_ok it' t \<and>
        iter_entry it' t = Ok e \<and> iter_rest it' t = es"
proof -
  have adv: "case concat (drop (nat (current_list it + 1)) (lists t)) of
      [] \<Rightarrow> \<exists>cl'. iter_advance t (current_list it) = Ok (None, cl')
    | e # es \<Rightarrow> \<exists>cl'. iter_advance t (current_list it) = Ok (Some 0, cl') \<and> 0 \<le> cl' \<and> cl' < nlist t \<and>
        (\<exists>bs. lists t ! nat cl' = e # bs \<and> es = bs @ concat (drop (Suc (nat cl')) (lists t)))"
    using ok by (intro iter_advance_spec len) (auto simp: iter_ok_def split: option.splits)
  have fresh: ?thesis
    if rest: "iter_rest it t = concat (drop (nat (current_list it + 1)) (lists t))"
      and step: "hash_iter_get_next it (Some t) = rbind (iter_advance t (current_list it)) (\<lambda>(pos, cl).
         case pos of Some j \<Rightarrow> Ok (Inr True, \<lparr>current_pos = Some j, current_list = cl\<rparr>)
         | None \<Rightarrow> Ok (Inr False, \<lparr>current_pos = None, current_list = -2\<rparr>))"
  proof (cases "iter_rest it t")
    case Nil
    then obtain cl' where "iter_advance t (current_list it) = Ok (None, cl')"
      using adv [folded rest] by auto
    then show ?thesis unfolding Nil step by simp
  next
    case (Cons e es)
    then obtain cl' bs where "iter_advance t (current_list it) = Ok (Some 0, cl')" "0 \<le> cl'" "cl' < nlist t"
      "lists t ! nat cl' = e # bs" "es = bs @ concat (drop (Suc (nat cl')) (lists t))"
      using adv [folded rest] by auto
    then have "hash_iter_get_next it (Some t) = Ok (Inr True, \<lparr>current_pos = Some 0, current_list = cl'\<rparr>) \<and>
        iter_ok \<lparr>current_pos = Some 0, current_list = cl'\<rparr> t \<and>
        iter_entry \<lparr>current_pos = Some 0, current_list = cl'\<rparr> t = Ok e \<and>
        iter_rest \<lparr>current_pos = Some 0, current_list = cl'\<rparr> t = es"
      using len unfolding step by (simp add: iter_ok_def iter_entry_def iter_rest_def)
    then show ?thesis using Cons by auto
  qed
  show ?thesis
  proof (cases "current_pos it")
    case None
    with ok fresh show ?thesis by (simp add: iter_ok_def iter_rest_def hash_iter_get_next_def)
  next
    case (Some j)
    let ?b = "lists t ! nat (current_list it)"
    have c: "0 \<le> current_list it" "current_list it < int (length (lists t))" "j < length ?b"
      using ok Some by (auto simp: iter_ok_def)
    have su: "nat (current_list it + 1) = Suc (nat (current_list it))" using c by simp
    show ?thesis
    proof (cases "Suc j < length ?b")
      case True
      then have "iter_rest it t = ?b ! Suc j # (drop (Suc (Suc j)) ?b @
          concat (drop (Suc (nat (current_list it))) (lists t)))"
        using Some by (simp add: iter_rest_def Cons_nth_drop_Suc)
      with True Some c show ?thesis
        by (simp add: hash_iter_get_next_def iter_ok_def iter_entry_def iter_rest_def)
    next
      case False
      with Some c su fresh show ?thesis by (simp add: iter_rest_def hash_iter_get_next_def)
    qed
  qed
qed

text \<open>At most \<open>n\<close> entries are visited; the last call of \<open>get_next\<close> says whether the end was reached.\<close>

lemma iter_upto_spec:
  assumes "int (length (lists t)) = nlist t" "iter_ok it t"
  shows "iter_upto n it err (Some t) =
    Ok (take n (iter_rest it t),
        if n = 0 then err else Some (Inr (n \<le> length (iter_rest it t))))"
  using assms(2)
proof (induction n arbitrary: it err)
  case (Suc n)
  show ?case
  proof (cases "iter_rest it t")
    case Nil
    then show ?thesis using hash_iter_next_spec [OF assms(1) Suc.prems] by auto
  next
    case (Cons e es)
    then obtain it' where it': "hash_iter_get_next it (Some t) = Ok (Inr True, it')" "iter_ok it' t"
        "iter_entry it' t = Ok e" "iter_rest it' t = es"
      using hash_iter_next_spec [OF assms(1) Suc.prems] by auto
    show ?thesis using Suc.IH [OF it'(2), of "Some (Inr True)"] it' Cons by auto
  qed
qed simp

lemma iter_init_ok: "iter_ok hash_iter_init t" "iter_rest hash_iter_init t = entries t"
  by (simp_all add: iter_ok_def hash_iter_init_def iter_rest_def entries_def)

lemma iter_all_entries:
  "int (length (lists t)) = nlist t \<Longrightarrow> iter_all (Some t) = Ok (entries t, Some (Inr False))"
  using iter_upto_spec [OF _ iter_init_ok(1), of t] by (simp add: iter_all_def iter_init_ok)

section \<open>The map contract\<close>

text \<open>A map made with the default hash function, as the map of files is.\<close>

definition hm_wf :: "'d hashmap \<Rightarrow> bool" where
  "hm_wf t \<longleftrightarrow> tab_wf fst t \<and> tab_load t \<and> hash_funct t = default_hashmap_hash"

lemma hm_wf_fields:
  assumes "hm_wf t"
  shows "tab_wf fst t" "tab_load t" "int (length (lists t)) = nlist t" "0 < nlist t"
    "nelem t = int (length (entries t))"
  using assms by (auto simp: hm_wf_def tab_wf_def)

lemma hashmap_init_Ample:
  assumes "0 < n" "n < 2 ^ 31"
  shows "\<exists>t. hashmap_init n default_hashmap_hash Ample = (Inr (), Some t, Ample) \<and>
           hm_wf t \<and> entries t = [] \<and> nlist t = n"
  using tab_init_Ample [of n default_hashmap_hash] tab_init_wf [OF assms, of fst default_hashmap_hash] assms
  by (auto simp: hashmap_init_def hm_wf_def tab_load_def entries_def)

lemma hashmap_insert_Ample:
  assumes "hm_wf t" "nlist t < 2 ^ 30"
  shows "\<exists>t'. hashmap_insert (Some t) k d Ample = Ok (Inr (), Some t', Ample) \<and> hm_wf t' \<and>
           mset (entries t') = add_mset (k, d) (mset (entries t)) \<and>
           nlist t' = (if nelem t + 1 > nlist t div 2 then 2 * nlist t else nlist t)"
  using tab_insert_Ample [of fst t "(k, d)"] assms
  by (auto simp: hashmap_insert_def hm_wf_def)

lemma hashmap_remove_spec:
  assumes "hm_wf t"
  shows "\<exists>r t'. hashmap_remove (Some t) k = Ok (Inr r, Some t') \<and> hm_wf t' \<and> nlist t' = nlist t \<and>
     (case r of None \<Rightarrow> (\<forall>e \<in> set (entries t). fst e \<noteq> k) \<and> t' = t
      | Some e \<Rightarrow> fst e = k \<and> mset (entries t) = add_mset e (mset (entries t')))"
proof -
  have wf: "tab_wf fst t" using assms by (simp add: hm_wf_def)
  let ?i = "tab_index t k"
  show ?thesis
  proof (cases "tab_find fst k ?i t")
    case None
    with tab_find_spec [OF wf, of k] assms show ?thesis
      by (auto simp: hashmap_remove_def tab_slot_wf [OF wf])
  next
    case (Some e)
    have i: "?i < length (lists t)" by (rule tab_slot_wf [OF wf])
    have "fst e = k" using tab_find_spec [OF wf, of k] Some by simp
    with Some assms tab_unlink_wf [OF wf Some i] tab_unlink_entries [OF Some i]
    show ?thesis
      by (auto simp: hashmap_remove_def tab_slot_wf [OF wf] hm_wf_def intro!: tab_unlink_load)
  qed
qed

definition hm_ins :: "path \<times> 'd \<Rightarrow> 'd hashmap \<Rightarrow> ((errno + unit) \<times> 'd hashmap) res" where
  "hm_ins e t = rbind (hashmap_insert (Some t) (fst e) (snd e) Ample) (\<lambda>(r, t, m).
     case t of None \<Rightarrow> UB | Some t \<Rightarrow> Ok (r, t))"

definition hm_look :: "path \<Rightarrow> 'd hashmap \<Rightarrow> (path \<times> 'd) option res" where
  "hm_look k t = rbind (hashmap_get_by_key (Some t) k) (\<lambda>r.
     case r of Inl _ \<Rightarrow> Ok None | Inr d \<Rightarrow> Ok (Some (k, d)))"

definition hm_del :: "path \<Rightarrow> 'd hashmap \<Rightarrow> ((path \<times> 'd) option \<times> 'd hashmap) res" where
  "hm_del k t = rbind (hashmap_remove (Some t) k) (\<lambda>(r, t). case (r, t) of
       (Inr e, Some t) \<Rightarrow> Ok (e, t) | _ \<Rightarrow> UB)"

interpretation hm: keyed_bag hm_wf "\<lambda>t. nlist t < 2 ^ 30" "\<lambda>t. mset (entries t)" fst hm_ins hm_look hm_del
proof
  fix t :: "'d hashmap" and e
  assume "hm_wf t" "nlist t < 2 ^ 30"
  with hashmap_insert_Ample [of t "fst e" "snd e"]
  show "\<exists>t'. hm_ins e t = Ok (Inr (), t') \<and> hm_wf t' \<and>
      mset (entries t') = add_mset e (mset (entries t))"
    by (auto simp: hm_ins_def)
next
  fix t :: "'d hashmap" and k
  assume "hm_wf t"
  then have wf: "tab_wf fst t" by (simp add: hm_wf_def)
  from tab_find_spec [OF wf, of k]
  show "\<exists>r. hm_look k t = Ok r \<and> (case r of None \<Rightarrow> \<forall>e. e \<in># mset (entries t) \<longrightarrow> fst e \<noteq> k
      | Some e \<Rightarrow> e \<in># mset (entries t) \<and> fst e = k)"
    by (auto simp: hm_look_def hashmap_get_by_key_def tab_slot_wf [OF wf] split: option.splits)
next
  fix t :: "'d hashmap" and k
  assume "hm_wf t"
  then show "\<exists>r t'. hm_del k t = Ok (r, t') \<and> hm_wf t' \<and>
      (case r of None \<Rightarrow> (\<forall>e. e \<in># mset (entries t) \<longrightarrow> fst e \<noteq> k) \<and> t' = t
       | Some e \<Rightarrow> fst e = k \<and> mset (entries t) = add_mset e (mset (entries t')))"
    using hashmap_remove_spec [of t k] by (fastforce simp: hm_del_def split: option.splits)
qed

text \<open>The same facts for the operations as the server calls them.\<close>

lemma get_by_key_map:
  assumes "hm_wf t" "bag_map fst (mset (entries t)) M"
  shows "hashmap_get_by_key (Some t) k = Ok (case M k of None \<Rightarrow> Inl ENOENT | Some e \<Rightarrow> Inr (snd e))"
proof -
  have wf: "tab_wf fst t" using assms by (simp add: hm_wf_def)
  from hm.look_map [OF assms, of k] show ?thesis
    by (auto simp: hm_look_def hashmap_get_by_key_def tab_slot_wf [OF wf] split: option.splits)
qed

lemma contains_map:
  assumes "hm_wf t" "bag_map fst (mset (entries t)) M"
  shows "hashmap_contains (Some t) k = Ok (M k \<noteq> None)"
proof -
  have wf: "tab_wf fst t" using assms by (simp add: hm_wf_def)
  from get_by_key_map [OF assms, of k] show ?thesis
    by (cases "M k") (auto simp: hashmap_get_by_key_def hashmap_contains_def tab_slot_wf [OF wf]
        split: option.splits)
qed

lemma remove_map:
  assumes "hm_wf t" "bag_map fst (mset (entries t)) M"
  shows "\<exists>t'. hashmap_remove (Some t) k = Ok (Inr (M k), Some t') \<and> hm_wf t' \<and> nlist t' = nlist t \<and>
           bag_map fst (mset (entries t')) (M(k := None)) \<and>
           (case M k of None \<Rightarrow> t' = t | Some e \<Rightarrow> mset (entries t) = add_mset e (mset (entries t')))"
proof -
  from hashmap_remove_spec [OF assms(1), of k] obtain r t' where
    r: "hashmap_remove (Some t) k = Ok (Inr r, Some t')" "nlist t' = nlist t" by blast
  with hm.del_map [OF assms, of k] show ?thesis by (auto simp: hm_del_def)
qed

end
