(* ===== verification/Util.thy ===== *)
theory Util
  imports Prelude
begin

text \<open>
  \<open>util/util.c\<close>: the flags, \<open>str_to_long\<close>, \<open>set_timespec_from_msec\<close> and the loops \<open>readn\<close> and
  \<open>writen\<close> around the system calls. A descriptor is a script of what each \<open>read\<close> or \<open>write\<close> will
  answer; the second half replaces the scripts by byte streams, which the request handlers use.
\<close>

section \<open>Flags\<close>

definition O_NOFLAG :: u32 where "O_NOFLAG = 0"
definition O_CREATE :: u32 where "O_CREATE = 1"
definition O_LOCK :: u32 where "O_LOCK = 2"

definition is_flag_set :: "u32 \<Rightarrow> u32 \<Rightarrow> bool" where
  "is_flag_set v flag = (drop_bit (unat (flag div 2)) v AND 1 \<noteq> 0)"

lemma is_flag_set_bit: "is_flag_set v O_CREATE = bit v 0" "is_flag_set v O_LOCK = bit v 1"
  by (simp_all add: is_flag_set_def O_CREATE_def O_LOCK_def and_one_eq bit_iff_odd_drop_bit
      odd_iff_mod_2_eq_one)

section \<open>Times\<close>

datatype timespec = Timespec (tv_sec: int) (tv_nsec: int)

instantiation timespec :: linorder
begin

definition less_eq_timespec :: "timespec \<Rightarrow> timespec \<Rightarrow> bool" where
  "a \<le> b \<longleftrightarrow> tv_sec a < tv_sec b \<or> tv_sec a = tv_sec b \<and> tv_nsec a \<le> tv_nsec b"

definition less_timespec :: "timespec \<Rightarrow> timespec \<Rightarrow> bool" where
  "a < b \<longleftrightarrow> tv_sec a < tv_sec b \<or> tv_sec a = tv_sec b \<and> tv_nsec a < tv_nsec b"

instance
  by standard (auto simp: less_eq_timespec_def less_timespec_def timespec.expand)

end

text \<open>The nanosecond field is filled with \<open>msec * 1000\<close>.\<close>

definition set_timespec_from_msec :: "int \<Rightarrow> errno + timespec" where
  "set_timespec_from_msec msec =
     (if msec < 0 then Inl EINVAL
      else (let s = msec sdiv 1000; msec = msec smod 1000 in Inr (Timespec s (msec * 1000))))"

section \<open>Numbers from strings\<close>

text \<open>
  \<open>strtol(str, &e, 10)\<close> of the C library on a NUL-free string: white space, an optional sign,
  digits; the value, the rest of the string and whether the value was out of range.
\<close>

definition is_space :: "byte \<Rightarrow> bool" where
  "is_space c \<longleftrightarrow> c = 32 \<or> 9 \<le> c \<and> c \<le> 13"

definition is_digit :: "byte \<Rightarrow> bool" where
  "is_digit c \<longleftrightarrow> 48 \<le> c \<and> c \<le> 57"

fun digits_value :: "int \<Rightarrow> byte list \<Rightarrow> int" where
  "digits_value v [] = v"
| "digits_value v (c # cs) = digits_value (10 * v + int (unat c - 48)) cs"

definition long_max :: int where "long_max = 2 ^ 63 - 1"
definition long_min :: int where "long_min = - (2 ^ 63)"

definition strtol10 :: "byte list \<Rightarrow> int \<times> byte list \<times> bool" where
  "strtol10 str =
     (let s = dropWhile is_space str;
          (neg, s) = (case s of [] \<Rightarrow> (False, s)
                      | c # cs \<Rightarrow> if c = 45 then (True, cs) else if c = 43 then (False, cs) else (False, s));
          ds = takeWhile is_digit s;
          v = (if neg then - digits_value 0 ds else digits_value 0 ds)
      in if ds = [] then (0, str, False)
         else if long_max < v then (long_max, dropWhile is_digit s, True)
         else if v < long_min then (long_min, dropWhile is_digit s, True)
         else (v, dropWhile is_digit s, False))"

text \<open>The return value of \<open>str_to_long\<close> and, when it is 0, the number stored.\<close>

definition str_to_long :: "byte list option \<Rightarrow> int \<times> int option" where
  "str_to_long sp =
     (case sp of None \<Rightarrow> (-1, None)
      | Some str \<Rightarrow>
          if str = [] then (-1, None)
          else (case strtol10 str of
                  (val, e, erange) \<Rightarrow>
                    if erange then (-2, None)
                    else if e = [] then (0, Some val)
                    else (-3, None)))"

section \<open>readn and writen\<close>

text \<open>
  What a call of \<open>read\<close> answers: some bytes that are there (the call takes as many as it asked
  for, the rest stays), \<open>EINTR\<close>, another error, or the end of the file. On an empty script the
  call blocks.
\<close>

datatype rd_ev = RdData "byte list" | RdEintr | RdErr | RdEof

datatype io_end = Io_done | Io_zero | Io_err

function readn_loop :: "nat \<Rightarrow> byte list \<Rightarrow> rd_ev list \<Rightarrow> (io_end \<times> byte list \<times> rd_ev list) res" where
  "readn_loop left acc sc =
     (if left = 0 then Ok (Io_done, acc, sc)
      else case sc of
        [] \<Rightarrow> Stuck
      | RdEintr # sc' \<Rightarrow> readn_loop left acc sc'
      | RdErr # sc' \<Rightarrow> Ok (Io_err, acc, sc')
      | RdEof # _ \<Rightarrow> Ok (Io_zero, acc, sc)
      | RdData bs # sc' \<Rightarrow>
          if bs = [] then readn_loop left acc sc'
          else readn_loop (left - length bs) (acc @ take left bs)
                 (if length bs \<le> left then sc' else RdData (drop left bs) # sc'))"
  by pat_completeness auto
termination
  by (relation "measure (\<lambda>(left, acc, sc). left + length sc)") (auto simp: neq_Nil_conv)

declare readn_loop.simps [simp del]

lemma readn_loop_steps [simp]:
  "readn_loop 0 acc sc = Ok (Io_done, acc, sc)"
  "left \<noteq> 0 \<Longrightarrow> readn_loop left acc [] = Stuck"
  "left \<noteq> 0 \<Longrightarrow> readn_loop left acc (RdEintr # sc) = readn_loop left acc sc"
  "left \<noteq> 0 \<Longrightarrow> readn_loop left acc (RdErr # sc) = Ok (Io_err, acc, sc)"
  "left \<noteq> 0 \<Longrightarrow> readn_loop left acc (RdEof # sc) = Ok (Io_zero, acc, RdEof # sc)"
  "left \<noteq> 0 \<Longrightarrow> readn_loop left acc (RdData bs # sc) =
     (if bs = [] then readn_loop left acc sc
      else readn_loop (left - length bs) (acc @ take left bs)
             (if length bs \<le> left then sc else RdData (drop left bs) # sc))"
  by (simp_all add: readn_loop.simps)

text \<open>
  The value returned after a complete read is the \<open>size_t\<close> size as an \<open>int\<close>; a partial read
  before the end of the file also returns 0.
\<close>

definition readn :: "nat \<Rightarrow> rd_ev list \<Rightarrow> (int \<times> byte list \<times> rd_ev list) res" where
  "readn n sc =
     rbind (readn_loop n [] sc) (\<lambda>(r, bs, sc).
       Ok (case r of Io_done \<Rightarrow> to_int32 (int n) | Io_zero \<Rightarrow> 0 | Io_err \<Rightarrow> -1, bs, sc))"

text \<open>What a call of \<open>write\<close> answers: it accepts up to \<open>n\<close> bytes, \<open>EINTR\<close>, or an error.\<close>

datatype wr_ev = WrOk nat | WrEintr | WrErr

function writen_loop :: "byte list \<Rightarrow> byte list \<Rightarrow> wr_ev list \<Rightarrow> (io_end \<times> byte list \<times> wr_ev list) res" where
  "writen_loop buf out sc =
     (if buf = [] then Ok (Io_done, out, sc)
      else case sc of
        [] \<Rightarrow> Stuck
      | WrEintr # sc' \<Rightarrow> writen_loop buf out sc'
      | WrErr # sc' \<Rightarrow> Ok (Io_err, out, sc')
      | WrOk k # sc' \<Rightarrow>
          if k = 0 then Ok (Io_zero, out, sc')
          else writen_loop (drop k buf) (out @ take k buf)
                 (if k \<le> length buf then sc' else WrOk (k - length buf) # sc'))"
  by pat_completeness auto
termination
  by (relation "measure (\<lambda>(buf, out, sc). length buf + length sc)") (auto simp: neq_Nil_conv)

declare writen_loop.simps [simp del]

lemma writen_loop_steps [simp]:
  "writen_loop [] out sc = Ok (Io_done, out, sc)"
  "buf \<noteq> [] \<Longrightarrow> writen_loop buf out [] = Stuck"
  "buf \<noteq> [] \<Longrightarrow> writen_loop buf out (WrEintr # sc) = writen_loop buf out sc"
  "buf \<noteq> [] \<Longrightarrow> writen_loop buf out (WrErr # sc) = Ok (Io_err, out, sc)"
  "buf \<noteq> [] \<Longrightarrow> writen_loop buf out (WrOk k # sc) =
     (if k = 0 then Ok (Io_zero, out, sc)
      else writen_loop (drop k buf) (out @ take k buf)
             (if k \<le> length buf then sc else WrOk (k - length buf) # sc))"
  by (simp_all add: writen_loop.simps)

text \<open>The result, the bytes that went out, and the rest of the script.\<close>

definition writen :: "byte list \<Rightarrow> wr_ev list \<Rightarrow> (int \<times> byte list \<times> wr_ev list) res" where
  "writen buf sc =
     rbind (writen_loop buf [] sc) (\<lambda>(r, out, sc).
       Ok (case r of Io_done \<Rightarrow> 1 | Io_zero \<Rightarrow> 0 | Io_err \<Rightarrow> -1, out, sc))"

definition pipe_init :: "int \<times> int" where
  "pipe_init = (-1, -1)"

section \<open>Connections as byte streams\<close>

text \<open>
  The other end has sent \<open>rx\<close>, after which it closes, fails or stays silent; what this end
  sends is appended to \<open>sent\<close>, and after \<open>room\<close> more bytes the connection is broken
  (\<open>SIGPIPE\<close> is ignored, so \<open>write\<close> fails).
\<close>

datatype rx_end = Rx_eof | Rx_fail | Rx_wait

record conn =
  rx :: "byte list"
  rx_end :: rx_end
  sent :: "byte list"
  room :: nat

definition conn_readn :: "nat \<Rightarrow> conn \<Rightarrow> (int \<times> byte list \<times> conn) res" where
  "conn_readn n c =
     (if n \<le> length (rx c)
      then Ok (to_int32 (int n), take n (rx c), c\<lparr>rx := drop n (rx c)\<rparr>)
      else case rx_end c of
             Rx_eof \<Rightarrow> Ok (0, rx c, c\<lparr>rx := []\<rparr>)
           | Rx_fail \<Rightarrow> Ok (-1, rx c, c\<lparr>rx := []\<rparr>)
           | Rx_wait \<Rightarrow> Stuck)"

definition conn_writen :: "byte list \<Rightarrow> conn \<Rightarrow> int \<times> conn" where
  "conn_writen buf c =
     (if length buf \<le> room c
      then (1, c\<lparr>sent := sent c @ buf, room := room c - length buf\<rparr>)
      else (-1, c\<lparr>sent := sent c @ take (room c) buf, room := 0\<rparr>))"

text \<open>The stream that a script of reads stands for.\<close>

fun rd_bytes :: "rd_ev list \<Rightarrow> byte list" where
  "rd_bytes [] = []"
| "rd_bytes (RdData bs # sc) = bs @ rd_bytes sc"
| "rd_bytes (RdEintr # sc) = rd_bytes sc"
| "rd_bytes (RdErr # sc) = []"
| "rd_bytes (RdEof # sc) = []"

fun rd_end :: "rd_ev list \<Rightarrow> rx_end" where
  "rd_end [] = Rx_wait"
| "rd_end (RdData bs # sc) = rd_end sc"
| "rd_end (RdEintr # sc) = rd_end sc"
| "rd_end (RdErr # sc) = Rx_fail"
| "rd_end (RdEof # sc) = Rx_eof"

text \<open>
  However the bytes arrive in pieces and signals interrupt the calls, \<open>readn_loop\<close> delivers the
  next \<open>left\<close> bytes of the stream if they come, and otherwise reports how the stream ends.
\<close>

lemma readn_loop_stream:
  "if left \<le> length (rd_bytes sc)
   then \<exists>sc'. readn_loop left acc sc = Ok (Io_done, acc @ take left (rd_bytes sc), sc') \<and>
          rd_bytes sc' = drop left (rd_bytes sc) \<and> rd_end sc' = rd_end sc
   else case rd_end sc of
          Rx_wait \<Rightarrow> readn_loop left acc sc = Stuck
        | Rx_eof \<Rightarrow> \<exists>sc'. readn_loop left acc sc = Ok (Io_zero, acc @ rd_bytes sc, sc') \<and>
            rd_bytes sc' = [] \<and> rd_end sc' = Rx_eof
        | Rx_fail \<Rightarrow> \<exists>sc'. readn_loop left acc sc = Ok (Io_err, acc @ rd_bytes sc, sc')"
proof (induction left acc sc rule: readn_loop.induct)
  case (1 left acc sc)
  show ?case
  proof (cases "left = 0 \<or> sc = []")
    case True
    then show ?thesis by (cases "left = 0") auto
  next
    case False
    then obtain ev sc' where sc: "sc = ev # sc'" "left \<noteq> 0" by (cases sc) auto
    show ?thesis
    proof (cases ev)
      case (RdData bs)
      show ?thesis
      proof (cases "bs = []")
        case True
        with RdData sc have eq: "readn_loop left acc sc = readn_loop left acc sc'"
          "rd_bytes sc = rd_bytes sc'" "rd_end sc = rd_end sc'" by auto
        show ?thesis unfolding eq using "1.IH"(1) RdData sc True by blast
      next
        case ne: False
        let ?sc = "if length bs \<le> left then sc' else RdData (drop left bs) # sc'"
        have step: "readn_loop left acc sc = readn_loop (left - length bs) (acc @ take left bs) ?sc"
          using ne sc RdData by simp
        have IH: "if left - length bs \<le> length (rd_bytes ?sc)
           then \<exists>sc'. readn_loop (left - length bs) (acc @ take left bs) ?sc =
                  Ok (Io_done, (acc @ take left bs) @ take (left - length bs) (rd_bytes ?sc), sc') \<and>
                  rd_bytes sc' = drop (left - length bs) (rd_bytes ?sc) \<and> rd_end sc' = rd_end ?sc
           else case rd_end ?sc of
                  Rx_wait \<Rightarrow> readn_loop (left - length bs) (acc @ take left bs) ?sc = Stuck
                | Rx_eof \<Rightarrow> \<exists>sc'. readn_loop (left - length bs) (acc @ take left bs) ?sc =
                     Ok (Io_zero, (acc @ take left bs) @ rd_bytes ?sc, sc') \<and>
                     rd_bytes sc' = [] \<and> rd_end sc' = Rx_eof
                | Rx_fail \<Rightarrow> \<exists>sc'. readn_loop (left - length bs) (acc @ take left bs) ?sc =
                     Ok (Io_err, (acc @ take left bs) @ rd_bytes ?sc, sc')"
          using "1.IH"(2) sc RdData ne by blast
        show ?thesis
        proof (cases "length bs \<le> left")
          case True
          then have s: "?sc = sc'" and t: "take left bs = bs" by auto
          have b: "rd_bytes sc = bs @ rd_bytes sc'" "rd_end sc = rd_end sc'" using RdData sc by auto
          have "left \<le> length (rd_bytes sc) \<longleftrightarrow> left - length bs \<le> length (rd_bytes sc')"
            "take left (rd_bytes sc) = bs @ take (left - length bs) (rd_bytes sc')"
            "drop left (rd_bytes sc) = drop (left - length bs) (rd_bytes sc')"
            using True b by auto
          note * = this
          show ?thesis using IH unfolding step s t * b(2) unfolding b(1) append_assoc .
        next
          case False
          then have s: "?sc = RdData (drop left bs) # sc'" "left - length bs = 0" by auto
          have "left \<le> length (rd_bytes sc)" "take left (rd_bytes sc) = take left bs"
            "drop left (rd_bytes sc) = drop left bs @ rd_bytes sc'" "rd_end sc = rd_end sc'"
            using RdData sc False by auto
          then show ?thesis unfolding step s by simp
        qed
      qed
    next
      case RdEintr
      with sc have eq: "readn_loop left acc sc = readn_loop left acc sc'"
        "rd_bytes sc = rd_bytes sc'" "rd_end sc = rd_end sc'" by auto
      show ?thesis unfolding eq using "1.IH"(3) RdEintr sc by blast
    next
      case RdErr
      with sc show ?thesis by auto
    next
      case RdEof
      with sc show ?thesis by auto
    qed
  qed
qed

definition rd_view :: "rd_ev list \<Rightarrow> conn \<Rightarrow> bool" where
  "rd_view sc c \<longleftrightarrow> rd_bytes sc = rx c \<and> rd_end sc = rx_end c"

lemma readn_conn:
  assumes "rd_view sc c"
  shows "case conn_readn n c of
      Ok (l, bs, c') \<Rightarrow> \<exists>sc'. readn n sc = Ok (l, bs, sc') \<and>
         (n \<le> length (rx c) \<or> rx_end c = Rx_eof \<longrightarrow> rd_view sc' c')
    | Stuck \<Rightarrow> readn n sc = Stuck
    | _ \<Rightarrow> False"
  using readn_loop_stream [of n sc "[]"] assms
  by (auto simp: readn_def conn_readn_def rd_view_def split: if_splits rx_end.splits)

text \<open>
  The bytes that a script of writes still accepts before an error; a script that blocks or
  answers 0 has no such number.
\<close>

fun wr_room :: "wr_ev list \<Rightarrow> nat option" where
  "wr_room [] = None"
| "wr_room (WrOk k # sc) = (if k = 0 then None else map_option ((+) k) (wr_room sc))"
| "wr_room (WrEintr # sc) = wr_room sc"
| "wr_room (WrErr # sc) = Some 0"

lemma writen_loop_room:
  "wr_room sc = Some r \<Longrightarrow>
   if length buf \<le> r
   then \<exists>sc'. writen_loop buf out sc = Ok (Io_done, out @ buf, sc') \<and> wr_room sc' = Some (r - length buf)
   else \<exists>sc'. writen_loop buf out sc = Ok (Io_err, out @ take r buf, sc')"
proof (induction buf out sc arbitrary: r rule: writen_loop.induct)
  case (1 buf out sc)
  show ?case
  proof (cases "buf = []")
    case True
    with 1 show ?thesis by auto
  next
    case False
    with "1.prems" obtain ev sc' where sc: "sc = ev # sc'" by (cases sc) auto
    show ?thesis
    proof (cases ev)
      case (WrOk k)
      with sc "1.prems" obtain r' where r': "wr_room sc' = Some r'" "r = k + r'" "k \<noteq> 0"
        by (auto split: if_splits)
      let ?sc = "if k \<le> length buf then sc' else WrOk (k - length buf) # sc'"
      have step: "writen_loop buf out sc = writen_loop (drop k buf) (out @ take k buf) ?sc"
        using False sc WrOk r' by simp
      have room: "wr_room ?sc = Some (r - min k (length buf))" using r' by auto
      note IH = "1.IH"(1) [OF False sc WrOk r'(3) room]
      have enough: "length (drop k buf) \<le> r - min k (length buf) \<longleftrightarrow> length buf \<le> r"
        using r' by (simp add: min_def) linarith
      show ?thesis
      proof (cases "length buf \<le> r")
        case True
        then have "r - min k (length buf) - length (drop k buf) = r - length buf" by (simp add: min_def)
        with IH True show ?thesis unfolding step enough by auto
      next
        case f: False
        then have "take r buf = take k buf @ take (r - min k (length buf)) (drop k buf)"
          using r' by (simp add: take_add min_def)
        with IH f show ?thesis unfolding step enough by auto
      qed
    next
      case WrEintr
      with sc False 1 show ?thesis by simp
    next
      case WrErr
      with sc False "1.prems" show ?thesis by auto
    qed
  qed
qed

text \<open>\<open>writen\<close> sends the whole buffer, in whatever pieces the calls accept, or fails.\<close>

lemma writen_conn:
  assumes "wr_room sc = Some (room c)"
  shows "case conn_writen buf c of
      (l, c') \<Rightarrow> \<exists>out sc'. writen buf sc = Ok (l, out, sc') \<and> sent c' = sent c @ out \<and>
        (l = 1 \<longrightarrow> wr_room sc' = Some (room c'))"
  using writen_loop_room [OF assms, of buf "[]"]
  by (auto simp: writen_def conn_writen_def split: if_splits)

section \<open>Threads\<close>

text \<open>
  The wrappers \<open>safe_pthread_mutex_lock\<close>, \<open>safe_pthread_mutex_unlock\<close>, \<open>safe_pthread_cond_wait\<close>,
  \<open>safe_pthread_cond_signal\<close> and \<open>safe_pthread_cond_broadcast\<close>, by the result of the library function that each of them
  calls: they return only when it did not fail, which is what the models of the threads take from them.
\<close>

definition safe_pthread :: "int \<Rightarrow> unit res" where
  "safe_pthread err = (if err \<noteq> 0 then Exit else Ok ())"

section \<open>Facts about the utilities\<close>

lemma safe_pthread_returns: "safe_pthread err = Ok () \<longleftrightarrow> err = 0"
  by (simp add: safe_pthread_def)

text \<open>
  The time set by \<open>set_timespec_from_msec\<close> in nanoseconds: the milliseconds below a second count
  as microseconds.
\<close>

lemma set_timespec_value:
  assumes "0 \<le> msec"
  shows "set_timespec_from_msec msec = Inr (Timespec (msec div 1000) (msec mod 1000 * 1000))"
  using assms by (simp add: set_timespec_from_msec_def signed_divide_int_def smod_int_alt_def sgn_if)

end
