(* ===== verification/Protocol.thy ===== *)
theory Protocol
  imports Util
begin

text \<open>
  \<open>includes/server-api-protocol.h\<close> and the wire format that the server and the API share: the
  operation codes, the result codes, and the little-endian images of \<open>int\<close>, \<open>long\<close> and
  \<open>size_t\<close> that \<open>writen\<close> sends and \<open>readn\<close> stores.
\<close>

section \<open>Codes\<close>

datatype op_code_t =
    OPEN_FILE | CLOSE_FILE | READ_FILE | WRITE_FILE | APPEND_TO_FILE | READ_N_FILES
  | LOCK_FILE | UNLOCK_FILE | REMOVE_FILE

fun op_value :: "op_code_t \<Rightarrow> int" where
  "op_value OPEN_FILE = 0"
| "op_value CLOSE_FILE = 1"
| "op_value READ_FILE = 2"
| "op_value WRITE_FILE = 3"
| "op_value APPEND_TO_FILE = 4"
| "op_value READ_N_FILES = 5"
| "op_value LOCK_FILE = 6"
| "op_value UNLOCK_FILE = 7"
| "op_value REMOVE_FILE = 8"

abbreviation SA_SUCCESS :: int where "SA_SUCCESS \<equiv> 0"
abbreviation SA_ERROR :: int where "SA_ERROR \<equiv> -1"
abbreviation SA_CLOSE :: int where "SA_CLOSE \<equiv> -2"
abbreviation SA_EXISTS :: int where "SA_EXISTS \<equiv> -10"
abbreviation SA_NO_FILE :: int where "SA_NO_FILE \<equiv> -11"
abbreviation SA_ALREADY_LOCKED :: int where "SA_ALREADY_LOCKED \<equiv> -12"
abbreviation SA_NOT_LOCKED :: int where "SA_NOT_LOCKED \<equiv> -20"
abbreviation SA_NOT_EMPTY :: int where "SA_NOT_EMPTY \<equiv> -21"
abbreviation SA_TOO_BIG :: int where "SA_TOO_BIG \<equiv> -22"
abbreviation SA_NO_OPEN :: int where "SA_NO_OPEN \<equiv> -23"

section \<open>Little-endian images\<close>

fun le_bytes :: "nat \<Rightarrow> 'a::len word \<Rightarrow> byte list" where
  "le_bytes 0 w = []"
| "le_bytes (Suc n) w = ucast w # le_bytes n (drop_bit 8 w)"

fun of_le :: "byte list \<Rightarrow> 'a::len word" where
  "of_le [] = 0"
| "of_le (b # bs) = ucast b OR push_bit 8 (of_le bs)"

lemma length_le_bytes [simp]: "length (le_bytes n w) = n"
  by (induction n arbitrary: w) auto

lemma of_le_bytes: "of_le (le_bytes n w) = take_bit (8 * n) w" for w :: "'a::len word"
proof (induction n arbitrary: w)
  case (Suc n)
  have "ucast (ucast w :: byte) OR push_bit 8 (take_bit (8 * n) (drop_bit 8 w)) = take_bit (8 * Suc n) w"
    by (rule bit_word_eqI) (auto simp: bit_simps)
  then show ?case by (simp add: Suc.IH)
qed simp

definition enc_int :: "int \<Rightarrow> byte list" where
  "enc_int x = le_bytes 4 (word_of_int x :: u32)"

definition dec_int :: "byte list \<Rightarrow> int" where
  "dec_int bs = sint (of_le bs :: u32)"

definition enc_u32 :: "u32 \<Rightarrow> byte list" where
  "enc_u32 w = le_bytes 4 w"

definition dec_u32 :: "byte list \<Rightarrow> u32" where
  "dec_u32 bs = of_le bs"

definition enc_u64 :: "u64 \<Rightarrow> byte list" where
  "enc_u64 w = le_bytes 8 w"

definition dec_u64 :: "byte list \<Rightarrow> u64" where
  "dec_u64 bs = of_le bs"

lemma enc_lengths [simp]:
  "length (enc_int x) = 4" "length (enc_u32 w) = 4" "length (enc_u64 v) = 8"
  by (simp_all add: enc_int_def enc_u32_def enc_u64_def)

lemma dec_enc_u32 [simp]: "dec_u32 (enc_u32 w) = w"
  by (simp add: dec_u32_def enc_u32_def of_le_bytes take_bit_word_eq_self)

lemma dec_enc_u64 [simp]: "dec_u64 (enc_u64 w) = w"
  by (simp add: dec_u64_def enc_u64_def of_le_bytes take_bit_word_eq_self)

lemma dec_enc_int: "- (2 ^ 31) \<le> x \<Longrightarrow> x < 2 ^ 31 \<Longrightarrow> dec_int (enc_int x) = x"
  by (simp add: dec_int_def enc_int_def of_le_bytes take_bit_word_eq_self
      sint_sbintrunc' signed_take_bit_int_eq_self)

lemma dec_int_range: "- (2 ^ 31) \<le> dec_int bs" "dec_int bs < 2 ^ 31"
  using sint_greater_eq [of "of_le bs :: u32"] sint_less [of "of_le bs :: u32"]
  by (simp_all add: dec_int_def)

section \<open>C strings in a buffer\<close>

text \<open>
  A buffer read from the other side is used as a C string: its bytes up to the first NUL. Without
  a NUL the string functions read past its end.
\<close>

definition c_string :: "byte list \<Rightarrow> path res" where
  "c_string buf = (if 0 \<in> set buf then Ok (takeWhile (\<lambda>b. b \<noteq> 0) buf) else UB)"

lemma c_string_nul: "0 \<notin> set p \<Longrightarrow> c_string (p @ [0]) = Ok p"
  by (induction p) (auto simp: c_string_def)

end
