(* ===== verification/Server_State.thy ===== *)
theory Server_State
  imports Hashtable Hashmap Util Protocol
begin

text \<open>
  The global state of the server (\<open>includes/server.h\<close>, \<open>server/server.c\<close>): the configuration, the
  map of files, the files behind its pointers, the counters; the helpers that every request
  handler uses; the invariant of the store and the lemmas on its map of files.
\<close>

section \<open>The state\<close>

record file_t =
  path_name :: path
  contents :: "byte list option"
  fsize :: u64
  fd_lock :: int
  fd_open :: "hashtbl option"
  n_readers :: u32
  n_writers :: u32
  creation_time :: timespec
  last_use :: timespec
  can_be_expelled :: bool

datatype policy_t = LRU | FIFO

record server_config_t =
  cfg_n_workers :: u32
  cfg_max_space :: u64
  cfg_max_files :: u32
  cfg_socket_path :: path
  cfg_log_dir_path :: path
  cfg_policy :: policy_t

record server_state_t =
  st_files :: u32
  st_space :: u64
  st_conn :: u32
  st_no_LRU :: u32
  st_max_files :: u32
  st_max_space :: u64
  st_max_conn :: u32

text \<open>
  \<open>files\<close> maps a path to the address of a file in \<open>fheap\<close>; a freed or unallocated address holds
  \<open>None\<close>. \<open>clock\<close> lists the answers that \<open>clock_gettime\<close> is going to give; when there are no
  more, the call fails.
\<close>

record server =
  config :: server_config_t
  files :: "nat hashmap option"
  fheap :: "nat \<Rightarrow> file_t option"
  fnext :: nat
  curr_state :: server_state_t
  clock :: "timespec list"
  smem :: mem

definition HASH_N_LIST :: int where "HASH_N_LIST = 8"

text \<open>What \<open>main\<close> sets up before the first connection: an empty map and zero counters.\<close>

definition server_init :: "server_config_t \<Rightarrow> timespec list \<Rightarrow> mem \<Rightarrow> server option" where
  "server_init cfg clk m =
     (case hashmap_init HASH_N_LIST default_hashmap_hash m of
        (Inl _, _, _) \<Rightarrow> None
      | (Inr _, mp, m) \<Rightarrow>
          Some \<lparr>config = cfg, files = mp, fheap = (\<lambda>_. None), fnext = 0,
            curr_state = \<lparr>st_files = 0, st_space = 0, st_conn = 0, st_no_LRU = 0, st_max_files = 0,
              st_max_space = 0, st_max_conn = 0\<rparr>,
            clock = clk, smem = m\<rparr>)"

section \<open>Helpers of the handlers\<close>

definition deref :: "nat \<Rightarrow> server \<Rightarrow> file_t res" where
  "deref a s = (case fheap s a of None \<Rightarrow> UB | Some f \<Rightarrow> Ok f)"

definition upd_file :: "nat \<Rightarrow> (file_t \<Rightarrow> file_t) \<Rightarrow> server \<Rightarrow> server res" where
  "upd_file a g s = rbind (deref a s) (\<lambda>f. Ok (s\<lparr>fheap := (fheap s)(a \<mapsto> g f)\<rparr>))"

text \<open>A failing \<open>clock_gettime\<close> makes the caller abort the server.\<close>

definition clock_gettime :: "server \<Rightarrow> (timespec \<times> server) res" where
  "clock_gettime s = (case clock s of [] \<Rightarrow> Exit | t # ts \<Rightarrow> Ok (t, s\<lparr>clock := ts\<rparr>))"

text \<open>\<open>safe_malloc\<close> and \<open>safe_calloc\<close> abort the process when there is no memory.\<close>

definition safe_malloc :: "u64 \<Rightarrow> mem \<Rightarrow> mem res" where
  "safe_malloc n m = (case malloc_bytes n m of (True, m) \<Rightarrow> Ok m | (False, m) \<Rightarrow> Exit)"

text \<open>
  \<open>file_locks.c\<close> when one request runs alone: a lock that is held is not going to be released, so
  waiting for it does not return. \<open>File_Locks\<close> treats the same functions under interleaving.
\<close>

definition file_reader_lock :: "nat \<Rightarrow> server \<Rightarrow> server res" where
  "file_reader_lock a s = rbind (deref a s) (\<lambda>f.
     if 0 < n_writers f then Stuck else upd_file a (\<lambda>f. f\<lparr>n_readers := n_readers f + 1\<rparr>) s)"

definition file_reader_unlock :: "nat \<Rightarrow> server \<Rightarrow> server res" where
  "file_reader_unlock a s = upd_file a (\<lambda>f. f\<lparr>n_readers := n_readers f - 1\<rparr>) s"

definition file_writer_lock :: "nat \<Rightarrow> server \<Rightarrow> server res" where
  "file_writer_lock a s = rbind (deref a s) (\<lambda>f.
     if 0 < n_writers f \<or> 0 < n_readers f then Stuck
     else upd_file a (\<lambda>f. f\<lparr>n_writers := n_writers f + 1\<rparr>) s)"

definition file_writer_unlock :: "nat \<Rightarrow> server \<Rightarrow> server res" where
  "file_writer_unlock a s = upd_file a (\<lambda>f. f\<lparr>n_writers := n_writers f - 1\<rparr>) s"

text \<open>\<open>file_delete\<close> frees the file: its address is not valid any more.\<close>

definition file_delete :: "nat option \<Rightarrow> server \<Rightarrow> server res" where
  "file_delete p s =
     (case p of None \<Rightarrow> Ok s
      | Some a \<Rightarrow> rbind (deref a s) (\<lambda>f. Ok (s\<lparr>fheap := (fheap s)(a := None)\<rparr>)))"

fun delete_files :: "nat list \<Rightarrow> server \<Rightarrow> server res" where
  "delete_files [] s = Ok s"
| "delete_files (a # as) s = rbind (file_delete (Some a) s) (delete_files as)"

text \<open>
  The first lines of the handlers that take a path: its length as an \<open>int\<close>, then the path with
  its NUL. A length of -1 asks for 0 bytes and is taken for a closed connection, a smaller one
  asks \<open>calloc\<close> for more memory than there can be, and \<open>INT_MAX + 1\<close> is a signed overflow.
\<close>

definition read_pathname :: "conn \<Rightarrow> mem \<Rightarrow> ((int + byte list) \<times> conn \<times> mem) res" where
  "read_pathname c m =
     rbind (conn_readn 4 c) (\<lambda>(l, bs, c).
       if l = -1 then Ok (Inl SA_ERROR, c, m)
       else if l = 0 then Ok (Inl SA_CLOSE, c, m)
       else if dec_int bs = 2 ^ 31 - 1 then UB
       else (let len = word_of_int (dec_int bs + 1) :: u64
             in rbind (safe_malloc len m) (\<lambda>m.
                rbind (conn_readn (unat len) c) (\<lambda>(l, bs, c).
                  if l = -1 then Ok (Inl SA_ERROR, c, m)
                  else if l = 0 then Ok (Inl SA_CLOSE, c, m)
                  else Ok (Inr bs, c, m)))))"

text \<open>
  The lookup of the path of a request: \<open>Inl\<close> when there is no such file; a null map ends the server.
\<close>

definition lookup_file :: "path \<Rightarrow> server \<Rightarrow> nat option res" where
  "lookup_file p s =
     rbind (hashmap_get_by_key (files s) p) (\<lambda>r.
       case r of Inr a \<Rightarrow> Ok (Some a)
       | Inl e \<Rightarrow> if e = ENOENT then Ok None else Exit)"

text \<open>\<open>hashtbl_contains(file->fd_open, fd)\<close>.\<close>

definition opened_by :: "int \<Rightarrow> nat \<Rightarrow> server \<Rightarrow> bool res" where
  "opened_by fd a s = rbind (deref a s) (\<lambda>f. hashtbl_contains (fd_open f) fd)"

section \<open>The map of files\<close>

definition file_map_ok :: "nat hashmap \<Rightarrow> bool" where
  "file_map_ok m \<longleftrightarrow> hm_wf m \<and> distinct (map fst (entries m)) \<and> distinct (map snd (entries m))"

lemma bag_map_entries:
  assumes "distinct (map fst es)"
  shows "bag_map fst (mset es) (\<lambda>k. map_option (Pair k) (map_of es k))"
proof -
  have "distinct es" using assms by (simp add: distinct_map)
  then have "\<forall>e. count (mset es) e \<le> 1" by (simp add: distinct_count_atmost_1)
  then show ?thesis
    using assms by (auto simp: bag_map_def map_of_eq_Some_iff)
qed

lemma map_of_mset:
  assumes "distinct (map fst xs)" "mset xs = mset ys"
  shows "map_of xs = map_of ys"
proof -
  have m: "mset (map fst xs) = mset (map fst ys)" using assms by simp
  have d: "distinct (map fst ys)" using assms(1) mset_eq_imp_distinct_iff [OF m] by simp
  have "set xs = set ys" by (rule mset_eq_setD [OF assms(2)])
  then show ?thesis by (rule map_of_inject_set [OF assms(1) d, THEN iffD2])
qed

lemma distinct_map_mset: "mset xs = mset ys \<Longrightarrow> distinct (map f xs) = distinct (map f ys)"
  by (rule mset_eq_imp_distinct_iff) simp

lemma fm_get:
  assumes "file_map_ok m"
  shows "hashmap_get_by_key (Some m) k =
    Ok (case map_of (entries m) k of None \<Rightarrow> Inl ENOENT | Some a \<Rightarrow> Inr a)"
  using get_by_key_map [OF _ bag_map_entries, of m] assms
  by (auto simp: file_map_ok_def split: option.splits)

lemma fm_contains:
  assumes "file_map_ok m"
  shows "hashmap_contains (Some m) k = Ok (map_of (entries m) k \<noteq> None)"
  using contains_map [OF _ bag_map_entries, of m] assms by (auto simp: file_map_ok_def)

lemma fm_insert:
  assumes ok: "file_map_ok m" and small: "nlist m < 2 ^ 30"
    and new: "map_of (entries m) k = None" "a \<notin> snd ` set (entries m)"
  shows "\<exists>m'. hashmap_insert (Some m) k a Ample = Ok (Inr (), Some m', Ample) \<and> file_map_ok m' \<and>
    mset (entries m') = add_mset (k, a) (mset (entries m)) \<and>
    nlist m' = (if nelem m + 1 > nlist m div 2 then 2 * nlist m else nlist m)"
proof -
  from hashmap_insert_Ample [of m k a] ok small obtain m' where
    m': "hashmap_insert (Some m) k a Ample = Ok (Inr (), Some m', Ample)" "hm_wf m'"
      "mset (entries m') = mset ((k, a) # entries m)"
      "nlist m' = (if nelem m + 1 > nlist m div 2 then 2 * nlist m else nlist m)"
    by (auto simp: file_map_ok_def)
  have "k \<notin> fst ` set (entries m)" using new(1) by (simp add: map_of_eq_None_iff)
  then have "distinct (map fst ((k, a) # entries m))" "distinct (map snd ((k, a) # entries m))"
    using ok new by (auto simp: file_map_ok_def)
  then have "distinct (map fst (entries m'))" "distinct (map snd (entries m'))"
    using distinct_map_mset [OF m'(3)] by blast+
  with m' show ?thesis by (auto simp: file_map_ok_def)
qed

lemma fm_remove:
  assumes ok: "file_map_ok m" and k: "map_of (entries m) k = Some a"
  shows "\<exists>m'. hashmap_remove (Some m) k = Ok (Inr (Some (k, a)), Some m') \<and> file_map_ok m' \<and>
    nlist m' = nlist m \<and> mset (entries m) = add_mset (k, a) (mset (entries m'))"
proof -
  have "bag_map fst (mset (entries m)) (\<lambda>k. map_option (Pair k) (map_of (entries m) k))"
    using ok by (intro bag_map_entries) (simp add: file_map_ok_def)
  from remove_map [OF _ this, of k] ok k obtain m' where
    m': "hashmap_remove (Some m) k = Ok (Inr (Some (k, a)), Some m')" "hm_wf m'" "nlist m' = nlist m"
      "mset (entries m) = mset ((k, a) # entries m')"
    by (auto simp: file_map_ok_def)
  have "distinct (map fst ((k, a) # entries m'))" "distinct (map snd ((k, a) # entries m'))"
    using distinct_map_mset [OF m'(4)] ok unfolding file_map_ok_def by blast+
  with m' show ?thesis by (auto simp: file_map_ok_def)
qed

lemma fm_map_of_add:
  assumes "file_map_ok m'" "mset (entries m') = add_mset (k, a) (mset (entries m))"
  shows "map_of (entries m') = (map_of (entries m))(k \<mapsto> a)"
  using map_of_mset [of "entries m'" "(k, a) # entries m"] assms by (simp add: file_map_ok_def)

lemma fm_map_of_del:
  assumes "file_map_ok m" "mset (entries m) = add_mset (k, a) (mset (entries m'))"
  shows "map_of (entries m') = (map_of (entries m))(k := None)"
proof -
  have e: "mset (entries m) = mset ((k, a) # entries m')" using assms(2) by simp
  have "distinct (map fst ((k, a) # entries m'))"
    using distinct_map_mset [OF e] assms(1) unfolding file_map_ok_def by blast
  then have "map_of (entries m') k = None" by (simp add: map_of_eq_None_iff)
  moreover have "map_of (entries m) = map_of ((k, a) # entries m')"
    using map_of_mset [OF _ e] assms(1) by (simp add: file_map_ok_def)
  ultimately show ?thesis by auto
qed

section \<open>The invariant of the store\<close>

text \<open>
  The table of clients of a file: descriptors below \<open>FD_SETSIZE\<close>, which \<open>select\<close> asks for, each
  at most once.
\<close>

definition fd_table_ok :: "hashtbl \<Rightarrow> bool" where
  "fd_table_ok t \<longleftrightarrow> tbl_wf t \<and> distinct (entries t) \<and> (\<forall>x \<in> set (entries t). x < 1024) \<and> nlist t \<le> 4096"

definition data_ok :: "byte list option \<Rightarrow> u64 \<Rightarrow> bool" where
  "data_ok d n \<longleftrightarrow> (case d of None \<Rightarrow> n = 0 | Some bs \<Rightarrow> unat n = length bs \<and> bs \<noteq> [])"

definition table_ok :: "hashtbl option \<Rightarrow> bool" where
  "table_ok tp \<longleftrightarrow> (case tp of None \<Rightarrow> False | Some t \<Rightarrow> fd_table_ok t)"

text \<open>A path that a client can send: a C string whose length with the NUL is an \<open>int\<close>.\<close>

definition valid_path :: "path \<Rightarrow> bool" where
  "valid_path p \<longleftrightarrow> 0 \<notin> set p \<and> length p < 2 ^ 31 - 1"

definition file_ok :: "path \<Rightarrow> file_t \<Rightarrow> bool" where
  "file_ok k f \<longleftrightarrow> path_name f = k \<and> valid_path k \<and> data_ok (contents f) (fsize f) \<and> table_ok (fd_open f)"

lemma data_ok_simps [simp]:
  "data_ok None n \<longleftrightarrow> n = 0" "data_ok (Some bs) n \<longleftrightarrow> unat n = length bs \<and> bs \<noteq> []"
  by (simp_all add: data_ok_def)

lemma table_ok_simps [simp]: "table_ok None \<longleftrightarrow> False" "table_ok (Some t) \<longleftrightarrow> fd_table_ok t"
  by (simp_all add: table_ok_def)

definition size_at :: "(nat \<Rightarrow> file_t option) \<Rightarrow> nat \<Rightarrow> nat" where
  "size_at h a = (case h a of None \<Rightarrow> 0 | Some f \<Rightarrow> unat (fsize f))"

definition space_of :: "(nat \<Rightarrow> file_t option) \<Rightarrow> (path \<times> nat) list \<Rightarrow> nat" where
  "space_of h es = sum_list (map (\<lambda>e. size_at h (snd e)) es)"

text \<open>
  Every entry of the map points to a file of its own, whose path is the key; the counters are the
  number of files and the sum of their sizes; the map can grow to the configured number of files.
\<close>

definition store_ok :: "server \<Rightarrow> bool" where
  "store_ok s \<longleftrightarrow>
     (case files s of None \<Rightarrow> False
      | Some m \<Rightarrow> file_map_ok m \<and>
          (\<forall>(k, a) \<in> set (entries m). a < fnext s \<and>
             (case fheap s a of None \<Rightarrow> False | Some f \<Rightarrow> file_ok k f)) \<and>
          unat (st_files (curr_state s)) = length (entries m) \<and>
          unat (st_space (curr_state s)) = space_of (fheap s) (entries m) \<and>
          nlist m \<le> 4 * int (unat (cfg_max_files (config s))) + HASH_N_LIST) \<and>
     smem s = Ample"

definition limits_ok :: "server \<Rightarrow> bool" where
  "limits_ok s \<longleftrightarrow>
     0 < unat (cfg_max_files (config s)) \<and> unat (cfg_max_files (config s)) < 2 ^ 27 \<and>
     unat (cfg_max_space (config s)) < 2 ^ 63 \<and>
     unat (st_files (curr_state s)) \<le> unat (cfg_max_files (config s)) \<and>
     unat (st_space (curr_state s)) \<le> unat (cfg_max_space (config s))"

definition unlocked :: "file_t \<Rightarrow> bool" where
  "unlocked f \<longleftrightarrow> n_readers f = 0 \<and> n_writers f = 0"

text \<open>The address and the file that the store holds under a path.\<close>

definition addr_of :: "server \<Rightarrow> path \<Rightarrow> nat option" where
  "addr_of s k = (case files s of None \<Rightarrow> None | Some m \<Rightarrow> map_of (entries m) k)"

definition stored :: "server \<Rightarrow> path \<Rightarrow> file_t option" where
  "stored s k = (case addr_of s k of None \<Rightarrow> None | Some a \<Rightarrow> fheap s a)"

text \<open>Between two requests no file is locked and every file can be expelled.\<close>

definition idle :: "server \<Rightarrow> bool" where
  "idle s \<longleftrightarrow> (case files s of None \<Rightarrow> False | Some m \<Rightarrow>
     \<forall>e \<in> set (entries m). case fheap s (snd e) of None \<Rightarrow> False
       | Some f \<Rightarrow> unlocked f \<and> can_be_expelled f)"

definition watermarks_ok :: "server \<Rightarrow> bool" where
  "watermarks_ok s \<longleftrightarrow>
     unat (st_files (curr_state s)) \<le> unat (st_max_files (curr_state s)) \<and>
     unat (st_space (curr_state s)) \<le> unat (st_max_space (curr_state s))"

definition server_inv :: "server \<Rightarrow> bool" where
  "server_inv s \<longleftrightarrow> store_ok s \<and> limits_ok s \<and> idle s \<and> watermarks_ok s"

subsection \<open>Reading the store\<close>

lemma store_okE:
  assumes "store_ok s"
  obtains m where "files s = Some m" "file_map_ok m" "smem s = Ample"
    "\<And>k a. (k, a) \<in> set (entries m) \<Longrightarrow> a < fnext s \<and> (\<exists>f. fheap s a = Some f \<and> file_ok k f)"
    "unat (st_files (curr_state s)) = length (entries m)"
    "unat (st_space (curr_state s)) = space_of (fheap s) (entries m)"
    "nlist m \<le> 4 * int (unat (cfg_max_files (config s))) + HASH_N_LIST"
  using assms unfolding store_ok_def
  by (fastforce split: option.splits)

lemma store_okI:
  assumes "files s = Some m" "file_map_ok m" "smem s = Ample"
    "\<And>k a. (k, a) \<in> set (entries m) \<Longrightarrow> a < fnext s \<and> (\<exists>f. fheap s a = Some f \<and> file_ok k f)"
    "unat (st_files (curr_state s)) = length (entries m)"
    "unat (st_space (curr_state s)) = space_of (fheap s) (entries m)"
    "nlist m \<le> 4 * int (unat (cfg_max_files (config s))) + HASH_N_LIST"
  shows "store_ok s"
  using assms unfolding store_ok_def by fastforce

lemma addr_of_entries:
  assumes "files s = Some m" "file_map_ok m"
  shows "addr_of s k = Some a \<longleftrightarrow> (k, a) \<in> set (entries m)"
  using assms by (simp add: addr_of_def file_map_ok_def map_of_eq_Some_iff)

lemma addr_of_file:
  assumes "store_ok s" "addr_of s k = Some a"
  obtains f where "fheap s a = Some f" "file_ok k f" "stored s k = Some f" "a < fnext s"
  using assms by (elim store_okE) (auto simp: addr_of_entries stored_def)

lemma stored_addr:
  assumes "stored s k = Some f"
  obtains a where "addr_of s k = Some a" "fheap s a = Some f"
  using assms by (auto simp: stored_def split: option.splits)

lemma addr_of_None: "store_ok s \<Longrightarrow> addr_of s k = None \<longleftrightarrow> stored s k = None"
  by (cases "addr_of s k") (auto simp: stored_def elim: addr_of_file)

lemma addr_of_inj:
  assumes "store_ok s" "addr_of s k = Some a" "addr_of s k' = Some a"
  shows "k = k'"
proof -
  obtain m where m: "files s = Some m" "file_map_ok m" using assms(1) by (elim store_okE)
  have "(k, a) \<in> set (entries m)" "(k', a) \<in> set (entries m)"
    using assms(2,3) by (simp_all add: addr_of_entries [OF m])
  moreover have "inj_on snd (set (entries m))" using m(2) by (simp add: file_map_ok_def distinct_map)
  ultimately show ?thesis using inj_onD [of snd _ "(k, a)" "(k', a)"] by auto
qed

lemma lookup_file_addr: "store_ok s \<Longrightarrow> lookup_file k s = Ok (addr_of s k)"
  by (elim store_okE) (auto simp: lookup_file_def fm_get addr_of_def split: option.splits)

lemma idle_stored:
  assumes "store_ok s"
  shows "idle s \<longleftrightarrow> (\<forall>k f. stored s k = Some f \<longrightarrow> unlocked f \<and> can_be_expelled f)"
proof -
  obtain m where m: "files s = Some m" "file_map_ok m"
    "\<And>k a. (k, a) \<in> set (entries m) \<Longrightarrow> a < fnext s \<and> (\<exists>f. fheap s a = Some f \<and> file_ok k f)"
    using assms by (rule store_okE) blast
  show ?thesis
  proof
    assume "idle s"
    then show "\<forall>k f. stored s k = Some f \<longrightarrow> unlocked f \<and> can_be_expelled f"
      using m by (fastforce simp: idle_def addr_of_entries elim!: stored_addr)
  next
    assume R: "\<forall>k f. stored s k = Some f \<longrightarrow> unlocked f \<and> can_be_expelled f"
    have "\<exists>f. fheap s a = Some f \<and> unlocked f \<and> can_be_expelled f" if ka: "(k, a) \<in> set (entries m)" for k a
    proof -
      have "addr_of s k = Some a" using ka by (simp add: addr_of_entries [OF m(1,2)])
      moreover obtain f where f: "fheap s a = Some f" using m(3) ka by blast
      ultimately have "stored s k = Some f" by (simp add: stored_def)
      with R f show ?thesis by blast
    qed
    then show "idle s" using m(1) by (fastforce simp: idle_def)
  qed
qed

subsection \<open>Changing one file\<close>

lemma size_at_upd: "size_at (h(a \<mapsto> g)) b = (if b = a then unat (fsize g) else size_at h b)"
  by (simp add: size_at_def)

lemma space_of_upd:
  assumes "distinct (map snd es)" "(k, a) \<in> set es" "h a = Some f"
  shows "space_of (h(a \<mapsto> g)) es + unat (fsize f) = space_of h es + unat (fsize g)"
proof -
  have d: "distinct es" and inj: "inj_on snd (set es)" using assms(1) by (auto simp: distinct_map)
  have "snd e \<noteq> a" if "e \<in> set es" "e \<noteq> (k, a)" for e
    using inj_onD [OF inj _ that(1) assms(2)] that(2) by auto
  then have "sum_list (map (\<lambda>e. size_at (h(a \<mapsto> g)) (snd e)) es) + size_at h (snd (k, a)) =
      sum_list (map (\<lambda>e. size_at h (snd e)) es) + size_at (h(a \<mapsto> g)) (snd (k, a))"
    by (intro sum_list_map_update_one [OF d assms(2)]) (simp add: size_at_upd)
  then show ?thesis using assms(3) by (simp add: space_of_def size_at_def)
qed

lemma store_upd:
  assumes ok: "store_ok s" and a: "addr_of s k = Some a" "fheap s a = Some f" and g: "file_ok k g"
    and s': "files s' = files s" "fheap s' = (fheap s)(a \<mapsto> g)" "fnext s' = fnext s" "smem s' = smem s"
      "config s' = config s" "st_files (curr_state s') = st_files (curr_state s)"
      "unat (st_space (curr_state s')) + unat (fsize f) = unat (st_space (curr_state s)) + unat (fsize g)"
  shows "store_ok s'" "stored s' = (stored s)(k \<mapsto> g)" "addr_of s' = addr_of s"
proof -
  obtain m where m: "files s = Some m" "file_map_ok m" "smem s = Ample"
    "\<And>k a. (k, a) \<in> set (entries m) \<Longrightarrow> a < fnext s \<and> (\<exists>f. fheap s a = Some f \<and> file_ok k f)"
    "unat (st_files (curr_state s)) = length (entries m)"
    "unat (st_space (curr_state s)) = space_of (fheap s) (entries m)"
    "nlist m \<le> 4 * int (unat (cfg_max_files (config s))) + HASH_N_LIST"
    using ok by (rule store_okE) blast
  have e: "(k, a) \<in> set (entries m)" using a m by (simp add: addr_of_entries)
  have sp: "unat (st_space (curr_state s')) = space_of (fheap s') (entries m)"
    using space_of_upd [of "entries m" k a "fheap s" f g] e a(2) m s' by (simp add: file_map_ok_def)
  show ad: "addr_of s' = addr_of s" using s'(1) by (simp add: addr_of_def fun_eq_iff)
  have other: "k' = k" if "(k', a) \<in> set (entries m)" for k'
    using addr_of_inj [OF ok _ a(1)] that m by (simp add: addr_of_entries)
  show "store_ok s'"
  proof (rule store_okI [of _ m])
    show "b < fnext s' \<and> (\<exists>f. fheap s' b = Some f \<and> file_ok k' f)" if "(k', b) \<in> set (entries m)" for k' b
      using m(4) [OF that] other [of k'] that g s' by (cases "b = a") auto
  qed (use m s' sp in auto)
  show "stored s' = (stored s)(k \<mapsto> g)"
  proof
    fix k'
    show "stored s' k' = ((stored s)(k \<mapsto> g)) k'"
    proof (cases "k' = k")
      case True
      with a s'(2) show ?thesis by (simp add: stored_def ad)
    next
      case False
      then have "addr_of s k' \<noteq> Some a" using addr_of_inj [OF ok _ a(1)] by blast
      with False s'(2) show ?thesis by (simp add: stored_def ad split: option.split)
    qed
  qed
qed

subsection \<open>Adding and removing files\<close>

lemma space_of_cong: "(\<And>e. e \<in> set es \<Longrightarrow> h (snd e) = h' (snd e)) \<Longrightarrow> space_of h es = space_of h' es"
  unfolding space_of_def size_at_def by (rule arg_cong [where f = sum_list]) simp

lemma space_of_mset: "mset es = mset es' \<Longrightarrow> space_of h es = space_of h es'"
proof -
  assume "mset es = mset es'"
  then have "mset (map (\<lambda>e. size_at h (snd e)) es) = mset (map (\<lambda>e. size_at h (snd e)) es')" by simp
  then show ?thesis unfolding space_of_def by (metis sum_mset_sum_list)
qed

lemma store_frame:
  assumes ok: "store_ok s"
    and s': "files s' = files s" "\<And>k b. addr_of s k = Some b \<Longrightarrow> fheap s' b = fheap s b" "fnext s \<le> fnext s'"
      "smem s' = smem s" "config s' = config s" "st_files (curr_state s') = st_files (curr_state s)"
      "st_space (curr_state s') = st_space (curr_state s)"
  shows "store_ok s'" "stored s' = stored s" "addr_of s' = addr_of s"
proof -
  obtain m where m: "files s = Some m" "file_map_ok m" "smem s = Ample"
    "\<And>k a. (k, a) \<in> set (entries m) \<Longrightarrow> a < fnext s \<and> (\<exists>f. fheap s a = Some f \<and> file_ok k f)"
    "unat (st_files (curr_state s)) = length (entries m)"
    "unat (st_space (curr_state s)) = space_of (fheap s) (entries m)"
    "nlist m \<le> 4 * int (unat (cfg_max_files (config s))) + HASH_N_LIST"
    using ok by (rule store_okE) blast
  have heap: "fheap s' b = fheap s b" if "(k, b) \<in> set (entries m)" for k b
    using that by (intro s'(2)) (simp add: addr_of_entries [OF m(1,2)])
  show ad: "addr_of s' = addr_of s" using s' by (simp add: addr_of_def fun_eq_iff)
  have "space_of (fheap s') (entries m) = space_of (fheap s) (entries m)"
    using heap by (intro space_of_cong) force
  moreover have "b < fnext s' \<and> (\<exists>f. fheap s' b = Some f \<and> file_ok k f)" if "(k, b) \<in> set (entries m)" for k b
    using m(4) [OF that] s'(3) heap [OF that] by auto
  ultimately show "store_ok s'" using m s' by (intro store_okI [of _ m]) auto
  show "stored s' = stored s"
  proof
    fix k
    show "stored s' k = stored s k" using s'(2) [of k] by (cases "addr_of s k") (auto simp: stored_def ad)
  qed
qed

lemma store_del:
  assumes ok: "store_ok s" and a: "addr_of s k = Some a" "fheap s a = Some f"
  obtains m' where "hashmap_remove (files s) k = Ok (Inr (Some (k, a)), Some m')"
    "\<And>s'. \<lbrakk>files s' = Some m'; \<And>b. b \<noteq> a \<Longrightarrow> fheap s' b = fheap s b; fnext s' = fnext s; smem s' = smem s;
        config s' = config s; st_files (curr_state s') = st_files (curr_state s) - 1;
        st_space (curr_state s') = st_space (curr_state s) - fsize f\<rbrakk> \<Longrightarrow>
      store_ok s' \<and> stored s' = (stored s)(k := None) \<and> addr_of s' = (addr_of s)(k := None) \<and>
      Suc (unat (st_files (curr_state s'))) = unat (st_files (curr_state s)) \<and>
      unat (st_space (curr_state s')) + unat (fsize f) = unat (st_space (curr_state s))"
proof -
  obtain m where m: "files s = Some m" "file_map_ok m" "smem s = Ample"
    "\<And>k a. (k, a) \<in> set (entries m) \<Longrightarrow> a < fnext s \<and> (\<exists>f. fheap s a = Some f \<and> file_ok k f)"
    "unat (st_files (curr_state s)) = length (entries m)"
    "unat (st_space (curr_state s)) = space_of (fheap s) (entries m)"
    "nlist m \<le> 4 * int (unat (cfg_max_files (config s))) + HASH_N_LIST"
    using ok by (rule store_okE) blast
  have "map_of (entries m) k = Some a" using a(1) m(1) by (simp add: addr_of_def)
  from fm_remove [OF m(2) this] obtain m' where
    rem: "hashmap_remove (files s) k = Ok (Inr (Some (k, a)), Some m')" and m': "file_map_ok m'"
      "nlist m' = nlist m" "mset (entries m) = mset ((k, a) # entries m')" using m(1) by auto
  have map': "map_of (entries m') = (map_of (entries m))(k := None)"
    using fm_map_of_del [OF m(2), of k a m'] m'(3) by simp
  have a_out: "a \<notin> snd ` set (entries m')"
    using distinct_map_mset [OF m'(3), of snd] m(2) by (simp add: file_map_ok_def)
  have sub: "set (entries m') \<subseteq> set (entries m)" using mset_eq_setD [OF m'(3)] by auto
  have len: "length (entries m) = Suc (length (entries m'))" using mset_eq_length [OF m'(3)] by simp
  have sp: "space_of (fheap s) (entries m) = unat (fsize f) + space_of (fheap s) (entries m')"
    unfolding space_of_mset [OF m'(3)] using a(2) by (simp add: space_of_def size_at_def)
  show ?thesis
  proof (rule that [OF rem], intro conjI)
    fix s' :: server
    assume s': "files s' = Some m'" "\<And>b. b \<noteq> a \<Longrightarrow> fheap s' b = fheap s b" "fnext s' = fnext s"
      "smem s' = smem s" "config s' = config s" "st_files (curr_state s') = st_files (curr_state s) - 1"
      "st_space (curr_state s') = st_space (curr_state s) - fsize f"
    have heap: "fheap s' b = fheap s b" if "(k', b) \<in> set (entries m')" for k' b
      using that a_out by (intro s'(2)) force
    have sp': "space_of (fheap s') (entries m') = space_of (fheap s) (entries m')"
      using heap by (intro space_of_cong) force
    show c1: "Suc (unat (st_files (curr_state s'))) = unat (st_files (curr_state s))"
      using s'(6) m(5) len by (simp add: unat_pred_no_wrap)
    show c2: "unat (st_space (curr_state s')) + unat (fsize f) = unat (st_space (curr_state s))"
      using s'(7) m(6) sp by (simp add: unat_sub_no_wrap)
    show ad: "addr_of s' = (addr_of s)(k := None)"
      using s'(1) m(1) map' by (simp add: addr_of_def fun_eq_iff)
    have "b < fnext s' \<and> (\<exists>f. fheap s' b = Some f \<and> file_ok k' f)" if "(k', b) \<in> set (entries m')" for k' b
      using m(4) [of k' b] that sub heap s'(3) by auto
    then show "store_ok s'"
      using m m' s' c1 c2 sp sp' len by (intro store_okI [of _ m']) auto
    show "stored s' = (stored s)(k := None)"
    proof
      fix k'
      show "stored s' k' = ((stored s)(k := None)) k'"
      proof (cases "k' = k")
        case False
        then have "addr_of s k' \<noteq> Some a" using addr_of_inj [OF ok _ a(1)] by blast
        with False s'(2) show ?thesis by (cases "addr_of s k'") (auto simp: stored_def ad)
      qed (simp add: stored_def ad)
    qed
  qed
qed

lemma store_add:
  assumes ok: "store_ok s" and new: "addr_of s k = None" "\<And>k. addr_of s k \<noteq> Some a"
    and a: "fheap s a = Some g" "file_ok k g" "fsize g = 0" "a < fnext s"
    and room: "unat (st_files (curr_state s)) < unat (cfg_max_files (config s))"
      "unat (cfg_max_files (config s)) < 2 ^ 27"
  obtains m' where "hashmap_insert (files s) k a (smem s) = Ok (Inr (), Some m', Ample)"
    "\<And>s'. \<lbrakk>files s' = Some m'; fheap s' = fheap s; fnext s' = fnext s; smem s' = Ample;
        config s' = config s; st_files (curr_state s') = st_files (curr_state s) + 1;
        st_space (curr_state s') = st_space (curr_state s)\<rbrakk> \<Longrightarrow>
      store_ok s' \<and> stored s' = (stored s)(k \<mapsto> g) \<and> addr_of s' = (addr_of s)(k \<mapsto> a) \<and>
      unat (st_files (curr_state s')) = Suc (unat (st_files (curr_state s)))"
proof -
  obtain m where m: "files s = Some m" "file_map_ok m" "smem s = Ample"
    "\<And>k a. (k, a) \<in> set (entries m) \<Longrightarrow> a < fnext s \<and> (\<exists>f. fheap s a = Some f \<and> file_ok k f)"
    "unat (st_files (curr_state s)) = length (entries m)"
    "unat (st_space (curr_state s)) = space_of (fheap s) (entries m)"
    "nlist m \<le> 4 * int (unat (cfg_max_files (config s))) + HASH_N_LIST"
    using ok by (rule store_okE) blast
  have "int (unat (cfg_max_files (config s))) < int (2 ^ 27)" using room(2) by (simp only: of_nat_less_iff)
  then have small: "nlist m < 2 ^ 30" using m(7) by (simp add: HASH_N_LIST_def)
  have k: "map_of (entries m) k = None" using new(1) m(1) by (simp add: addr_of_def)
  have out: "a \<notin> snd ` set (entries m)" using new(2) addr_of_entries [OF m(1,2)] by force
  from fm_insert [OF m(2) small k out] obtain m' where
    ins: "hashmap_insert (files s) k a (smem s) = Ok (Inr (), Some m', Ample)" and m': "file_map_ok m'"
      "mset (entries m') = mset ((k, a) # entries m)"
      "nlist m' = (if nelem m + 1 > nlist m div 2 then 2 * nlist m else nlist m)"
    using m(1,3) by auto
  have map': "map_of (entries m') = (map_of (entries m))(k \<mapsto> a)"
    using fm_map_of_add [OF m'(1), of k a m] m'(2) by simp
  have len: "length (entries m') = Suc (length (entries m))" using mset_eq_length [OF m'(2)] by simp
  have "nelem m = int (length (entries m))" "0 < nlist m"
    using m(2) by (auto simp: file_map_ok_def hm_wf_def tab_wf_def)
  then have bound: "nlist m' \<le> 4 * int (unat (cfg_max_files (config s))) + HASH_N_LIST"
  proof -
    have "int (length (entries m)) + 1 \<le> int (unat (cfg_max_files (config s)))"
      using m(5) room(1) by linarith
    with \<open>nelem m = int (length (entries m))\<close> m'(3) m(7) show ?thesis
      unfolding HASH_N_LIST_def by presburger
  qed
  show ?thesis
  proof (rule that [OF ins], intro conjI)
    fix s' :: server
    assume s': "files s' = Some m'" "fheap s' = fheap s" "fnext s' = fnext s"
      "smem s' = Ample" "config s' = config s" "st_files (curr_state s') = st_files (curr_state s) + 1"
      "st_space (curr_state s') = st_space (curr_state s)"
    have sp: "space_of (fheap s) (entries m') = space_of (fheap s) (entries m)"
      unfolding space_of_mset [OF m'(2)] using a by (simp add: space_of_def size_at_def)
    have "unat (st_files (curr_state s)) < 2 ^ 27" using room by (rule less_trans)
    then show c1: "unat (st_files (curr_state s')) = Suc (unat (st_files (curr_state s)))"
      unfolding s'(6) by (intro unat_Suc_no_wrap) simp
    show ad: "addr_of s' = (addr_of s)(k \<mapsto> a)"
      using s'(1) m(1) map' by (simp add: addr_of_def fun_eq_iff)
    have "set (entries m') = insert (k, a) (set (entries m))" using mset_eq_setD [OF m'(2)] by simp
    then have "b < fnext s' \<and> (\<exists>f. fheap s' b = Some f \<and> file_ok k' f)" if "(k', b) \<in> set (entries m')" for k' b
      using m(4) [of k' b] that s'(2,3) a by auto
    then show "store_ok s'"
      using m m' s' c1 sp len bound by (intro store_okI [of _ m']) auto
    show "stored s' = (stored s)(k \<mapsto> g)"
    proof
      fix k'
      show "stored s' k' = ((stored s)(k \<mapsto> g)) k'"
        using a(1) s'(2) by (cases "addr_of s k'") (auto simp: stored_def ad)
    qed
  qed
qed

section \<open>An example store\<close>

text \<open>
  Two files, \<open>a\<close> with three bytes and \<open>b\<close> with four, opened by the clients 4 and 5, the first one
  locked by client 4; there is room for two files and ten bytes.
\<close>

definition demo_file :: "path \<Rightarrow> byte list \<Rightarrow> int \<Rightarrow> int \<Rightarrow> int \<Rightarrow> file_t" where
  "demo_file p c lock created used =
     \<lparr>path_name = p, contents = Some c, fsize = word_of_nat (length c), fd_lock = lock,
      fd_open = Some \<lparr>nlist = 4, nelem = 2, lists = [[4], [5], [], []], hash_funct = default_hashtbl_hash\<rparr>,
      n_readers = 0, n_writers = 0, creation_time = Timespec created 0, last_use = Timespec used 0,
      can_be_expelled = True\<rparr>"

definition demo_config :: server_config_t where
  "demo_config = \<lparr>cfg_n_workers = 1, cfg_max_space = 10, cfg_max_files = 2, cfg_socket_path = [],
     cfg_log_dir_path = [], cfg_policy = LRU\<rparr>"

definition demo_map :: "nat hashmap" where
  "demo_map = \<lparr>nlist = 8, nelem = 2, lists = [[], [], [], [], [], [], [([97], 0)], [([98], 1)]],
     hash_funct = default_hashmap_hash\<rparr>"

definition demo :: server where
  "demo = \<lparr>config = demo_config, files = Some demo_map,
     fheap = [0 \<mapsto> demo_file [97] [1, 2, 3] 4 1 9, 1 \<mapsto> demo_file [98] [4, 5, 6, 7] (-1) 2 5], fnext = 2,
     curr_state = \<lparr>st_files = 2, st_space = 7, st_conn = 2, st_no_LRU = 0, st_max_files = 2,
       st_max_space = 7, st_max_conn = 2\<rparr>,
     clock = [Timespec 20 0, Timespec 21 0, Timespec 22 0], smem = Ample\<rparr>"

lemma demo_fd_table:
  "fd_table_ok \<lparr>nlist = 4, nelem = 2, lists = [[4], [5], [], []], hash_funct = default_hashtbl_hash\<rparr>"
  by (auto simp: fd_table_ok_def tbl_wf_def tab_wf_def tab_load_def entries_def tab_index_def
      default_hashtbl_hash_def smod_int_alt_def All_less_Suc2)

lemma demo_map_ok: "file_map_ok demo_map"
  by (auto simp: file_map_ok_def demo_map_def hm_wf_def tab_wf_def tab_load_def entries_def
      tab_index_def default_hashmap_hash_def All_less_Suc2)

lemma demo_file_ok: "valid_path p \<Longrightarrow> c \<noteq> [] \<Longrightarrow> length c < 2 ^ 64 \<Longrightarrow> file_ok p (demo_file p c l x y)"
  using demo_fd_table by (simp add: file_ok_def demo_file_def unsigned_of_nat take_bit_nat_eq_self)

lemma demo_store_ok: "store_ok demo"
proof (rule store_okI [of _ demo_map])
  show "b < fnext demo \<and> (\<exists>f. fheap demo b = Some f \<and> file_ok k f)"
    if "(k, b) \<in> set (entries demo_map)" for k b
    using that demo_file_ok by (auto simp: demo_map_def entries_def demo_def valid_path_def)
  show "file_map_ok demo_map" by (rule demo_map_ok)
qed (simp_all add: demo_def demo_map_def entries_def space_of_def size_at_def demo_file_def
    demo_config_def HASH_N_LIST_def)

lemma demo_stored: "stored demo = [[97] \<mapsto> demo_file [97] [1, 2, 3] 4 1 9, [98] \<mapsto> demo_file [98] [4, 5, 6, 7] (-1) 2 5]"
  by (simp add: stored_def addr_of_def demo_def demo_map_def entries_def fun_eq_iff)

lemma demo_inv: "server_inv demo"
  using demo_store_ok
  by (simp add: server_inv_def limits_ok_def watermarks_ok_def idle_def demo_def demo_config_def
      demo_map_def entries_def demo_file_def unlocked_def)

end
