(* ===== verification/File_Locks.thy ===== *)
theory File_Locks
  imports Server_State
begin

text \<open>
  \<open>server/file_locks.c\<close> under interleaving: the readers-writers lock of one file, shared by any number
  of threads. A state holds the two mutexes, the two counters and the program point of every
  thread; a step is one statement of one thread. \<open>pthread_cond_wait\<close> releases the mutex and waits in
  one step, and may wake up without a signal. The sequential versions of the four functions, which
  the request handlers use, are in \<open>Server_State\<close>; the last section relates the two.
\<close>

section \<open>States and steps\<close>

datatype side = Reader | Writer

text \<open>
  \<open>L_\<close> are the points of \<open>file_reader_lock\<close> and \<open>file_writer_lock\<close>, \<open>U_\<close> those of the unlock functions:
  before each \<open>lock\<close>, the test of the \<open>while\<close>, inside the wait, woken up, before the increment, before
  each \<open>unlock\<close>. \<open>L_held\<close> is the caller between the two calls.
\<close>

datatype lk_pc =
    L_idle | L_order side | L_mutex side | L_test side | L_wait side | L_wake side
  | L_enter side | L_unord side | L_unmtx side | L_held side
  | U_mutex side | U_leave side | U_unmtx side

record flock =
  order_mtx :: "nat option"
  file_mtx :: "nat option"
  nr :: u32
  nw :: u32
  pcs :: "lk_pc list"

definition flock_init :: "nat \<Rightarrow> flock" where
  "flock_init n = \<lparr>order_mtx = None, file_mtx = None, nr = 0, nw = 0, pcs = replicate n L_idle\<rparr>"

text \<open>The condition of the two \<open>while\<close> loops.\<close>

fun blocked :: "side \<Rightarrow> flock \<Rightarrow> bool" where
  "blocked Reader s = (0 < nw s)"
| "blocked Writer s = (0 < nw s \<or> 0 < nr s)"

fun lk_incr :: "side \<Rightarrow> flock \<Rightarrow> flock" where
  "lk_incr Reader s = s\<lparr>nr := nr s + 1\<rparr>"
| "lk_incr Writer s = s\<lparr>nw := nw s + 1\<rparr>"

fun lk_decr :: "side \<Rightarrow> flock \<Rightarrow> flock" where
  "lk_decr Reader s = s\<lparr>nr := nr s - 1\<rparr>"
| "lk_decr Writer s = s\<lparr>nw := nw s - 1\<rparr>"

text \<open>After the decrement a reader signals if he was the last one, a writer always.\<close>

fun signals :: "side \<Rightarrow> flock \<Rightarrow> bool" where
  "signals Reader s = (nr s = 0)"
| "signals Writer s = True"

definition goto :: "nat \<Rightarrow> lk_pc \<Rightarrow> flock \<Rightarrow> flock" where
  "goto i p s = s\<lparr>pcs := (pcs s)[i := p]\<rparr>"

definition at :: "flock \<Rightarrow> nat \<Rightarrow> lk_pc \<Rightarrow> bool" where
  "at s i p \<longleftrightarrow> i < length (pcs s) \<and> pcs s ! i = p"

definition waiting :: "lk_pc \<Rightarrow> bool" where
  "waiting p \<longleftrightarrow> (case p of L_wait _ \<Rightarrow> True | _ \<Rightarrow> False)"

text \<open>\<open>pthread_cond_signal\<close> wakes one of the waiting threads, if there is one.\<close>

inductive signal :: "flock \<Rightarrow> flock \<Rightarrow> bool" where
  signal_none: "\<forall>p \<in> set (pcs s). \<not> waiting p \<Longrightarrow> signal s s"
| signal_one: "at s j (L_wait k) \<Longrightarrow> signal s (goto j (L_wake k) s)"

inductive lk_step :: "nat \<Rightarrow> flock \<Rightarrow> flock \<Rightarrow> bool" where
  call_lock: "at s i L_idle \<Longrightarrow> lk_step i s (goto i (L_order k) s)"
| lock_order: "at s i (L_order k) \<Longrightarrow> order_mtx s = None \<Longrightarrow>
    lk_step i s (goto i (L_mutex k) (s\<lparr>order_mtx := Some i\<rparr>))"
| lock_mutex: "at s i (L_mutex k) \<Longrightarrow> file_mtx s = None \<Longrightarrow>
    lk_step i s (goto i (L_test k) (s\<lparr>file_mtx := Some i\<rparr>))"
| test_wait: "at s i (L_test k) \<Longrightarrow> blocked k s \<Longrightarrow>
    lk_step i s (goto i (L_wait k) (s\<lparr>file_mtx := None\<rparr>))"
| test_pass: "at s i (L_test k) \<Longrightarrow> \<not> blocked k s \<Longrightarrow> lk_step i s (goto i (L_enter k) s)"
| wake_mutex: "at s i (L_wake k) \<Longrightarrow> file_mtx s = None \<Longrightarrow>
    lk_step i s (goto i (L_test k) (s\<lparr>file_mtx := Some i\<rparr>))"
| enter: "at s i (L_enter k) \<Longrightarrow> lk_step i s (goto i (L_unord k) (lk_incr k s))"
| unlock_order: "at s i (L_unord k) \<Longrightarrow> lk_step i s (goto i (L_unmtx k) (s\<lparr>order_mtx := None\<rparr>))"
| unlock_mutex: "at s i (L_unmtx k) \<Longrightarrow> lk_step i s (goto i (L_held k) (s\<lparr>file_mtx := None\<rparr>))"
| call_unlock: "at s i (L_held k) \<Longrightarrow> lk_step i s (goto i (U_mutex k) s)"
| relock_mutex: "at s i (U_mutex k) \<Longrightarrow> file_mtx s = None \<Longrightarrow>
    lk_step i s (goto i (U_leave k) (s\<lparr>file_mtx := Some i\<rparr>))"
| leave_quiet: "at s i (U_leave k) \<Longrightarrow> \<not> signals k (lk_decr k s) \<Longrightarrow>
    lk_step i s (goto i (U_unmtx k) (lk_decr k s))"
| leave_signal: "at s i (U_leave k) \<Longrightarrow> signals k (lk_decr k s) \<Longrightarrow>
    signal (goto i (U_unmtx k) (lk_decr k s)) s' \<Longrightarrow> lk_step i s s'"
| final_unlock: "at s i (U_unmtx k) \<Longrightarrow> lk_step i s (goto i L_idle (s\<lparr>file_mtx := None\<rparr>))"

text \<open>A wait may return without a signal.\<close>

inductive lk_spurious :: "flock \<Rightarrow> flock \<Rightarrow> bool" where
  spurious: "at s i (L_wait k) \<Longrightarrow> lk_spurious s (goto i (L_wake k) s)"

inductive lk_reach :: "nat \<Rightarrow> flock \<Rightarrow> bool" for n where
  reach_init: "lk_reach n (flock_init n)"
| reach_step: "lk_reach n s \<Longrightarrow> lk_step i s s' \<Longrightarrow> lk_reach n s'"
| reach_spurious: "lk_reach n s \<Longrightarrow> lk_spurious s s' \<Longrightarrow> lk_reach n s'"

section \<open>The invariant\<close>

text \<open>The points at which a thread counts as a reader or writer, and owns each mutex.\<close>

definition inside :: "side \<Rightarrow> lk_pc \<Rightarrow> bool" where
  "inside k p \<longleftrightarrow> p = L_unord k \<or> p = L_unmtx k \<or> p = L_held k \<or> p = U_mutex k \<or> p = U_leave k"

definition has_order :: "lk_pc \<Rightarrow> bool" where
  "has_order p \<longleftrightarrow> (case p of L_mutex _ \<Rightarrow> True | L_test _ \<Rightarrow> True | L_wait _ \<Rightarrow> True | L_wake _ \<Rightarrow> True
     | L_enter _ \<Rightarrow> True | L_unord _ \<Rightarrow> True | _ \<Rightarrow> False)"

definition has_mutex :: "lk_pc \<Rightarrow> bool" where
  "has_mutex p \<longleftrightarrow> (case p of L_test _ \<Rightarrow> True | L_enter _ \<Rightarrow> True | L_unord _ \<Rightarrow> True | L_unmtx _ \<Rightarrow> True
     | U_leave _ \<Rightarrow> True | U_unmtx _ \<Rightarrow> True | _ \<Rightarrow> False)"

definition owner :: "(lk_pc \<Rightarrow> bool) \<Rightarrow> lk_pc list \<Rightarrow> nat option \<Rightarrow> bool" where
  "owner P ps m \<longleftrightarrow> (\<forall>i. i < length ps \<and> P (ps ! i) \<longleftrightarrow> m = Some i)"

definition n_in :: "side \<Rightarrow> lk_pc list \<Rightarrow> nat" where
  "n_in k ps = length (filter (inside k) ps)"

text \<open>
  The counters are right, writers exclude everybody else, each mutex has the owner that the
  program points say, a thread that is about to enter may enter, and a thread that waits has a
  reason to: no signal was lost.
\<close>

definition lk_core :: "flock \<Rightarrow> bool" where
  "lk_core s \<longleftrightarrow>
     length (pcs s) < 2 ^ 32 \<and>
     unat (nr s) = n_in Reader (pcs s) \<and> unat (nw s) = n_in Writer (pcs s) \<and>
     unat (nw s) \<le> 1 \<and> (nw s \<noteq> 0 \<longrightarrow> nr s = 0) \<and>
     owner has_order (pcs s) (order_mtx s) \<and> owner has_mutex (pcs s) (file_mtx s) \<and>
     (\<forall>i k. at s i (L_enter k) \<longrightarrow> \<not> blocked k s)"

definition lk_inv :: "flock \<Rightarrow> bool" where
  "lk_inv s \<longleftrightarrow> lk_core s \<and> (\<forall>i k. at s i (L_wait k) \<longrightarrow> blocked k s)"

lemma owner_same: "owner P ps m \<Longrightarrow> i < length ps \<Longrightarrow> P v = P (ps ! i) \<Longrightarrow> owner P (ps[i := v]) m"
  unfolding owner_def by (metis length_list_update nth_list_update)

lemma owner_take: "owner P ps None \<Longrightarrow> i < length ps \<Longrightarrow> P v \<Longrightarrow> owner P (ps[i := v]) (Some i)"
  by (auto simp: owner_def nth_list_update)

lemma owner_drop: "owner P ps m \<Longrightarrow> i < length ps \<Longrightarrow> P (ps ! i) \<Longrightarrow> \<not> P v \<Longrightarrow> owner P (ps[i := v]) None"
  unfolding owner_def by (metis length_list_update nth_list_update nth_list_update_neq option.inject option.distinct(1))

lemma ownerD: "owner P ps m \<Longrightarrow> i < length ps \<Longrightarrow> P (ps ! i) \<Longrightarrow> m = Some i"
  unfolding owner_def by blast

lemma n_in_upd:
  assumes "i < length ps"
  shows "n_in k (ps[i := v]) + (if inside k (ps ! i) then 1 else 0) = n_in k ps + (if inside k v then 1 else 0)"
proof -
  have "ps = take i ps @ ps ! i # drop (Suc i) ps" using assms by (rule id_take_nth_drop)
  then have "n_in k ps = n_in k (take i ps @ ps ! i # drop (Suc i) ps)" by simp
  moreover have "ps[i := v] = take i ps @ v # drop (Suc i) ps" using assms by (rule upd_conv_take_nth_drop)
  ultimately show ?thesis by (simp add: n_in_def)
qed

lemma n_in_le: "n_in k ps \<le> length ps"
  by (simp add: n_in_def)

lemma n_in_pos: "at s i p \<Longrightarrow> inside k p \<Longrightarrow> 0 < n_in k (pcs s)"
  by (auto simp: n_in_def at_def filter_empty_conv intro!: bexI [of _ p])

lemma pcs_goto [simp]: "pcs (goto i p s) = (pcs s)[i := p]"
  and nr_goto [simp]: "nr (goto i p s) = nr s" "nw (goto i p s) = nw s"
    "order_mtx (goto i p s) = order_mtx s" "file_mtx (goto i p s) = file_mtx s"
  by (simp_all add: goto_def)

lemma lk_incr_simps [simp]: "pcs (lk_incr k s) = pcs s" "order_mtx (lk_incr k s) = order_mtx s"
  "file_mtx (lk_incr k s) = file_mtx s"
  "pcs (lk_decr k s) = pcs s" "order_mtx (lk_decr k s) = order_mtx s" "file_mtx (lk_decr k s) = file_mtx s"
  by (cases k; simp)+

lemma at_goto: "i < length (pcs s) \<Longrightarrow> at (goto i p s) j q = (if j = i then q = p else at s j q)"
  by (auto simp: at_def)

lemma at_cong: "pcs s' = pcs s \<Longrightarrow> at s' j q = at s j q"
  by (simp add: at_def)

lemma blocked_cong: "nr s' = nr s \<Longrightarrow> nw s' = nw s \<Longrightarrow> blocked k s' = blocked k s"
  by (cases k) simp_all

lemma points [simp]:
  "inside k L_idle = False" "inside k (L_order l) = False" "inside k (L_mutex l) = False"
  "inside k (L_test l) = False" "inside k (L_wait l) = False" "inside k (L_wake l) = False"
  "inside k (L_enter l) = False" "inside k (L_unord l) = (k = l)" "inside k (L_unmtx l) = (k = l)"
  "inside k (L_held l) = (k = l)" "inside k (U_mutex l) = (k = l)" "inside k (U_leave l) = (k = l)"
  "inside k (U_unmtx l) = False"
  by (auto simp: inside_def)

lemma lk_coreI:
  assumes "lk_core s" "at s i p" "\<And>k. inside k p = inside k q"
    and "owner has_order ((pcs s)[i := q]) m" "owner has_mutex ((pcs s)[i := q]) f"
    and "\<And>k. q = L_enter k \<Longrightarrow> \<not> blocked k s"
  shows "lk_core (goto i q (s\<lparr>order_mtx := m, file_mtx := f\<rparr>))"
proof -
  have i: "i < length (pcs s)" "pcs s ! i = p" using assms(2) by (auto simp: at_def)
  have n: "n_in k ((pcs s)[i := q]) = n_in k (pcs s)" for k
    using n_in_upd [OF i(1), of k q] i(2) assms(3) [of k] by auto
  have b: "blocked k (goto i q (s\<lparr>order_mtx := m, file_mtx := f\<rparr>)) = blocked k s" for k
    by (rule blocked_cong) simp_all
  have "\<not> blocked k s" if "at (goto i q (s\<lparr>order_mtx := m, file_mtx := f\<rparr>)) j (L_enter k)" for j k
    using that i(1) assms(1,6) at_cong [of "s\<lparr>order_mtx := m, file_mtx := f\<rparr>" s]
    by (auto simp: at_goto lk_core_def split: if_splits)
  then show ?thesis using assms(1,4,5) unfolding lk_core_def b by (simp add: n)
qed

lemma lk_invI:
  assumes "lk_inv s" "at s i p" "\<And>k. inside k p = inside k q"
    and "owner has_order ((pcs s)[i := q]) m" "owner has_mutex ((pcs s)[i := q]) f"
    and "\<And>k. q = L_enter k \<Longrightarrow> \<not> blocked k s" "\<And>k. q = L_wait k \<Longrightarrow> blocked k s"
  shows "lk_inv (goto i q (s\<lparr>order_mtx := m, file_mtx := f\<rparr>))"
proof -
  have i: "i < length (pcs s)" using assms(2) by (simp add: at_def)
  have b: "blocked k (goto i q (s\<lparr>order_mtx := m, file_mtx := f\<rparr>)) = blocked k s" for k
    by (rule blocked_cong) simp_all
  have "lk_core (goto i q (s\<lparr>order_mtx := m, file_mtx := f\<rparr>))"
    using lk_coreI [OF _ assms(2-5)] assms(1,6) by (simp add: lk_inv_def)
  moreover have "blocked k s" if "at (goto i q (s\<lparr>order_mtx := m, file_mtx := f\<rparr>)) j (L_wait k)" for j k
    using that i assms(1,7) at_cong [of "s\<lparr>order_mtx := m, file_mtx := f\<rparr>" s]
    by (auto simp: at_goto lk_inv_def split: if_splits)
  ultimately show ?thesis unfolding lk_inv_def b by blast
qed

lemma lk_inv_own:
  assumes "lk_inv s"
  shows "owner has_order (pcs s) (order_mtx s)" "owner has_mutex (pcs s) (file_mtx s)"
  using assms by (simp_all add: lk_inv_def lk_core_def)

lemma has_simps [simp]:
  "has_order L_idle = False" "has_order (L_order k) = False" "has_order (L_mutex k) = True"
  "has_order (L_test k) = True" "has_order (L_wait k) = True" "has_order (L_wake k) = True"
  "has_order (L_enter k) = True" "has_order (L_unord k) = True" "has_order (L_unmtx k) = False"
  "has_order (L_held k) = False" "has_order (U_mutex k) = False" "has_order (U_leave k) = False"
  "has_order (U_unmtx k) = False"
  "has_mutex L_idle = False" "has_mutex (L_order k) = False" "has_mutex (L_mutex k) = False"
  "has_mutex (L_test k) = True" "has_mutex (L_wait k) = False" "has_mutex (L_wake k) = False"
  "has_mutex (L_enter k) = True" "has_mutex (L_unord k) = True" "has_mutex (L_unmtx k) = True"
  "has_mutex (L_held k) = False" "has_mutex (U_mutex k) = False" "has_mutex (U_leave k) = True"
  "has_mutex (U_unmtx k) = True"
  by (simp_all add: has_order_def has_mutex_def)

text \<open>The steps that only move a thread and take or release mutexes.\<close>

lemma lk_inv_move:
  assumes inv: "lk_inv s" and at: "at s i p" and same: "\<And>k. inside k p = inside k q"
    and "m = (if has_order q = has_order p then order_mtx s else if has_order q then Some i else None)"
    and "f = (if has_mutex q = has_mutex p then file_mtx s else if has_mutex q then Some i else None)"
    and "has_order q \<and> \<not> has_order p \<Longrightarrow> order_mtx s = None"
    and "has_mutex q \<and> \<not> has_mutex p \<Longrightarrow> file_mtx s = None"
    and "\<And>k. q = L_enter k \<Longrightarrow> \<not> blocked k s" "\<And>k. q = L_wait k \<Longrightarrow> blocked k s"
  shows "lk_inv (goto i q (s\<lparr>order_mtx := m, file_mtx := f\<rparr>))"
proof (rule lk_invI [OF inv at same])
  note own = lk_inv_own [OF inv]
  have i: "i < length (pcs s)" "pcs s ! i = p" using at by (auto simp: at_def)
  show "owner has_order ((pcs s)[i := q]) m"
    using owner_same [OF own(1) i(1)] owner_take [of has_order "pcs s" i q] owner_drop [OF own(1) i(1)] own i assms(4,6)
    by (auto split: if_splits)
  show "owner has_mutex ((pcs s)[i := q]) f"
    using owner_same [OF own(2) i(1)] owner_take [of has_mutex "pcs s" i q] owner_drop [OF own(2) i(1)] own i assms(5,7)
    by (auto split: if_splits)
qed (use assms(8,9) in auto)

lemma n_in_upd_simps:
  assumes "at s i p"
  shows "inside k p \<Longrightarrow> inside k q \<Longrightarrow> n_in k ((pcs s)[i := q]) = n_in k (pcs s)"
    "\<not> inside k p \<Longrightarrow> \<not> inside k q \<Longrightarrow> n_in k ((pcs s)[i := q]) = n_in k (pcs s)"
    "\<not> inside k p \<Longrightarrow> inside k q \<Longrightarrow> n_in k ((pcs s)[i := q]) = Suc (n_in k (pcs s))"
    "inside k p \<Longrightarrow> \<not> inside k q \<Longrightarrow> Suc (n_in k ((pcs s)[i := q])) = n_in k (pcs s)"
  using n_in_upd [of i "pcs s" k q] assms by (auto simp: at_def)

lemma only_order: "lk_inv s \<Longrightarrow> at s i p \<Longrightarrow> has_order p \<Longrightarrow> at s j q \<Longrightarrow> has_order q \<Longrightarrow> j = i"
  using lk_inv_own(1) [of s] unfolding owner_def at_def by (metis option.inject)

lemma only_mutex: "lk_inv s \<Longrightarrow> at s i p \<Longrightarrow> has_mutex p \<Longrightarrow> at s j q \<Longrightarrow> has_mutex q \<Longrightarrow> j = i"
  using lk_inv_own(2) [of s] unfolding owner_def at_def by (metis option.inject)

lemma unat_incr: "unat (w :: u32) < 2 ^ 32 - 1 \<Longrightarrow> unat (w + 1) = Suc (unat w)"
  by (subst unat_word_ariths(1)) simp

lemma unat_decr: "0 < unat (w :: u32) \<Longrightarrow> unat (w - 1) = unat w - 1"
  by (simp add: unat_minus_one unat_gt_0)

lemma lk_inv_enter:
  assumes inv: "lk_inv s" and at: "at s i (L_enter k)"
  shows "lk_inv (goto i (L_unord k) (lk_incr k s))"
proof -
  have i: "i < length (pcs s)" "pcs s ! i = L_enter k" using at by (auto simp: at_def)
  have free: "\<not> blocked k s" using inv at by (auto simp: lk_inv_def lk_core_def)
  have own: "owner has_order ((pcs s)[i := L_unord k]) (order_mtx s)" "owner has_mutex ((pcs s)[i := L_unord k]) (file_mtx s)"
    using lk_inv_own [OF inv] i by (auto intro!: owner_same)
  have no: "at (goto i (L_unord k) (lk_incr k s)) j q \<Longrightarrow> q \<noteq> L_enter l \<and> q \<noteq> L_wait l" for j q l
    using only_order [OF inv at, of j q] i(1) at_cong [of "lk_incr k s" s] by (auto simp: at_goto split: if_splits)
  have "n_in k ((pcs s)[i := L_unord k]) \<le> length (pcs s)" using n_in_le [of k "(pcs s)[i := L_unord k]"] by simp
  then have "Suc (n_in k (pcs s)) < 2 ^ 32"
    using inv n_in_upd_simps(3) [OF at, of k "L_unord k"] by (simp add: lk_inv_def lk_core_def)
  then show ?thesis
    using inv free own no n_in_upd_simps(2,3) [OF at, of _ "L_unord k"] unfolding lk_inv_def lk_core_def
    by (cases k) (auto simp: unat_incr word_less_nat_alt unat_eq_0 [symmetric] simp del: unat_eq_zero)
qed

text \<open>Leaving: the counters are right again, and a thread that waits in vain is going to be woken.\<close>

lemma lk_core_leave:
  assumes inv: "lk_inv s" and at: "at s i (U_leave k)"
  shows "lk_core (goto i (U_unmtx k) (lk_decr k s))"
proof -
  have i: "i < length (pcs s)" "pcs s ! i = U_leave k" using at by (auto simp: at_def)
  have pos: "0 < n_in k (pcs s)" using n_in_pos [OF at] by simp
  have own: "owner has_order ((pcs s)[i := U_unmtx k]) (order_mtx s)" "owner has_mutex ((pcs s)[i := U_unmtx k]) (file_mtx s)"
    using lk_inv_own [OF inv] i by (auto intro!: owner_same)
  have no: "\<not> at (goto i (U_unmtx k) (lk_decr k s)) j (L_enter l)" for j l
    using only_mutex [OF inv at, of j "L_enter l"] i(1) at_cong [of "lk_decr k s" s]
    by (auto simp: at_goto split: if_splits)
  show ?thesis
    using inv pos own no n_in_upd_simps(2,4) [OF at, of _ "U_unmtx k"] unfolding lk_inv_def lk_core_def
    by (cases k) (auto simp: unat_decr unat_eq_0 [symmetric] simp del: unat_eq_zero)
qed

lemma leave_waiting:
  assumes inv: "lk_inv s" and at: "at s i (U_leave k)" and w: "at (goto i (U_unmtx k) (lk_decr k s)) j (L_wait l)"
    and quiet: "\<not> signals k (lk_decr k s)"
  shows "blocked l (goto i (U_unmtx k) (lk_decr k s))"
proof -
  have i: "i < length (pcs s)" using at by (simp add: at_def)
  have "at s j (L_wait l)" using w i at_cong [of "lk_decr k s" s] by (auto simp: at_goto split: if_splits)
  then have b: "blocked l s" using inv by (auto simp: lk_inv_def)
  have k: "k = Reader" "nr s - 1 \<noteq> 0" using quiet by (cases k; simp)+
  have "0 < n_in Reader (pcs s)" using n_in_pos [OF at] k(1) by simp
  then have "nr s \<noteq> 0" using inv by (auto simp: lk_inv_def lk_core_def)
  then have "nw s = 0" using inv by (auto simp: lk_inv_def lk_core_def)
  with b k show ?thesis by (cases l) (auto simp: word_gt_0)
qed

lemma wake_core: "lk_core s \<Longrightarrow> at s j (L_wait l) \<Longrightarrow> lk_core (goto j (L_wake l) s)"
  using lk_coreI [of s j "L_wait l" "L_wake l" "order_mtx s" "file_mtx s"]
    owner_same [of has_order "pcs s" "order_mtx s" j] owner_same [of has_mutex "pcs s" "file_mtx s" j]
  by (simp add: lk_core_def at_def)

lemma wake_unique:
  assumes "lk_core s" "at s j (L_wait l)"
  shows "\<not> at (goto j (L_wake l) s) j' (L_wait l')"
proof
  assume w: "at (goto j (L_wake l) s) j' (L_wait l')"
  have j: "j < length (pcs s)" "pcs s ! j = L_wait l" using assms(2) by (auto simp: at_def)
  then have w': "j' \<noteq> j" "at s j' (L_wait l')" using w by (auto simp: at_goto split: if_splits)
  have "owner has_order (pcs s) (order_mtx s)" using assms(1) by (simp add: lk_core_def)
  from ownerD [OF this, of j] ownerD [OF this, of j'] w' j show False by (simp add: at_def)
qed

lemma signal_inv:
  assumes "signal s s'" "lk_core s"
  shows "lk_inv s'"
  using assms(1)
proof cases
  case signal_none
  have "\<not> at s i (L_wait k)" for i k
    using signal_none(2) by (auto simp: at_def waiting_def dest!: nth_mem [of i "pcs s"])
  with assms(2) signal_none(1) show ?thesis by (simp add: lk_inv_def)
next
  case (signal_one j k)
  then show ?thesis using wake_core [OF assms(2)] wake_unique [OF assms(2)] by (simp add: lk_inv_def)
qed

lemma leave_inv:
  assumes inv: "lk_inv s" and at: "at s i (U_leave k)" and quiet: "\<not> signals k (lk_decr k s)"
  shows "lk_inv (goto i (U_unmtx k) (lk_decr k s))"
  using lk_core_leave [OF inv at] leave_waiting [OF inv at _ quiet] by (simp add: lk_inv_def)

lemma lk_step_inv: "lk_step i s s' \<Longrightarrow> lk_inv s \<Longrightarrow> lk_inv s'"
proof (induction rule: lk_step.induct)
  case (call_lock s i k)
  then show ?case using lk_inv_move [of s i L_idle "L_order k", OF _ _ _ refl refl] by simp
next
  case (lock_order s i k)
  then show ?case using lk_inv_move [of s i "L_order k" "L_mutex k", OF _ _ _ refl refl] by simp
next
  case (lock_mutex s i k)
  then show ?case using lk_inv_move [of s i "L_mutex k" "L_test k", OF _ _ _ refl refl] by simp
next
  case (test_wait s i k)
  then show ?case using lk_inv_move [of s i "L_test k" "L_wait k", OF _ _ _ refl refl] by simp
next
  case (test_pass s i k)
  then show ?case using lk_inv_move [of s i "L_test k" "L_enter k", OF _ _ _ refl refl] by simp
next
  case (wake_mutex s i k)
  then show ?case using lk_inv_move [of s i "L_wake k" "L_test k", OF _ _ _ refl refl] by simp
next
  case (enter s i k)
  then show ?case by (intro lk_inv_enter)
next
  case (unlock_order s i k)
  then show ?case using lk_inv_move [of s i "L_unord k" "L_unmtx k", OF _ _ _ refl refl] by simp
next
  case (unlock_mutex s i k)
  then show ?case using lk_inv_move [of s i "L_unmtx k" "L_held k", OF _ _ _ refl refl] by simp
next
  case (call_unlock s i k)
  then show ?case using lk_inv_move [of s i "L_held k" "U_mutex k", OF _ _ _ refl refl] by simp
next
  case (relock_mutex s i k)
  then show ?case using lk_inv_move [of s i "U_mutex k" "U_leave k", OF _ _ _ refl refl] by simp
next
  case (leave_quiet s i k)
  then show ?case by (intro leave_inv)
next
  case (leave_signal s i k s')
  then show ?case by (blast intro: signal_inv lk_core_leave)
next
  case (final_unlock s i k)
  then show ?case using lk_inv_move [of s i "U_unmtx k" L_idle, OF _ _ _ refl refl] by simp
qed

lemma lk_spurious_inv: "lk_spurious s s' \<Longrightarrow> lk_inv s \<Longrightarrow> lk_inv s'"
proof (induction rule: lk_spurious.induct)
  case (spurious s i k)
  then show ?case using wake_core wake_unique by (auto simp: lk_inv_def)
qed

lemma lk_inv_init: "n < 2 ^ 32 \<Longrightarrow> lk_inv (flock_init n)"
  by (auto simp: lk_inv_def lk_core_def flock_init_def n_in_def owner_def at_def)

lemma lk_reach_inv: "lk_reach n s \<Longrightarrow> n < 2 ^ 32 \<Longrightarrow> lk_inv s"
  by (induction rule: lk_reach.induct) (auto intro: lk_inv_init lk_step_inv lk_spurious_inv)

section \<open>Progress\<close>

text \<open>A step is always possible unless all threads are outside.\<close>

inductive_cases lk_stepE: "lk_step i s s'"

definition busy :: "lk_pc \<Rightarrow> bool" where
  "busy p \<longleftrightarrow> p \<noteq> L_idle"

text \<open>A step of a thread that is in a call, or between its two calls.\<close>

definition busy_step :: "flock \<Rightarrow> flock \<Rightarrow> bool" where
  "busy_step s s' \<longleftrightarrow> (\<exists>i. lk_step i s s' \<and> \<not> at s i L_idle)"

lemma busy_stepI: "lk_step i s s' \<Longrightarrow> at s i p \<Longrightarrow> p \<noteq> L_idle \<Longrightarrow> busy_step s s'"
  by (auto simp: busy_step_def at_def)

lemma waiting_iff: "waiting p \<longleftrightarrow> (\<exists>k. p = L_wait k)"
  by (cases p) (simp_all add: waiting_def)

lemma signal_total: "\<exists>s'. signal s s'"
proof (cases "\<exists>p \<in> set (pcs s). waiting p")
  case True
  then obtain j k where "at s j (L_wait k)"
    by (auto simp: waiting_iff at_def in_set_conv_nth)
  then show ?thesis by (blast intro: signal_one)
qed (auto intro: signal_none)

lemma test_moves: "at s i (L_test k) \<Longrightarrow> \<exists>s'. lk_step i s s'"
  by (cases "blocked k s") (blast intro: lk_step.intros)+

lemma leave_moves: "at s i (U_leave k) \<Longrightarrow> \<exists>s'. lk_step i s s'"
  using signal_total [of "goto i (U_unmtx k) (lk_decr k s)"]
  by (cases "signals k (lk_decr k s)") (blast intro: lk_step.intros)+

lemma owner_moves:
  assumes "at s i p" "has_mutex p"
  shows "\<exists>s'. busy_step s s'"
proof -
  have "\<exists>s'. lk_step i s s'"
    using assms test_moves leave_moves by (cases p) (auto intro: lk_step.intros)
  then show ?thesis using assms busy_stepI by fastforce
qed

lemma free_moves:
  assumes "at s i p" "file_mtx s = None"
    "(\<exists>k. p = L_mutex k \<or> p = L_wake k \<or> p = U_mutex k \<or> p = L_held k)"
  shows "\<exists>s'. busy_step s s'"
proof -
  have "\<exists>s'. lk_step i s s'" using assms by (auto intro: lk_step.intros)
  then show ?thesis using assms busy_stepI by fastforce
qed

lemma n_in_at:
  assumes "0 < n_in k (pcs s)"
  obtains i p where "at s i p" "inside k p"
  using assms by (auto simp: n_in_def at_def filter_empty_conv in_set_conv_nth)

lemma inside_moves:
  assumes "0 < n_in k (pcs s)" "file_mtx s = None"
  shows "\<exists>s'. busy_step s s'"
proof -
  obtain i p where p: "at s i p" "inside k p" using n_in_at [OF assms(1)] .
  then show ?thesis using owner_moves [OF p(1)] free_moves [OF p(1) assms(2)] by (auto simp: inside_def)
qed

lemma blocked_inside: "lk_inv s \<Longrightarrow> blocked k s \<Longrightarrow> \<exists>l. 0 < n_in l (pcs s)"
  by (cases k) (auto simp: lk_inv_def lk_core_def word_less_nat_alt)

lemma waiting_moves:
  assumes inv: "lk_inv s" and "at s i (L_wait k)" "file_mtx s = None"
  shows "\<exists>s'. busy_step s s'"
proof -
  have "blocked k s" using assms by (simp add: lk_inv_def)
  from blocked_inside [OF inv this] show ?thesis using inside_moves assms(3) by blast
qed

lemma lock_progress:
  assumes inv: "lk_inv s" and "at s i p" "busy p"
  shows "\<exists>s'. busy_step s s'"
proof (cases "file_mtx s")
  case (Some j)
  then have "at s j (pcs s ! j) \<and> has_mutex (pcs s ! j)"
    using lk_inv_own(2) [OF inv] unfolding owner_def at_def by blast
  then show ?thesis using owner_moves by blast
next
  case None
  note free = this
  show ?thesis
  proof (cases "order_mtx s")
    case (Some j)
    then have j: "at s j (pcs s ! j)" "has_order (pcs s ! j)"
      using lk_inv_own(1) [OF inv] unfolding owner_def at_def by blast+
    then show ?thesis
      using owner_moves [OF j(1)] free_moves [OF j(1) free] waiting_moves [OF inv _ free, of j]
      by (cases "pcs s ! j") auto
  next
    case None
    have "\<not> has_order p" using lk_inv_own(1) [OF inv] assms(2) None by (auto simp: owner_def at_def)
    moreover have "p = L_order k \<Longrightarrow> \<exists>s'. busy_step s s'" for k
      using busy_stepI [OF lock_order [of s i k] assms(2)] assms(2) None by blast
    ultimately show ?thesis
      using owner_moves [OF assms(2)] free_moves [OF assms(2) free] assms(3)
      by (cases p) (auto simp: busy_def)
  qed
qed

text \<open>Every such step brings the threads closer to the end of their calls.\<close>

fun rank :: "lk_pc \<Rightarrow> nat" where
  "rank L_idle = 0" | "rank (U_unmtx _) = 1" | "rank (U_leave _) = 5" | "rank (U_mutex _) = 6"
| "rank (L_held _) = 7" | "rank (L_unmtx _) = 8" | "rank (L_unord _) = 9" | "rank (L_enter _) = 10"
| "rank (L_wait _) = 10" | "rank (L_test _) = 11" | "rank (L_wake _) = 12" | "rank (L_mutex _) = 12"
| "rank (L_order _) = 13"

definition work :: "flock \<Rightarrow> nat" where
  "work s = sum_list (map rank (pcs s))"

lemma work_goto:
  assumes "at s i p" "pcs s' = pcs s"
  shows "work (goto i q s') + rank p = work s' + rank q"
proof -
  have i: "i < length (map rank (pcs s))" "pcs s ! i = p" using assms(1) by (auto simp: at_def)
  have "sum_list (map rank (pcs s)) = rank p + sum_list (map rank (take i (pcs s) @ drop (Suc i) (pcs s)))"
    using arg_cong [OF id_take_nth_drop [of i "pcs s"], of "\<lambda>ps. sum_list (map rank ps)"] i by simp
  moreover have "sum_list (map rank ((pcs s)[i := q])) = rank q + sum_list (map rank (take i (pcs s) @ drop (Suc i) (pcs s)))"
    using i by (simp add: upd_conv_take_nth_drop)
  ultimately show ?thesis using assms(2) by (simp add: work_def)
qed

lemma work_cong: "pcs s' = pcs s \<Longrightarrow> work s' = work s"
  by (simp add: work_def)

lemma work_signal: "signal s s' \<Longrightarrow> work s' \<le> work s + 2"
proof (induction rule: signal.induct)
  case (signal_one s j k)
  from work_goto [OF this, of s "L_wake k"] show ?case by simp
qed simp

lemma work_step: "lk_step i s s' \<Longrightarrow> \<not> at s i L_idle \<Longrightarrow> work s' < work s"
proof (induction rule: lk_step.induct)
  case (lock_order s i k)
  from work_goto [OF this(1), of "s\<lparr>order_mtx := Some i\<rparr>" "L_mutex k"] show ?case by (simp add: work_def)
next
  case (lock_mutex s i k)
  from work_goto [OF this(1), of "s\<lparr>file_mtx := Some i\<rparr>" "L_test k"] show ?case by (simp add: work_def)
next
  case (test_wait s i k)
  from work_goto [OF this(1), of "s\<lparr>file_mtx := None\<rparr>" "L_wait k"] show ?case by (simp add: work_def)
next
  case (test_pass s i k)
  from work_goto [OF this(1), of s "L_enter k"] show ?case by simp
next
  case (wake_mutex s i k)
  from work_goto [OF this(1), of "s\<lparr>file_mtx := Some i\<rparr>" "L_test k"] show ?case by (simp add: work_def)
next
  case (enter s i k)
  from work_goto [OF this(1), of "lk_incr k s" "L_unord k"] show ?case by (simp add: work_def)
next
  case (unlock_order s i k)
  from work_goto [OF this(1), of "s\<lparr>order_mtx := None\<rparr>" "L_unmtx k"] show ?case by (simp add: work_def)
next
  case (unlock_mutex s i k)
  from work_goto [OF this(1), of "s\<lparr>file_mtx := None\<rparr>" "L_held k"] show ?case by (simp add: work_def)
next
  case (call_unlock s i k)
  from work_goto [OF this(1), of s "U_mutex k"] show ?case by simp
next
  case (relock_mutex s i k)
  from work_goto [OF this(1), of "s\<lparr>file_mtx := Some i\<rparr>" "U_leave k"] show ?case by (simp add: work_def)
next
  case (leave_quiet s i k)
  from work_goto [OF this(1), of "lk_decr k s" "U_unmtx k"] show ?case by (simp add: work_def)
next
  case (leave_signal s i k s')
  from work_goto [OF this(1), of "lk_decr k s" "U_unmtx k"] work_signal [OF this(3)] show ?case
    by (simp add: work_def)
next
  case (final_unlock s i k)
  from work_goto [OF this(1), of "s\<lparr>file_mtx := None\<rparr>" L_idle] show ?case by (simp add: work_def)
qed simp

lemma work_busy: "busy_step s s' \<Longrightarrow> work s' < work s"
  by (auto simp: busy_step_def intro: work_step)

lemma work_run: "(busy_step ^^ m) s s' \<Longrightarrow> m + work s' \<le> work s"
proof (induction m arbitrary: s')
  case (Suc m)
  from Suc.prems obtain t where t: "(busy_step ^^ m) s t" "busy_step t s'" by auto
  from Suc.IH [OF t(1)] work_busy [OF t(2)] show ?case by simp
qed simp

lemma work_le: "work s \<le> 13 * length (pcs s)"
proof -
  have "rank p \<le> 13" for p by (cases p) auto
  then have "sum_list (map rank ps) \<le> 13 * length ps" for ps
    by (induction ps) (auto simp: add_mono)
  then show ?thesis by (simp add: work_def)
qed

lemma busy_run_reach: "busy_step\<^sup>*\<^sup>* s s' \<Longrightarrow> lk_reach n s \<Longrightarrow> lk_reach n s'"
  by (induction rule: rtranclp_induct) (auto simp: busy_step_def intro: reach_step)

lemma signal_length: "signal s s' \<Longrightarrow> length (pcs s') = length (pcs s)"
  by (induction rule: signal.induct) simp_all

lemma step_length: "lk_step i s s' \<Longrightarrow> length (pcs s') = length (pcs s)"
  by (induction rule: lk_step.induct) (simp_all add: signal_length)

lemma reach_length: "lk_reach n s \<Longrightarrow> length (pcs s) = n"
  by (induction rule: lk_reach.induct) (auto simp: flock_init_def step_length elim!: lk_spurious.cases)

section \<open>Properties\<close>

definition lk_state :: "nat option \<Rightarrow> nat option \<Rightarrow> u32 \<Rightarrow> u32 \<Rightarrow> lk_pc list \<Rightarrow> flock" where
  "lk_state om fm r w ps = \<lparr>order_mtx = om, file_mtx = fm, nr = r, nw = w, pcs = ps\<rparr>"

text \<open>Thread 0 reads and thread 1 waits to write.\<close>

lemma demo_wait: "lk_reach 2 (lk_state (Some 1) None 1 0 [L_held Reader, L_wait Writer])"
proof -
  note defs = lk_state_def at_def goto_def
  have "lk_reach 2 (lk_state None None 0 0 [L_idle, L_idle])"
    using reach_init [of 2] by (simp add: flock_init_def lk_state_def numeral_2_eq_2)
  from reach_step [OF this] call_lock [of "lk_state None None 0 0 [L_idle, L_idle]" 0 Reader]
  have "lk_reach 2 (lk_state None None 0 0 [L_order Reader, L_idle])" by (simp add: defs)
  from reach_step [OF this] lock_order [of "lk_state None None 0 0 [L_order Reader, L_idle]" 0 Reader]
  have "lk_reach 2 (lk_state (Some 0) None 0 0 [L_mutex Reader, L_idle])" by (simp add: defs)
  from reach_step [OF this] lock_mutex [of "lk_state (Some 0) None 0 0 [L_mutex Reader, L_idle]" 0 Reader]
  have "lk_reach 2 (lk_state (Some 0) (Some 0) 0 0 [L_test Reader, L_idle])" by (simp add: defs)
  from reach_step [OF this] test_pass [of "lk_state (Some 0) (Some 0) 0 0 [L_test Reader, L_idle]" 0 Reader]
  have "lk_reach 2 (lk_state (Some 0) (Some 0) 0 0 [L_enter Reader, L_idle])" by (simp add: defs)
  from reach_step [OF this] enter [of "lk_state (Some 0) (Some 0) 0 0 [L_enter Reader, L_idle]" 0 Reader]
  have "lk_reach 2 (lk_state (Some 0) (Some 0) 1 0 [L_unord Reader, L_idle])" by (simp add: defs)
  from reach_step [OF this] unlock_order [of "lk_state (Some 0) (Some 0) 1 0 [L_unord Reader, L_idle]" 0 Reader]
  have "lk_reach 2 (lk_state None (Some 0) 1 0 [L_unmtx Reader, L_idle])" by (simp add: defs)
  from reach_step [OF this] unlock_mutex [of "lk_state None (Some 0) 1 0 [L_unmtx Reader, L_idle]" 0 Reader]
  have "lk_reach 2 (lk_state None None 1 0 [L_held Reader, L_idle])" by (simp add: defs)
  from reach_step [OF this] call_lock [of "lk_state None None 1 0 [L_held Reader, L_idle]" 1 Writer]
  have "lk_reach 2 (lk_state None None 1 0 [L_held Reader, L_order Writer])" by (simp add: defs)
  from reach_step [OF this] lock_order [of "lk_state None None 1 0 [L_held Reader, L_order Writer]" 1 Writer]
  have "lk_reach 2 (lk_state (Some 1) None 1 0 [L_held Reader, L_mutex Writer])" by (simp add: defs)
  from reach_step [OF this] lock_mutex [of "lk_state (Some 1) None 1 0 [L_held Reader, L_mutex Writer]" 1 Writer]
  have "lk_reach 2 (lk_state (Some 1) (Some 1) 1 0 [L_held Reader, L_test Writer])" by (simp add: defs)
  from reach_step [OF this] test_wait [of "lk_state (Some 1) (Some 1) 1 0 [L_held Reader, L_test Writer]" 1 Writer]
  show ?thesis by (simp add: defs)
qed


text \<open>C24: the lock of a file, under every interleaving of the calls of any number of threads, with spurious
  wake-ups: a thread that holds it for writing is alone, the counters are the numbers of threads
  inside, at most one thread waits on the condition variable, and none waits that could go on (no
  signal is lost, although \<open>signal\<close> wakes only one thread).\<close>

theorem rw_lock_safe:
  assumes "lk_reach n s" "n < 2 ^ 32"
  shows "(at s i (L_held Writer) \<and> at s j (L_held k) \<longrightarrow> i = j) \<and>
    unat (nr s) = n_in Reader (pcs s) \<and> unat (nw s) = n_in Writer (pcs s) \<and>
    (at s i (L_wait k) \<longrightarrow> blocked k s) \<and> (at s i (L_wait k) \<and> at s j (L_wait l) \<longrightarrow> i = j)"
proof -
  have inv: "lk_inv s" using lk_reach_inv [OF assms] .
  have "i = j" if h: "at s i (L_held Writer)" "at s j (L_held k)"
  proof -
    have c: "unat (nr s) = n_in Reader (pcs s)" "unat (nw s) = n_in Writer (pcs s)" "unat (nw s) \<le> 1"
      "nw s \<noteq> 0 \<longrightarrow> nr s = 0" using inv by (simp_all add: lk_inv_def lk_core_def)
    have w: "0 < n_in Writer (pcs s)" using n_in_pos [OF h(1)] by simp
    then have "n_in Reader (pcs s) = 0" using c by auto
    then have k: "k = Writer" using n_in_pos [OF h(2), of Reader] by (cases k) auto
    show "i = j"
    proof (rule ccontr)
      assume "i \<noteq> j"
      then have j: "at (goto i L_idle s) j (L_held Writer)" using h k by (simp add: at_def)
      have "0 < n_in Writer ((pcs s)[i := L_idle])" using n_in_pos [OF j] by simp
      then show False using n_in_upd_simps(4) [OF h(1), of Writer L_idle] c(2,3) by simp
    qed
  qed
  moreover have "i = j" if "at s i (L_wait k)" "at s j (L_wait l)"
    using only_order [OF inv that(2) _ that(1)] by simp
  ultimately show ?thesis using inv by (auto simp: lk_inv_def lk_core_def)
qed

lemma rw_lock_safe_witness:
  "unat (nr (lk_state (Some 1) None 1 0 [L_held Reader, L_wait Writer])) = 1 \<and>
   blocked Writer (lk_state (Some 1) None 1 0 [L_held Reader, L_wait Writer])"
  using rw_lock_safe [OF demo_wait, of 1 0 Writer] by (simp add: lk_state_def at_def n_in_def)

text \<open>C25: every call returns. Once no new call is made, the threads make at most 13 steps each, whatever the
  interleaving, and when no step is left every call has returned: nobody waits for ever, provided
  that who holds the lock releases it.\<close>

theorem rw_lock_live:
  assumes "lk_reach n s" "n < 2 ^ 32"
  shows "((busy_step ^^ m) s s' \<longrightarrow> m \<le> 13 * n) \<and>
    (busy_step\<^sup>*\<^sup>* s s' \<and> (\<nexists>t. busy_step s' t) \<longrightarrow> pcs s' = replicate n L_idle)"
proof -
  have "m \<le> 13 * n" if "(busy_step ^^ m) s s'"
    using work_run [OF that] work_le [of s] reach_length [OF assms(1)] by simp
  moreover have "pcs s' = replicate n L_idle" if r: "busy_step\<^sup>*\<^sup>* s s'" "\<nexists>t. busy_step s' t"
  proof -
    have reach: "lk_reach n s'" using busy_run_reach [OF r(1) assms(1)] .
    have "\<not> busy (pcs s' ! i)" if "i < length (pcs s')" for i
      using lock_progress [OF lk_reach_inv [OF reach assms(2)], of i "pcs s' ! i"] r(2) that by (auto simp: at_def)
    then show ?thesis using reach_length [OF reach] by (intro nth_equalityI) (auto simp: busy_def)
  qed
  ultimately show ?thesis by blast
qed

lemma rw_lock_live_witness:
  "\<exists>m s'. (busy_step ^^ m) (lk_state (Some 1) None 1 0 [L_held Reader, L_wait Writer]) s' \<and> m \<le> 26 \<and> 0 < m"
proof -
  let ?s = "lk_state (Some 1) None 1 0 [L_held Reader, L_wait Writer]"
  have "at ?s 0 (L_held Reader)" by (simp add: at_def lk_state_def)
  from busy_stepI [OF call_unlock [OF this] this] have r: "(busy_step ^^ 1) ?s (goto 0 (U_mutex Reader) ?s)"
    by (simp only: relpowp_1 lk_pc.distinct not_False_eq_True True_implies_equals)
  with rw_lock_live [OF demo_wait, of 1 "goto 0 (U_mutex Reader) ?s"] show ?thesis
    by (intro exI [of _ 1] exI [of _ "goto 0 (U_mutex Reader) ?s"]) simp
qed

section \<open>A request that runs alone\<close>

text \<open>
  The functions of \<open>Server_State\<close> are what one thread does when nobody else moves: it gets through
  with the counters they give, or ends up waiting where they are stuck.
\<close>

definition quiet :: "flock \<Rightarrow> file_t \<Rightarrow> bool" where
  "quiet l f \<longleftrightarrow> order_mtx l = None \<and> file_mtx l = None \<and> nr l = n_readers f \<and> nw l = n_writers f"

definition seq_lock :: "side \<Rightarrow> nat \<Rightarrow> server \<Rightarrow> server res" where
  "seq_lock k = (case k of Reader \<Rightarrow> file_reader_lock | Writer \<Rightarrow> file_writer_lock)"

definition seq_unlock :: "side \<Rightarrow> nat \<Rightarrow> server \<Rightarrow> server res" where
  "seq_unlock k = (case k of Reader \<Rightarrow> file_reader_unlock | Writer \<Rightarrow> file_writer_unlock)"

lemma goto_goto [simp]: "goto i p (goto i q s) = goto i p s"
  by (simp add: goto_def)

lemma goto_fields [simp]:
  "(goto i p s)\<lparr>order_mtx := m\<rparr> = goto i p (s\<lparr>order_mtx := m\<rparr>)"
  "(goto i p s)\<lparr>file_mtx := m\<rparr> = goto i p (s\<lparr>file_mtx := m\<rparr>)"
  "lk_incr k (goto i p s) = goto i p (lk_incr k s)" "lk_decr k (goto i p s) = goto i p (lk_decr k s)"
  by (cases k; simp add: goto_def)+

lemma at_goto_self [simp]: "i < length (pcs s) \<Longrightarrow> at (goto i p s) i q = (q = p)"
  by (auto simp: at_goto)

lemma lk_incr_fields [simp]:
  "(lk_incr k s)\<lparr>order_mtx := m\<rparr> = lk_incr k (s\<lparr>order_mtx := m\<rparr>)"
  "(lk_incr k s)\<lparr>file_mtx := m\<rparr> = lk_incr k (s\<lparr>file_mtx := m\<rparr>)"
  "(lk_decr k s)\<lparr>file_mtx := m\<rparr> = lk_decr k (s\<lparr>file_mtx := m\<rparr>)"
  by (cases k; simp)+

lemma blocked_goto [simp]: "blocked k (goto i p s) = blocked k s"
  by (rule blocked_cong) simp_all

lemma blocked_mtx [simp]: "blocked k (s\<lparr>order_mtx := m\<rparr>) = blocked k s" "blocked k (s\<lparr>file_mtx := m\<rparr>) = blocked k s"
  by (rule blocked_cong; simp)+

lemma lock_test:
  assumes "at l i L_idle" "order_mtx l = None" "file_mtx l = None"
  shows "(lk_step i)\<^sup>*\<^sup>* l (goto i (L_test k) (l\<lparr>order_mtx := Some i, file_mtx := Some i\<rparr>))"
proof -
  have i: "i < length (pcs l)" using assms(1) by (simp add: at_def)
  have "lk_step i l (goto i (L_order k) l)" by (rule call_lock [OF assms(1)])
  moreover have "lk_step i (goto i (L_order k) l) (goto i (L_mutex k) (l\<lparr>order_mtx := Some i\<rparr>))"
    using lock_order [of "goto i (L_order k) l" i k] i assms by simp
  moreover have "lk_step i (goto i (L_mutex k) (l\<lparr>order_mtx := Some i\<rparr>))
      (goto i (L_test k) (l\<lparr>order_mtx := Some i, file_mtx := Some i\<rparr>))"
    using lock_mutex [of "goto i (L_mutex k) (l\<lparr>order_mtx := Some i\<rparr>)" i k] i assms by simp
  ultimately show ?thesis by (blast intro: converse_rtranclp_into_rtranclp)
qed

lemma lock_alone:
  assumes "at l i L_idle" "order_mtx l = None" "file_mtx l = None"
  shows "\<not> blocked k l \<Longrightarrow> (lk_step i)\<^sup>*\<^sup>* l (goto i (L_held k) (lk_incr k l))"
    "blocked k l \<Longrightarrow> (lk_step i)\<^sup>*\<^sup>* l (goto i (L_wait k) (l\<lparr>order_mtx := Some i\<rparr>))"
proof -
  let ?t = "l\<lparr>order_mtx := Some i, file_mtx := Some i\<rparr>"
  have i: "i < length (pcs l)" using assms(1) by (simp add: at_def)
  have same: "l\<lparr>order_mtx := None, file_mtx := None\<rparr> = l" using assms(2,3) by simp
  show "(lk_step i)\<^sup>*\<^sup>* l (goto i (L_held k) (lk_incr k l))" if "\<not> blocked k l"
  proof -
    have "lk_step i (goto i (L_test k) ?t) (goto i (L_enter k) ?t)"
      using test_pass [of "goto i (L_test k) ?t" i k] i that by simp
    moreover have "lk_step i (goto i (L_enter k) ?t) (goto i (L_unord k) (lk_incr k ?t))"
      using enter [of "goto i (L_enter k) ?t" i k] i by simp
    moreover have "lk_step i (goto i (L_unord k) (lk_incr k ?t)) (goto i (L_unmtx k) (lk_incr k (?t\<lparr>order_mtx := None\<rparr>)))"
      using unlock_order [of "goto i (L_unord k) (lk_incr k ?t)" i k] i by simp
    moreover have "lk_step i (goto i (L_unmtx k) (lk_incr k (?t\<lparr>order_mtx := None\<rparr>))) (goto i (L_held k) (lk_incr k l))"
      using unlock_mutex [of "goto i (L_unmtx k) (lk_incr k (?t\<lparr>order_mtx := None\<rparr>))" i k] i same by simp
    ultimately show ?thesis
      by (rule rtranclp.rtrancl_into_rtrancl [OF rtranclp.rtrancl_into_rtrancl [OF rtranclp.rtrancl_into_rtrancl
            [OF rtranclp.rtrancl_into_rtrancl [OF lock_test [OF assms, of k]]]]])
  qed
  have free: "l\<lparr>order_mtx := Some i, file_mtx := None\<rparr> = l\<lparr>order_mtx := Some i\<rparr>"
    using assms(3) by (cases l) simp
  show "(lk_step i)\<^sup>*\<^sup>* l (goto i (L_wait k) (l\<lparr>order_mtx := Some i\<rparr>))" if "blocked k l"
    using rtranclp.rtrancl_into_rtrancl [OF lock_test [OF assms, of k]]
      test_wait [of "goto i (L_test k) ?t" i k] i that free by simp
qed

text \<open>C26: the lock functions that the handlers use are the interleaved ones run alone: when the sequential
  function succeeds, the thread by itself gets to hold the lock, with the same counters; when it
  is stuck, the thread by itself ends up waiting on the condition variable.\<close>

theorem seq_lock_alone:
  assumes "fheap s a = Some f" "quiet l f" "at l i L_idle"
  shows "case seq_lock k a s of
      Ok s' \<Rightarrow> \<exists>f'. fheap s' a = Some f' \<and>
        (lk_step i)\<^sup>*\<^sup>* l (goto i (L_held k) (l\<lparr>nr := n_readers f', nw := n_writers f'\<rparr>))
    | Stuck \<Rightarrow> (lk_step i)\<^sup>*\<^sup>* l (goto i (L_wait k) (l\<lparr>order_mtx := Some i\<rparr>))
    | _ \<Rightarrow> False"
proof -
  have q: "order_mtx l = None" "file_mtx l = None" "nr l = n_readers f" "nw l = n_writers f"
    using assms(2) by (simp_all add: quiet_def)
  note alone = lock_alone [OF assms(3) q(1,2), of k]
  show ?thesis
  proof (cases k)
    case Reader
    have e: "l\<lparr>nr := n_readers f + 1, nw := n_writers f\<rparr> = lk_incr Reader l" using q by (cases l) simp
    have "\<not> blocked k l \<Longrightarrow> (lk_step i)\<^sup>*\<^sup>* l (goto i (L_held k) (l\<lparr>nr := n_readers f + 1, nw := n_writers f\<rparr>))"
      unfolding e using alone(1) Reader by blast
    with Reader alone(2) q(3,4) assms(1) show ?thesis
      by (auto simp: seq_lock_def file_reader_lock_def upd_file_def deref_def)
  next
    case Writer
    have e: "l\<lparr>nr := n_readers f, nw := n_writers f + 1\<rparr> = lk_incr Writer l" using q by (cases l) simp
    have "\<not> blocked k l \<Longrightarrow> (lk_step i)\<^sup>*\<^sup>* l (goto i (L_held k) (l\<lparr>nr := n_readers f, nw := n_writers f + 1\<rparr>))"
      unfolding e using alone(1) Writer by blast
    with Writer alone(2) q(3,4) assms(1) show ?thesis
      by (auto simp: seq_lock_def file_writer_lock_def upd_file_def deref_def)
  qed
qed

lemma seq_lock_alone_witness:
  "\<exists>l'. (lk_step 0)\<^sup>*\<^sup>* (flock_init 1) (goto 0 (L_held Writer) l') \<and> nw l' = 1"
proof -
  have "fheap demo 0 = Some (demo_file [97] [1, 2, 3] 4 1 9)" by (simp add: demo_def)
  from seq_lock_alone [OF this, of "flock_init 1" 0 Writer] show ?thesis
    by (auto simp: quiet_def flock_init_def at_def demo_file_def seq_lock_def file_writer_lock_def upd_file_def
        deref_def demo_def)
qed

end
