(* ===== verification/Replacement.thy ===== *)
theory Replacement
  imports Server_State
begin

text \<open>
  \<open>server/replacement.c\<close>: the choice of the file to expel, by time of last use or of creation, and
  the expulsion of as many files as it takes to free some space.
\<close>

section \<open>Policies\<close>

definition timespec_cmp :: "timespec \<Rightarrow> timespec \<Rightarrow> int" where
  "timespec_cmp a b =
     (if tv_sec a > tv_sec b then 1
      else if tv_sec a < tv_sec b then -1
      else if tv_nsec a > tv_nsec b then 1
      else if tv_nsec a < tv_nsec b then -1
      else 0)"

definition LRU_policy :: "file_t \<Rightarrow> file_t \<Rightarrow> int" where
  "LRU_policy a b = timespec_cmp (last_use a) (last_use b)"

definition FIFO_policy :: "file_t \<Rightarrow> file_t \<Rightarrow> int" where
  "FIFO_policy a b = timespec_cmp (creation_time a) (creation_time b)"

definition policy_fun :: "policy_t \<Rightarrow> file_t \<Rightarrow> file_t \<Rightarrow> int" where
  "policy_fun p = (if p = FIFO then FIFO_policy else LRU_policy)"

section \<open>One expulsion\<close>

text \<open>
  The scan over the files, in the order of the iterator. It takes the writer lock of every file
  that can be expelled and keeps the lock of the least file found so far.
\<close>

fun expell_scan ::
  "(file_t \<Rightarrow> file_t \<Rightarrow> int) \<Rightarrow> nat list \<Rightarrow> nat option \<Rightarrow> server \<Rightarrow> (nat option \<times> server) res" where
  "expell_scan pol [] least s = Ok (least, s)"
| "expell_scan pol (a # as) least s =
     rbind (deref a s) (\<lambda>f.
       if \<not> can_be_expelled f then expell_scan pol as least s
       else rbind (file_writer_lock a s) (\<lambda>s.
         case least of
           None \<Rightarrow> expell_scan pol as (Some a) s
         | Some b \<Rightarrow>
             rbind (deref a s) (\<lambda>f. rbind (deref b s) (\<lambda>g.
               if pol f g < 0
               then rbind (file_writer_unlock b s) (\<lambda>s. expell_scan pol as (Some a) s)
               else rbind (file_writer_unlock a s) (\<lambda>s. expell_scan pol as least s)))))"

text \<open>
  The chosen file leaves the map and the counters. Looking for it by its path must find it,
  otherwise the caller's pointer is used unset.
\<close>

definition take_out :: "nat \<Rightarrow> server \<Rightarrow> (nat option \<times> server) res" where
  "take_out a s =
     rbind (deref a s) (\<lambda>f.
     rbind (hashmap_remove (files s) (path_name f)) (\<lambda>(r, mp).
       case r of
         Inr (Some (k, b)) \<Rightarrow>
           rbind (deref b s) (\<lambda>g.
             Ok (Some b, s\<lparr>files := mp,
               curr_state := (curr_state s)
                 \<lparr>st_files := st_files (curr_state s) - 1,
                  st_space := st_space (curr_state s) - fsize g,
                  st_no_LRU := st_no_LRU (curr_state s) + 1\<rparr>\<rparr>))
       | _ \<Rightarrow> UB))"

text \<open>
  \<open>None\<close> is the return value -1. The least file is dereferenced without a test: when no file can
  be expelled it is \<open>NULL\<close>.
\<close>

definition expell_single_file :: "server \<Rightarrow> (nat option \<times> server) res" where
  "expell_single_file s =
     (case files s of
        None \<Rightarrow> UB
      | Some m \<Rightarrow>
          if nelem m = 0 then Ok (None, s)
          else rbind (safe_malloc 16 (smem s)) (\<lambda>mm.
               rbind (iter_all (files s)) (\<lambda>(es, err).
               rbind (expell_scan (policy_fun (cfg_policy (config s))) (map snd es) None (s\<lparr>smem := mm\<rparr>))
                 (\<lambda>(least, s).
                    if err \<noteq> Some (Inr False) then Ok (None, s)
                    else case least of None \<Rightarrow> UB | Some a \<Rightarrow> take_out a s))))"

section \<open>Many expulsions\<close>

text \<open>Every expulsion takes an entry out of the map, which bounds the loop of \<open>expell_multiple_files\<close>.\<close>

definition n_entries :: "server \<Rightarrow> nat" where
  "n_entries s = (case files s of None \<Rightarrow> 0 | Some m \<Rightarrow> length (entries m))"

lemma upd_file_files: "upd_file a g s = Ok s' \<Longrightarrow> files s' = files s"
  by (auto simp: upd_file_def rbind_eq_Ok)

lemma expell_scan_files: "expell_scan pol as least s = Ok (l, s') \<Longrightarrow> files s' = files s"
proof (induction as arbitrary: least s)
  case (Cons a as)
  then show ?case
    by (auto simp: rbind_eq_Ok file_writer_lock_def file_writer_unlock_def upd_file_files
        split: if_splits option.splits)
qed simp

lemma hashmap_remove_shrinks:
  assumes "hashmap_remove (Some m) k = Ok (Inr (Some e), mp)"
  shows "\<exists>m'. mp = Some m' \<and> length (entries m') < length (entries m)"
proof -
  from assms obtain i where i: "tab_slot m k = Ok i" "tab_find fst k i m = Some e"
      "mp = Some (tab_unlink fst k i m)"
    by (auto simp: hashmap_remove_def rbind_eq_Ok split: option.splits)
  then have "i < length (lists m)" by (auto simp: tab_slot_def split: if_splits)
  from mset_eq_length [OF tab_unlink_entries [OF i(2) this, folded mset.simps(2)]] i show ?thesis by simp
qed

lemma take_out_shrinks:
  assumes "take_out y s = Ok (Some a, s')"
  shows "n_entries s' < n_entries s"
proof -
  obtain f where f: "deref y s = Ok f" using assms by (auto simp: take_out_def rbind_eq_Ok)
  obtain r mp where rem: "hashmap_remove (files s) (path_name f) = Ok (r, mp)"
    using assms f by (auto simp: take_out_def rbind_eq_Ok)
  then obtain e where e: "r = Inr (Some e)" "files s' = mp"
    using assms f by (auto simp: take_out_def rbind_eq_Ok split: sum.splits option.splits prod.splits)
  obtain m where m: "files s = Some m"
    using rem e by (auto simp: hashmap_remove_def split: option.splits)
  with rem e hashmap_remove_shrinks [of m "path_name f" e mp] show ?thesis
    by (auto simp: n_entries_def)
qed

lemma expell_single_shrinks:
  assumes "expell_single_file s = Ok (Some a, s')"
  shows "n_entries s' < n_entries s"
  using assms
  by (auto simp: expell_single_file_def rbind_eq_Ok n_entries_def
      dest!: expell_scan_files take_out_shrinks split: option.splits if_splits)

function expell_loop :: "u64 \<Rightarrow> u64 \<Rightarrow> nat list \<Rightarrow> server \<Rightarrow> (nat list \<times> server) res" where
  "expell_loop size_to_free freed expelled s =
     (if freed < size_to_free
      then rbind (expell_single_file s) (\<lambda>(r, s').
             case r of
               None \<Rightarrow> Ok (expelled, s')
             | Some a \<Rightarrow>
                 (case malloc (smem s') of
                    (False, _) \<Rightarrow> Exit
                  | (True, m) \<Rightarrow>
                      rbind (deref a s') (\<lambda>f.
                        expell_loop size_to_free (freed + fsize f) (expelled @ [a]) (s'\<lparr>smem := m\<rparr>))))
      else Ok (expelled, s))"
  by pat_completeness auto
termination
  by (relation "measure (\<lambda>(z, d, xs, s). n_entries s)")
    (auto simp: n_entries_def dest!: expell_single_shrinks)

declare expell_loop.simps [simp del]

text \<open>The return value, the list of expelled files and the state.\<close>

definition expell_multiple_files ::
  "u64 \<Rightarrow> nat list option \<Rightarrow> server \<Rightarrow> (int \<times> nat list option \<times> server) res" where
  "expell_multiple_files size_to_free expelled_list s =
     (case expelled_list of
        None \<Rightarrow> Ok (-1, None, s)
      | Some xs \<Rightarrow>
          if size_to_free > st_space (curr_state s) then Ok (-1, Some xs, s)
          else rbind (expell_loop size_to_free 0 xs s) (\<lambda>(xs, s). Ok (0, Some xs, s)))"

section \<open>The file that the scan chooses\<close>

text \<open>The choice as a pure function of the files \<open>F\<close> and the time a policy looks at.\<close>

fun pick :: "(file_t \<Rightarrow> timespec) \<Rightarrow> (nat \<Rightarrow> file_t) \<Rightarrow> nat list \<Rightarrow> nat option \<Rightarrow> nat option" where
  "pick st F [] l = l"
| "pick st F (a # as) l =
     (if \<not> can_be_expelled (F a) then pick st F as l
      else case l of None \<Rightarrow> pick st F as (Some a)
           | Some b \<Rightarrow> pick st F as (if st (F a) < st (F b) then Some a else Some b))"

lemma pick_spec:
  "case pick st F as l of
     None \<Rightarrow> l = None \<and> (\<forall>x \<in> set as. \<not> can_be_expelled (F x))
   | Some v \<Rightarrow> (l = Some v \<or> v \<in> set as \<and> can_be_expelled (F v)) \<and>
       (\<forall>x \<in> set as. can_be_expelled (F x) \<longrightarrow> st (F v) \<le> st (F x)) \<and>
       (\<forall>b. l = Some b \<longrightarrow> st (F v) \<le> st (F b))"
proof (induction as arbitrary: l)
  case Nil
  then show ?case by (cases l) auto
next
  case (Cons a as)
  show ?case
  proof (cases "can_be_expelled (F a)")
    case False
    then show ?thesis using Cons.IH [of l] by (auto split: option.splits)
  next
    case True
    show ?thesis
    proof (cases l)
      case None
      then show ?thesis using True Cons.IH [of "Some a"] by (auto split: option.splits)
    next
      case (Some b)
      then show ?thesis
        using True Cons.IH [of "Some a"] Cons.IH [of "Some b"]
        by (cases "st (F a) < st (F b)") (auto split: option.splits)
    qed
  qed
qed

definition held :: "nat option \<Rightarrow> (nat \<Rightarrow> file_t option) \<Rightarrow> nat \<Rightarrow> file_t option" where
  "held l h = (case l of None \<Rightarrow> h | Some b \<Rightarrow> h(b := map_option (\<lambda>f. f\<lparr>n_writers := 1\<rparr>) (h b)))"

lemma held_simps [simp]:
  "held None h = h" "held (Some b) h b = map_option (\<lambda>f. f\<lparr>n_writers := 1\<rparr>) (h b)"
  "a \<noteq> b \<Longrightarrow> held (Some b) h a = h a"
  by (simp_all add: held_def)

lemma file_unlock_id: "n_writers f = 0 \<Longrightarrow> f\<lparr>n_writers := 0\<rparr> = f"
  by (cases f) simp

text \<open>
  A replacement policy compares the files by a time that locking does not change. This is all
  the scan relies on.
\<close>

locale time_policy =
  fixes pol :: "file_t \<Rightarrow> file_t \<Rightarrow> int" and stamp :: "file_t \<Rightarrow> timespec"
  assumes pol_less: "pol f g < 0 \<longleftrightarrow> stamp f < stamp g"
    and stamp_lock: "stamp (f\<lparr>n_writers := n\<rparr>) = stamp f"
begin

lemma scan_pick:
  assumes "distinct as" "\<And>a. a \<in> set as \<Longrightarrow> \<exists>f. fheap s a = Some f \<and> (can_be_expelled f \<longrightarrow> unlocked f)"
    "\<And>b. least = Some b \<Longrightarrow> b \<notin> set as \<and> (\<exists>g. fheap s b = Some g \<and> unlocked g)"
  shows "expell_scan pol as least (s\<lparr>fheap := held least (fheap s)\<rparr>) =
    (let l = pick stamp (\<lambda>a. the (fheap s a)) as least in Ok (l, s\<lparr>fheap := held l (fheap s)\<rparr>))"
  using assms
proof (induction as arbitrary: least)
  case (Cons a as)
  obtain f where f: "fheap s a = Some f" "can_be_expelled f \<longrightarrow> unlocked f" using Cons.prems(2) by force
  have d: "distinct as" "a \<notin> set as" using Cons.prems(1) by auto
  have IH: "expell_scan pol as l (s\<lparr>fheap := held l (fheap s)\<rparr>) =
      (let l = pick stamp (\<lambda>a. the (fheap s a)) as l in Ok (l, s\<lparr>fheap := held l (fheap s)\<rparr>))"
    if "l = least \<or> l = Some a \<and> can_be_expelled f" for l
    by (rule Cons.IH [OF d(1)]) (use Cons.prems that f d in auto)
  have a_ne: "least \<noteq> Some a" using Cons.prems(3) [of a] by auto
  show ?case
  proof (cases "can_be_expelled f")
    case False
    moreover have "held least (fheap s) a = Some f" using f a_ne by (cases least) (auto simp: held_def)
    ultimately show ?thesis using f IH [of least] by (simp add: deref_def)
  next
    case True
    then have u: "n_readers f = 0" "n_writers f = 0" using f by (auto simp: unlocked_def)
    show ?thesis
    proof (cases least)
      case None
      with True f u IH [of "Some a"] show ?thesis
        by (simp add: deref_def file_writer_lock_def upd_file_def held_def)
    next
      case (Some b)
      then obtain g where g: "fheap s b = Some g" "unlocked g" "b \<noteq> a" using Cons.prems(3) a_ne by auto
      have u': "n_writers g = 0" using g by (simp add: unlocked_def)
      obtain h where h: "h = held least (fheap s)" by blast
      have ha: "h a = Some f" and hb: "h b = Some (g\<lparr>n_writers := 1\<rparr>)" using h Some f g by simp_all
      have swap: "h(a \<mapsto> f\<lparr>n_writers := 1\<rparr>, b \<mapsto> g) = held (Some a) (fheap s)" "h(a \<mapsto> f) = h"
        using h Some g f by (auto simp: held_def fun_eq_iff)
      have "expell_scan pol (a # as) least (s\<lparr>fheap := h\<rparr>) =
          (if stamp f < stamp g
           then expell_scan pol as (Some a) (s\<lparr>fheap := h(a \<mapsto> f\<lparr>n_writers := 1\<rparr>, b \<mapsto> g\<lparr>n_writers := 0\<rparr>)\<rparr>)
           else expell_scan pol as (Some b) (s\<lparr>fheap := h(a \<mapsto> f\<lparr>n_writers := 0\<rparr>)\<rparr>))"
        using True u u' ha hb g(3) Some
        by (simp add: deref_def file_writer_lock_def file_writer_unlock_def upd_file_def pol_less stamp_lock)
      also have "\<dots> = (if stamp f < stamp g
           then expell_scan pol as (Some a) (s\<lparr>fheap := held (Some a) (fheap s)\<rparr>)
           else expell_scan pol as (Some b) (s\<lparr>fheap := held (Some b) (fheap s)\<rparr>))"
        using swap u u' h Some by (simp add: file_unlock_id)
      finally show ?thesis
        using True f g Some h IH [of "Some a"] IH [of "Some b"] by simp
    qed
  qed
qed simp

end

definition policy_stamp :: "policy_t \<Rightarrow> file_t \<Rightarrow> timespec" where
  "policy_stamp p = (if p = FIFO then creation_time else last_use)"

lemma timespec_cmp_less: "timespec_cmp a b < 0 \<longleftrightarrow> a < b"
  by (auto simp: timespec_cmp_def less_timespec_def)

interpretation lru: time_policy LRU_policy last_use
  by unfold_locales (simp_all add: LRU_policy_def timespec_cmp_less)

interpretation fifo: time_policy FIFO_policy creation_time
  by unfold_locales (simp_all add: FIFO_policy_def timespec_cmp_less)

interpretation policy: time_policy "policy_fun p" "policy_stamp p" for p
  by (cases p; unfold_locales)
    (simp_all add: policy_fun_def policy_stamp_def LRU_policy_def FIFO_policy_def timespec_cmp_less)

section \<open>One expulsion on a well-formed store\<close>

text \<open>The files that can be expelled are not locked, as when one request runs alone.\<close>

definition evictable_free :: "server \<Rightarrow> bool" where
  "evictable_free s \<longleftrightarrow> (\<forall>k f. stored s k = Some f \<longrightarrow> can_be_expelled f \<longrightarrow> unlocked f)"

text \<open>\<open>f\<close> comes first in the order of the policy among the files that can be expelled.\<close>

definition least_stored :: "(file_t \<Rightarrow> timespec) \<Rightarrow> (path \<Rightarrow> file_t option) \<Rightarrow> file_t \<Rightarrow> bool" where
  "least_stored st M f \<longleftrightarrow> can_be_expelled f \<and>
     (\<forall>k g. M k = Some g \<longrightarrow> can_be_expelled g \<longrightarrow> st f \<le> st g)"

text \<open>The counters that an expulsion of \<open>n\<close> files with \<open>z\<close> bytes leaves alone or changes.\<close>

definition counted_out :: "nat \<Rightarrow> nat \<Rightarrow> server \<Rightarrow> server \<Rightarrow> bool" where
  "counted_out n z s s' \<longleftrightarrow>
     unat (st_files (curr_state s')) + n = unat (st_files (curr_state s)) \<and>
     unat (st_space (curr_state s')) + z = unat (st_space (curr_state s)) \<and>
     st_no_LRU (curr_state s') = st_no_LRU (curr_state s) + word_of_nat n \<and>
     st_max_files (curr_state s') = st_max_files (curr_state s) \<and>
     st_max_space (curr_state s') = st_max_space (curr_state s) \<and>
     st_conn (curr_state s') = st_conn (curr_state s) \<and> st_max_conn (curr_state s') = st_max_conn (curr_state s) \<and>
     config s' = config s \<and> clock s' = clock s \<and> fnext s' = fnext s \<and> smem s' = smem s"

lemma counted_out_0: "counted_out 0 0 s s"
  by (simp add: counted_out_def)

lemma counted_out_trans:
  "counted_out n z s s' \<Longrightarrow> counted_out n' z' s' s'' \<Longrightarrow> counted_out (n + n') (z + z') s s''"
  by (simp add: counted_out_def)

lemma store_entries:
  assumes "store_ok s" "files s = Some m"
  shows "file_map_ok m" "(k, a) \<in> set (entries m) \<longleftrightarrow> addr_of s k = Some a"
    "nelem m = int (length (entries m))" "int (length (lists m)) = nlist m"
proof -
  show ok: "file_map_ok m" using assms by (elim store_okE) simp
  show "(k, a) \<in> set (entries m) \<longleftrightarrow> addr_of s k = Some a" using addr_of_entries [OF assms(2) ok] by simp
  show "nelem m = int (length (entries m))" "int (length (lists m)) = nlist m"
    using ok hm_wf_fields [of m] by (auto simp: file_map_ok_def)
qed

lemma take_out_ok:
  assumes ok: "store_ok s" and a: "addr_of s k = Some a" "fheap s a = Some f"
  shows "\<exists>s'. take_out a (s\<lparr>fheap := held (Some a) (fheap s)\<rparr>) = Ok (Some a, s') \<and> store_ok s' \<and>
    stored s' = (stored s)(k := None) \<and> addr_of s' = (addr_of s)(k := None) \<and>
    fheap s' = (fheap s)(a \<mapsto> f\<lparr>n_writers := 1\<rparr>) \<and> counted_out 1 (unat (fsize f)) s s'"
proof -
  obtain m' where rem: "hashmap_remove (files s) k = Ok (Inr (Some (k, a)), Some m')" and
    del: "\<And>s'. \<lbrakk>files s' = Some m'; \<And>b. b \<noteq> a \<Longrightarrow> fheap s' b = fheap s b; fnext s' = fnext s; smem s' = smem s;
        config s' = config s; st_files (curr_state s') = st_files (curr_state s) - 1;
        st_space (curr_state s') = st_space (curr_state s) - fsize f\<rbrakk> \<Longrightarrow>
      store_ok s' \<and> stored s' = (stored s)(k := None) \<and> addr_of s' = (addr_of s)(k := None) \<and>
      Suc (unat (st_files (curr_state s'))) = unat (st_files (curr_state s)) \<and>
      unat (st_space (curr_state s')) + unat (fsize f) = unat (st_space (curr_state s))"
    using store_del [OF ok a] by blast
  have k: "path_name f = k" using addr_of_file [OF ok a(1)] a(2) by (auto simp: file_ok_def)
  let ?s' = "s\<lparr>fheap := (fheap s)(a \<mapsto> f\<lparr>n_writers := 1\<rparr>), files := Some m',
      curr_state := (curr_state s)\<lparr>st_files := st_files (curr_state s) - 1,
        st_space := st_space (curr_state s) - fsize f, st_no_LRU := st_no_LRU (curr_state s) + 1\<rparr>\<rparr>"
  have "held (Some a) (fheap s) = (fheap s)(a \<mapsto> f\<lparr>n_writers := 1\<rparr>)" using a by (simp add: held_def)
  then have "take_out a (s\<lparr>fheap := held (Some a) (fheap s)\<rparr>) = Ok (Some a, ?s')"
    using rem k by (simp add: take_out_def deref_def)
  moreover have "store_ok ?s' \<and> stored ?s' = (stored s)(k := None) \<and> addr_of ?s' = (addr_of s)(k := None) \<and>
      Suc (unat (st_files (curr_state ?s'))) = unat (st_files (curr_state s)) \<and>
      unat (st_space (curr_state ?s')) + unat (fsize f) = unat (st_space (curr_state s))"
    by (rule del) simp_all
  ultimately show ?thesis by (intro exI [of _ ?s']) (simp add: counted_out_def)
qed

lemma expell_single_ok:
  assumes ok: "store_ok s" and free: "evictable_free s" and some: "stored s k0 = Some f0" "can_be_expelled f0"
  shows "\<exists>k a f s'. expell_single_file s = Ok (Some a, s') \<and> addr_of s k = Some a \<and> fheap s a = Some f \<and>
    least_stored (policy_stamp (cfg_policy (config s))) (stored s) f \<and> store_ok s' \<and>
    stored s' = (stored s)(k := None) \<and> addr_of s' = (addr_of s)(k := None) \<and>
    fheap s' = (fheap s)(a \<mapsto> f\<lparr>n_writers := 1\<rparr>) \<and> counted_out 1 (unat (fsize f)) s s'"
proof -
  let ?p = "cfg_policy (config s)"
  obtain m where m: "files s = Some m" "smem s = Ample" using ok by (elim store_okE)
  note ent = store_entries [OF ok m(1)]
  have pts: "\<exists>k f. addr_of s k = Some a \<and> fheap s a = Some f \<and> stored s k = Some f"
    if "a \<in> set (map snd (entries m))" for a
  proof -
    from that obtain k where "addr_of s k = Some a" using ent(2) by auto
    moreover from this obtain f where "fheap s a = Some f" "stored s k = Some f"
      by (rule addr_of_file [OF ok])
    ultimately show ?thesis by blast
  qed
  have fr: "\<exists>f. fheap s a = Some f \<and> (can_be_expelled f \<longrightarrow> unlocked f)"
    if "a \<in> set (map snd (entries m))" for a
    using pts [OF that] free by (auto simp: evictable_free_def)
  let ?l = "pick (policy_stamp ?p) (\<lambda>a. the (fheap s a)) (map snd (entries m)) None"
  have d: "distinct (map snd (entries m))" using ent(1) by (simp add: file_map_ok_def)
  have scan: "expell_scan (policy_fun ?p) (map snd (entries m)) None s = Ok (?l, s\<lparr>fheap := held ?l (fheap s)\<rparr>)"
    using policy.scan_pick [OF d fr, where least = None] by (simp add: Let_def)
  obtain a0 where a0: "addr_of s k0 = Some a0" "fheap s a0 = Some f0" using some(1) by (rule stored_addr)
  then have in0: "(k0, a0) \<in> set (entries m)" using ent(2) by simp
  note spec = pick_spec [of None "map snd (entries m)" "\<lambda>a. the (fheap s a)" "policy_stamp ?p"]
  obtain a where a: "?l = Some a" "a \<in> set (map snd (entries m))" "can_be_expelled (the (fheap s a))"
    "\<And>x. x \<in> set (map snd (entries m)) \<Longrightarrow> can_be_expelled (the (fheap s x)) \<Longrightarrow>
       policy_stamp ?p (the (fheap s a)) \<le> policy_stamp ?p (the (fheap s x))"
    using spec in0 a0(2) some(2) by (cases ?l) force+
  obtain k f where k: "addr_of s k = Some a" "fheap s a = Some f" using pts [OF a(2)] by blast
  have least: "least_stored (policy_stamp ?p) (stored s) f"
    unfolding least_stored_def
  proof (intro conjI allI impI)
    show "can_be_expelled f" using a(3) k(2) by simp
    fix k' g assume g: "stored s k' = Some g" "can_be_expelled g"
    then obtain b where b: "addr_of s k' = Some b" "fheap s b = Some g" by (elim stored_addr)
    then have "(k', b) \<in> set (entries m)" using ent(2) by simp
    then have "b \<in> set (map snd (entries m))" by force
    from a(4) [OF this] b g k(2) show "policy_stamp ?p f \<le> policy_stamp ?p g" by simp
  qed
  from take_out_ok [OF ok k] obtain s' where
    s': "take_out a (s\<lparr>fheap := held (Some a) (fheap s)\<rparr>) = Ok (Some a, s')" "store_ok s'"
      "stored s' = (stored s)(k := None)" "addr_of s' = (addr_of s)(k := None)"
      "fheap s' = (fheap s)(a \<mapsto> f\<lparr>n_writers := 1\<rparr>)" "counted_out 1 (unat (fsize f)) s s'" by blast
  have mm: "s\<lparr>smem := Ample\<rparr> = s" using m(2) by (cases s) simp
  have "nelem m \<noteq> 0" using in0 ent(3) by (cases "entries m") auto
  then have "expell_single_file s = Ok (Some a, s')"
    using m scan a(1) s'(1) iter_all_entries [OF ent(4)]
    by (simp add: expell_single_file_def safe_malloc_def malloc_bytes_def mm)
  with s' k least show ?thesis by blast
qed

section \<open>Many expulsions on a well-formed store\<close>

text \<open>
  A file that was expelled is described by its path, its address and what it was. The victims
  come out in the order of the policy: each is a least one among the files still there.
\<close>

type_synonym victim = "path \<times> nat \<times> file_t"

abbreviation v_path :: "victim \<Rightarrow> path" where "v_path \<equiv> fst"
abbreviation v_addr :: "victim \<Rightarrow> nat" where "v_addr \<equiv> \<lambda>v. fst (snd v)"
abbreviation v_file :: "victim \<Rightarrow> file_t" where "v_file \<equiv> \<lambda>v. snd (snd v)"

fun eviction_order :: "(file_t \<Rightarrow> timespec) \<Rightarrow> (path \<Rightarrow> file_t option) \<Rightarrow> victim list \<Rightarrow> bool" where
  "eviction_order st M [] \<longleftrightarrow> True"
| "eviction_order st M ((k, a, f) # vs) \<longleftrightarrow>
     M k = Some f \<and> least_stored st M f \<and> eviction_order st (M(k := None)) vs"

definition victims_size :: "victim list \<Rightarrow> nat" where
  "victims_size vs = sum_list (map (\<lambda>v. unat (fsize (v_file v))) vs)"

definition expelled_ok :: "server \<Rightarrow> victim list \<Rightarrow> server \<Rightarrow> bool" where
  "expelled_ok s vs s' \<longleftrightarrow>
     store_ok s' \<and> distinct (map v_path vs) \<and>
     eviction_order (policy_stamp (cfg_policy (config s))) (stored s) vs \<and>
     stored s' = stored s |` (- v_path ` set vs) \<and> addr_of s' = addr_of s |` (- v_path ` set vs) \<and>
     (\<forall>v \<in> set vs. addr_of s (v_path v) = Some (v_addr v) \<and> stored s (v_path v) = Some (v_file v) \<and>
        can_be_expelled (v_file v) \<and> fheap s' (v_addr v) = Some ((v_file v)\<lparr>n_writers := 1\<rparr>)) \<and>
     (\<forall>b. b \<notin> v_addr ` set vs \<longrightarrow> fheap s' b = fheap s b) \<and>
     counted_out (length vs) (victims_size vs) s s'"

lemma expelled_ok_Nil: "store_ok s \<Longrightarrow> expelled_ok s [] s"
  by (auto simp: expelled_ok_def victims_size_def counted_out_0 restrict_map_def)

lemma expelled_ok_Cons:
  assumes ok: "store_ok s" and k: "addr_of s k = Some a" "fheap s a = Some f"
    and least: "least_stored (policy_stamp (cfg_policy (config s))) (stored s) f"
    and s1: "store_ok s1" "stored s1 = (stored s)(k := None)" "addr_of s1 = (addr_of s)(k := None)"
      "fheap s1 = (fheap s)(a \<mapsto> f\<lparr>n_writers := 1\<rparr>)" "counted_out 1 (unat (fsize f)) s s1"
    and rest: "expelled_ok s1 vs s'"
  shows "expelled_ok s ((k, a, f) # vs) s'"
proof -
  have f: "stored s k = Some f" using k by (simp add: stored_def)
  have cfg: "config s1 = config s" using s1(5) by (simp add: counted_out_def)
  have other: "v_path v \<noteq> k \<and> v_addr v \<noteq> a" if "v \<in> set vs" for v
  proof -
    have v: "addr_of s1 (v_path v) = Some (v_addr v)" using rest that by (auto simp: expelled_ok_def)
    then have ne: "v_path v \<noteq> k" using s1(3) by auto
    then have "addr_of s (v_path v) = Some (v_addr v)" using v s1(3) by simp
    then show ?thesis using ne addr_of_inj [OF ok k(1), of "v_path v"] by auto
  qed
  have "a \<notin> v_addr ` set vs" "k \<notin> v_path ` set vs" using other by auto
  moreover have "counted_out (Suc (length vs)) (unat (fsize f) + victims_size vs) s s'"
    using counted_out_trans [OF s1(5), of "length vs" "victims_size vs" s'] rest by (simp add: expelled_ok_def)
  moreover have "can_be_expelled f" using least by (simp add: least_stored_def)
  moreover have "(stored s)(k := None) |` (- v_path ` set vs) = stored s |` (- insert k (v_path ` set vs))"
    "(addr_of s)(k := None) |` (- v_path ` set vs) = addr_of s |` (- insert k (v_path ` set vs))"
    by (auto simp: restrict_map_def fun_eq_iff)
  ultimately show ?thesis
    using rest s1 other k f least cfg by (auto simp: expelled_ok_def victims_size_def)
qed

text \<open>There is a second file when one file does not account for all the space.\<close>

lemma other_file_exists:
  assumes ok: "store_ok s" and p: "stored s p = Some fp"
    and more: "unat (fsize fp) < unat (st_space (curr_state s))"
  shows "\<exists>k f. k \<noteq> p \<and> stored s k = Some f"
proof -
  obtain m where m: "files s = Some m"
    "unat (st_space (curr_state s)) = space_of (fheap s) (entries m)" using ok by (elim store_okE)
  note ent = store_entries [OF ok m(1)]
  obtain a where a: "addr_of s p = Some a" "fheap s a = Some fp" using p by (rule stored_addr)
  show ?thesis
  proof (rule ccontr)
    assume no: "\<not> ?thesis"
    have "e = (p, a)" if "e \<in> set (entries m)" for e
    proof -
      have e: "addr_of s (fst e) = Some (snd e)" using that ent(2) [of "fst e" "snd e"] by simp
      then obtain f where "stored s (fst e) = Some f" by (rule addr_of_file [OF ok])
      then have "fst e = p" using no by auto
      then show ?thesis using e a by (cases e) auto
    qed
    moreover have "distinct (entries m)" using ent(1) by (auto simp: file_map_ok_def distinct_map)
    moreover have "(p, a) \<in> set (entries m)" using ent(2) a by simp
    ultimately have "entries m = [(p, a)]"
      by (metis distinct.simps(2) list.set_cases list.set_intros(1,2) neq_Nil_conv)
    then show False using m(2) more a by (simp add: space_of_def size_at_def)
  qed
qed

text \<open>
  The loop when all files but \<open>p\<close> can be expelled and enough space is theirs: it ends normally,
  it stops as soon as enough was freed, and not before.
\<close>

definition keeps_one :: "server \<Rightarrow> path \<Rightarrow> file_t \<Rightarrow> bool" where
  "keeps_one s p fp \<longleftrightarrow> stored s p = Some fp \<and> \<not> can_be_expelled fp \<and>
     (\<forall>k f. stored s k = Some f \<longrightarrow> k \<noteq> p \<longrightarrow> can_be_expelled f \<and> unlocked f)"

lemma keeps_one_free: "keeps_one s p fp \<Longrightarrow> evictable_free s"
  unfolding keeps_one_def evictable_free_def by (metis option.inject)

lemma expell_loop_ok:
  assumes "store_ok s" "keeps_one s p fp"
    "unat size_to_free + unat (fsize fp) \<le> unat freed + unat (st_space (curr_state s))"
    "unat freed + unat (st_space (curr_state s)) < 2 ^ 64"
  shows "\<exists>vs s'. expell_loop size_to_free freed xs s = Ok (xs @ map v_addr vs, s') \<and>
    expelled_ok s vs s' \<and> p \<notin> v_path ` set vs \<and>
    unat size_to_free \<le> unat freed + victims_size vs \<and>
    (vs = [] \<or> unat freed + victims_size (butlast vs) < unat size_to_free)"
  using assms
proof (induction "n_entries s" arbitrary: s freed xs rule: less_induct)
  case less
  show ?case
  proof (cases "freed < size_to_free")
    case False
    then have "unat size_to_free \<le> unat freed" by (simp add: word_less_nat_alt)
    with False less.prems(1) show ?thesis
      by (intro exI [of _ "[]"] exI [of _ s])
        (simp add: expell_loop.simps [of size_to_free freed xs s] expelled_ok_Nil victims_size_def)
  next
    case True
    then have lt: "unat freed < unat size_to_free" by (simp add: word_less_nat_alt)
    note one = less.prems(2)
    then have p: "stored s p = Some fp" by (simp add: keeps_one_def)
    obtain k0 f0 where k0: "k0 \<noteq> p" "stored s k0 = Some f0"
      using other_file_exists [OF less.prems(1) p] less.prems(3) lt by auto
    then have "can_be_expelled f0" using one by (auto simp: keeps_one_def)
    from expell_single_ok [OF less.prems(1) keeps_one_free [OF one] k0(2) this]
    obtain k a f s1 where ex: "expell_single_file s = Ok (Some a, s1)"
      and k: "addr_of s k = Some a" "fheap s a = Some f"
      and least: "least_stored (policy_stamp (cfg_policy (config s))) (stored s) f"
      and s1: "store_ok s1" "stored s1 = (stored s)(k := None)" "addr_of s1 = (addr_of s)(k := None)"
        "fheap s1 = (fheap s)(a \<mapsto> f\<lparr>n_writers := 1\<rparr>)" "counted_out 1 (unat (fsize f)) s s1" by blast
    have kf: "stored s k = Some f" using k by (simp add: stored_def)
    then have kp: "k \<noteq> p" using least p one by (auto simp: least_stored_def keeps_one_def)
    have sp: "unat (st_space (curr_state s1)) + unat (fsize f) = unat (st_space (curr_state s))"
      using s1(5) by (simp add: counted_out_def)
    have d: "unat (freed + fsize f) = unat freed + unat (fsize f)"
      using sp less.prems(4) by (intro unat_add_no_wrap) simp
    have one1: "keeps_one s1 p fp" using one s1(2) kp by (auto simp: keeps_one_def)
    have mem: "smem s1 = Ample" "s1\<lparr>smem := Ample\<rparr> = s1"
      using s1(1) by (auto simp: store_ok_def)
    from less.hyps [OF expell_single_shrinks [OF ex] s1(1) one1, of "freed + fsize f" "xs @ [a]"]
    obtain vs s' where r: "expell_loop size_to_free (freed + fsize f) (xs @ [a]) s1 = Ok ((xs @ [a]) @ map v_addr vs, s')"
      "expelled_ok s1 vs s'" "p \<notin> v_path ` set vs"
      "unat size_to_free \<le> unat (freed + fsize f) + victims_size vs"
      "vs = [] \<or> unat (freed + fsize f) + victims_size (butlast vs) < unat size_to_free"
      using less.prems(3,4) sp d by auto
    have "expell_loop size_to_free freed xs s =
        expell_loop size_to_free (freed + fsize f) (xs @ [a]) (s1\<lparr>smem := Ample\<rparr>)"
      using True ex mem(1) s1(4) by (simp add: expell_loop.simps [of size_to_free freed xs s] deref_def)
    then have "expell_loop size_to_free freed xs s = Ok (xs @ map v_addr ((k, a, f) # vs), s')"
      unfolding mem(2) r(1) by simp
    moreover have "expelled_ok s ((k, a, f) # vs) s'"
      by (rule expelled_ok_Cons [OF less.prems(1) k least s1 r(2)])
    moreover have "unat freed + victims_size (butlast ((k, a, f) # vs)) < unat size_to_free"
      using r(5) d lt by (auto simp: victims_size_def)
    moreover have "unat size_to_free \<le> unat freed + victims_size ((k, a, f) # vs)"
      using r(4) d by (simp add: victims_size_def)
    ultimately show ?thesis using kp r(3) by fastforce
  qed
qed

lemma expell_multiple_ok:
  assumes "store_ok s" "keeps_one s p fp"
    "unat size_to_free + unat (fsize fp) \<le> unat (st_space (curr_state s))"
  shows "\<exists>vs s'. expell_multiple_files size_to_free (Some []) s = Ok (0, Some (map v_addr vs), s') \<and>
    expelled_ok s vs s' \<and> p \<notin> v_path ` set vs \<and>
    unat size_to_free \<le> victims_size vs \<and>
    (vs = [] \<or> victims_size (butlast vs) < unat size_to_free)"
proof -
  have "unat (st_space (curr_state s)) < 2 ^ 64" by (rule order_less_le_trans [OF unsigned_less]) simp
  from expell_loop_ok [OF assms(1,2), of size_to_free 0 "[]"] assms(3) this obtain vs s' where
    "expell_loop size_to_free 0 [] s = Ok (map v_addr vs, s')" "expelled_ok s vs s'" "p \<notin> v_path ` set vs"
    "unat size_to_free \<le> victims_size vs" "vs = [] \<or> victims_size (butlast vs) < unat size_to_free"
    by auto
  moreover have "\<not> size_to_free > st_space (curr_state s)"
    using assms(3) by (simp add: word_less_nat_alt)
  ultimately show ?thesis by (auto simp: expell_multiple_files_def)
qed

section \<open>Properties\<close>

text \<open>\<open>expell_single_file\<close> on a well-formed store with an evictable file returns a file that comes
  first in the order of the configured policy (time of last use for LRU, of creation for FIFO) among
  the files that can be expelled; it takes exactly this file out of the map, leaves its writer lock
  taken, and adjusts the counters of files, of bytes and of expulsions.\<close>

theorem expell_single_least:
  assumes "store_ok s" "evictable_free s" "stored s k0 = Some f0" "can_be_expelled f0"
  shows "\<exists>k a f s'. expell_single_file s = Ok (Some a, s') \<and> addr_of s k = Some a \<and> fheap s a = Some f \<and>
    least_stored (policy_stamp (cfg_policy (config s))) (stored s) f \<and> store_ok s' \<and>
    stored s' = (stored s)(k := None) \<and> fheap s' = (fheap s)(a \<mapsto> f\<lparr>n_writers := 1\<rparr>) \<and>
    counted_out 1 (unat (fsize f)) s s'"
  using expell_single_ok [OF assms] by blast

lemma expell_single_least_witness:
  "\<exists>k a f s'. expell_single_file demo = Ok (Some a, s') \<and> addr_of demo k = Some a \<and> fheap demo a = Some f \<and>
    least_stored last_use (stored demo) f \<and> store_ok s' \<and> stored s' = (stored demo)(k := None) \<and>
    fheap s' = (fheap demo)(a \<mapsto> f\<lparr>n_writers := 1\<rparr>) \<and> counted_out 1 (unat (fsize f)) demo s'"
proof -
  have "evictable_free demo"
    by (auto simp: evictable_free_def demo_stored demo_file_def unlocked_def split: if_splits)
  moreover have "policy_stamp (cfg_policy (config demo)) = last_use"
    by (simp add: policy_stamp_def demo_def demo_config_def)
  ultimately show ?thesis
    using expell_single_least [OF demo_store_ok, of "[97]" "demo_file [97] [1, 2, 3] 4 1 9"]
    by (simp add: demo_stored demo_file_def)
qed

text \<open>C36: \<open>expell_multiple_files\<close> when every file but one can be expelled and the request is at most
  what these files hold: it returns 0, the victims come out in the order of the policy, they free
  at least the bytes asked for, without the last victim they would not, and the rest of the store
  is as it was.\<close>

theorem expell_multiple_frees_enough:
  assumes "store_ok s" "keeps_one s p fp"
    "unat size_to_free + unat (fsize fp) \<le> unat (st_space (curr_state s))"
  shows "\<exists>vs s'. expell_multiple_files size_to_free (Some []) s = Ok (0, Some (map v_addr vs), s') \<and>
    expelled_ok s vs s' \<and> p \<notin> v_path ` set vs \<and>
    unat size_to_free \<le> victims_size vs \<and>
    (vs = [] \<or> victims_size (butlast vs) < unat size_to_free)"
  using expell_multiple_ok [OF assms] .

definition demo_held :: server where
  "demo_held = demo\<lparr>fheap := (fheap demo)(0 \<mapsto> (demo_file [97] [1, 2, 3] 4 1 9)
     \<lparr>n_writers := 1, can_be_expelled := False\<rparr>)\<rparr>"

lemma demo_held_ok: "store_ok demo_held"
  "keeps_one demo_held [97] ((demo_file [97] [1, 2, 3] 4 1 9)\<lparr>n_writers := 1, can_be_expelled := False\<rparr>)"
proof -
  let ?g = "(demo_file [97] [1, 2, 3] 4 1 9)\<lparr>n_writers := 1, can_be_expelled := False\<rparr>"
  have a: "addr_of demo [97] = Some 0" "fheap demo 0 = Some (demo_file [97] [1, 2, 3] 4 1 9)"
    by (simp_all add: addr_of_def demo_def demo_map_def entries_def)
  have g: "file_ok [97] ?g" using demo_fd_table by (simp add: file_ok_def demo_file_def valid_path_def)
  note upd = store_upd [OF demo_store_ok a g, of demo_held]
  show "store_ok demo_held" by (rule upd(1)) (simp_all add: demo_held_def demo_file_def)
  have "stored demo_held = (stored demo)([97] \<mapsto> ?g)"
    by (rule upd(2)) (simp_all add: demo_held_def demo_file_def)
  then show "keeps_one demo_held [97] ?g"
    by (auto simp: keeps_one_def demo_stored demo_file_def unlocked_def split: if_splits)
qed

lemma expell_multiple_frees_enough_witness:
  "\<exists>vs s'. expell_multiple_files 2 (Some []) demo_held = Ok (0, Some (map v_addr vs), s') \<and>
     expelled_ok demo_held vs s' \<and> [97] \<notin> v_path ` set vs \<and> 2 \<le> victims_size vs \<and>
     (vs = [] \<or> victims_size (butlast vs) < 2)"
  using expell_multiple_frees_enough [OF demo_held_ok, of 2]
  by (simp add: demo_held_def demo_def demo_file_def)

end
