(* ===== verification/Handlers.thy ===== *)
theory Handlers
  imports Replacement
begin

text \<open>
  The request handlers of the server: \<open>open_file.c\<close>, \<open>close_file.c\<close>, \<open>write_file.c\<close>,
  \<open>append_to_file.c\<close>, \<open>read_file.c\<close>, \<open>read_n_files.c\<close>, \<open>remove_file.c\<close>, \<open>send_files_to_client.c\<close>, and
  \<open>close_client\<close> of \<open>server.c\<close>. A handler reads its arguments from the connection, works on the store
  while it holds \<open>files_mtx\<close>, and returns a result code; the part between the locks is a function
  of its own. \<open>fd\<close> is the descriptor of the client.
\<close>

section \<open>Sending files\<close>

text \<open>The contents of a file must be there when the size is not 0.\<close>

definition file_bytes :: "file_t \<Rightarrow> byte list res" where
  "file_bytes f =
     (if fsize f = 0 then Ok []
      else case contents f of
             None \<Rightarrow> UB
           | Some bs \<Rightarrow> if unat (fsize f) \<le> length bs then Ok (take (unat (fsize f)) bs) else UB)"

definition send_single_file :: "file_t option \<Rightarrow> bool \<Rightarrow> conn \<Rightarrow> (int \<times> conn) res" where
  "send_single_file fp send_path c =
     (case fp of
        None \<Rightarrow> Ok (-1, c)
      | Some f \<Rightarrow>
          rbind (if send_path
                 then (let path_len = to_int32 (int (length (path_name f)))
                       in case conn_writen (enc_int path_len) c of (l, c) \<Rightarrow>
                            if l = -1 then Ok (-1, c)
                            else Ok (conn_writen (path_name f @ [0]) c))
                 else Ok (1, c)) (\<lambda>(l, c).
          if l = -1 then Ok (-1, c)
          else case conn_writen (enc_u64 (fsize f)) c of (l, c) \<Rightarrow>
            if l = -1 then Ok (-1, c)
            else if fsize f = 0 then Ok (0, c)
            else rbind (file_bytes f) (\<lambda>bs.
                 case conn_writen bs c of (l, c) \<Rightarrow> Ok (if l = -1 then -1 else 0, c))))"

fun send_files_loop :: "nat list \<Rightarrow> bool \<Rightarrow> server \<Rightarrow> conn \<Rightarrow> (int \<times> conn) res" where
  "send_files_loop [] send_path s c = Ok (0, c)"
| "send_files_loop (a # as) send_path s c =
     rbind (deref a s) (\<lambda>f.
     rbind (send_single_file (Some f) send_path c) (\<lambda>(l, c).
       if l = -1 then Ok (-1, c) else send_files_loop as send_path s c))"

definition send_list_of_files :: "nat list option \<Rightarrow> bool \<Rightarrow> server \<Rightarrow> conn \<Rightarrow> (int \<times> conn) res" where
  "send_list_of_files fs send_path s c =
     (case fs of
        None \<Rightarrow> Ok (-1, c)
      | Some as \<Rightarrow>
          rbind (send_files_loop as send_path s c) (\<lambda>(l, c).
            if l = -1 then Ok (-1, c)
            else case conn_writen (enc_int 0) c of (l, c) \<Rightarrow> Ok (if l = -1 then -1 else 0, c)))"

section \<open>open_file.c\<close>

definition create_file :: "path \<Rightarrow> u32 \<Rightarrow> int \<Rightarrow> server \<Rightarrow> (nat \<times> server) res" where
  "create_file p flags fd s =
     rbind (safe_malloc 216 (smem s)) (\<lambda>m.
     case hashtbl_init 4 default_hashtbl_hash m of (_, t, m) \<Rightarrow>
     rbind (hashtbl_insert t fd m) (\<lambda>(_, t, m).
       let a = fnext s;
           f = \<lparr>path_name = p, contents = None, fsize = 0,
                fd_lock = (if is_flag_set flags O_LOCK then fd else -1), fd_open = t,
                n_readers = 0, n_writers = 0, creation_time = Timespec 0 0, last_use = Timespec 0 0,
                can_be_expelled = False\<rparr>
       in rbind (file_writer_lock a (s\<lparr>smem := m, fnext := Suc a, fheap := (fheap s)(a \<mapsto> f)\<rparr>)) (\<lambda>s.
          rbind (clock_gettime s) (\<lambda>(t1, s).
          rbind (upd_file a (\<lambda>f. f\<lparr>creation_time := t1\<rparr>) s) (\<lambda>s.
          rbind (clock_gettime s) (\<lambda>(t2, s).
          rbind (upd_file a (\<lambda>f. f\<lparr>last_use := t2\<rparr>) s) (\<lambda>s. Ok (a, s))))))))"

text \<open>The creation of a file. The results of \<open>create_file\<close>, of the expulsion and of the insertion are ignored.\<close>

definition count_file :: "server_state_t \<Rightarrow> server_state_t" where
  "count_file st =
     (let n = st_files st + 1
      in st\<lparr>st_files := n, st_max_files := (if n > st_max_files st then n else st_max_files st)\<rparr>)"

definition open_create :: "int \<Rightarrow> path \<Rightarrow> u32 \<Rightarrow> server \<Rightarrow> (int \<times> server) res" where
  "open_create fd p flags s =
     rbind (hashmap_contains (files s) p) (\<lambda>present.
       if present then Ok (SA_EXISTS, s)
       else rbind (create_file p flags fd s) (\<lambda>(a, s).
            rbind (if st_files (curr_state s) = cfg_max_files (config s)
                   then expell_single_file s else Ok (None, s)) (\<lambda>(expelled, s).
            rbind (upd_file a (\<lambda>f. f\<lparr>can_be_expelled := True\<rparr>) s) (\<lambda>s.
            rbind (hashmap_insert (files s) p a (smem s)) (\<lambda>(_, mp, m).
            rbind (file_writer_unlock a (s\<lparr>files := mp, smem := m, curr_state := count_file (curr_state s)\<rparr>)) (\<lambda>s.
            rbind (file_delete expelled s) (\<lambda>s. Ok (SA_SUCCESS, s))))))))"

definition add_opener :: "int \<Rightarrow> nat \<Rightarrow> server \<Rightarrow> server res" where
  "add_opener fd a s =
     rbind (opened_by fd a s) (\<lambda>already.
       if already then Ok s
       else rbind (deref a s) (\<lambda>f.
            rbind (hashtbl_insert (fd_open f) fd (smem s)) (\<lambda>(_, t, m).
              upd_file a (\<lambda>f. f\<lparr>fd_open := t\<rparr>) (s\<lparr>smem := m\<rparr>))))"

definition touch :: "nat \<Rightarrow> server \<Rightarrow> server res" where
  "touch a s = rbind (clock_gettime s) (\<lambda>(t, s). upd_file a (\<lambda>f. f\<lparr>last_use := t\<rparr>) s)"

definition open_existing :: "int \<Rightarrow> path \<Rightarrow> u32 \<Rightarrow> server \<Rightarrow> (int \<times> server) res" where
  "open_existing fd p flags s =
     rbind (lookup_file p s) (\<lambda>r.
       case r of
         None \<Rightarrow> Ok (SA_NO_FILE, s)
       | Some a \<Rightarrow>
           rbind (file_writer_lock a s) (\<lambda>s.
           rbind (deref a s) (\<lambda>f.
             if is_flag_set flags O_LOCK \<and> fd_lock f \<noteq> -1 \<and> fd_lock f \<noteq> fd
             then rbind (file_writer_unlock a s) (\<lambda>s. Ok (SA_ALREADY_LOCKED, s))
             else rbind (if is_flag_set flags O_LOCK then upd_file a (\<lambda>f. f\<lparr>fd_lock := fd\<rparr>) s else Ok s) (\<lambda>s.
                  rbind (add_opener fd a s) (\<lambda>s.
                  rbind (touch a s) (\<lambda>s.
                  rbind (file_writer_unlock a s) (\<lambda>s. Ok (SA_SUCCESS, s))))))))"

definition open_file :: "int \<Rightarrow> conn \<Rightarrow> server \<Rightarrow> (int \<times> conn \<times> server) res" where
  "open_file fd c s =
     rbind (read_pathname c (smem s)) (\<lambda>(r, c, m).
       let s = s\<lparr>smem := m\<rparr>
       in case r of
            Inl e \<Rightarrow> Ok (e, c, s)
          | Inr buf \<Rightarrow>
              rbind (conn_readn 4 c) (\<lambda>(l, bs, c).
                if l = -1 then Ok (SA_ERROR, c, s)
                else if l = 0 then Ok (SA_CLOSE, c, s)
                else rbind (c_string buf) (\<lambda>p.
                     rbind (if is_flag_set (dec_u32 bs) O_CREATE then open_create fd p (dec_u32 bs) s
                            else open_existing fd p (dec_u32 bs) s) (\<lambda>(r, s). Ok (r, c, s)))))"

section \<open>close_file.c and remove_file.c\<close>

text \<open>The handlers whose only argument is the path.\<close>

definition with_path ::
  "(path \<Rightarrow> conn \<Rightarrow> server \<Rightarrow> (int \<times> conn \<times> server) res) \<Rightarrow> conn \<Rightarrow> server \<Rightarrow> (int \<times> conn \<times> server) res" where
  "with_path act c s =
     rbind (read_pathname c (smem s)) (\<lambda>(r, c, m).
       let s = s\<lparr>smem := m\<rparr>
       in case r of Inl e \<Rightarrow> Ok (e, c, s) | Inr buf \<Rightarrow> rbind (c_string buf) (\<lambda>p. act p c s))"

text \<open>Taking a client off a file: out of the table of openers, and the lock if it is his.\<close>

definition remove_opener :: "int \<Rightarrow> nat \<Rightarrow> server \<Rightarrow> server res" where
  "remove_opener fd a s =
     rbind (deref a s) (\<lambda>f.
     rbind (hashtbl_remove (fd_open f) fd) (\<lambda>(_, t). upd_file a (\<lambda>f. f\<lparr>fd_open := t\<rparr>) s))"

definition release_lock :: "int \<Rightarrow> nat \<Rightarrow> server \<Rightarrow> server res" where
  "release_lock fd a s =
     rbind (deref a s) (\<lambda>f. if fd_lock f = fd then upd_file a (\<lambda>f. f\<lparr>fd_lock := -1\<rparr>) s else Ok s)"

definition close_core :: "int \<Rightarrow> path \<Rightarrow> server \<Rightarrow> (int \<times> server) res" where
  "close_core fd p s =
     rbind (lookup_file p s) (\<lambda>r.
       case r of
         None \<Rightarrow> Ok (SA_NO_FILE, s)
       | Some a \<Rightarrow>
           rbind (file_writer_lock a s) (\<lambda>s.
           rbind (remove_opener fd a s) (\<lambda>s.
           rbind (release_lock fd a s) (\<lambda>s.
           rbind (file_writer_unlock a s) (\<lambda>s. Ok (SA_SUCCESS, s))))))"

definition close_file :: "int \<Rightarrow> conn \<Rightarrow> server \<Rightarrow> (int \<times> conn \<times> server) res" where
  "close_file fd = with_path (\<lambda>p c s. rbind (close_core fd p s) (\<lambda>(r, s). Ok (r, c, s)))"

definition remove_core :: "int \<Rightarrow> path \<Rightarrow> server \<Rightarrow> (int \<times> server) res" where
  "remove_core fd p s =
     rbind (lookup_file p s) (\<lambda>r.
       case r of
         None \<Rightarrow> Ok (SA_SUCCESS, s)
       | Some a \<Rightarrow>
           rbind (file_writer_lock a s) (\<lambda>s.
           rbind (opened_by fd a s) (\<lambda>opened.
             if \<not> opened then rbind (file_writer_unlock a s) (\<lambda>s. Ok (SA_NO_OPEN, s))
             else rbind (deref a s) (\<lambda>f.
               if fd_lock f \<noteq> fd then rbind (file_writer_unlock a s) (\<lambda>s. Ok (SA_NOT_LOCKED, s))
               else let s = s\<lparr>curr_state := (curr_state s)\<lparr>st_files := st_files (curr_state s) - 1,
                              st_space := st_space (curr_state s) - fsize f\<rparr>\<rparr>
                    in rbind (hashmap_remove (files s) p) (\<lambda>(r, mp).
                       rbind (file_delete (case r of Inr (Some (_, b)) \<Rightarrow> Some b | _ \<Rightarrow> Some a) (s\<lparr>files := mp\<rparr>)) (\<lambda>s.
                         Ok (SA_SUCCESS, s)))))))"

definition remove_file :: "int \<Rightarrow> conn \<Rightarrow> server \<Rightarrow> (int \<times> conn \<times> server) res" where
  "remove_file fd = with_path (\<lambda>p c s. rbind (remove_core fd p s) (\<lambda>(r, s). Ok (r, c, s)))"

section \<open>write_file.c and append_to_file.c\<close>

text \<open>
  The bytes of a write are charged to the store; what exceeds the capacity is expelled from the
  other files. \<open>size_to_remove\<close> is a \<open>long\<close>; the result of the expulsion is ignored.
\<close>

definition charge_space :: "nat \<Rightarrow> u64 \<Rightarrow> nat list \<Rightarrow> server \<Rightarrow> (nat list \<times> server) res" where
  "charge_space a n to_expell s =
     (let space = st_space (curr_state s) + n;
          s = s\<lparr>curr_state := (curr_state s)\<lparr>st_space := space\<rparr>\<rparr>;
          size_to_remove = space - cfg_max_space (config s)
      in rbind (if 0 < to_long size_to_remove
                then rbind (upd_file a (\<lambda>f. f\<lparr>can_be_expelled := False\<rparr>) s) (\<lambda>s.
                     rbind (expell_multiple_files size_to_remove (Some to_expell) s) (\<lambda>(_, es, s).
                     rbind (upd_file a (\<lambda>f. f\<lparr>can_be_expelled := True\<rparr>) s) (\<lambda>s.
                       Ok ((case es of None \<Rightarrow> [] | Some es \<Rightarrow> es), s))))
                else Ok (to_expell, s)) (\<lambda>(es, s).
           let st = curr_state s
           in Ok (es, s\<lparr>curr_state := st\<lparr>st_max_space :=
                (if st_space st > st_max_space st then st_space st else st_max_space st)\<rparr>\<rparr>)))"

text \<open>
  The store part of \<open>write_file\<close>. On success \<open>Some es\<close> are the files to send back; every earlier
  return has none. The buffer must fit \<open>size\<close>, a \<open>long\<close> that the comparison with the capacity
  converts to \<open>size_t\<close>.
\<close>

definition write_core :: "int \<Rightarrow> path \<Rightarrow> u64 \<Rightarrow> byte list \<Rightarrow> server \<Rightarrow> (int \<times> nat list option \<times> server) res" where
  "write_core fd p sz buf s =
     rbind (lookup_file p s) (\<lambda>r.
       case r of
         None \<Rightarrow> Ok (SA_NO_FILE, None, s)
       | Some a \<Rightarrow>
           rbind (file_writer_lock a s) (\<lambda>s.
           rbind (opened_by fd a s) (\<lambda>opened.
             if \<not> opened then rbind (file_writer_unlock a s) (\<lambda>s. Ok (SA_NO_OPEN, None, s))
             else rbind (deref a s) (\<lambda>f.
               if fd_lock f \<noteq> fd then rbind (file_writer_unlock a s) (\<lambda>s. Ok (SA_NOT_LOCKED, None, s))
               else if fsize f \<noteq> 0 then rbind (file_writer_unlock a s) (\<lambda>s. Ok (SA_NOT_EMPTY, None, s))
               else if sz > cfg_max_space (config s) then rbind (file_writer_unlock a s) (\<lambda>s. Ok (SA_TOO_BIG, None, s))
               else (case malloc (smem s) of
                       (False, m) \<Rightarrow> rbind (file_writer_unlock a (s\<lparr>smem := m\<rparr>)) (\<lambda>s. Ok (SA_ERROR, None, s))
                     | (True, m) \<Rightarrow>
                         rbind (upd_file a (\<lambda>f. f\<lparr>fsize := sz, contents := Some buf\<rparr>) (s\<lparr>smem := m\<rparr>)) (\<lambda>s.
                         rbind (touch a s) (\<lambda>s.
                         rbind (charge_space a sz [] s) (\<lambda>(es, s).
                         rbind (file_writer_unlock a s) (\<lambda>s. Ok (SA_SUCCESS, Some es, s)))))))))) "

text \<open>
  The reply to a write: a first success code, the expelled files, then they are destroyed. The
  files are destroyed also when the client cannot be written to.
\<close>

definition send_expelled :: "nat list \<Rightarrow> conn \<Rightarrow> server \<Rightarrow> (int \<times> conn \<times> server) res" where
  "send_expelled es c s =
     (case conn_writen (enc_int SA_SUCCESS) c of (l, c) \<Rightarrow>
        if l = -1 then rbind (delete_files es s) (\<lambda>s. Ok (SA_ERROR, c, s))
        else rbind (send_list_of_files (Some es) True s c) (\<lambda>(l, c).
             rbind (delete_files es s) (\<lambda>s. Ok (if l = -1 then SA_ERROR else SA_SUCCESS, c, s))))"

definition write_file :: "int \<Rightarrow> conn \<Rightarrow> server \<Rightarrow> (int \<times> conn \<times> server) res" where
  "write_file fd c s =
     rbind (read_pathname c (smem s)) (\<lambda>(r, c, m).
       case r of
         Inl e \<Rightarrow> Ok (e, c, s\<lparr>smem := m\<rparr>)
       | Inr buf \<Rightarrow>
           rbind (conn_readn 8 c) (\<lambda>(l, bs, c).
             if l = -1 then Ok (SA_ERROR, c, s\<lparr>smem := m\<rparr>)
             else if l = 0 then Ok (SA_CLOSE, c, s\<lparr>smem := m\<rparr>)
             else let sz = dec_u64 bs in
               rbind (safe_malloc sz m) (\<lambda>m.
               rbind (conn_readn (unat sz) c) (\<lambda>(l, data, c).
                 if l = -1 then Ok (SA_ERROR, c, s\<lparr>smem := m\<rparr>)
                 else if l = 0 then Ok (SA_CLOSE, c, s\<lparr>smem := m\<rparr>)
                 else rbind (c_string buf) (\<lambda>p.
                      rbind (write_core fd p sz data (s\<lparr>smem := m\<rparr>)) (\<lambda>(r, es, s).
                        case es of None \<Rightarrow> Ok (r, c, s) | Some es \<Rightarrow> send_expelled es c s))))))"

text \<open>
  \<open>append_to_file\<close>: the list of expelled files is made before the file is looked up, and nothing is
  looked up when there are no bytes to append; the path is then only used by the last log line. \<open>file->size + size\<close> is computed on 64 bits.
\<close>

definition append_core :: "int \<Rightarrow> path \<Rightarrow> u64 \<Rightarrow> byte list \<Rightarrow> server \<Rightarrow> (int \<times> nat list option \<times> server) res" where
  "append_core fd p sz buf s =
     rbind (lookup_file p s) (\<lambda>r.
       case r of
         None \<Rightarrow> Ok (SA_NO_FILE, None, s)
       | Some a \<Rightarrow>
           rbind (file_writer_lock a s) (\<lambda>s.
           rbind (opened_by fd a s) (\<lambda>opened.
             if \<not> opened then rbind (file_writer_unlock a s) (\<lambda>s. Ok (SA_NO_OPEN, None, s))
             else rbind (deref a s) (\<lambda>f.
               if fsize f + sz > cfg_max_space (config s)
               then rbind (file_writer_unlock a s) (\<lambda>s. Ok (SA_TOO_BIG, None, s))
               else rbind (safe_malloc (fsize f + sz) (smem s)) (\<lambda>m.
                    rbind (file_bytes f) (\<lambda>old.
                    rbind (upd_file a (\<lambda>f. f\<lparr>contents := Some (old @ buf), fsize := fsize f + sz\<rparr>) (s\<lparr>smem := m\<rparr>)) (\<lambda>s.
                    rbind (touch a s) (\<lambda>s.
                    rbind (charge_space a sz [] s) (\<lambda>(es, s).
                    rbind (file_writer_unlock a s) (\<lambda>s. Ok (SA_SUCCESS, Some es, s))))))))))) "

definition append_to_file :: "int \<Rightarrow> conn \<Rightarrow> server \<Rightarrow> (int \<times> conn \<times> server) res" where
  "append_to_file fd c s =
     rbind (read_pathname c (smem s)) (\<lambda>(r, c, m).
       case r of
         Inl e \<Rightarrow> Ok (e, c, s\<lparr>smem := m\<rparr>)
       | Inr buf \<Rightarrow>
           rbind (conn_readn 8 c) (\<lambda>(l, bs, c).
             if l = -1 then Ok (SA_ERROR, c, s\<lparr>smem := m\<rparr>)
             else if l = 0 then Ok (SA_CLOSE, c, s\<lparr>smem := m\<rparr>)
             else let sz = dec_u64 bs in
               rbind (if sz = 0 then Ok (1, [], c, m)
                      else rbind (safe_malloc sz m) (\<lambda>m.
                           rbind (conn_readn (unat sz) c) (\<lambda>(l, data, c). Ok (l, data, c, m))))
                 (\<lambda>(l, data, c, m).
                 if l = -1 then Ok (SA_ERROR, c, s\<lparr>smem := m\<rparr>)
                 else if l = 0 then Ok (SA_CLOSE, c, s\<lparr>smem := m\<rparr>)
                 else (case malloc m of
                         (False, m) \<Rightarrow> if sz = 0 then UB else Ok (SA_ERROR, c, s\<lparr>smem := m\<rparr>)
                       | (True, m) \<Rightarrow>
                           if sz = 0
                           then rbind (send_expelled [] c (s\<lparr>smem := m\<rparr>)) (\<lambda>(r, c, s).
                                if r = SA_SUCCESS then rbind (c_string buf) (\<lambda>_. Ok (r, c, s)) else Ok (r, c, s))
                           else rbind (c_string buf) (\<lambda>p.
                                rbind (append_core fd p sz data (s\<lparr>smem := m\<rparr>)) (\<lambda>(r, es, s).
                                  case es of None \<Rightarrow> Ok (r, c, s) | Some es \<Rightarrow> send_expelled es c s))))))"

section \<open>read_file.c and read_n_files.c\<close>

text \<open>The first part of a read: the file, with its reader lock, or a result code.\<close>

definition read_core :: "int \<Rightarrow> path \<Rightarrow> server \<Rightarrow> ((int + nat) \<times> server) res" where
  "read_core fd p s =
     rbind (lookup_file p s) (\<lambda>r.
       case r of
         None \<Rightarrow> Ok (Inl SA_NO_FILE, s)
       | Some a \<Rightarrow>
           rbind (file_reader_lock a s) (\<lambda>s.
           rbind (opened_by fd a s) (\<lambda>opened.
             if \<not> opened then rbind (file_reader_unlock a s) (\<lambda>s. Ok (Inl SA_NO_OPEN, s))
             else rbind (touch a s) (\<lambda>s. Ok (Inr a, s)))))"

text \<open>When the client cannot be written to, the handler returns without releasing the reader lock.\<close>

definition read_reply :: "nat \<Rightarrow> conn \<Rightarrow> server \<Rightarrow> (int \<times> conn \<times> server) res" where
  "read_reply a c s =
     (case conn_writen (enc_int SA_SUCCESS) c of (l, c) \<Rightarrow>
        if l = -1 then Ok (SA_ERROR, c, s)
        else rbind (deref a s) (\<lambda>f.
             rbind (send_single_file (Some f) False c) (\<lambda>(l, c).
               if l = -1 then Ok (SA_ERROR, c, s)
               else rbind (file_reader_unlock a s) (\<lambda>s. Ok (SA_SUCCESS, c, s)))))"

definition read_file :: "int \<Rightarrow> conn \<Rightarrow> server \<Rightarrow> (int \<times> conn \<times> server) res" where
  "read_file fd = with_path (\<lambda>p c s. rbind (read_core fd p s) (\<lambda>(r, s).
     case r of Inl e \<Rightarrow> Ok (e, c, s) | Inr a \<Rightarrow> read_reply a c s))"

fun reader_unlock_all :: "nat list \<Rightarrow> server \<Rightarrow> server res" where
  "reader_unlock_all [] s = Ok s"
| "reader_unlock_all (a # as) s = rbind (file_reader_unlock a s) (reader_unlock_all as)"

text \<open>
  The body of the loop of \<open>read_n_files\<close> over the files the iterator reaches: lock, append to the
  list; \<open>False\<close> when the list cannot grow, all locks being released.
\<close>

fun read_lock_all :: "nat list \<Rightarrow> nat list \<Rightarrow> server \<Rightarrow> (bool \<times> nat list \<times> server) res" where
  "read_lock_all [] lst s = Ok (True, lst, s)"
| "read_lock_all (a # as) lst s =
     rbind (file_reader_lock a s) (\<lambda>s.
       case malloc (smem s) of
         (True, m) \<Rightarrow> read_lock_all as (lst @ [a]) (s\<lparr>smem := m\<rparr>)
       | (False, m) \<Rightarrow>
           rbind (file_reader_unlock a (s\<lparr>smem := m\<rparr>)) (\<lambda>s.
           rbind (reader_unlock_all lst s) (\<lambda>s. Ok (False, lst, s))))"

text \<open>
  \<open>N\<close> as it was read. After the loop \<open>err\<close> is tested; it is uninitialised when \<open>get_next\<close> was
  never called, which happens when the store is empty and all files are asked for.
\<close>

definition read_n_core :: "int \<Rightarrow> server \<Rightarrow> ((int + nat list) \<times> server) res" where
  "read_n_core N s =
     (case malloc (smem s) of
        (False, m) \<Rightarrow> Ok (Inl SA_ERROR, s\<lparr>smem := m\<rparr>)
      | (True, m) \<Rightarrow>
          rbind (safe_malloc 16 m) (\<lambda>m.
            let n = (if N \<le> 0 then to_int32 (uint (st_files (curr_state s))) else N)
            in rbind (iter_upto (nat n) hash_iter_init None (files s)) (\<lambda>(es, err).
               rbind (read_lock_all (map snd es) [] (s\<lparr>smem := m\<rparr>)) (\<lambda>(ok, lst, s).
                 if \<not> ok then Ok (Inl SA_ERROR, s)
                 else case err of
                   None \<Rightarrow> UB
                 | Some (Inl _) \<Rightarrow> rbind (reader_unlock_all lst s) (\<lambda>s. Ok (Inl SA_ERROR, s))
                 | Some (Inr _) \<Rightarrow> Ok (Inr lst, s)))))"

definition read_n_reply :: "nat list \<Rightarrow> conn \<Rightarrow> server \<Rightarrow> (int \<times> conn \<times> server) res" where
  "read_n_reply lst c s =
     (case conn_writen (enc_int SA_SUCCESS) c of (l, c) \<Rightarrow>
        rbind (if l = -1 then Ok (-1, c) else send_list_of_files (Some lst) True s c) (\<lambda>(l, c).
        rbind (reader_unlock_all lst s) (\<lambda>s.
          Ok (if l = -1 then SA_ERROR else SA_SUCCESS, c, s))))"

definition read_n_files :: "int \<Rightarrow> conn \<Rightarrow> server \<Rightarrow> (int \<times> conn \<times> server) res" where
  "read_n_files fd c s =
     rbind (conn_readn 4 c) (\<lambda>(l, bs, c).
       if l = -1 then Ok (SA_ERROR, c, s)
       else if l = 0 then Ok (SA_CLOSE, c, s)
       else rbind (read_n_core (dec_int bs) s) (\<lambda>(r, s).
            case r of Inl e \<Rightarrow> Ok (e, c, s) | Inr lst \<Rightarrow> read_n_reply lst c s))"

section \<open>close_client\<close>

fun close_client_files :: "int \<Rightarrow> nat list \<Rightarrow> server \<Rightarrow> server res" where
  "close_client_files fd [] s = Ok s"
| "close_client_files fd (a # as) s =
     rbind (file_writer_lock a s) (\<lambda>s.
     rbind (release_lock fd a s) (\<lambda>s.
     rbind (remove_opener fd a s) (\<lambda>s.
     rbind (file_writer_unlock a s) (\<lambda>s. close_client_files fd as s))))"

definition close_client :: "int \<Rightarrow> server \<Rightarrow> server res" where
  "close_client fd s =
     (if fd = -1 then Ok s
      else rbind (safe_malloc 16 (smem s)) (\<lambda>m.
           rbind (iter_all (files s)) (\<lambda>(es, err).
             close_client_files fd (map snd es)
               (s\<lparr>smem := m, curr_state := (curr_state s)\<lparr>st_conn := st_conn (curr_state s) - 1\<rparr>\<rparr>))))"

end
