(* ===== verification/Requests.thy ===== *)
theory Requests
  imports Handlers
begin

text \<open>
  What the store part of the handlers \<open>open_file\<close>, \<open>close_file\<close>, \<open>remove_file\<close> and \<open>read_file\<close> does on
  every branch, that each keeps the invariant of the server, and the abstract file store they
  implement. \<open>Writes\<close> does the same for the handlers that expel files.
\<close>

section \<open>Running a handler on one file\<close>

text \<open>The state with the file at \<open>a\<close> replaced; the steps of a handler compute on this form.\<close>

definition put :: "nat \<Rightarrow> file_t \<Rightarrow> server \<Rightarrow> server" where
  "put a f s = s\<lparr>fheap := (fheap s)(a \<mapsto> f)\<rparr>"

lemma put_fields [simp]:
  "files (put a f s) = files s" "config (put a f s) = config s" "fnext (put a f s) = fnext s"
  "curr_state (put a f s) = curr_state s" "clock (put a f s) = clock s" "smem (put a f s) = smem s"
  "fheap (put a f s) = (fheap s)(a \<mapsto> f)"
  by (simp_all add: put_def)

lemma put_put [simp]: "put a g (put a f s) = put a g s"
  by (simp add: put_def)

lemma put_upd [simp]:
  "(put a f s)\<lparr>clock := ts\<rparr> = put a f (s\<lparr>clock := ts\<rparr>)"
  "(put a f s)\<lparr>smem := m\<rparr> = put a f (s\<lparr>smem := m\<rparr>)"
  "(put a f s)\<lparr>files := mp\<rparr> = put a f (s\<lparr>files := mp\<rparr>)"
  "(put a f s)\<lparr>curr_state := st\<rparr> = put a f (s\<lparr>curr_state := st\<rparr>)"
  by (simp_all add: put_def)

lemma put_same: "fheap s a = Some f \<Longrightarrow> put a f s = s"
  by (cases s) (auto simp: put_def fun_upd_idem)

lemma smem_same: "smem s = m \<Longrightarrow> s\<lparr>smem := m\<rparr> = s"
  by (cases s) simp

lemma run_put [simp]:
  "deref a (put a f s) = Ok f"
  "upd_file a g (put a f s) = Ok (put a (g f) s)"
  "file_writer_unlock a (put a f s) = Ok (put a (f\<lparr>n_writers := n_writers f - 1\<rparr>) s)"
  "file_reader_unlock a (put a f s) = Ok (put a (f\<lparr>n_readers := n_readers f - 1\<rparr>) s)"
  "opened_by fd a (put a f s) = hashtbl_contains (fd_open f) fd"
  "file_delete (Some a) (put a f s) = Ok (s\<lparr>fheap := (fheap s)(a := None)\<rparr>)"
  by (simp_all add: deref_def upd_file_def file_writer_unlock_def file_reader_unlock_def opened_by_def
      file_delete_def put_def)

lemma run_lock:
  assumes "fheap s a = Some f" "unlocked f"
  shows "file_writer_lock a s = Ok (put a (f\<lparr>n_writers := 1\<rparr>) s)"
    "file_reader_lock a s = Ok (put a (f\<lparr>n_readers := 1\<rparr>) s)"
  using assms by (simp_all add: file_writer_lock_def file_reader_lock_def deref_def upd_file_def
      unlocked_def put_def)

lemma touch_put: "clock s = t # ts \<Longrightarrow> touch a (put a f s) = Ok (put a (f\<lparr>last_use := t\<rparr>) (s\<lparr>clock := ts\<rparr>))"
  by (simp add: touch_def clock_gettime_def)

lemma file_reunlock:
  "unlocked f \<Longrightarrow> f\<lparr>n_writers := 0\<rparr> = f" "unlocked f \<Longrightarrow> f\<lparr>n_readers := 0\<rparr> = f"
  by (cases f; simp add: unlocked_def)+

lemma release_lock_put:
  "release_lock fd a (put a f s) = Ok (put a (if fd_lock f = fd then f\<lparr>fd_lock := -1\<rparr> else f) s)"
  by (simp add: release_lock_def)

text \<open>The requests keep the invariant when they leave the file unlocked, evictable and of the same size.\<close>

lemma put_inv:
  assumes inv: "server_inv s" and a: "addr_of s k = Some a" "fheap s a = Some f"
    and g: "file_ok k g" "fsize g = fsize f" "unlocked g" "can_be_expelled g"
  shows "server_inv (put a g (s\<lparr>clock := ts\<rparr>))" "stored (put a g (s\<lparr>clock := ts\<rparr>)) = (stored s)(k \<mapsto> g)"
proof -
  have ok: "store_ok s" "idle s" using inv by (auto simp: server_inv_def)
  let ?s' = "put a g (s\<lparr>clock := ts\<rparr>)"
  note upd = store_upd [OF ok(1) a g(1), of ?s']
  show st: "stored ?s' = (stored s)(k \<mapsto> g)" by (rule upd(2)) (simp_all add: g)
  have ok': "store_ok ?s'" by (rule upd(1)) (simp_all add: g)
  have "idle ?s'"
    using ok(2) g unfolding idle_stored [OF ok'] idle_stored [OF ok(1)] st by auto
  with ok' inv show "server_inv ?s'" by (simp add: server_inv_def limits_ok_def watermarks_ok_def)
qed

lemma server_inv_store: "server_inv s \<Longrightarrow> store_ok s"
  by (simp add: server_inv_def)

lemma stored_size_le:
  assumes ok: "store_ok s" and a: "addr_of s p = Some a" "fheap s a = Some f"
  shows "unat (fsize f) \<le> unat (st_space (curr_state s))"
proof -
  obtain m where m: "files s = Some m" "unat (st_space (curr_state s)) = space_of (fheap s) (entries m)"
    using ok by (elim store_okE)
  have "(p, a) \<in> set (entries m)" using store_entries(2) [OF ok m(1)] a(1) by simp
  then have "size_at (fheap s) a \<le> space_of (fheap s) (entries m)"
    unfolding space_of_def using sum_list_map_member_le [of "(p, a)" _ "\<lambda>e. size_at (fheap s) (snd e)"] by simp
  then show ?thesis using m(2) a(2) by (simp add: size_at_def)
qed

lemma inv_file:
  assumes "server_inv s" "stored s k = Some f"
  obtains a t where "addr_of s k = Some a" "fheap s a = Some f" "file_ok k f" "unlocked f" "can_be_expelled f"
    "fd_open f = Some t" "fd_table_ok t" "lookup_file k s = Ok (Some a)" "smem s = Ample"
proof -
  have ok: "store_ok s" "idle s" using assms(1) by (auto simp: server_inv_def)
  obtain a where a: "addr_of s k = Some a" "fheap s a = Some f" using assms(2) by (rule stored_addr)
  have f: "file_ok k f" using addr_of_file [OF ok(1) a(1)] a(2) by auto
  then obtain t where t: "fd_open f = Some t" "fd_table_ok t"
    by (cases "fd_open f") (auto simp: file_ok_def)
  have "unlocked f" "can_be_expelled f" using ok assms(2) by (auto simp: idle_stored)
  moreover have "smem s = Ample" using ok(1) by (simp add: store_ok_def)
  ultimately show ?thesis using that a f t lookup_file_addr [OF ok(1), of k] by simp
qed

lemma inv_no_file:
  assumes "server_inv s" "stored s k = None"
  shows "lookup_file k s = Ok None" "addr_of s k = None"
  using assms by (simp_all add: lookup_file_addr [OF server_inv_store [OF assms(1)]] addr_of_None [OF server_inv_store [OF assms(1)]])

section \<open>The clients of a file\<close>

definition openers :: "file_t \<Rightarrow> int set" where
  "openers f = (case fd_open f of None \<Rightarrow> {} | Some t \<Rightarrow> set (entries t))"

definition client_fd :: "int \<Rightarrow> bool" where
  "client_fd fd \<longleftrightarrow> 0 \<le> fd \<and> fd < 1024"

lemma fd_contains: "fd_table_ok t \<Longrightarrow> hashtbl_contains (Some t) fd = Ok (fd \<in> set (entries t))"
  by (simp add: fd_table_ok_def hashtbl_contains_items items_def)

lemma fd_table_size:
  assumes "fd_table_ok t"
  shows "length (entries t) \<le> 1024" "x \<notin> set (entries t) \<Longrightarrow> client_fd x \<Longrightarrow> length (entries t) < 1024"
proof -
  have sub: "set (entries t) \<subseteq> {0..<1024}" and d: "distinct (entries t)"
    using assms by (auto simp: fd_table_ok_def tbl_wf_def)
  have c: "card (set (entries t)) = length (entries t)" using d by (rule distinct_card)
  show "length (entries t) \<le> 1024" using card_mono [OF _ sub] c by simp
  assume "x \<notin> set (entries t)" "client_fd x"
  then have ps: "set (entries t) \<subset> {0..<1024}" using sub by (auto simp: client_fd_def)
  show "length (entries t) < 1024" using psubset_card_mono [OF _ ps] c by simp
qed

lemma fd_insert:
  assumes ok: "fd_table_ok t" and fd: "client_fd fd" "fd \<notin> set (entries t)"
  shows "\<exists>t'. hashtbl_insert (Some t) fd Ample = Ok (Inr (), Some t', Ample) \<and> fd_table_ok t' \<and>
    set (entries t') = insert fd (set (entries t))"
proof -
  have t: "tbl_wf t" "nlist t \<le> 4096" using ok by (auto simp: fd_table_ok_def)
  from hashtbl_insert_Ample [OF t(1), of fd] t(2) fd(1) obtain t' where
    t': "hashtbl_insert (Some t) fd Ample = Ok (Inr (), Some t', Ample)" "tbl_wf t'"
      "items t' = add_mset fd (items t)"
      "nlist t' = (if nelem t + 1 > nlist t div 2 then 2 * nlist t else nlist t)"
    by (auto simp: client_fd_def)
  have m: "mset (entries t') = mset (fd # entries t)" using t'(3) by (simp add: items_def)
  have "distinct (fd # entries t)" using ok fd by (simp add: fd_table_ok_def)
  then have "distinct (entries t')" using mset_eq_imp_distinct_iff [OF m] by simp
  moreover have s: "set (entries t') = insert fd (set (entries t))" using mset_eq_setD [OF m] by simp
  moreover have "nelem t = int (length (entries t))" using tbl_wf_fields(1) [OF t(1)] by (simp add: tab_wf_def)
  moreover have "length (entries t) < 1024" using fd_table_size(2) [OF ok fd(2,1)] .
  ultimately have "fd_table_ok t'"
    using t' ok fd(1) t(2) by (auto simp: fd_table_ok_def client_fd_def split: if_splits)
  with t'(1) s show ?thesis by blast
qed

lemma fd_remove:
  assumes ok: "fd_table_ok t" and fd: "client_fd fd"
  shows "\<exists>r t'. hashtbl_remove (Some t) fd = Ok (r, Some t') \<and> fd_table_ok t' \<and>
    set (entries t') = set (entries t) - {fd}"
proof -
  have t: "tbl_wf t" "distinct (entries t)" using ok by (auto simp: fd_table_ok_def)
  from hashtbl_remove_items [OF t(1), of fd] fd obtain t' where
    t': "hashtbl_remove (Some t) fd = Ok (Inr (fd \<in># items t), Some t')" "tbl_wf t'"
      "items t' = items t - {#fd#}" "nlist t' = nlist t" by (auto simp: client_fd_def)
  have m: "mset (entries t') = mset (remove1 fd (entries t))" using t'(3) by (simp add: items_def)
  have "distinct (entries t')" using mset_eq_imp_distinct_iff [OF m] t(2) by (simp add: distinct_remove1)
  moreover have s: "set (entries t') = set (entries t) - {fd}"
    using mset_eq_setD [OF m] t(2) by (simp add: set_remove1_eq)
  ultimately have "fd_table_ok t'" using t' ok by (auto simp: fd_table_ok_def)
  with t'(1) s show ?thesis by blast
qed

lemma fd_init:
  assumes "client_fd fd"
  shows "\<exists>t t'. hashtbl_init 4 default_hashtbl_hash Ample = (Inr (), Some t, Ample) \<and>
    hashtbl_insert (Some t) fd Ample = Ok (Inr (), Some t', Ample) \<and> fd_table_ok t' \<and> set (entries t') = {fd}"
proof -
  obtain t where t: "hashtbl_init 4 default_hashtbl_hash Ample = (Inr (), Some t, Ample)" "tbl_wf t"
    "items t = {#}" "nlist t = 4" using hashtbl_init_Ample [of 4] by auto
  then have "fd_table_ok t" "entries t = []" by (simp_all add: fd_table_ok_def items_def)
  with fd_insert [of t fd] assms t(1) show ?thesis by auto
qed

section \<open>The abstract file store\<close>

text \<open>
  What a client can see of a file: its bytes, who holds its lock (-1 for nobody), who opened it.
  The abstract operations give the result code and the new store; \<open>vs\<close> are the paths that the
  replacement policy takes out.
\<close>

record afile =
  a_data :: "byte list"
  a_lock :: int
  a_open :: "int set"

definition abs_file :: "file_t \<Rightarrow> afile" where
  "abs_file f = \<lparr>a_data = (case contents f of None \<Rightarrow> [] | Some bs \<Rightarrow> bs), a_lock = fd_lock f, a_open = openers f\<rparr>"

type_synonym astore = "path \<Rightarrow> afile option"

definition abs_store :: "server \<Rightarrow> astore" where
  "abs_store s = (\<lambda>k. map_option abs_file (stored s k))"

definition spec_open :: "int \<Rightarrow> path \<Rightarrow> bool \<Rightarrow> astore \<Rightarrow> int \<times> astore" where
  "spec_open fd p lock A =
     (case A p of
        None \<Rightarrow> (SA_NO_FILE, A)
      | Some f \<Rightarrow>
          if lock \<and> a_lock f \<noteq> -1 \<and> a_lock f \<noteq> fd then (SA_ALREADY_LOCKED, A)
          else (SA_SUCCESS, A(p \<mapsto> f\<lparr>a_lock := (if lock then fd else a_lock f), a_open := insert fd (a_open f)\<rparr>)))"

definition spec_create :: "int \<Rightarrow> path \<Rightarrow> bool \<Rightarrow> path set \<Rightarrow> astore \<Rightarrow> int \<times> astore" where
  "spec_create fd p lock vs A =
     (if A p \<noteq> None then (SA_EXISTS, A)
      else (SA_SUCCESS, (A |` (- vs))(p \<mapsto> \<lparr>a_data = [], a_lock = (if lock then fd else -1), a_open = {fd}\<rparr>)))"

definition leave :: "int \<Rightarrow> afile \<Rightarrow> afile" where
  "leave fd f = f\<lparr>a_lock := (if a_lock f = fd then -1 else a_lock f), a_open := a_open f - {fd}\<rparr>"

definition spec_close :: "int \<Rightarrow> path \<Rightarrow> astore \<Rightarrow> int \<times> astore" where
  "spec_close fd p A =
     (case A p of None \<Rightarrow> (SA_NO_FILE, A) | Some f \<Rightarrow> (SA_SUCCESS, A(p \<mapsto> leave fd f)))"

definition spec_remove :: "int \<Rightarrow> path \<Rightarrow> astore \<Rightarrow> int \<times> astore" where
  "spec_remove fd p A =
     (case A p of
        None \<Rightarrow> (SA_SUCCESS, A)
      | Some f \<Rightarrow>
          if fd \<notin> a_open f then (SA_NO_OPEN, A)
          else if a_lock f \<noteq> fd then (SA_NOT_LOCKED, A)
          else (SA_SUCCESS, A(p := None)))"

definition spec_write :: "int \<Rightarrow> path \<Rightarrow> byte list \<Rightarrow> nat \<Rightarrow> path set \<Rightarrow> astore \<Rightarrow> int \<times> astore" where
  "spec_write fd p bs capacity vs A =
     (case A p of
        None \<Rightarrow> (SA_NO_FILE, A)
      | Some f \<Rightarrow>
          if fd \<notin> a_open f then (SA_NO_OPEN, A)
          else if a_lock f \<noteq> fd then (SA_NOT_LOCKED, A)
          else if a_data f \<noteq> [] then (SA_NOT_EMPTY, A)
          else if capacity < length bs then (SA_TOO_BIG, A)
          else (SA_SUCCESS, (A |` (- vs))(p \<mapsto> f\<lparr>a_data := bs\<rparr>)))"

definition spec_append :: "int \<Rightarrow> path \<Rightarrow> byte list \<Rightarrow> nat \<Rightarrow> path set \<Rightarrow> astore \<Rightarrow> int \<times> astore" where
  "spec_append fd p bs capacity vs A =
     (case A p of
        None \<Rightarrow> (SA_NO_FILE, A)
      | Some f \<Rightarrow>
          if fd \<notin> a_open f then (SA_NO_OPEN, A)
          else if capacity < length (a_data f) + length bs then (SA_TOO_BIG, A)
          else (SA_SUCCESS, (A |` (- vs))(p \<mapsto> f\<lparr>a_data := a_data f @ bs\<rparr>)))"

lemma abs_store_upd: "stored s' = (stored s)(k \<mapsto> g) \<Longrightarrow> abs_store s' = (abs_store s)(k \<mapsto> abs_file g)"
  by (simp add: abs_store_def fun_eq_iff)

lemma abs_store_same: "stored s' = stored s \<Longrightarrow> abs_store s' = abs_store s"
  by (simp add: abs_store_def)

lemma abs_store_at: "abs_store s k = (case stored s k of None \<Rightarrow> None | Some f \<Rightarrow> Some (abs_file f))"
  by (simp add: abs_store_def split: option.split)

section \<open>Opening an existing file\<close>

lemma add_opener_put:
  assumes "fd_open f = Some t" "fd_table_ok t" "client_fd fd" "smem s = Ample"
  shows "\<exists>t'. add_opener fd a (put a f s) = Ok (put a (f\<lparr>fd_open := Some t'\<rparr>) s) \<and> fd_table_ok t' \<and>
    set (entries t') = insert fd (set (entries t))"
proof (cases "fd \<in> set (entries t)")
  case True
  have eq: "f\<lparr>fd_open := Some t\<rparr> = f" using assms(1) by (cases f) simp
  have "add_opener fd a (put a f s) = Ok (put a f s)"
    using assms True by (simp add: add_opener_def fd_contains)
  then have "add_opener fd a (put a f s) = Ok (put a (f\<lparr>fd_open := Some t\<rparr>) s)" unfolding eq .
  with assms True show ?thesis by (intro exI [of _ t]) (auto simp: insert_absorb)
next
  case False
  from fd_insert [OF assms(2,3) False] obtain t' where
    t': "hashtbl_insert (Some t) fd Ample = Ok (Inr (), Some t', Ample)" "fd_table_ok t'"
      "set (entries t') = insert fd (set (entries t))" by blast
  have "s\<lparr>smem := Ample\<rparr> = s" using assms(4) by (cases s) simp
  then have "add_opener fd a (put a f s) = Ok (put a (f\<lparr>fd_open := Some t'\<rparr>) s)"
    using assms False t'(1) by (simp add: add_opener_def fd_contains)
  with t' show ?thesis by blast
qed

lemma open_existing_ok:
  assumes inv: "server_inv s" and fd: "client_fd fd" and clk: "clock s = now # ts"
  shows "\<exists>r s'. open_existing fd p flags s = Ok (r, s') \<and> server_inv s' \<and>
    (r, abs_store s') = spec_open fd p (is_flag_set flags O_LOCK) (abs_store s) \<and>
    (if r = SA_SUCCESS then \<exists>f g. stored s p = Some f \<and> stored s' = (stored s)(p \<mapsto> g) \<and>
       last_use g = now \<and> creation_time g = creation_time f \<and> clock s' = ts
     else s' = s)"
proof (cases "stored s p")
  case None
  then show ?thesis
    using inv inv_no_file [OF inv None] by (simp add: open_existing_def spec_open_def abs_store_at)
next
  case (Some f)
  obtain a t where a: "addr_of s p = Some a" "fheap s a = Some f" and f: "file_ok p f" "unlocked f" "can_be_expelled f"
    and t: "fd_open f = Some t" "fd_table_ok t" and look: "lookup_file p s = Ok (Some a)" and mem: "smem s = Ample"
    using inv_file [OF inv Some] by blast
  let ?L = "is_flag_set flags O_LOCK"
  have nw: "n_writers f = 0" "n_readers f = 0" using f(2) by (auto simp: unlocked_def)
  note lock = run_lock(1) [OF a(2) f(2)]
  show ?thesis
  proof (cases "?L \<and> fd_lock f \<noteq> -1 \<and> fd_lock f \<noteq> fd")
    case True
    then have "open_existing fd p flags s = Ok (SA_ALREADY_LOCKED, put a f s)"
      using look lock by (simp add: open_existing_def file_reunlock [OF f(2)])
    with True Some inv show ?thesis
      by (simp add: put_same [OF a(2)] spec_open_def abs_store_at abs_file_def)
  next
    case False
    let ?f1 = "(if ?L then f\<lparr>n_writers := 1, fd_lock := fd\<rparr> else f\<lparr>n_writers := 1\<rparr>)"
    have "fd_open ?f1 = Some t" using t by simp
    from add_opener_put [OF this t(2) fd mem, of a] obtain t' where
      t': "add_opener fd a (put a ?f1 s) = Ok (put a (?f1\<lparr>fd_open := Some t'\<rparr>) s)" "fd_table_ok t'"
        "set (entries t') = insert fd (set (entries t))" by blast
    let ?g = "f\<lparr>fd_lock := (if ?L then fd else fd_lock f), fd_open := Some t', last_use := now\<rparr>"
    have fin: "(?f1\<lparr>fd_open := Some t', last_use := now, n_writers := 0\<rparr>) = ?g"
      using nw by (cases f) simp
    have "open_existing fd p flags s =
        Ok (SA_SUCCESS, put a (?f1\<lparr>fd_open := Some t', last_use := now, n_writers := 0\<rparr>) (s\<lparr>clock := ts\<rparr>))"
      using look lock False t'(1) touch_put [of s now ts a "?f1\<lparr>fd_open := Some t'\<rparr>"] clk nw
      by (cases "?L") (simp_all add: open_existing_def)
    then have "open_existing fd p flags s = Ok (SA_SUCCESS, put a ?g (s\<lparr>clock := ts\<rparr>))" unfolding fin .
    moreover have "file_ok p ?g" "fsize ?g = fsize f" "unlocked ?g" "can_be_expelled ?g"
      using f t' by (auto simp: file_ok_def unlocked_def)
    note put_inv [OF inv a this, of ts]
    moreover from this have "abs_store (put a ?g (s\<lparr>clock := ts\<rparr>)) = (abs_store s)(p \<mapsto> abs_file ?g)"
      by (intro abs_store_upd) simp
    ultimately show ?thesis
      using Some False t t' by (auto simp: spec_open_def abs_store_at abs_file_def openers_def)
  qed
qed

section \<open>Closing, removing\<close>

lemma remove_opener_put:
  assumes "fd_open f = Some t" "fd_table_ok t" "client_fd fd"
  shows "\<exists>t'. remove_opener fd a (put a f s) = Ok (put a (f\<lparr>fd_open := Some t'\<rparr>) s) \<and> fd_table_ok t' \<and>
    set (entries t') = set (entries t) - {fd}"
  using fd_remove [OF assms(2,3)] assms(1) by (auto simp: remove_opener_def)

lemma close_core_ok:
  assumes inv: "server_inv s" and fd: "client_fd fd"
  shows "\<exists>r s'. close_core fd p s = Ok (r, s') \<and> server_inv s' \<and>
    (r, abs_store s') = spec_close fd p (abs_store s) \<and> clock s' = clock s"
proof (cases "stored s p")
  case None
  then show ?thesis
    using inv inv_no_file [OF inv None] by (simp add: close_core_def spec_close_def abs_store_at)
next
  case (Some f)
  obtain a t where a: "addr_of s p = Some a" "fheap s a = Some f" and f: "file_ok p f" "unlocked f" "can_be_expelled f"
    and t: "fd_open f = Some t" "fd_table_ok t" and look: "lookup_file p s = Ok (Some a)"
    using inv_file [OF inv Some] by blast
  have nw: "n_writers f = 0" "n_readers f = 0" using f(2) by (auto simp: unlocked_def)
  have "fd_open (f\<lparr>n_writers := 1\<rparr>) = Some t" using t by simp
  from remove_opener_put [OF this t(2) fd] obtain t' where
    t': "remove_opener fd a (put a (f\<lparr>n_writers := 1\<rparr>) s) = Ok (put a (f\<lparr>n_writers := 1, fd_open := Some t'\<rparr>) s)"
      "fd_table_ok t'" "set (entries t') = set (entries t) - {fd}" by fastforce
  let ?g = "f\<lparr>fd_lock := (if fd_lock f = fd then -1 else fd_lock f), fd_open := Some t'\<rparr>"
  let ?h = "if fd_lock f = fd then f\<lparr>fd_open := Some t', fd_lock := -1, n_writers := 0\<rparr>
    else f\<lparr>fd_open := Some t', n_writers := 0\<rparr>"
  have fin: "?h = ?g" using nw by (cases f) simp
  have "close_core fd p s = Ok (SA_SUCCESS, put a ?h (s\<lparr>clock := clock s\<rparr>))"
    using look run_lock(1) [OF a(2) f(2)] t'(1)
    by (cases "fd_lock f = fd") (simp_all add: close_core_def release_lock_put)
  then have "close_core fd p s = Ok (SA_SUCCESS, put a ?g (s\<lparr>clock := clock s\<rparr>))" unfolding fin .
  moreover have "file_ok p ?g" "fsize ?g = fsize f" "unlocked ?g" "can_be_expelled ?g"
    using f t' by (auto simp: file_ok_def unlocked_def)
  note put_inv [OF inv a this, of "clock s"]
  moreover from this have "abs_store (put a ?g (s\<lparr>clock := clock s\<rparr>)) = (abs_store s)(p \<mapsto> abs_file ?g)"
    by (intro abs_store_upd) simp
  ultimately show ?thesis
    using Some t t' by (auto simp: spec_close_def leave_def abs_store_at abs_file_def openers_def)
qed

text \<open>Taking a file out keeps the invariant; what remains has the locks it had.\<close>

lemma del_inv:
  assumes inv: "server_inv s" and ok: "store_ok s'" and st: "stored s' = (stored s)(k := None)"
    and c: "unat (st_files (curr_state s')) \<le> unat (st_files (curr_state s))"
      "unat (st_space (curr_state s')) \<le> unat (st_space (curr_state s))"
      "st_max_files (curr_state s') = st_max_files (curr_state s)"
      "st_max_space (curr_state s') = st_max_space (curr_state s)" "config s' = config s"
  shows "server_inv s'"
proof -
  have "\<forall>k f. stored s k = Some f \<longrightarrow> unlocked f \<and> can_be_expelled f"
    using inv idle_stored [of s] by (simp add: server_inv_def)
  then have "idle s'" unfolding idle_stored [OF ok] st by simp
  with inv ok c show ?thesis by (auto simp: server_inv_def limits_ok_def watermarks_ok_def)
qed

lemma remove_core_ok:
  assumes inv: "server_inv s"
  shows "\<exists>r s'. remove_core fd p s = Ok (r, s') \<and> server_inv s' \<and>
    (r, abs_store s') = spec_remove fd p (abs_store s) \<and> clock s' = clock s \<and>
    (case stored s p of None \<Rightarrow> s' = s
     | Some f \<Rightarrow> if r = SA_SUCCESS
         then unat (st_space (curr_state s')) + unat (fsize f) = unat (st_space (curr_state s)) \<and>
              Suc (unat (st_files (curr_state s'))) = unat (st_files (curr_state s))
         else s' = s)"
proof (cases "stored s p")
  case None
  then show ?thesis
    using inv inv_no_file [OF inv None] by (simp add: remove_core_def spec_remove_def abs_store_at)
next
  case (Some f)
  obtain a t where a: "addr_of s p = Some a" "fheap s a = Some f" and f: "file_ok p f" "unlocked f" "can_be_expelled f"
    and t: "fd_open f = Some t" "fd_table_ok t" and look: "lookup_file p s = Ok (Some a)"
    using inv_file [OF inv Some] by blast
  note lock = run_lock(1) [OF a(2) f(2)]
  note spec = spec_remove_def abs_store_at abs_file_def openers_def
  show ?thesis
  proof (cases "fd \<in> set (entries t) \<and> fd_lock f = fd")
    case False
    then have "remove_core fd p s = Ok (if fd \<in> set (entries t) then SA_NOT_LOCKED else SA_NO_OPEN, put a f s)"
      using look lock t by (auto simp: remove_core_def fd_contains file_reunlock [OF f(2)])
    with False Some inv t show ?thesis
      by (auto simp: put_same [OF a(2)] spec)
  next
    case True
    obtain m' where rem: "hashmap_remove (files s) p = Ok (Inr (Some (p, a)), Some m')" and
      del: "\<And>s'. \<lbrakk>files s' = Some m'; \<And>b. b \<noteq> a \<Longrightarrow> fheap s' b = fheap s b; fnext s' = fnext s; smem s' = smem s;
          config s' = config s; st_files (curr_state s') = st_files (curr_state s) - 1;
          st_space (curr_state s') = st_space (curr_state s) - fsize f\<rbrakk> \<Longrightarrow>
        store_ok s' \<and> stored s' = (stored s)(p := None) \<and> addr_of s' = (addr_of s)(p := None) \<and>
        Suc (unat (st_files (curr_state s'))) = unat (st_files (curr_state s)) \<and>
        unat (st_space (curr_state s')) + unat (fsize f) = unat (st_space (curr_state s))"
      using store_del [OF server_inv_store [OF inv] a] by blast
    let ?s' = "s\<lparr>fheap := (fheap s)(a := None), files := Some m',
      curr_state := (curr_state s)\<lparr>st_files := st_files (curr_state s) - 1, st_space := st_space (curr_state s) - fsize f\<rparr>\<rparr>"
    have run: "remove_core fd p s = Ok (SA_SUCCESS, ?s')"
      using look lock t True rem by (simp add: remove_core_def fd_contains)
    have d: "store_ok ?s' \<and> stored ?s' = (stored s)(p := None) \<and> addr_of ?s' = (addr_of s)(p := None) \<and>
        Suc (unat (st_files (curr_state ?s'))) = unat (st_files (curr_state s)) \<and>
        unat (st_space (curr_state ?s')) + unat (fsize f) = unat (st_space (curr_state s))"
      by (rule del) simp_all
    then have "server_inv ?s'" by (intro del_inv [OF inv]) auto
    moreover have "abs_store ?s' = (abs_store s)(p := None)" using d by (simp add: abs_store_def fun_eq_iff)
    ultimately show ?thesis using run d Some True t by (simp add: spec)
  qed
qed

section \<open>Reading\<close>

lemma read_core_ok:
  assumes inv: "server_inv s" and clk: "clock s = now # ts"
  shows "\<exists>r s'. read_core fd p s = Ok (r, s') \<and>
    (case stored s p of
       None \<Rightarrow> r = Inl SA_NO_FILE \<and> s' = s
     | Some f \<Rightarrow>
         if fd \<notin> openers f then r = Inl SA_NO_OPEN \<and> s' = s
         else \<exists>a. addr_of s p = Some a \<and> r = Inr a \<and>
                s' = put a (f\<lparr>last_use := now, n_readers := 1\<rparr>) (s\<lparr>clock := ts\<rparr>))"
proof (cases "stored s p")
  case None
  then show ?thesis
    using inv inv_no_file [OF inv None] by (simp add: read_core_def)
next
  case (Some f)
  obtain a t where a: "addr_of s p = Some a" "fheap s a = Some f" and f: "file_ok p f" "unlocked f" "can_be_expelled f"
    and t: "fd_open f = Some t" "fd_table_ok t" and look: "lookup_file p s = Ok (Some a)"
    using inv_file [OF inv Some] by blast
  note lock = run_lock(2) [OF a(2) f(2)]
  have c: "f\<lparr>n_readers := 1, last_use := now\<rparr> = f\<lparr>last_use := now, n_readers := 1\<rparr>" by simp
  show ?thesis
  proof (cases "fd \<in> set (entries t)")
    case True
    have "read_core fd p s = Ok (Inr a, put a (f\<lparr>n_readers := 1, last_use := now\<rparr>) (s\<lparr>clock := ts\<rparr>))"
      using look lock t True clk by (simp add: read_core_def fd_contains touch_put)
    with True Some a t show ?thesis unfolding c by (simp add: openers_def)
  next
    case False
    then have "read_core fd p s = Ok (Inl SA_NO_OPEN, put a f s)"
      using look lock t by (simp add: read_core_def fd_contains file_reunlock [OF f(2)])
    with False Some t show ?thesis by (simp add: put_same [OF a(2)] openers_def)
  qed
qed

section \<open>Creating a file\<close>

text \<open>The new file while \<open>create_file\<close> holds its lock.\<close>

definition new_file :: "path \<Rightarrow> bool \<Rightarrow> int \<Rightarrow> hashtbl \<Rightarrow> timespec \<Rightarrow> timespec \<Rightarrow> file_t" where
  "new_file p lock fd t t1 t2 =
     \<lparr>path_name = p, contents = None, fsize = 0, fd_lock = (if lock then fd else -1), fd_open = Some t,
      n_readers = 0, n_writers = 1, creation_time = t1, last_use = t2, can_be_expelled = False\<rparr>"

lemma create_file_ok:
  assumes fd: "client_fd fd" and mem: "smem s = Ample" and clk: "clock s = t1 # t2 # ts"
  shows "\<exists>t. create_file p flags fd s = Ok (fnext s,
      put (fnext s) (new_file p (is_flag_set flags O_LOCK) fd t t1 t2) (s\<lparr>fnext := Suc (fnext s), clock := ts\<rparr>)) \<and>
    fd_table_ok t \<and> set (entries t) = {fd}"
proof -
  obtain t t' where t: "hashtbl_init 4 default_hashtbl_hash Ample = (Inr (), Some t, Ample)"
    "hashtbl_insert (Some t) fd Ample = Ok (Inr (), Some t', Ample)" "fd_table_ok t'" "set (entries t') = {fd}"
    using fd_init [OF fd] by blast
  have mm: "s\<lparr>smem := Ample\<rparr> = s" using mem by (cases s) simp
  have "create_file p flags fd s = Ok (fnext s,
      put (fnext s) (new_file p (is_flag_set flags O_LOCK) fd t' t1 t2) (s\<lparr>fnext := Suc (fnext s), clock := ts\<rparr>))"
    using mem mm clk t(1,2)
    by (simp add: create_file_def safe_malloc_def malloc_bytes_def file_writer_lock_def deref_def
        upd_file_def clock_gettime_def put_def new_file_def Let_def)
  with t show ?thesis by blast
qed

text \<open>The optional expulsion, on the state in which the new file is not in the map yet.\<close>

lemma make_place_ok:
  assumes ok: "store_ok s" and lim: "limits_ok s" and idl: "idle s"
  shows "\<exists>e vs s'. (if st_files (curr_state s) = cfg_max_files (config s) then expell_single_file s else Ok (None, s)) =
      Ok (e, s') \<and> expelled_ok s vs s' \<and> e = map_option v_addr (case vs of [] \<Rightarrow> None | v # _ \<Rightarrow> Some v) \<and>
      length vs = (if st_files (curr_state s) = cfg_max_files (config s) then 1 else 0) \<and>
      unat (st_files (curr_state s')) < unat (cfg_max_files (config s'))"
proof (cases "st_files (curr_state s) = cfg_max_files (config s)")
  case True
  obtain m where m: "files s = Some m" "unat (st_files (curr_state s)) = length (entries m)"
    using ok by (elim store_okE)
  have "entries m \<noteq> []" using m(2) lim True by (auto simp: limits_ok_def)
  then obtain k0 a0 where "(k0, a0) \<in> set (entries m)" by (cases "entries m") auto
  then have "addr_of s k0 = Some a0" using store_entries(2) [OF ok m(1)] by simp
  then obtain f0 where f0: "stored s k0 = Some f0" by (rule addr_of_file [OF ok])
  have free: "\<forall>k f. stored s k = Some f \<longrightarrow> unlocked f \<and> can_be_expelled f"
    using idl idle_stored [OF ok] by simp
  then have "evictable_free s" by (simp add: evictable_free_def)
  from expell_single_ok [OF ok this f0] free f0 obtain k a f s' where
    ex: "expell_single_file s = Ok (Some a, s')" and k: "addr_of s k = Some a" "fheap s a = Some f"
    and least: "least_stored (policy_stamp (cfg_policy (config s))) (stored s) f"
    and s': "store_ok s'" "stored s' = (stored s)(k := None)" "addr_of s' = (addr_of s)(k := None)"
      "fheap s' = (fheap s)(a \<mapsto> f\<lparr>n_writers := 1\<rparr>)" "counted_out 1 (unat (fsize f)) s s'" by blast
  have "expelled_ok s [(k, a, f)] s'"
    by (rule expelled_ok_Cons [OF ok k least s' expelled_ok_Nil [OF s'(1)]])
  moreover have "unat (st_files (curr_state s')) < unat (cfg_max_files (config s'))"
    using s'(5) True by (auto simp: counted_out_def)
  ultimately show ?thesis using True ex
    by (intro exI [of _ "Some a"] exI [of _ "[(k, a, f)]"] exI [of _ s']) simp
next
  case False
  have "unat (st_files (curr_state s)) \<noteq> unat (cfg_max_files (config s))"
    using False by (simp add: word_unat_eq_iff)
  then have "unat (st_files (curr_state s)) < unat (cfg_max_files (config s))" using lim by (simp add: limits_ok_def)
  with False expelled_ok_Nil [OF ok] show ?thesis
    by (intro exI [of _ None] exI [of _ "[]"] exI [of _ s]) simp
qed

lemma restrict_map_empty_compl [simp]: "m |` (- {}) = m"
  by (simp add: restrict_map_def)

lemma abs_store_restrict: "stored s' = (stored s |` X)(k \<mapsto> g) \<Longrightarrow> abs_store s' = (abs_store s |` X)(k \<mapsto> abs_file g)"
  by (auto simp: abs_store_def restrict_map_def fun_eq_iff)

lemma count_file_fields:
  assumes "unat (st_files st) < 2 ^ 27"
  shows "st_files (count_file st) = st_files st + 1" "st_space (count_file st) = st_space st"
    "st_max_space (count_file st) = st_max_space st"
    "unat (st_files (count_file st)) \<le> unat (st_max_files (count_file st))"
proof -
  have "unat (st_files st) < 2 ^ 32 - 1" using assms by (rule order_less_le_trans) simp
  then have "unat (st_files st + 1) = Suc (unat (st_files st))" by (intro unat_Suc_no_wrap) simp
  then show "unat (st_files (count_file st)) \<le> unat (st_max_files (count_file st))"
    by (simp add: count_file_def Let_def word_less_nat_alt)
qed (simp_all add: count_file_def Let_def)

lemma open_create_ok:
  assumes inv: "server_inv s" and fd: "client_fd fd" and p: "valid_path p" and clk: "clock s = t1 # t2 # ts"
  shows "\<exists>r s' vs. open_create fd p flags s = Ok (r, s') \<and> server_inv s' \<and>
    (r, abs_store s') = spec_create fd p (is_flag_set flags O_LOCK) (v_path ` set vs) (abs_store s) \<and>
    (if stored s p \<noteq> None then s' = s
     else clock s' = ts \<and> eviction_order (policy_stamp (cfg_policy (config s))) (stored s) vs \<and>
       length vs = (if st_files (curr_state s) = cfg_max_files (config s) then 1 else 0) \<and>
       (\<exists>g. stored s' p = Some g \<and> creation_time g = t1 \<and> last_use g = t2))"
proof -
  have ok: "store_ok s" and lim: "limits_ok s" and mem: "smem s = Ample"
    using inv by (auto simp: server_inv_def store_ok_def)
  have has: "hashmap_contains (files s) p = Ok (stored s p \<noteq> None)"
    using ok addr_of_None [OF ok, of p] by (elim store_okE) (simp add: fm_contains addr_of_def)
  show ?thesis
  proof (cases "stored s p")
    case (Some f)
    then show ?thesis using has inv
      by (intro exI [of _ SA_EXISTS] exI [of _ s] exI [of _ "[]"])
        (simp add: open_create_def spec_create_def abs_store_at)
  next
    case None
    let ?a = "fnext s" and ?L = "is_flag_set flags O_LOCK"
    obtain t where t: "fd_table_ok t" "set (entries t) = {fd}" and cr: "create_file p flags fd s =
        Ok (?a, put ?a (new_file p ?L fd t t1 t2) (s\<lparr>fnext := Suc ?a, clock := ts\<rparr>))"
      using create_file_ok [OF fd mem clk] by blast
    let ?f = "new_file p ?L fd t t1 t2"
    let ?s1 = "put ?a ?f (s\<lparr>fnext := Suc ?a, clock := ts\<rparr>)"
    have below: "b < ?a" if "addr_of s k = Some b" for k b using addr_of_file [OF ok that] by blast
    have fr1: "store_ok ?s1" "stored ?s1 = stored s" "addr_of ?s1 = addr_of s"
      by (rule store_frame [OF ok]; use below in fastforce)+
    have "idle s" using inv by (simp add: server_inv_def)
    then have idle: "idle ?s1" unfolding idle_stored [OF ok] idle_stored [OF fr1(1)] fr1(2) .
    have "limits_ok ?s1" using lim by (simp add: limits_ok_def)
    with make_place_ok [OF fr1(1) _ idle] obtain e vs s2 where
      mp: "(if st_files (curr_state s) = cfg_max_files (config s) then expell_single_file ?s1 else Ok (None, ?s1)) = Ok (e, s2)"
      and ex: "expelled_ok ?s1 vs s2" and e: "e = map_option v_addr (case vs of [] \<Rightarrow> None | v # _ \<Rightarrow> Some v)"
      and len: "length vs = (if st_files (curr_state s) = cfg_max_files (config s) then 1 else 0)"
      and room: "unat (st_files (curr_state s2)) < unat (cfg_max_files (config s2))" by auto
    from ex have s2: "store_ok s2" "stored s2 = stored s |` (- v_path ` set vs)"
        "addr_of s2 = addr_of s |` (- v_path ` set vs)" "counted_out (length vs) (victims_size vs) ?s1 s2"
        and ord: "eviction_order (policy_stamp (cfg_policy (config s))) (stored s) vs"
        and out: "\<And>v. v \<in> set vs \<Longrightarrow> addr_of s (v_path v) = Some (v_addr v) \<and> fheap s2 (v_addr v) \<noteq> None"
        and heap: "\<And>b. b \<notin> v_addr ` set vs \<Longrightarrow> fheap s2 b = fheap ?s1 b"
      unfolding expelled_ok_def fr1(2,3) by auto
    have same: "config s2 = config s" "clock s2 = ts" "fnext s2 = Suc ?a" "smem s2 = Ample"
      "st_max_files (curr_state s2) = st_max_files (curr_state s)" "st_max_space (curr_state s2) = st_max_space (curr_state s)"
      "unat (st_space (curr_state s2)) \<le> unat (st_space (curr_state s))"
      using s2(4) mem by (auto simp: counted_out_def)
    have a_out: "?a \<notin> v_addr ` set vs" using out below by fastforce
    have a2: "fheap s2 ?a = Some ?f" using heap [OF a_out] by simp
    have unmapped: "addr_of s2 k \<noteq> Some ?a" for k
      using below [of k ?a] by (auto simp: s2(3) restrict_map_def split: if_splits)
    let ?g = "?f\<lparr>can_be_expelled := True\<rparr>"
    let ?s3 = "put ?a ?g s2"
    have fr3: "store_ok ?s3" "stored ?s3 = stored s2" "addr_of ?s3 = addr_of s2"
      by (rule store_frame [OF s2(1)]; use unmapped in fastforce)+
    have g: "file_ok p ?g" "fsize ?g = 0" using p t by (auto simp: file_ok_def new_file_def)
    have none: "addr_of ?s3 p = None" "\<And>k. addr_of ?s3 k \<noteq> Some ?a" "fheap ?s3 ?a = Some ?g" "?a < fnext ?s3"
      "unat (st_files (curr_state ?s3)) < unat (cfg_max_files (config ?s3))" "unat (cfg_max_files (config ?s3)) < 2 ^ 27"
      using addr_of_None [OF ok, of p] None unmapped room lim same
      unfolding fr3(3) by (auto simp: s2(3) limits_ok_def restrict_map_def)
    obtain m' where ins: "hashmap_insert (files s2) p ?a (smem s2) = Ok (Inr (), Some m', Ample)" and
      add: "\<And>s'. \<lbrakk>files s' = Some m'; fheap s' = fheap ?s3; fnext s' = fnext ?s3; smem s' = Ample;
          config s' = config ?s3; st_files (curr_state s') = st_files (curr_state ?s3) + 1;
          st_space (curr_state s') = st_space (curr_state ?s3)\<rbrakk> \<Longrightarrow>
        store_ok s' \<and> stored s' = (stored ?s3)(p \<mapsto> ?g) \<and> addr_of s' = (addr_of ?s3)(p \<mapsto> ?a) \<and>
        unat (st_files (curr_state s')) = Suc (unat (st_files (curr_state ?s3)))"
      using store_add [OF fr3(1) none(1,2,3) g(1,2) none(4-6)] by simp blast
    have small: "unat (st_files (curr_state s2)) < 2 ^ 27" using none(5,6) by simp
    note cnt = count_file_fields [OF small]
    let ?s4 = "put ?a ?g (s2\<lparr>files := Some m', smem := Ample, curr_state := count_file (curr_state s2)\<rparr>)"
    have s4: "store_ok ?s4" "stored ?s4 = (stored s2)(p \<mapsto> ?g)" "addr_of ?s4 = (addr_of s2)(p \<mapsto> ?a)"
      "unat (st_files (curr_state ?s4)) = Suc (unat (st_files (curr_state s2)))"
      using add [of ?s4] cnt fr3(2,3) by simp_all
    let ?h = "?g\<lparr>n_writers := 0\<rparr>"
    let ?s5 = "put ?a ?h (s2\<lparr>files := Some m', smem := Ample, curr_state := count_file (curr_state s2)\<rparr>)"
    have h: "file_ok p ?h" using g by (simp add: file_ok_def)
    note up5 = store_upd [OF s4(1) _ _ h, of ?a ?g ?s5]
    have s5: "store_ok ?s5" "stored ?s5 = (stored s2)(p \<mapsto> ?h)" "addr_of ?s5 = (addr_of s2)(p \<mapsto> ?a)"
      using up5 s4 by simp_all
    obtain s6 where del: "file_delete e ?s5 = Ok s6" and s6: "store_ok s6" "stored s6 = stored ?s5"
        "curr_state s6 = curr_state ?s5" "config s6 = config ?s5" "clock s6 = clock ?s5"
    proof (cases vs)
      case Nil
      then show ?thesis using that [of ?s5] e s5(1) by (simp add: file_delete_def)
    next
      case (Cons v vs')
      then have v: "e = Some (v_addr v)" "v_addr v \<noteq> ?a" "addr_of s (v_path v) = Some (v_addr v)"
        "fheap s2 (v_addr v) \<noteq> None" using e out [of v] a_out by auto
      let ?s6 = "?s5\<lparr>fheap := (fheap ?s5)(v_addr v := None)\<rparr>"
      have nm: "addr_of ?s5 k \<noteq> Some (v_addr v)" for k
      proof
        assume "addr_of ?s5 k = Some (v_addr v)"
        then have "addr_of s k = Some (v_addr v)" "k \<noteq> v_path v"
          using v(2) Cons unfolding s5(3) s2(3) by (auto simp: restrict_map_def split: if_splits)
        with addr_of_inj [OF ok v(3)] show False by blast
      qed
      have "fheap ?s6 b = fheap ?s5 b" if "addr_of ?s5 k = Some b" for k b using that nm [of k] by auto
      then have fr: "store_ok ?s6" "stored ?s6 = stored ?s5"
        by (intro store_frame [OF s5(1)]; simp)+
      have "file_delete e ?s5 = Ok ?s6" using v by (auto simp: file_delete_def deref_def)
      then show ?thesis using that [of ?s6] fr(1,2) by simp
    qed
    have u3: "upd_file ?a (\<lambda>f. f\<lparr>can_be_expelled := True\<rparr>) s2 = Ok ?s3"
      using a2 by (simp add: upd_file_def deref_def put_def)
    have "n_writers ?f = 1" by (simp add: new_file_def)
    then have u5: "file_writer_unlock ?a ?s4 = Ok ?s5" by simp
    have c1: "curr_state ?s1 = curr_state s" "config ?s1 = config s" by simp_all
    have f3: "files ?s3 = files s2" "smem ?s3 = smem s2" "curr_state ?s3 = curr_state s2"
      "?s3\<lparr>files := Some m', smem := Ample, curr_state := count_file (curr_state s2)\<rparr> = ?s4" by simp_all
    have ns: "(stored s p \<noteq> None) = False" using None by simp
    have run: "open_create fd p flags s = Ok (SA_SUCCESS, s6)"
      unfolding open_create_def has cr rbind.simps prod.case c1 mp u3 f3 ins u5 del ns if_False ..
    have st6: "stored s6 = (stored s |` (- v_path ` set vs))(p \<mapsto> ?h)" using s6(2) s5(2) s2(2) by simp
    have hh: "unlocked ?h" "can_be_expelled ?h" "abs_file ?h = \<lparr>a_data = [], a_lock = (if ?L then fd else -1), a_open = {fd}\<rparr>"
      "creation_time ?h = t1" "last_use ?h = t2"
      using t by (simp_all add: new_file_def unlocked_def abs_file_def openers_def)
    have "\<forall>k f. stored s k = Some f \<longrightarrow> unlocked f \<and> can_be_expelled f"
      using inv idle_stored [OF ok] by (simp add: server_inv_def)
    then have "idle s6" unfolding idle_stored [OF s6(1)] st6 using hh by (simp add: restrict_map_def)
    moreover have "limits_ok s6" using lim none(5) cnt s4(4) s6(3,4) same by (simp add: limits_ok_def)
    moreover have "watermarks_ok s6"
      using inv cnt s6(3) same by (simp add: watermarks_ok_def server_inv_def)
    ultimately have "server_inv s6" using s6(1) by (simp add: server_inv_def)
    moreover have "abs_store s6 = (abs_store s |` (- v_path ` set vs))(p \<mapsto> abs_file ?h)"
      by (rule abs_store_restrict [OF st6])
    moreover have "stored s6 p = Some ?h" "clock s6 = ts" using st6 s6(5) same by simp_all
    ultimately show ?thesis
      using run None ord len hh by (intro exI [of _ SA_SUCCESS] exI [of _ s6] exI [of _ vs])
        (simp add: spec_create_def abs_store_at)
  qed
qed

end
