(* ===== verification/Writes.thy ===== *)
theory Writes
  imports Requests
begin

text \<open>
  What \<open>write_file\<close> and \<open>append_to_file\<close> do to the store on every branch, expulsions included, and
  that they keep the invariant of the server once the expelled files are destroyed.
\<close>

section \<open>Charging bytes to the store\<close>

lemma sint_of_int: "- (2 ^ 63) \<le> x \<Longrightarrow> x < 2 ^ 63 \<Longrightarrow> sint (word_of_int x :: u64) = x"
  by (simp add: sint_sbintrunc' signed_take_bit_int_eq_self)

lemma uint_less: "unat w < n \<Longrightarrow> uint w < int n"
  by (simp only: uint_nat of_nat_less_iff)

lemma size_to_remove_pos:
  assumes "unat b < 2 ^ 63" "unat a < unat b + 2 ^ 63"
  shows "0 < to_long (a - b) \<longleftrightarrow> unat b < unat a"
proof -
  have "uint b < int (2 ^ 63)" "uint a < int (unat b + 2 ^ 63)" using assms [THEN uint_less] by blast+
  then have "uint b < 2 ^ 63" "uint a < uint b + 2 ^ 63" by simp_all
  moreover have "0 \<le> uint a" by (rule uint_ge_0)
  ultimately have "- (2 ^ 63) \<le> uint a - uint b" "uint a - uint b < 2 ^ 63" by linarith+
  then have "sint (word_of_int (uint a - uint b) :: u64) = uint a - uint b" by (rule sint_of_int)
  then have "to_long (a - b) = uint a - uint b" unfolding to_long_def word_sub_wi .
  then have "0 < to_long (a - b) \<longleftrightarrow> uint b < uint a" by simp
  also have "\<dots> \<longleftrightarrow> unat b < unat a" by (simp only: uint_nat of_nat_less_iff)
  finally show ?thesis .
qed

lemma eviction_order_except:
  assumes "eviction_order st M vs" "M p = Some fp" "\<not> can_be_expelled fp"
  shows "eviction_order st (M(p := None)) vs"
  using assms
proof (induction st M vs rule: eviction_order.induct)
  case (2 st M k a f vs)
  then have kp: "k \<noteq> p" by (auto simp: least_stored_def)
  have "eviction_order st (M(k := None)) vs" "(M(k := None)) p = Some fp" using 2 kp by simp_all
  then have "eviction_order st ((M(k := None))(p := None)) vs" using 2 by blast
  moreover have "least_stored st (M(p := None)) f" using 2 by (auto simp: least_stored_def)
  moreover have "(M(k := None))(p := None) = (M(p := None))(k := None)" using kp by (rule fun_upd_twist)
  moreover have "(M(p := None)) k = Some f" using 2 kp by simp
  ultimately show ?case unfolding eviction_order.simps by simp
qed simp

text \<open>
  What an expulsion on behalf of \<open>p\<close>, which grows by \<open>n\<close> bytes, may do: take out files other than
  \<open>p\<close>, in the order of the policy, only as many as it takes to get back under the capacity.
\<close>

definition made_room :: "path \<Rightarrow> nat \<Rightarrow> server \<Rightarrow> victim list \<Rightarrow> server \<Rightarrow> bool" where
  "made_room p n s vs s' \<longleftrightarrow>
     p \<notin> v_path ` set vs \<and> distinct (map v_path vs) \<and>
     eviction_order (policy_stamp (cfg_policy (config s))) ((stored s)(p := None)) vs \<and>
     unat (st_space (curr_state s')) + victims_size vs = unat (st_space (curr_state s)) + n \<and>
     unat (st_files (curr_state s')) + length vs = unat (st_files (curr_state s)) \<and>
     unat (st_space (curr_state s')) \<le> unat (cfg_max_space (config s)) \<and>
     (vs = [] \<or> unat (cfg_max_space (config s)) + victims_size (butlast vs) < unat (st_space (curr_state s)) + n)"

text \<open>The victims are out of the map but still in memory, for the reply.\<close>

definition victims_in_memory :: "server \<Rightarrow> victim list \<Rightarrow> server \<Rightarrow> bool" where
  "victims_in_memory s vs s' \<longleftrightarrow> addr_of s' = addr_of s |` (- v_path ` set vs) \<and> (\<forall>v \<in> set vs. addr_of s (v_path v) = Some (v_addr v) \<and>
     stored s (v_path v) = Some (v_file v) \<and> fheap s' (v_addr v) = Some ((v_file v)\<lparr>n_writers := 1\<rparr>))"

lemma watermark_max: "unat (st_space st) \<le> unat (if st_space st > st_max_space st then st_space st else st_max_space st)"
  by (simp add: word_less_nat_alt)

lemma word_sub_eq: "unat b < unat a \<Longrightarrow> unat (a - b) = unat a - unat b" for a b :: u64
  by (intro unat_sub_no_wrap) simp

lemma charge_space_ok:
  assumes inv: "server_inv s" and a: "addr_of s p = Some a" "fheap s a = Some f"
    and g: "file_ok p g" "unat (fsize g) = unat (fsize f) + unat n"
      "unat (fsize g) \<le> unat (cfg_max_space (config s))" "can_be_expelled g"
  shows "\<exists>vs s'. charge_space a n [] (put a g (s\<lparr>clock := ts\<rparr>)) = Ok (map v_addr vs, s') \<and>
    store_ok s' \<and> addr_of s' p = Some a \<and> fheap s' a = Some g \<and>
    stored s' = (stored s |` (- v_path ` set vs))(p \<mapsto> g) \<and> made_room p (unat n) s vs s' \<and>
    victims_in_memory s vs s' \<and> limits_ok s' \<and> watermarks_ok s' \<and> clock s' = ts \<and> config s' = config s"
proof -
  have ok: "store_ok s" and lim: "limits_ok s" and wm: "watermarks_ok s" and mem: "smem s = Ample"
    using inv by (auto simp: server_inv_def store_ok_def)
  let ?cap = "unat (cfg_max_space (config s))" and ?sp = "st_space (curr_state s) + n"
  have lims: "unat (st_space (curr_state s)) \<le> ?cap" "?cap < 2 ^ 63" using lim by (auto simp: limits_ok_def)
  have sum: "unat (st_space (curr_state s)) + unat n < 2 ^ 64" using lims g(2,3) by simp
  then have sp: "unat ?sp = unat (st_space (curr_state s)) + unat n" by (intro unat_add_no_wrap) simp
  let ?st = "(curr_state s)\<lparr>st_space := ?sp\<rparr>"
  have "unat ?sp < ?cap + 2 ^ 63" using sp lims g(2,3) by linarith
  note pos = size_to_remove_pos [OF lims(2) this]
  show ?thesis
  proof (cases "?cap < unat ?sp")
    case False
    then have no: "\<not> 0 < to_long (?sp - cfg_max_space (config s))" using pos by blast
    let ?st' = "?st\<lparr>st_max_space := (if ?sp > st_max_space (curr_state s) then ?sp else st_max_space (curr_state s))\<rparr>"
    let ?s' = "put a g (s\<lparr>clock := ts, curr_state := ?st'\<rparr>)"
    have run: "charge_space a n [] (put a g (s\<lparr>clock := ts\<rparr>)) = Ok ([], ?s')"
      using no by (simp add: charge_space_def Let_def)
    have up: "store_ok ?s'" "stored ?s' = (stored s)(p \<mapsto> g)" "addr_of ?s' = addr_of s"
      by (rule store_upd [OF ok a g(1)]; simp add: sp g(2))+
    have "limits_ok ?s'" "watermarks_ok ?s'"
      using False lim wm by (auto simp: limits_ok_def watermarks_ok_def word_less_nat_alt)
    moreover have "stored ?s' = (stored s |` (- v_path ` set ([] :: victim list)))(p \<mapsto> g)"
      unfolding up(2) by (auto simp: restrict_map_def fun_eq_iff)
    moreover have "made_room p (unat n) s [] ?s'" "victims_in_memory s [] ?s'"
      using False sp up(3) by (simp_all add: made_room_def victims_in_memory_def victims_size_def restrict_map_def)
    moreover have "charge_space a n [] (put a g (s\<lparr>clock := ts\<rparr>)) = Ok (map v_addr ([] :: victim list), ?s')"
      using run by simp
    moreover have "addr_of ?s' p = Some a" "fheap ?s' a = Some g" "clock ?s' = ts" "config ?s' = config s"
      using up(3) a(1) by simp_all
    ultimately show ?thesis using up(1) by blast
  next
    case True
    let ?g = "g\<lparr>can_be_expelled := False\<rparr>"
    let ?s2 = "put a ?g (s\<lparr>clock := ts, curr_state := ?st\<rparr>)"
    have g2: "file_ok p ?g" "unat (fsize ?g) = unat (fsize f) + unat n" using g by (simp_all add: file_ok_def)
    have up: "store_ok ?s2" "stored ?s2 = (stored s)(p \<mapsto> ?g)" "addr_of ?s2 = addr_of s"
      by (rule store_upd [OF ok a g2(1)]; simp add: sp g(2))+
    have idl: "\<forall>k f. stored s k = Some f \<longrightarrow> unlocked f \<and> can_be_expelled f"
      using inv idle_stored [OF ok] by (simp add: server_inv_def)
    then have one: "keeps_one ?s2 p ?g" unfolding keeps_one_def up(2) by simp
    let ?need = "?sp - cfg_max_space (config s)"
    have need: "unat ?need = unat ?sp - ?cap" by (rule word_sub_eq [OF True])
    then have "unat ?need + unat (fsize ?g) \<le> unat (st_space (curr_state ?s2))" using True g(3) by simp
    from expell_multiple_ok [OF up(1) one this] obtain vs s3 where
      ex: "expell_multiple_files ?need (Some []) ?s2 = Ok (0, Some (map v_addr vs), s3)"
      and eo: "expelled_ok ?s2 vs s3" and pv: "p \<notin> v_path ` set vs"
      and en: "unat ?need \<le> victims_size vs" and mn: "vs = [] \<or> victims_size (butlast vs) < unat ?need" by blast
    from eo have s3: "store_ok s3" "distinct (map v_path vs)"
      "eviction_order (policy_stamp (cfg_policy (config s))) ((stored s)(p \<mapsto> ?g)) vs"
      "stored s3 = (stored s)(p \<mapsto> ?g) |` (- v_path ` set vs)" "addr_of s3 = addr_of s |` (- v_path ` set vs)"
      "counted_out (length vs) (victims_size vs) ?s2 s3"
      and vic: "\<And>v. v \<in> set vs \<Longrightarrow> addr_of s (v_path v) = Some (v_addr v) \<and>
         ((stored s)(p \<mapsto> ?g)) (v_path v) = Some (v_file v) \<and> fheap s3 (v_addr v) = Some ((v_file v)\<lparr>n_writers := 1\<rparr>)"
      and heap: "\<And>b. b \<notin> v_addr ` set vs \<Longrightarrow> fheap s3 b = fheap ?s2 b"
      unfolding expelled_ok_def up(2,3) by auto
    have a_out: "v_addr v \<noteq> a" if "v \<in> set vs" for v
      using addr_of_inj [OF ok a(1), of "v_path v"] vic [OF that] pv that by auto
    then have "a \<notin> v_addr ` set vs" by blast
    then have a3: "fheap s3 a = Some ?g" using heap [of a] by simp
    have ad3: "addr_of s3 p = Some a" using s3(5) pv a(1) by (simp add: restrict_map_def)
    have cnt: "unat (st_space (curr_state s3)) + victims_size vs = unat ?sp"
      "unat (st_files (curr_state s3)) + length vs = unat (st_files (curr_state s))"
      "config s3 = config s" "clock s3 = ts" "st_max_files (curr_state s3) = st_max_files (curr_state s)"
      using s3(6) by (auto simp: counted_out_def)
    let ?st' = "(curr_state s3)\<lparr>st_max_space := (if st_space (curr_state s3) > st_max_space (curr_state s3)
       then st_space (curr_state s3) else st_max_space (curr_state s3))\<rparr>"
    have gg: "?g\<lparr>can_be_expelled := True\<rparr> = g" using g(4) by (cases g) simp
    let ?s' = "put a g (s3\<lparr>curr_state := ?st'\<rparr>)"
    have u: "upd_file a (\<lambda>f. f\<lparr>can_be_expelled := True\<rparr>) s3 = Ok (put a g s3)"
      unfolding upd_file_def deref_def put_def using a3 gg by simp
    have yes: "0 < to_long ?need" using pos True by blast
    have run: "charge_space a n [] (put a g (s\<lparr>clock := ts\<rparr>)) = Ok (map v_addr vs, ?s')"
      using yes ex u by (simp add: charge_space_def Let_def)
    have up': "store_ok ?s'" "stored ?s' = (stored s3)(p \<mapsto> g)" "addr_of ?s' = addr_of s3"
      by (rule store_upd [OF s3(1) ad3 a3 g(1)]; simp)+
    have space': "unat (st_space (curr_state s3)) \<le> ?cap" using cnt(1) en need True by linarith
    have "limits_ok ?s'" using lim cnt space' by (simp add: limits_ok_def)
    moreover have "watermarks_ok ?s'"
      using wm cnt by (simp add: watermarks_ok_def word_less_nat_alt)
    moreover have "stored ?s' = (stored s |` (- v_path ` set vs))(p \<mapsto> g)"
      unfolding up'(2) s3(4) by (auto simp: restrict_map_def fun_eq_iff)
    moreover have "eviction_order (policy_stamp (cfg_policy (config s))) ((stored s)(p := None)) vs"
      using eviction_order_except [OF s3(3), of p ?g] by simp
    moreover have "victims_in_memory s vs ?s'"
      unfolding victims_in_memory_def
    proof (intro conjI ballI)
      show "addr_of ?s' = addr_of s |` (- v_path ` set vs)" unfolding up'(3) by (rule s3(5))
    next
      fix v assume v: "v \<in> set vs"
      then have "v_path v \<noteq> p" using pv by blast
      with vic [OF v] a_out [OF v] show "addr_of s (v_path v) = Some (v_addr v)"
          "stored s (v_path v) = Some (v_file v)" "fheap ?s' (v_addr v) = Some ((v_file v)\<lparr>n_writers := 1\<rparr>)"
        by simp_all
    qed
    moreover have "made_room p (unat n) s vs ?s'"
      using pv s3(2) calculation(4) cnt space' mn need True sp by (auto simp: made_room_def)
    ultimately show ?thesis
      using run up'(1,3) ad3 cnt by (intro exI [of _ vs] exI [of _ ?s']) simp
  qed
qed

section \<open>write_file and append_to_file on the store\<close>

lemma safe_malloc_Ample: "unat n < 2 ^ 63 \<Longrightarrow> safe_malloc n Ample = Ok Ample"
  by (simp only: safe_malloc_def malloc_bytes_def if_True malloc.simps prod.case bool.case)

text \<open>The common end of both handlers: time of use, expulsions, unlocking.\<close>

lemma finish_write:
  assumes inv: "server_inv s" and a: "addr_of s p = Some a" "fheap s a = Some f" and clk: "clock s = now # ts"
    and g: "file_ok p g" "unat (fsize g) = unat (fsize f) + unat n"
      "unat (fsize g) \<le> unat (cfg_max_space (config s))" "can_be_expelled g" "n_writers g = 1" "n_readers g = 0"
  shows "\<exists>vs s'. rbind (touch a (put a g s)) (\<lambda>s. rbind (charge_space a n [] s) (\<lambda>(es, s).
      rbind (file_writer_unlock a s) (\<lambda>s. Ok (SA_SUCCESS, Some es, s)))) = Ok (SA_SUCCESS, Some (map v_addr vs), s') \<and>
    server_inv s' \<and> stored s' = (stored s |` (- v_path ` set vs))(p \<mapsto> g\<lparr>last_use := now, n_writers := 0\<rparr>) \<and>
    made_room p (unat n) s vs s' \<and> victims_in_memory s vs s' \<and> clock s' = ts \<and> config s' = config s"
proof -
  have ok: "store_ok s" using inv by (rule server_inv_store)
  let ?g = "g\<lparr>last_use := now\<rparr>" and ?h = "g\<lparr>last_use := now, n_writers := 0\<rparr>"
  have g': "file_ok p ?g" "unat (fsize ?g) = unat (fsize f) + unat n"
      "unat (fsize ?g) \<le> unat (cfg_max_space (config s))" "can_be_expelled ?g"
    using g by (simp_all add: file_ok_def)
  from charge_space_ok [OF inv a g', of ts] obtain vs s1 where
    ch: "charge_space a n [] (put a ?g (s\<lparr>clock := ts\<rparr>)) = Ok (map v_addr vs, s1)"
    and s1: "store_ok s1" "addr_of s1 p = Some a" "fheap s1 a = Some ?g"
      "stored s1 = (stored s |` (- v_path ` set vs))(p \<mapsto> ?g)" "made_room p (unat n) s vs s1"
      "victims_in_memory s vs s1" "limits_ok s1" "watermarks_ok s1" "clock s1 = ts" "config s1 = config s" by blast
  let ?s' = "put a ?h s1"
  have h: "file_ok p ?h" using g by (simp add: file_ok_def)
  have up: "store_ok ?s'" "stored ?s' = (stored s1)(p \<mapsto> ?h)" "addr_of ?s' = addr_of s1"
    by (rule store_upd [OF s1(1-3) h]; simp)+
  have st: "stored ?s' = (stored s |` (- v_path ` set vs))(p \<mapsto> ?h)" using up(2) s1(4) by simp
  have "\<forall>k f. stored s k = Some f \<longrightarrow> unlocked f \<and> can_be_expelled f"
    using inv idle_stored [OF ok] by (simp add: server_inv_def)
  then have "idle ?s'" unfolding idle_stored [OF up(1)] st using g by (simp add: restrict_map_def unlocked_def)
  moreover have "limits_ok ?s'" "watermarks_ok ?s'" using s1(7,8) by (simp_all add: limits_ok_def watermarks_ok_def)
  ultimately have "server_inv ?s'" using up(1) by (simp add: server_inv_def)
  moreover have "victims_in_memory s vs ?s'"
    unfolding victims_in_memory_def
  proof (intro conjI ballI)
    show "addr_of ?s' = addr_of s |` (- v_path ` set vs)" using up(3) s1(6) by (simp add: victims_in_memory_def)
    fix v assume v: "v \<in> set vs"
    have v': "addr_of s (v_path v) = Some (v_addr v)" "stored s (v_path v) = Some (v_file v)"
      "fheap s1 (v_addr v) = Some ((v_file v)\<lparr>n_writers := 1\<rparr>)" "v_path v \<noteq> p"
      using s1(5,6) v by (auto simp: victims_in_memory_def made_room_def)
    then have "v_addr v \<noteq> a" using addr_of_inj [OF ok a(1), of "v_path v"] by auto
    with v' show "addr_of s (v_path v) = Some (v_addr v)" "stored s (v_path v) = Some (v_file v)"
      "fheap ?s' (v_addr v) = Some ((v_file v)\<lparr>n_writers := 1\<rparr>)" by simp_all
  qed
  moreover have "made_room p (unat n) s vs ?s'" using s1(5) by (simp add: made_room_def)
  moreover have "file_writer_unlock a s1 = Ok ?s'"
    using s1(3) g(5) by (simp add: file_writer_unlock_def upd_file_def deref_def put_def)
  ultimately show ?thesis
    using touch_put [OF clk] ch st s1(9,10) by (intro exI [of _ vs] exI [of _ ?s']) simp
qed

lemma abs_data_nil: "file_ok p f \<Longrightarrow> a_data (abs_file f) = [] \<longleftrightarrow> fsize f = 0"
  by (cases "contents f") (auto simp: file_ok_def abs_file_def)

lemma abs_data_length: "file_ok p f \<Longrightarrow> length (a_data (abs_file f)) = unat (fsize f)"
  by (cases "contents f") (auto simp: file_ok_def abs_file_def)

lemma abs_file_sel: "fd_open f = Some t \<Longrightarrow> a_open (abs_file f) = set (entries t)" "a_lock (abs_file f) = fd_lock f"
  by (simp_all add: abs_file_def openers_def)

lemma write_core_ok:
  assumes inv: "server_inv s" and clk: "clock s = now # ts" and buf: "length buf = unat sz" "buf \<noteq> []"
  shows "\<exists>r vs s'. write_core fd p sz buf s = Ok (r, if r = SA_SUCCESS then Some (map v_addr vs) else None, s') \<and>
    server_inv s' \<and>
    (r, abs_store s') = spec_write fd p buf (unat (cfg_max_space (config s))) (v_path ` set vs) (abs_store s) \<and>
    (if r = SA_SUCCESS then made_room p (length buf) s vs s' \<and> victims_in_memory s vs s' \<and> clock s' = ts
     else s' = s)"
proof (cases "stored s p")
  case None
  then show ?thesis
    using inv inv_no_file [OF inv None] by (simp add: write_core_def spec_write_def abs_store_at)
next
  case (Some f)
  obtain a t where a: "addr_of s p = Some a" "fheap s a = Some f" and f: "file_ok p f" "unlocked f" "can_be_expelled f"
    and t: "fd_open f = Some t" "fd_table_ok t" and look: "lookup_file p s = Ok (Some a)" and mem: "smem s = Ample"
    using inv_file [OF inv Some] by blast
  have nw: "n_writers f = 0" "n_readers f = 0" using f(2) by (auto simp: unlocked_def)
  note lock = run_lock(1) [OF a(2) f(2)]
  have cap: "cfg_max_space (config s) < sz \<longleftrightarrow> unat (cfg_max_space (config s)) < length buf"
    using buf(1) by (simp add: word_less_nat_alt)
  note spec = spec_write_def abs_store_at abs_file_sel(1) [OF t(1)] abs_file_sel(2) abs_data_nil [OF f(1)]
  show ?thesis
  proof (cases "fd \<in> set (entries t) \<and> fd_lock f = fd \<and> fsize f = 0 \<and> \<not> cfg_max_space (config s) < sz")
    case False
    then have "write_core fd p sz buf s = Ok (if fd \<notin> set (entries t) then SA_NO_OPEN else if fd_lock f \<noteq> fd then SA_NOT_LOCKED
        else if fsize f \<noteq> 0 then SA_NOT_EMPTY else SA_TOO_BIG, None, put a f s)"
      using look lock t by (auto simp: write_core_def fd_contains file_reunlock [OF f(2)])
    with False Some inv cap show ?thesis
      by (auto simp: put_same [OF a(2)] spec)
  next
    case True
    let ?g = "f\<lparr>n_writers := 1, fsize := sz, contents := Some buf\<rparr>"
    have g: "file_ok p ?g" "unat (fsize ?g) = unat (fsize f) + unat sz"
      "unat (fsize ?g) \<le> unat (cfg_max_space (config s))" "can_be_expelled ?g" "n_writers ?g = 1" "n_readers ?g = 0"
      using f buf True cap nw by (auto simp: file_ok_def)
    from finish_write [OF inv a clk g] obtain vs s' where
      fin: "rbind (touch a (put a ?g s)) (\<lambda>s. rbind (charge_space a sz [] s) (\<lambda>(es, s).
        rbind (file_writer_unlock a s) (\<lambda>s. Ok (SA_SUCCESS, Some es, s)))) = Ok (SA_SUCCESS, Some (map v_addr vs), s')"
      and s': "server_inv s'" "stored s' = (stored s |` (- v_path ` set vs))(p \<mapsto> ?g\<lparr>last_use := now, n_writers := 0\<rparr>)"
        "made_room p (unat sz) s vs s'" "victims_in_memory s vs s'" "clock s' = ts" by blast
    have "write_core fd p sz buf s = Ok (SA_SUCCESS, Some (map v_addr vs), s')"
      using look lock t True fin mem by (simp add: write_core_def fd_contains smem_same)
    moreover have "abs_file (?g\<lparr>last_use := now, n_writers := 0\<rparr>) = (abs_file f)\<lparr>a_data := buf\<rparr>"
      using True by (simp add: abs_file_def openers_def)
    then have "abs_store s' = (abs_store s |` (- v_path ` set vs))(p \<mapsto> (abs_file f)\<lparr>a_data := buf\<rparr>)"
      using abs_store_restrict [OF s'(2)] by simp
    ultimately show ?thesis using s' Some True cap buf
      by (intro exI [of _ SA_SUCCESS] exI [of _ vs] exI [of _ s']) (simp add: spec)
  qed
qed

lemma append_core_ok:
  assumes inv: "server_inv s" and clk: "clock s = now # ts" and buf: "length buf = unat sz" "buf \<noteq> []" "unat sz < 2 ^ 63"
  shows "\<exists>r vs s'. append_core fd p sz buf s = Ok (r, if r = SA_SUCCESS then Some (map v_addr vs) else None, s') \<and>
    server_inv s' \<and>
    (r, abs_store s') = spec_append fd p buf (unat (cfg_max_space (config s))) (v_path ` set vs) (abs_store s) \<and>
    (if r = SA_SUCCESS then made_room p (length buf) s vs s' \<and> victims_in_memory s vs s' \<and> clock s' = ts
     else s' = s)"
proof (cases "stored s p")
  case None
  then show ?thesis
    using inv inv_no_file [OF inv None] by (simp add: append_core_def spec_append_def abs_store_at)
next
  case (Some f)
  obtain a t where a: "addr_of s p = Some a" "fheap s a = Some f" and f: "file_ok p f" "unlocked f" "can_be_expelled f"
    and t: "fd_open f = Some t" "fd_table_ok t" and look: "lookup_file p s = Ok (Some a)" and mem: "smem s = Ample"
    using inv_file [OF inv Some] by blast
  have nw: "n_writers f = 0" "n_readers f = 0" using f(2) by (auto simp: unlocked_def)
  have ok: "store_ok s" and lim: "limits_ok s" using inv by (auto simp: server_inv_def)
  note lock = run_lock(1) [OF a(2) f(2)]
  have "unat (fsize f) \<le> unat (st_space (curr_state s))" by (rule stored_size_le [OF ok a])
  then have le: "unat (fsize f) \<le> unat (cfg_max_space (config s))" "unat (cfg_max_space (config s)) < 2 ^ 63"
    using lim by (auto simp: limits_ok_def)
  have "unat (fsize f) + unat sz < 2 ^ 64" using le buf(3) by simp
  then have sum: "unat (fsize f + sz) = unat (fsize f) + unat sz" by (intro unat_add_no_wrap) simp
  have cap: "cfg_max_space (config s) < fsize f + sz \<longleftrightarrow>
      unat (cfg_max_space (config s)) < length (a_data (abs_file f)) + length buf"
    using buf(1) sum abs_data_length [OF f(1)] by (simp add: word_less_nat_alt)
  note spec = spec_append_def abs_store_at abs_file_sel(1) [OF t(1)] abs_file_sel(2)
  show ?thesis
  proof (cases "fd \<in> set (entries t) \<and> \<not> cfg_max_space (config s) < fsize f + sz")
    case False
    then have "append_core fd p sz buf s = Ok (if fd \<notin> set (entries t) then SA_NO_OPEN else SA_TOO_BIG, None, put a f s)"
      using look lock t by (auto simp: append_core_def fd_contains file_reunlock [OF f(2)])
    with False Some inv cap show ?thesis
      by (auto simp: put_same [OF a(2)] spec)
  next
    case True
    let ?old = "a_data (abs_file f)"
    let ?g = "f\<lparr>n_writers := 1, contents := Some (?old @ buf), fsize := fsize f + sz\<rparr>"
    have small: "unat (fsize f + sz) \<le> unat (cfg_max_space (config s))"
      using True by (simp add: word_less_nat_alt)
    have g: "file_ok p ?g" "unat (fsize ?g) = unat (fsize f) + unat sz"
      "unat (fsize ?g) \<le> unat (cfg_max_space (config s))" "can_be_expelled ?g" "n_writers ?g = 1" "n_readers ?g = 0"
      using f buf small sum nw abs_data_length [OF f(1)] by (auto simp: file_ok_def)
    from finish_write [OF inv a clk g] obtain vs s' where
      fin: "rbind (touch a (put a ?g s)) (\<lambda>s. rbind (charge_space a sz [] s) (\<lambda>(es, s).
        rbind (file_writer_unlock a s) (\<lambda>s. Ok (SA_SUCCESS, Some es, s)))) = Ok (SA_SUCCESS, Some (map v_addr vs), s')"
      and s': "server_inv s'" "stored s' = (stored s |` (- v_path ` set vs))(p \<mapsto> ?g\<lparr>last_use := now, n_writers := 0\<rparr>)"
        "made_room p (unat sz) s vs s'" "victims_in_memory s vs s'" "clock s' = ts" by blast
    have fb: "file_bytes (f\<lparr>n_writers := 1\<rparr>) = Ok ?old"
      using f(1) by (cases "contents f") (auto simp: file_bytes_def file_ok_def abs_file_def)
    have al: "safe_malloc (fsize f + sz) Ample = Ok Ample" using small le(2) by (intro safe_malloc_Ample) simp
    have "append_core fd p sz buf s = Ok (SA_SUCCESS, Some (map v_addr vs), s')"
      using look lock t True fin mem fb al by (simp add: append_core_def fd_contains smem_same)
    moreover have "abs_file (?g\<lparr>last_use := now, n_writers := 0\<rparr>) = (abs_file f)\<lparr>a_data := ?old @ buf\<rparr>"
      by (simp add: abs_file_def openers_def)
    then have "abs_store s' = (abs_store s |` (- v_path ` set vs))(p \<mapsto> (abs_file f)\<lparr>a_data := ?old @ buf\<rparr>)"
      using abs_store_restrict [OF s'(2)] by simp
    ultimately show ?thesis using s' Some True cap buf
      by (intro exI [of _ SA_SUCCESS] exI [of _ vs] exI [of _ s']) (simp add: spec)
  qed
qed

end
