(* ===== verification/Wire.thy ===== *)
theory Wire
  imports Writes
begin

text \<open>
  The handlers from the bytes of a request to the bytes of the reply: the request formats of the
  API, what a client receives, and the destruction of the expelled files.
\<close>

section \<open>Requests\<close>

definition path_msg :: "path \<Rightarrow> byte list" where
  "path_msg p = enc_int (int (length p)) @ p @ [0]"

definition data_msg :: "byte list \<Rightarrow> byte list" where
  "data_msg bs = enc_u64 (word_of_nat (length bs)) @ bs"

lemma conn_readn_prefix:
  assumes "rx c = bs @ rest" "length bs = n" "n < 2 ^ 31"
  shows "conn_readn n c = Ok (int n, bs, c\<lparr>rx := rest\<rparr>)"
proof -
  have "int n < int (2 ^ 31)" using assms(3) by (simp only: of_nat_less_iff)
  then have "to_int32 (int n) = int n" by (intro to_int32_id) simp_all
  with assms show ?thesis by (simp add: conn_readn_def)
qed

lemma read_pathname_ok:
  assumes p: "valid_path p" and rx: "rx c = path_msg p @ rest"
  shows "read_pathname c Ample = Ok (Inr (p @ [0]), c\<lparr>rx := rest\<rparr>, Ample)"
proof -
  let ?n = "length p"
  have n: "int ?n < 2 ^ 31 - 1" using p by (simp add: valid_path_def)
  have r1: "conn_readn 4 c = Ok (4, enc_int (int ?n), c\<lparr>rx := (p @ [0]) @ rest\<rparr>)"
    using conn_readn_prefix [of c "enc_int (int ?n)" "(p @ [0]) @ rest" 4] rx by (simp add: path_msg_def)
  have d: "dec_int (enc_int (int ?n)) = int ?n" using n by (intro dec_enc_int) simp_all
  have "int (Suc ?n) < 2 ^ 64" using n by simp
  then have u: "unat (word_of_int (int ?n + 1) :: u64) = Suc ?n"
    using unat_of_int_id [of "int (Suc ?n)"] by (simp add: add.commute)
  have "conn_readn (Suc ?n) (c\<lparr>rx := (p @ [0]) @ rest\<rparr>) = Ok (int (Suc ?n), p @ [0], c\<lparr>rx := rest\<rparr>)"
    using conn_readn_prefix [of "c\<lparr>rx := (p @ [0]) @ rest\<rparr>" "p @ [0]" rest "Suc ?n"] p
    by (simp add: valid_path_def)
  moreover have "safe_malloc (word_of_int (int ?n + 1)) Ample = Ok Ample"
  proof (rule safe_malloc_Ample)
    have "Suc ?n < 2 ^ 31" using p by (simp add: valid_path_def)
    then show "unat (word_of_int (int ?n + 1) :: u64) < 2 ^ 63" unfolding u by simp
  qed
  moreover have "int ?n \<noteq> 2 ^ 31 - 1" using n by simp
  ultimately show ?thesis
    unfolding read_pathname_def r1 rbind.simps prod.case d u Let_def by simp
qed

lemma with_path_ok:
  assumes "valid_path p" "rx c = path_msg p @ rest" "smem s = Ample"
  shows "with_path act c s = act p (c\<lparr>rx := rest\<rparr>) s"
  using read_pathname_ok [OF assms(1,2)] assms
  by (simp add: with_path_def c_string_nul valid_path_def smem_same)

section \<open>Replies\<close>

text \<open>What \<open>conn_writen\<close> does with several buffers in a row.\<close>

definition say :: "byte list \<Rightarrow> conn \<Rightarrow> conn" where
  "say bs c = c\<lparr>sent := sent c @ bs, room := room c - length bs\<rparr>"

lemma say_say: "length as + length bs \<le> room c \<Longrightarrow> say bs (say as c) = say (as @ bs) c"
  by (simp add: say_def)

lemma say_fields [simp]: "room (say bs c) = room c - length bs" "sent (say bs c) = sent c @ bs"
  "rx (say bs c) = rx c" "rx_end (say bs c) = rx_end c"
  by (simp_all add: say_def)

lemma say_Nil [simp]: "say [] c = c"
  by (simp add: say_def)

lemma conn_writen_room: "length bs \<le> room c \<Longrightarrow> conn_writen bs c = (1, say bs c)"
  by (simp add: conn_writen_def say_def)

lemma conn_writen_no_room: "\<not> length bs \<le> room c \<Longrightarrow> \<exists>c'. conn_writen bs c = (-1, c') \<and> room c' = 0"
  by (simp add: conn_writen_def)

lemma conn_writen_cases:
  obtains "length bs \<le> room c" "conn_writen bs c = (1, say bs c)"
    | c' where "\<not> length bs \<le> room c" "conn_writen bs c = (-1, c')" "room c' = 0"
  using conn_writen_room conn_writen_no_room by blast

definition file_msg :: "bool \<Rightarrow> path \<Rightarrow> byte list \<Rightarrow> byte list" where
  "file_msg send_path p bs = (if send_path then path_msg p else []) @ data_msg bs"

definition list_msg :: "(path \<times> byte list) list \<Rightarrow> byte list" where
  "list_msg fs = concat (map (\<lambda>(p, bs). file_msg True p bs) fs) @ enc_int 0"

definition file_data :: "file_t \<Rightarrow> byte list" where
  "file_data f = a_data (abs_file f)"

lemma file_ok_bytes:
  assumes "file_ok k f"
  shows "file_bytes f = Ok (file_data f)" "word_of_nat (length (file_data f)) = fsize f"
    "fsize f = 0 \<longleftrightarrow> file_data f = []" "path_name f = k"
proof -
  show "file_bytes f = Ok (file_data f)"
    using assms by (cases "contents f") (auto simp: file_bytes_def file_ok_def file_data_def abs_file_def)
  show "word_of_nat (length (file_data f)) = fsize f"
    using abs_data_length [OF assms] by (simp add: file_data_def)
  show "fsize f = 0 \<longleftrightarrow> file_data f = []" using abs_data_nil [OF assms] by (simp add: file_data_def)
  show "path_name f = k" using assms by (simp add: file_ok_def)
qed

lemma send_single_ok:
  assumes f: "file_ok k f" and k: "length k < 2 ^ 31 - 1"
  shows "\<exists>r c'. send_single_file (Some f) send_path c = Ok (r, c') \<and>
    (if length (file_msg send_path k (file_data f)) \<le> room c
     then r = 0 \<and> c' = say (file_msg send_path k (file_data f)) c else r = -1 \<and> room c' = 0)"
proof -
  note fb = file_ok_bytes [OF f]
  have n: "to_int32 (int (length k)) = int (length k)" using k by (intro to_int32_id) simp_all
  define head where "head = (if send_path then path_msg k else [])"
  define after :: "conn \<Rightarrow> (int \<times> conn) res" where "after = (\<lambda>c. case conn_writen (enc_u64 (fsize f)) c of (l, c) \<Rightarrow>
            if l = -1 then Ok (-1, c) else if fsize f = 0 then Ok (0, c)
            else rbind (file_bytes f) (\<lambda>bs. case conn_writen bs c of (l, c) \<Rightarrow> Ok (if l = -1 then -1 else 0, c)))"
  have aft: "\<exists>r c'. after c = Ok (r, c') \<and> (if length (data_msg (file_data f)) \<le> room c
      then r = 0 \<and> c' = say (data_msg (file_data f)) c else r = -1 \<and> room c' = 0)" for c
  proof (cases rule: conn_writen_cases [of "enc_u64 (fsize f)" c])
    case 1
    show ?thesis
    proof (cases "fsize f = 0")
      case True
      with 1 fb show ?thesis by (simp add: after_def data_msg_def)
    next
      case False
      with 1 fb show ?thesis
        by (cases rule: conn_writen_cases [of "file_data f" "say (enc_u64 (fsize f)) c"])
          (auto simp: after_def data_msg_def say_say)
    qed
  next
    case (2 c')
    then show ?thesis by (simp add: after_def data_msg_def)
  qed
  have pre: "\<exists>r c'. (if send_path
      then (let path_len = to_int32 (int (length (path_name f)))
            in case conn_writen (enc_int path_len) c of (l, c) \<Rightarrow>
                 if l = -1 then Ok (-1, c) else Ok (conn_writen (path_name f @ [0]) c))
      else Ok (1, c)) = Ok (r, c') \<and> (if length head \<le> room c then r = 1 \<and> c' = say head c else r = -1 \<and> room c' = 0)"
  proof (cases send_path)
    case True
    show ?thesis
    proof (cases rule: conn_writen_cases [of "enc_int (int (length k))" c])
      case 1
      with True fb n show ?thesis
        by (cases rule: conn_writen_cases [of "k @ [0]" "say (enc_int (int (length k))) c"])
          (auto simp: head_def path_msg_def say_say)
    next
      case (2 c')
      with True fb n show ?thesis by (simp add: head_def path_msg_def)
    qed
  qed (simp add: head_def)
  then obtain r1 c1 where p1: "(if send_path
      then (let path_len = to_int32 (int (length (path_name f)))
            in case conn_writen (enc_int path_len) c of (l, c) \<Rightarrow>
                 if l = -1 then Ok (-1, c) else Ok (conn_writen (path_name f @ [0]) c))
      else Ok (1, c)) = Ok (r1, c1)" and p2: "if length head \<le> room c then r1 = 1 \<and> c1 = say head c else r1 = -1 \<and> room c1 = 0"
    by blast
  have run: "send_single_file (Some f) send_path c = (if r1 = -1 then Ok (-1, c1) else after c1)"
    unfolding send_single_file_def option.case p1 rbind.simps prod.case after_def ..
  have msg: "file_msg send_path k (file_data f) = head @ data_msg (file_data f)"
    by (simp add: file_msg_def head_def)
  show ?thesis
  proof (cases "length head \<le> room c")
    case True
    then have r1: "r1 = 1" "c1 = say head c" using p2 by auto
    from aft [of c1] obtain r c' where a: "after c1 = Ok (r, c')"
      "if length (data_msg (file_data f)) \<le> room c1 then r = 0 \<and> c' = say (data_msg (file_data f)) c1 else r = -1 \<and> room c' = 0"
      by blast
    have "send_single_file (Some f) send_path c = Ok (r, c')" using run r1(1) a(1) by simp
    moreover have "if length (head @ data_msg (file_data f)) \<le> room c
        then r = 0 \<and> c' = say (head @ data_msg (file_data f)) c else r = -1 \<and> room c' = 0"
      using a(2) r1(2) True say_say [of head "data_msg (file_data f)" c] by auto
    ultimately show ?thesis unfolding msg by blast
  next
    case False
    with p2 run show ?thesis unfolding msg by simp
  qed
qed

lemma send_files_loop_ok:
  assumes "\<And>v. v \<in> set vs \<Longrightarrow> fheap s (v_addr v) = Some (v_file v) \<and> file_ok (v_path v) (v_file v)"
  shows "\<exists>r c'. send_files_loop (map v_addr vs) True s c = Ok (r, c') \<and>
    (let msg = concat (map (\<lambda>v. file_msg True (v_path v) (file_data (v_file v))) vs)
     in if length msg \<le> room c then r = 0 \<and> c' = say msg c else r = -1 \<and> room c' = 0)"
  using assms
proof (induction vs arbitrary: c)
  case (Cons v vs)
  obtain k a f where v: "v = (k, a, f)" by (cases v)
  have f: "fheap s a = Some f" "file_ok k f" using Cons.prems [of v] v by auto
  let ?m = "file_msg True k (file_data f)"
    and ?ms = "concat (map (\<lambda>v. file_msg True (v_path v) (file_data (v_file v))) vs)"
  have k: "length k < 2 ^ 31 - 1" using f(2) by (simp add: file_ok_def valid_path_def)
  obtain r1 c1 where s1: "send_single_file (Some f) True c = Ok (r1, c1)"
    "if length ?m \<le> room c then r1 = 0 \<and> c1 = say ?m c else r1 = -1 \<and> room c1 = 0"
    using send_single_ok [OF f(2) k] by blast
  show ?case
  proof (cases "length ?m \<le> room c")
    case False
    with s1 f v show ?thesis by (simp add: deref_def Let_def)
  next
    case True
    then have r1: "r1 = 0" "c1 = say ?m c" using s1(2) by auto
    obtain r c' where IH: "send_files_loop (map v_addr vs) True s c1 = Ok (r, c')"
      "if length ?ms \<le> room c1 then r = 0 \<and> c' = say ?ms c1 else r = -1 \<and> room c' = 0"
      using Cons.IH [of c1] Cons.prems by (auto simp: Let_def)
    have "send_files_loop (map v_addr (v # vs)) True s c = Ok (r, c')"
      using s1(1) r1(1) IH(1) f(1) v by (simp add: deref_def)
    moreover have "if length (?m @ ?ms) \<le> room c then r = 0 \<and> c' = say (?m @ ?ms) c else r = -1 \<and> room c' = 0"
      using IH(2) r1(2) True say_say [of ?m ?ms c] by auto
    ultimately show ?thesis using v by (auto simp: Let_def)
  qed
qed simp

definition listing :: "victim list \<Rightarrow> (path \<times> byte list) list" where
  "listing vs = map (\<lambda>v. (v_path v, file_data (v_file v))) vs"

lemma send_list_ok:
  assumes "\<And>v. v \<in> set vs \<Longrightarrow> fheap s (v_addr v) = Some (v_file v) \<and> file_ok (v_path v) (v_file v)"
  shows "\<exists>r c'. send_list_of_files (Some (map v_addr vs)) True s c = Ok (r, c') \<and>
    (if length (list_msg (listing vs)) \<le> room c then r = 0 \<and> c' = say (list_msg (listing vs)) c else r = -1 \<and> room c' = 0)"
proof -
  let ?ms = "concat (map (\<lambda>v. file_msg True (v_path v) (file_data (v_file v))) vs)"
  have msg: "list_msg (listing vs) = ?ms @ enc_int 0" by (simp add: list_msg_def listing_def comp_def)
  obtain r1 c1 where s1: "send_files_loop (map v_addr vs) True s c = Ok (r1, c1)"
    "if length ?ms \<le> room c then r1 = 0 \<and> c1 = say ?ms c else r1 = -1 \<and> room c1 = 0"
    using send_files_loop_ok [OF assms, of vs c] by (auto simp: Let_def)
  show ?thesis
  proof (cases "length ?ms \<le> room c")
    case False
    with s1 show ?thesis unfolding msg by (simp add: send_list_of_files_def)
  next
    case True
    then have r1: "r1 = 0" "c1 = say ?ms c" using s1(2) by auto
    then show ?thesis unfolding msg using s1(1) True say_say [of ?ms "enc_int 0" c]
      by (cases rule: conn_writen_cases [of "enc_int 0" c1]) (auto simp: send_list_of_files_def)
  qed
qed

section \<open>Destroying the expelled files\<close>

lemma delete_files_ok:
  assumes "distinct as" "\<And>a. a \<in> set as \<Longrightarrow> fheap s a \<noteq> None"
  shows "delete_files as s = Ok (s\<lparr>fheap := (\<lambda>b. if b \<in> set as then None else fheap s b)\<rparr>)"
  using assms
proof (induction as arbitrary: s)
  case (Cons a as)
  then obtain f where f: "fheap s a = Some f" by fastforce
  let ?s = "s\<lparr>fheap := (fheap s)(a := None)\<rparr>"
  have "fheap ?s b \<noteq> None" if "b \<in> set as" for b using Cons.prems that by auto
  with Cons.IH [of ?s] Cons.prems have
    "delete_files as ?s = Ok (?s\<lparr>fheap := (\<lambda>b. if b \<in> set as then None else fheap ?s b)\<rparr>)" by auto
  moreover have "(\<lambda>b. if b \<in> set as then None else fheap ?s b) = (\<lambda>b. if b \<in> set (a # as) then None else fheap s b)"
    by auto
  ultimately show ?case using f by (simp add: file_delete_def deref_def)
qed simp

text \<open>The victims are not in the map, so their destruction changes nothing a client can see.\<close>

lemma delete_victims_ok:
  assumes ok: "store_ok s" and inv: "server_inv s'" and vm: "victims_in_memory s vs s'"
    and d: "distinct (map v_path vs)"
  shows "\<exists>s''. delete_files (map v_addr vs) s' = Ok s'' \<and> server_inv s'' \<and> stored s'' = stored s' \<and>
    (\<forall>v \<in> set vs. fheap s'' (v_addr v) = None) \<and> clock s'' = clock s' \<and> curr_state s'' = curr_state s' \<and>
    config s'' = config s'"
proof -
  have ok': "store_ok s'" using inv by (rule server_inv_store)
  have v: "addr_of s (v_path v) = Some (v_addr v)" "fheap s' (v_addr v) \<noteq> None" if "v \<in> set vs" for v
    using vm that by (auto simp: victims_in_memory_def)
  have "inj_on v_addr (set vs)"
  proof (rule inj_onI)
    fix x y assume xy: "x \<in> set vs" "y \<in> set vs" "v_addr x = v_addr y"
    then have "v_path x = v_path y" using addr_of_inj [OF ok v(1)] v(1) by metis
    then show "x = y" using d xy by (auto simp: distinct_map dest: inj_onD)
  qed
  then have "distinct (map v_addr vs)" using d by (simp add: distinct_map)
  moreover have "fheap s' a \<noteq> None" if "a \<in> set (map v_addr vs)" for a using that v(2) by auto
  ultimately have del: "delete_files (map v_addr vs) s' =
      Ok (s'\<lparr>fheap := (\<lambda>b. if b \<in> set (map v_addr vs) then None else fheap s' b)\<rparr>)"
    by (rule delete_files_ok)
  let ?s = "s'\<lparr>fheap := (\<lambda>b. if b \<in> set (map v_addr vs) then None else fheap s' b)\<rparr>"
  have "b \<notin> set (map v_addr vs)" if b: "addr_of s' k = Some b" for k b
  proof
    assume "b \<in> set (map v_addr vs)"
    then obtain x where x: "x \<in> set vs" "b = v_addr x" by auto
    have "addr_of s k = Some b" "k \<notin> v_path ` set vs"
      using b vm by (auto simp: victims_in_memory_def restrict_map_def split: if_splits)
    with addr_of_inj [OF ok v(1) [OF x(1)], of k] x show False by auto
  qed
  then have fr: "store_ok ?s" "stored ?s = stored s'" by (intro store_frame [OF ok']; simp)+
  have "idle ?s" using inv unfolding server_inv_def idle_stored [OF ok'] idle_stored [OF fr(1)] fr(2) by blast
  then have "server_inv ?s" using inv fr(1) by (simp add: server_inv_def limits_ok_def watermarks_ok_def)
  with del fr(2) show ?thesis by (intro exI [of _ ?s]) auto
qed

text \<open>
  The reply of a write: whatever happens to the connection, the expelled files are destroyed; with
  room for the reply the client gets a success code and then the files.
\<close>

lemma send_expelled_ok:
  assumes ok: "store_ok s" and inv: "server_inv s'" and vm: "victims_in_memory s vs s'"
    and d: "distinct (map v_path vs)"
  shows "\<exists>r c' s''. send_expelled (map v_addr vs) c s' = Ok (r, c', s'') \<and> server_inv s'' \<and>
    stored s'' = stored s' \<and> (\<forall>v \<in> set vs. fheap s'' (v_addr v) = None) \<and> clock s'' = clock s' \<and>
    curr_state s'' = curr_state s' \<and> config s'' = config s' \<and>
    (if 4 + length (list_msg (listing vs)) \<le> room c
     then r = SA_SUCCESS \<and> c' = say (enc_int SA_SUCCESS @ list_msg (listing vs)) c else r = SA_ERROR \<and> room c' = 0)"
proof -
  from delete_victims_ok [OF assms] obtain s'' where
    s'': "delete_files (map v_addr vs) s' = Ok s''" "server_inv s''" "stored s'' = stored s'"
      "\<forall>v \<in> set vs. fheap s'' (v_addr v) = None" "clock s'' = clock s'" "curr_state s'' = curr_state s'"
      "config s'' = config s'" by blast
  let ?ws = "map (\<lambda>(k, a, f). (k, a, f\<lparr>n_writers := 1\<rparr>)) vs"
  have addrs: "map v_addr ?ws = map v_addr vs" by (auto simp: comp_def split: prod.splits)
  have "file_data (f\<lparr>n_writers := 1\<rparr>) = file_data f" for f
    by (simp add: file_data_def abs_file_def)
  then have lst: "listing ?ws = listing vs" by (auto simp: listing_def split: prod.splits)
  have w: "fheap s' (v_addr w) = Some (v_file w) \<and> file_ok (v_path w) (v_file w)" if "w \<in> set ?ws" for w
  proof -
    from that obtain v where v: "v \<in> set vs" "w = (v_path v, v_addr v, (v_file v)\<lparr>n_writers := 1\<rparr>)"
      by (auto split: prod.splits)
    have "file_ok (v_path v) (v_file v)"
      using addr_of_file [OF ok, of "v_path v" "v_addr v"] v(1) vm
      by (auto simp: victims_in_memory_def)
    then show ?thesis using v vm by (auto simp: victims_in_memory_def file_ok_def)
  qed
  show ?thesis
  proof (cases rule: conn_writen_cases [of "enc_int SA_SUCCESS" c])
    case (2 c')
    then have "send_expelled (map v_addr vs) c s' = Ok (SA_ERROR, c', s'')"
      using s''(1) by (simp add: send_expelled_def)
    with s'' 2 show ?thesis by (intro exI [of _ SA_ERROR] exI [of _ c'] exI [of _ s'']) simp
  next
    case 1
    obtain r c' where sl: "send_list_of_files (Some (map v_addr vs)) True s' (say (enc_int SA_SUCCESS) c) = Ok (r, c')"
      "if length (list_msg (listing vs)) \<le> room (say (enc_int SA_SUCCESS) c)
       then r = 0 \<and> c' = say (list_msg (listing vs)) (say (enc_int SA_SUCCESS) c) else r = -1 \<and> room c' = 0"
      using send_list_ok [OF w, of ?ws "say (enc_int SA_SUCCESS) c"] unfolding addrs lst by blast
    have "send_expelled (map v_addr vs) c s' = Ok (if r = -1 then SA_ERROR else SA_SUCCESS, c', s'')"
      using s''(1) 1(2) sl(1) by (simp add: send_expelled_def)
    moreover have "if 4 + length (list_msg (listing vs)) \<le> room c
      then r = 0 \<and> c' = say (enc_int SA_SUCCESS @ list_msg (listing vs)) c else r = -1 \<and> room c' = 0"
      using sl(2) 1(1) say_say [of "enc_int SA_SUCCESS" "list_msg (listing vs)" c] by (auto split: if_splits)
    ultimately show ?thesis using s'' by (intro exI [of _ "if r = -1 then SA_ERROR else SA_SUCCESS"] exI [of _ c'] exI [of _ s'']) auto
  qed
qed

end
