(* ===== verification/Files_Util.thy ===== *)
theory Files_Util
  imports Wire
begin

text \<open>
  \<open>util/files.c\<close>: base names, \<open>mkdir_p\<close>, the size of a file, and the loop that writes the files sent by the
  server into a directory, over a model of the disk of the client.
\<close>

section \<open>The disk\<close>

text \<open>
  The files and the directories under their path names. Runs of slashes count as one and a slash at
  the end is ignored (\<open>canon\<close>); the components \<open>.\<close> and \<open>..\<close> and symbolic links are not resolved.
  What the operating system may refuse is part of the state: \<open>mkdir_refused\<close> has the error of
  a directory that cannot be made, \<open>open_refused\<close> and \<open>read_broken\<close> tell the files that cannot be
  opened or read, and no more than \<open>disk_limit\<close> bytes are accepted for one file. A stream keeps what is
  written to it in a buffer of \<open>stdio_block\<close> bytes.
\<close>

record disk =
  disk_files :: "path \<Rightarrow> byte list option"
  disk_dirs :: "path set"
  mkdir_refused :: "path \<Rightarrow> errno option"
  open_refused :: "path \<Rightarrow> bool"
  read_broken :: "path \<Rightarrow> bool"
  disk_limit :: nat
  stdio_block :: nat

text \<open>What the functions of the client library share: \<open>errno\<close>, the allocator and the disk.\<close>

record proc =
  errno_v :: errno
  pmem :: mem
  the_disk :: disk

abbreviation slash :: byte where "slash \<equiv> 47"

fun squeeze :: "path \<Rightarrow> path" where
  "squeeze (x # y # xs) = (if x = slash \<and> y = slash then squeeze (y # xs) else x # squeeze (y # xs))"
| "squeeze xs = xs"

definition canon :: "path \<Rightarrow> path" where
  "canon p = (let q = squeeze p in if 1 < length q \<and> last q = slash then butlast q else q)"

definition parent :: "path \<Rightarrow> path" where
  "parent p =
     (let q = rev (dropWhile (\<lambda>c. c \<noteq> slash) (rev (canon p))) in if q = [] then [46] else canon q)"

definition mkdir :: "path \<Rightarrow> 'a proc_scheme \<Rightarrow> int \<times> 'a proc_scheme" where
  "mkdir path s =
     (let d = the_disk s; p = canon path; fail = (\<lambda>e. (-1, s\<lparr>errno_v := e\<rparr>))
      in if p = [] then fail ENOENT
         else if p \<in> disk_dirs d \<or> disk_files d p \<noteq> None then fail EEXIST
         else if parent p \<notin> disk_dirs d then fail (if disk_files d (parent p) = None then ENOENT else ENOTDIR)
         else case mkdir_refused d p of
                Some e \<Rightarrow> fail e
              | None \<Rightarrow> (0, s\<lparr>the_disk := d\<lparr>disk_dirs := insert p (disk_dirs d)\<rparr>\<rparr>))"

text \<open>
  \<open>fopen(path, "wb")\<close> makes the file empty. \<open>fwrite\<close> on the new stream writes whole blocks at once and keeps
  the rest in the buffer: only when the disk refuses one of the blocks is its answer short. The rest goes to the
  disk in \<open>fclose\<close>, which the program always calls next and whose result it never tests; so \<open>fwrite\<close>
  is modelled together with that call, after which the file holds what the disk has accepted.
\<close>

definition fopen_wb :: "path \<Rightarrow> disk \<Rightarrow> disk option" where
  "fopen_wb path d =
     (let p = canon path
      in if p = [] \<or> last path = slash \<or> p \<in> disk_dirs d \<or> parent p \<notin> disk_dirs d \<or> open_refused d p then None
         else Some (d\<lparr>disk_files := (disk_files d)(p \<mapsto> [])\<rparr>))"

definition fwrite :: "byte list \<Rightarrow> path \<Rightarrow> disk \<Rightarrow> nat \<times> disk" where
  "fwrite bs path d =
     (let blocks = length bs - length bs mod stdio_block d
      in (if disk_limit d < blocks then disk_limit d else length bs,
          d\<lparr>disk_files := (disk_files d)(canon path \<mapsto> take (disk_limit d) bs)\<rparr>))"

text \<open>\<open>fopen(path, "rb")\<close> of a file; opening a directory for reading is not modelled.\<close>

definition fopen_rb :: "path \<Rightarrow> disk \<Rightarrow> byte list option" where
  "fopen_rb path d = (if open_refused d (canon path) then None else disk_files d (canon path))"

section \<open>Names\<close>

definition strrchr :: "path \<Rightarrow> byte \<Rightarrow> path option" where
  "strrchr p c = (if c \<in> set p then Some (c # rev (takeWhile (\<lambda>x. x \<noteq> c) (rev p))) else None)"

fun remove_path_from_name :: "path option \<Rightarrow> path option" where
  "remove_path_from_name None = None"
| "remove_path_from_name (Some path) = (case strrchr path slash of None \<Rightarrow> Some path | Some name \<Rightarrow> Some name)"

definition get_file_size :: "path \<Rightarrow> disk \<Rightarrow> int \<times> int" where
  "get_file_size pathname d =
     (case disk_files d (canon pathname) of Some bs \<Rightarrow> (0, int (length bs)) | None \<Rightarrow> (-1, 0))"

section \<open>Making directories\<close>

definition PATH_MAX :: nat where "PATH_MAX = 4096"

text \<open>
  The loop goes over the characters after the first one and makes the directory named by what comes
  before each slash; \<open>done\<close> are the characters it has passed.
\<close>

fun mkdir_loop :: "path \<Rightarrow> path \<Rightarrow> 'a proc_scheme \<Rightarrow> int \<times> 'a proc_scheme" where
  "mkdir_loop seen [] s = (0, s)"
| "mkdir_loop seen (c # cs) s =
     (if c = slash
      then (case mkdir seen s of
              (r, s) \<Rightarrow> if r \<noteq> 0 \<and> errno_v s \<noteq> EEXIST then (-1, s) else mkdir_loop (seen @ [c]) cs s)
      else mkdir_loop (seen @ [c]) cs s)"

text \<open>On the empty path the loop starts after the terminator of the copy, on bytes that were never set.\<close>

definition mkdir_p :: "path \<Rightarrow> 'a proc_scheme \<Rightarrow> (int \<times> 'a proc_scheme) res" where
  "mkdir_p path s0 =
     (let s = s0\<lparr>errno_v := Errno_0\<rparr>
      in if PATH_MAX - 1 < length path then Ok (-1, s\<lparr>errno_v := ENAMETOOLONG\<rparr>)
         else case path of
           [] \<Rightarrow> UB
         | c # cs \<Rightarrow>
             (case mkdir_loop [c] cs s of
                (r, s) \<Rightarrow>
                  if r = -1 then Ok (-1, s)
                  else (case mkdir path s of
                          (r, s) \<Rightarrow> if r \<noteq> 0 \<and> errno_v s \<noteq> EEXIST then Ok (-1, s) else Ok (0, s))))"

section \<open>Writing files into a directory\<close>

record size_n_buf_t =
  snb_size :: u64
  snb_buf :: "byte list option"

definition snb :: "byte list \<Rightarrow> size_n_buf_t" where
  "snb bs = \<lparr>snb_size = word_of_nat (length bs), snb_buf = (if bs = [] then None else Some bs)\<rparr>"

text \<open>
  One round of the loop: whether the file was written, and the length of the last name.
\<close>

definition write_content :: "path \<Rightarrow> size_n_buf_t \<Rightarrow> disk \<Rightarrow> (bool \<times> disk) res" where
  "write_content path_to_write file d =
     (case fopen_wb path_to_write d of
        None \<Rightarrow> Ok (False, d)
      | Some d \<Rightarrow>
          if snb_size file = 0 then Ok (True, d)
          else (case snb_buf file of
             None \<Rightarrow> UB
           | Some bs \<Rightarrow>
               (case fwrite bs path_to_write d of
                  (l, d) \<Rightarrow> Ok (\<not> (word_of_int (to_int32 (int l)) :: u64) < snb_size file, d))))"

definition write_one ::
  "path \<Rightarrow> path \<Rightarrow> size_n_buf_t \<Rightarrow> int \<Rightarrow> 'a proc_scheme \<Rightarrow> (bool \<times> int \<times> 'a proc_scheme) res" where
  "write_one dirname key file old_len s =
     (case remove_path_from_name (Some key) of
        None \<Rightarrow> UB
      | Some base_name \<Rightarrow>
          (let path_to_write_len = to_int32 (int (length base_name + length dirname + 2));
               path_to_write = dirname @ [slash] @ base_name
           in rbind (if old_len < path_to_write_len
                     then safe_malloc (word_of_int path_to_write_len) (pmem s) else Ok (pmem s)) (\<lambda>m.
              rbind (write_content path_to_write file (the_disk s)) (\<lambda>(written, d).
                Ok (written, path_to_write_len, s\<lparr>pmem := m, the_disk := d\<rparr>)))))"

text \<open>
  The node is only left behind after a successful write: a file that cannot be opened or written is
  tried again for ever. The value is \<open>None\<close> when the loop does not end.
\<close>

partial_function (option) write_files_loop ::
  "path \<Rightarrow> (path \<times> size_n_buf_t) list \<Rightarrow> int \<Rightarrow> int \<Rightarrow> 'a proc_scheme \<Rightarrow> (int \<times> 'a proc_scheme) res option" where
  "write_files_loop dirname nodes no_written len s =
     (case nodes of
        [] \<Rightarrow> Some (Ok (no_written, s))
      | f # rest \<Rightarrow>
          (case write_one dirname (fst f) (snd f) len s of
             Ok r \<Rightarrow>
               if fst r then write_files_loop dirname rest (no_written + 1) (fst (snd r)) (snd (snd r))
               else write_files_loop dirname nodes no_written (fst (snd r)) (snd (snd r))
           | Exit \<Rightarrow> Some Exit
           | UB \<Rightarrow> Some UB
           | Stuck \<Rightarrow> Some Stuck))"

definition write_list_of_files_into_dir ::
  "(path \<times> size_n_buf_t) list \<Rightarrow> path option \<Rightarrow> 'a proc_scheme \<Rightarrow> (int \<times> 'a proc_scheme) res option" where
  "write_list_of_files_into_dir fs dirname s =
     (case dirname of
        None \<Rightarrow> Some (Ok (0, s))
      | Some dir \<Rightarrow>
          lbind (Some (mkdir_p dir s)) (\<lambda>(r, s).
            if r = -1 then Some (Ok (-1, s)) else write_files_loop dir fs 0 (-1) s))"

section \<open>Facts\<close>

text \<open>Where a file goes: the base name keeps its slash, so the name has two in a row.\<close>

definition base_name :: "path \<Rightarrow> path" where
  "base_name key = (if slash \<in> set key then slash # rev (takeWhile (\<lambda>c. c \<noteq> slash) (rev key)) else key)"

definition target :: "path \<Rightarrow> path \<Rightarrow> path" where
  "target dir key = dir @ [slash] @ base_name key"

lemma remove_path_base: "remove_path_from_name (Some key) = Some (base_name key)"
  by (simp add: strrchr_def base_name_def)

definition can_write :: "disk \<Rightarrow> path \<Rightarrow> path \<Rightarrow> byte list \<Rightarrow> bool" where
  "can_write d dir key bs \<longleftrightarrow> fopen_wb (target dir key) d \<noteq> None \<and> length bs \<le> disk_limit d \<and>
     length bs < 2 ^ 31 \<and> length (target dir key) < 2 ^ 31 - 1"

definition store_file :: "path \<Rightarrow> path \<times> byte list \<Rightarrow> disk \<Rightarrow> disk" where
  "store_file dir f d = d\<lparr>disk_files := (disk_files d)(canon (target dir (fst f)) \<mapsto> snd f)\<rparr>"

lemma store_file_fields [simp]: "disk_limit (store_file dir f d) = disk_limit d"
  "disk_dirs (store_file dir f d) = disk_dirs d" "open_refused (store_file dir f d) = open_refused d"
  by (simp_all add: store_file_def)

lemma can_write_store [simp]: "can_write (store_file dir f d) dir' key bs = can_write d dir' key bs"
  by (simp add: can_write_def fopen_wb_def Let_def)

lemma base_name_length: "length (base_name key) \<le> Suc (length key)"
proof -
  have "length (takeWhile (\<lambda>c. c \<noteq> slash) (rev key)) \<le> length key"
    using length_takeWhile_le [of _ "rev key"] by simp
  then show ?thesis by (simp add: base_name_def)
qed

lemma unat_small [simp]: "n < 2 ^ 31 \<Longrightarrow> unat (word_of_nat n :: u64) = n"
  by (simp add: unsigned_of_nat take_bit_nat_eq_self)

lemma small_eq_0 [simp]: "n < 2 ^ 31 \<Longrightarrow> (word_of_nat n :: u64) = 0 \<longleftrightarrow> n = 0"
  using unat_small [of n] by (metis unat_0_iff)

lemma safe_malloc_small: "n < 2 ^ 31 \<Longrightarrow> safe_malloc (word_of_int (int n)) Ample = Ok Ample"
  using unat_small [of n] by (intro safe_malloc_Ample) simp

lemma write_one_content:
  "write_one dir key f old s =
     (let len = to_int32 (int (length (base_name key) + length dir + 2))
      in rbind (if old < len then safe_malloc (word_of_int len) (pmem s) else Ok (pmem s)) (\<lambda>m.
         rbind (write_content (target dir key) f (the_disk s)) (\<lambda>(written, d).
           Ok (written, len, s\<lparr>pmem := m, the_disk := d\<rparr>))))"
  unfolding write_one_def remove_path_base option.case target_def Let_def ..

lemma write_content_ok:
  assumes "can_write d dir key bs"
  shows "write_content (target dir key) (snb bs) d = Ok (True, store_file dir (key, bs) d)"
proof -
  have bs: "length bs < 2 ^ 31" "length bs \<le> disk_limit d" using assms by (simp_all add: can_write_def)
  obtain d' where d: "fopen_wb (target dir key) d = Some d'"
    "d' = d\<lparr>disk_files := (disk_files d)(canon (target dir key) \<mapsto> [])\<rparr>"
    using assms by (auto simp: can_write_def fopen_wb_def Let_def split: if_splits)
  have i: "to_int32 (int (length bs)) = int (length bs)" using bs(1) by (intro to_int32_id) simp_all
  show ?thesis
    unfolding write_content_def d(1) using bs d(2)
    by (auto simp: snb_def i fwrite_def store_file_def Let_def)
qed

lemma write_one_ok:
  assumes "can_write (the_disk s) dir key bs" "pmem s = Ample"
  shows "\<exists>len. write_one dir key (snb bs) old s = Ok (True, len, s\<lparr>the_disk := store_file dir (key, bs) (the_disk s)\<rparr>)"
proof -
  let ?n = "length (base_name key) + length dir + 2"
  have n: "?n < 2 ^ 31" using assms(1) by (simp add: can_write_def target_def)
  then have i: "to_int32 (int ?n) = int ?n" by (intro to_int32_id) simp_all
  have m: "(if old < int ?n then safe_malloc (word_of_int (int ?n)) (pmem s) else Ok (pmem s)) = Ok Ample"
    using safe_malloc_small [OF n] assms(2) by simp
  show ?thesis
    unfolding write_one_content Let_def i m write_content_ok [OF assms(1)] rbind.simps prod.case
    using assms(2) by (cases s) simp
qed

lemma write_files_ok:
  assumes "\<forall>f \<in> set fs. can_write (the_disk s) dir (fst f) (snd f)" "pmem s = Ample"
  shows "write_files_loop dir (map (\<lambda>f. (fst f, snb (snd f))) fs) n len s =
    Some (Ok (n + int (length fs), s\<lparr>the_disk := fold (store_file dir) fs (the_disk s)\<rparr>))"
  using assms
proof (induction fs arbitrary: n len s)
  case (Cons f fs)
  let ?s = "s\<lparr>the_disk := store_file dir f (the_disk s)\<rparr>"
  from Cons.prems obtain len' where "write_one dir (fst f) (snb (snd f)) len s = Ok (True, len', ?s)"
    using write_one_ok [of s dir "fst f" "snd f" len] by auto
  with Cons.IH [of ?s "n + 1" len'] Cons.prems show ?case
    by (subst write_files_loop.simps) (simp add: add.assoc)
qed (subst write_files_loop.simps, cases s, simp)

text \<open>
  A file is refused when it cannot be opened, or when the disk does not take the blocks that \<open>fwrite\<close> writes
  at once; every other file counts as written.
\<close>

definition refused :: "disk \<Rightarrow> path \<Rightarrow> path \<Rightarrow> byte list \<Rightarrow> bool" where
  "refused d dir key bs \<longleftrightarrow>
     fopen_wb (target dir key) d = None \<or> disk_limit d < length bs - length bs mod stdio_block d"

definition small_file :: "path \<Rightarrow> path \<times> byte list \<Rightarrow> bool" where
  "small_file dir f \<longleftrightarrow> length (snd f) < 2 ^ 31 \<and> length (target dir (fst f)) < 2 ^ 31 - 1"

lemma refused_files [simp]: "refused (d\<lparr>disk_files := F\<rparr>) dir key bs = refused d dir key bs"
  by (simp add: refused_def fopen_wb_def Let_def)

lemma write_content_small:
  assumes "length bs < 2 ^ 31"
  shows "\<exists>F. write_content (target dir key) (snb bs) d = Ok (\<not> refused d dir key bs, d\<lparr>disk_files := F\<rparr>)"
proof (cases "fopen_wb (target dir key) d")
  case None
  then have "write_content (target dir key) (snb bs) d = Ok (\<not> refused d dir key bs, d\<lparr>disk_files := disk_files d\<rparr>)"
    by (simp add: write_content_def refused_def)
  then show ?thesis by (intro exI [of _ "disk_files d"])
next
  case (Some d1)
  then have d1: "d1 = d\<lparr>disk_files := (disk_files d)(canon (target dir key) \<mapsto> [])\<rparr>"
    by (auto simp: fopen_wb_def Let_def split: if_splits)
  show ?thesis
  proof (cases "bs = []")
    case True
    then show ?thesis using Some d1 by (auto simp: write_content_def refused_def snb_def)
  next
    case False
    obtain l d2 where w: "fwrite bs (target dir key) d1 = (l, d2)" by (cases "fwrite bs (target dir key) d1")
    then obtain F where d2: "d2 = d\<lparr>disk_files := F\<rparr>"
      and l: "l = (if disk_limit d < length bs - length bs mod stdio_block d then disk_limit d else length bs)"
      using d1 by (auto simp: fwrite_def Let_def)
    have small: "l < 2 ^ 31" using l assms by (simp split: if_splits)
    then have i: "to_int32 (int l) = int l" by (intro to_int32_id) simp_all
    have "l < length bs \<longleftrightarrow> refused d dir key bs"
      using l Some by (auto simp: refused_def)
    then have "((word_of_int (to_int32 (int l)) :: u64) < snb_size (snb bs)) = refused d dir key bs"
      unfolding i using assms small by (simp add: word_less_nat_alt snb_def)
    moreover have "snb_size (snb bs) \<noteq> 0" "snb_buf (snb bs) = Some bs" using False assms by (simp_all add: snb_def)
    ultimately show ?thesis
      unfolding write_content_def Some option.case by (intro exI [of _ F]) (simp add: w d2)
  qed
qed

lemma write_one_small:
  assumes "small_file dir (key, bs)" "pmem s = Ample"
  shows "\<exists>len' F. write_one dir key (snb bs) len s =
    Ok (\<not> refused (the_disk s) dir key bs, len', s\<lparr>the_disk := the_disk s\<lparr>disk_files := F\<rparr>\<rparr>)"
proof -
  let ?n = "length (base_name key) + length dir + 2"
  have n: "?n < 2 ^ 31" using assms(1) by (simp add: small_file_def target_def)
  then have i: "to_int32 (int ?n) = int ?n" by (intro to_int32_id) simp_all
  have m: "(if len < int ?n then safe_malloc (word_of_int (int ?n)) (pmem s) else Ok (pmem s)) = Ok Ample"
    using safe_malloc_small [OF n] assms(2) by simp
  obtain F where w: "write_content (target dir key) (snb bs) (the_disk s) =
      Ok (\<not> refused (the_disk s) dir key bs, the_disk s\<lparr>disk_files := F\<rparr>)"
    using write_content_small [of bs dir key "the_disk s"] assms(1) by (auto simp: small_file_def)
  have "s\<lparr>pmem := Ample, the_disk := d\<rparr> = s\<lparr>the_disk := d\<rparr>" for d using assms(2) by (cases s) simp
  then show ?thesis unfolding write_one_content Let_def i m w rbind.simps prod.case by auto
qed

lemma write_files_refused:
  assumes "write_files_loop dir nodes n len s = Some r" "nodes = map (\<lambda>f. (fst f, snb (snd f))) fs"
    "\<forall>f \<in> set fs. small_file dir f" "\<exists>f \<in> set fs. refused (the_disk s) dir (fst f) (snd f)" "pmem s = Ample"
  shows False
  using assms
proof (induction arbitrary: fs rule: write_files_loop.raw_induct [rotated 1, consumes 1])
  case (1 loop dir nodes n len s r)
  then obtain k bs fs' where fs: "fs = (k, bs) # fs'" by (cases fs) auto
  then obtain l F where w: "write_one dir k (snb bs) len s =
      Ok (\<not> refused (the_disk s) dir k bs, l, s\<lparr>the_disk := the_disk s\<lparr>disk_files := F\<rparr>\<rparr>)"
    using write_one_small [of dir k bs s len] "1.prems" by auto
  let ?s = "s\<lparr>the_disk := the_disk s\<lparr>disk_files := F\<rparr>\<rparr>"
  show ?case
  proof (cases "refused (the_disk s) dir k bs")
    case True
    have "loop dir nodes n l ?s = Some r" using True w "1.prems"(1,2) "1.hyps" fs by simp
    then show ?thesis by (rule "1.IH") (use "1.prems" in simp_all)
  next
    case False
    have "loop dir (map (\<lambda>f. (fst f, snb (snd f))) fs') (n + 1) l ?s = Some r"
      using False w "1.prems"(1,2) "1.hyps" fs by simp
    then show ?thesis by (rule "1.IH" [of _ _ _ _ _ _ fs']) (use "1.prems" False fs in auto)
  qed
qed

subsection \<open>Directories\<close>

text \<open>The directories that \<open>mkdir_p path\<close> goes through, and what it may change.\<close>

definition ancestor :: "path \<Rightarrow> path \<Rightarrow> bool" where
  "ancestor p path \<longleftrightarrow> p = path \<or> p \<noteq> [] \<and> (\<exists>q. path = p @ slash # q)"

definition present :: "disk \<Rightarrow> path \<Rightarrow> bool" where
  "present d p \<longleftrightarrow> canon p \<in> disk_dirs d \<or> disk_files d (canon p) \<noteq> None"

definition only_dirs :: "'a proc_scheme \<Rightarrow> 'a proc_scheme \<Rightarrow> bool" where
  "only_dirs s s' \<longleftrightarrow> (\<exists>e D. s' = s\<lparr>errno_v := e, the_disk := the_disk s\<lparr>disk_dirs := disk_dirs (the_disk s) \<union> D\<rparr>\<rparr>)"

lemma only_dirsI: "only_dirs s (s\<lparr>errno_v := e\<rparr>)" "only_dirs s s"
  "only_dirs s (s\<lparr>the_disk := the_disk s\<lparr>disk_dirs := insert p (disk_dirs (the_disk s))\<rparr>\<rparr>)"
proof -
  have "s\<lparr>errno_v := e\<rparr> = s\<lparr>errno_v := e, the_disk := the_disk s\<lparr>disk_dirs := disk_dirs (the_disk s) \<union> {}\<rparr>\<rparr>" for e
    by (cases s) simp
  from this [of e] this [of "errno_v s"] show "only_dirs s (s\<lparr>errno_v := e\<rparr>)" "only_dirs s s"
    unfolding only_dirs_def by (blast, metis proc.surjective proc.update_convs(1))
  have "s\<lparr>the_disk := the_disk s\<lparr>disk_dirs := insert p (disk_dirs (the_disk s))\<rparr>\<rparr> =
    s\<lparr>errno_v := errno_v s, the_disk := the_disk s\<lparr>disk_dirs := disk_dirs (the_disk s) \<union> {p}\<rparr>\<rparr>" by (cases s) simp
  then show "only_dirs s (s\<lparr>the_disk := the_disk s\<lparr>disk_dirs := insert p (disk_dirs (the_disk s))\<rparr>\<rparr>)"
    unfolding only_dirs_def by blast
qed

lemma only_dirs_trans: "only_dirs s s' \<Longrightarrow> only_dirs s' s'' \<Longrightarrow> only_dirs s s''"
  unfolding only_dirs_def by (auto simp: Un_assoc) blast

lemma only_dirs_present: "only_dirs s s' \<Longrightarrow> present (the_disk s) p \<Longrightarrow> present (the_disk s') p"
  by (auto simp: only_dirs_def present_def)

text \<open>\<open>mkdir\<close> answers \<open>EEXIST\<close> only for a name that exists.\<close>

definition disk_sane :: "disk \<Rightarrow> bool" where
  "disk_sane d \<longleftrightarrow> (\<forall>p. mkdir_refused d p \<noteq> Some EEXIST)"

lemma only_dirs_sane: "only_dirs s s' \<Longrightarrow> disk_sane (the_disk s') = disk_sane (the_disk s)"
  by (auto simp: only_dirs_def disk_sane_def)

lemma mkdir_effect:
  assumes "mkdir p s = (r, s')" "disk_sane (the_disk s)"
  shows "(r = 0 \<or> r = -1) \<and> only_dirs s s' \<and> (r = 0 \<or> errno_v s' = EEXIST \<longrightarrow> present (the_disk s') p)"
  using assms unfolding mkdir_def Let_def
  by (auto split: if_splits option.splits intro: only_dirsI simp: present_def disk_sane_def)

lemma mkdir_loop_effect:
  assumes "mkdir_loop seen cs s = (r, s')" "disk_sane (the_disk s)"
  shows "(r = 0 \<or> r = -1) \<and> only_dirs s s' \<and> (r = 0 \<longrightarrow> (\<forall>a b. cs = a @ slash # b \<longrightarrow> present (the_disk s') (seen @ a)))"
  using assms
proof (induction seen cs s rule: mkdir_loop.induct)
  case (1 seen s)
  then show ?case by (auto intro: only_dirsI)
next
  case (2 seen c cs s)
  show ?case
  proof (cases "c = slash")
    case False
    then have IH: "(r = 0 \<or> r = -1) \<and> only_dirs s s' \<and> (r = 0 \<longrightarrow> (\<forall>a b. cs = a @ slash # b \<longrightarrow> present (the_disk s') ((seen @ [c]) @ a)))"
      using 2 by simp
    have "present (the_disk s') (seen @ a)" if r: "r = 0" and eq: "c # cs = a @ slash # b" for a b
    proof -
      from eq False obtain a' where "a = c # a'" "cs = a' @ slash # b" by (cases a) auto
      then show ?thesis using IH r by simp
    qed
    then show ?thesis using IH by blast
  next
    case True
    obtain r1 s1 where m: "mkdir seen s = (r1, s1)" by (cases "mkdir seen s")
    note e = mkdir_effect [OF m "2.prems"(2)]
    show ?thesis
    proof (cases "r1 \<noteq> 0 \<and> errno_v s1 \<noteq> EEXIST")
      case bad: True
      then show ?thesis using 2 m e True by auto
    next
      case ok: False
      have sane: "disk_sane (the_disk s1)" using e "2.prems"(2) only_dirs_sane by blast
      have run: "mkdir_loop (seen @ [c]) cs s1 = (r, s')" using "2.prems"(1) m ok True by auto
      have IH: "(r = 0 \<or> r = -1) \<and> only_dirs s1 s' \<and> (r = 0 \<longrightarrow> (\<forall>a b. cs = a @ slash # b \<longrightarrow> present (the_disk s') ((seen @ [c]) @ a)))"
        using "2.IH"(1) [OF True m [symmetric] ok run sane] .
      have here: "present (the_disk s') seen" using e ok IH only_dirs_present by blast
      have "present (the_disk s') (seen @ a)" if r: "r = 0" and eq: "c # cs = a @ slash # b" for a b
      proof (cases a)
        case (Cons x a')
        then have "cs = a' @ slash # b" "x = c" using eq by auto
        with IH r Cons show ?thesis by simp
      qed (use here in simp)
      then show ?thesis using IH e only_dirs_trans by blast
    qed
  qed
qed

lemma mkdir_p_effect:
  assumes "path \<noteq> []" "disk_sane (the_disk s)"
  shows "\<exists>r s'. mkdir_p path s = Ok (r, s') \<and> (r = 0 \<or> r = -1) \<and> only_dirs s s' \<and>
    (r = 0 \<longrightarrow> (\<forall>p. ancestor p path \<longrightarrow> present (the_disk s') p))"
proof (cases "PATH_MAX - 1 < length path")
  case True
  have "only_dirs s (s\<lparr>errno_v := Errno_0, errno_v := ENAMETOOLONG\<rparr>)" using only_dirsI(1) [of s] by simp
  with True show ?thesis by (auto simp: mkdir_p_def Let_def)
next
  case False
  obtain c cs where p: "path = c # cs" using assms(1) by (cases path) auto
  let ?s = "s\<lparr>errno_v := Errno_0\<rparr>"
  obtain r1 s1 where l: "mkdir_loop [c] cs ?s = (r1, s1)" by (cases "mkdir_loop [c] cs ?s")
  obtain r2 s2 where m: "mkdir path s1 = (r2, s2)" by (cases "mkdir path s1")
  have e1: "(r1 = 0 \<or> r1 = -1) \<and> only_dirs ?s s1 \<and> (r1 = 0 \<longrightarrow> (\<forall>a b. cs = a @ slash # b \<longrightarrow> present (the_disk s1) ([c] @ a)))"
    using mkdir_loop_effect [OF l] assms(2) by simp
  then have o1: "only_dirs s s1" using only_dirsI(1) [of s Errno_0] only_dirs_trans by blast
  note e2 = mkdir_effect [OF m]
  have sane: "disk_sane (the_disk s1)" using o1 assms(2) only_dirs_sane by blast
  then have o2: "only_dirs s s2" using o1 e2 only_dirs_trans by blast
  have run: "mkdir_p path s = (if r1 = -1 then Ok (-1, s1) else if r2 \<noteq> 0 \<and> errno_v s2 \<noteq> EEXIST then Ok (-1, s2) else Ok (0, s2))"
    unfolding mkdir_p_def Let_def using False p l m by auto
  have "present (the_disk s2) q" if q: "r1 = 0" "r2 = 0 \<or> errno_v s2 = EEXIST" "ancestor q path" for q
  proof (cases "q = path")
    case True
    then show ?thesis using e2 [OF sane] q by blast
  next
    case False
    then obtain q' where "q \<noteq> []" "path = q @ slash # q'" using q(3) by (auto simp: ancestor_def)
    then obtain a where "q = c # a" "cs = a @ slash # q'" using p by (cases q) auto
    then have "present (the_disk s1) q" using e1 q(1) by simp
    then show ?thesis using e2 [OF sane] only_dirs_present by blast
  qed
  then show ?thesis using run e1 o1 o2 by auto
qed

text \<open>When everything is there nothing is made.\<close>

lemma squeeze_Nil [simp]: "squeeze p = [] \<longleftrightarrow> p = []"
  by (induction p rule: squeeze.induct) auto

lemma canon_Nil [simp]: "canon p = [] \<longleftrightarrow> p = []"
  by (cases "squeeze p" rule: rev_cases) (auto simp: canon_def Let_def)

lemma mkdir_present: "p \<noteq> [] \<Longrightarrow> present (the_disk s) p \<Longrightarrow> mkdir p s = (-1, s\<lparr>errno_v := EEXIST\<rparr>)"
  by (auto simp: mkdir_def Let_def present_def)

lemma mkdir_loop_present:
  assumes "\<forall>a b. cs = a @ slash # b \<longrightarrow> present (the_disk s) (seen @ a)" "seen \<noteq> []"
  shows "\<exists>e. mkdir_loop seen cs s = (0, s\<lparr>errno_v := e\<rparr>)"
  using assms
proof (induction cs arbitrary: seen s)
  case Nil
  have "s = s\<lparr>errno_v := errno_v s\<rparr>" by (cases s) simp
  then show ?case by (metis mkdir_loop.simps(1))
next
  case (Cons c cs)
  have later: "present (the_disk s) ((seen @ [c]) @ a)" if "cs = a @ slash # b" for a b
    using Cons.prems(1) [rule_format, of "c # a" b] that by simp
  show ?case
  proof (cases "c = slash")
    case True
    then have "present (the_disk s) seen" using Cons.prems(1) [rule_format, of "[]" cs] by simp
    then have m: "mkdir seen s = (-1, s\<lparr>errno_v := EEXIST\<rparr>)" using Cons.prems(2) by (intro mkdir_present)
    obtain e where "mkdir_loop (seen @ [c]) cs (s\<lparr>errno_v := EEXIST\<rparr>) = (0, s\<lparr>errno_v := EEXIST, errno_v := e\<rparr>)"
      using Cons.IH [of "s\<lparr>errno_v := EEXIST\<rparr>" "seen @ [c]"] later by auto
    then show ?thesis using True m by auto
  next
    case False
    then show ?thesis using Cons.IH [of s "seen @ [c]"] later by auto
  qed
qed

lemma mkdir_p_present:
  assumes "\<And>p. ancestor p path \<Longrightarrow> present (the_disk s) p" "path \<noteq> []" "length path < PATH_MAX"
  shows "mkdir_p path s = Ok (0, s\<lparr>errno_v := EEXIST\<rparr>)"
proof -
  obtain c cs where p: "path = c # cs" using assms(2) by (cases path) auto
  have "present (the_disk s) ([c] @ a)" if "cs = a @ slash # b" for a b
    using assms(1) [of "c # a"] that p by (auto simp: ancestor_def)
  then obtain e where l: "mkdir_loop [c] cs (s\<lparr>errno_v := Errno_0\<rparr>) = (0, s\<lparr>errno_v := Errno_0, errno_v := e\<rparr>)"
    using mkdir_loop_present [of cs "s\<lparr>errno_v := Errno_0\<rparr>" "[c]"] by auto
  have "mkdir path (s\<lparr>errno_v := e\<rparr>) = (-1, s\<lparr>errno_v := e, errno_v := EEXIST\<rparr>)"
    using assms(1) [of path] assms(2) by (intro mkdir_present) (simp_all add: ancestor_def)
  with l p assms(3) show ?thesis by (simp add: mkdir_p_def Let_def)
qed

lemma write_list_ready:
  assumes "\<And>p. ancestor p dir \<Longrightarrow> present (the_disk s) p" "dir \<noteq> []" "length dir < PATH_MAX"
  shows "write_list_of_files_into_dir fs (Some dir) s = write_files_loop dir fs 0 (-1) (s\<lparr>errno_v := EEXIST\<rparr>)"
  using mkdir_p_present [OF assms] by (simp add: write_list_of_files_into_dir_def)

lemma fold_store_files:
  "fold (store_file dir) fs d =
   d\<lparr>disk_files := disk_files d ++ map_of (rev (map (\<lambda>f. (canon (target dir (fst f)), snd f)) fs))\<rparr>"
  by (induction fs arbitrary: d) (simp_all add: store_file_def map_add_def fun_eq_iff split: option.splits)

section \<open>Properties\<close>

text \<open>\<open>mkdir_p\<close> answers 0 or -1 and never changes a file; when it answers 0, the path and every
  directory on the way to it exist.\<close>

theorem mkdir_p_makes:
  assumes "path \<noteq> []" "disk_sane (the_disk s)"
  shows "\<exists>r s'. mkdir_p path s = Ok (r, s') \<and> (r = 0 \<or> r = -1) \<and> only_dirs s s' \<and>
    (r = 0 \<longrightarrow> (\<forall>p. ancestor p path \<longrightarrow> present (the_disk s') p))"
  by (rule mkdir_p_effect [OF assms])

definition demo_disk :: disk where
  "demo_disk = \<lparr>disk_files = [[97] \<mapsto> [1, 2, 3]], disk_dirs = {[46]}, mkdir_refused = (\<lambda>p. None),
     open_refused = (\<lambda>p. False), read_broken = (\<lambda>p. False), disk_limit = 1000, stdio_block = 4096\<rparr>"

definition demo_proc :: proc where
  "demo_proc = \<lparr>errno_v = Errno_0, pmem = Ample, the_disk = demo_disk\<rparr>"

lemma mkdir_p_makes_witness:
  "\<exists>s'. mkdir_p [98, 47, 99] demo_proc = Ok (0, s') \<and> present (the_disk s') [98] \<and> present (the_disk s') [98, 47, 99]"
proof -
  have "\<exists>s'. mkdir_p [98, 47, 99] demo_proc = Ok (0, s')"
    by (simp add: mkdir_p_def mkdir_def demo_proc_def demo_disk_def canon_def parent_def Let_def PATH_MAX_def)
  moreover have "disk_sane (the_disk demo_proc)" by (simp add: disk_sane_def demo_proc_def demo_disk_def)
  moreover have "ancestor [98] [98, 47, 99]" "ancestor [98, 47, 99] [98, 47, 99]" by (auto simp: ancestor_def)
  ultimately show ?thesis using mkdir_p_makes [of "[98, 47, 99]" demo_proc] by fastforce
qed

text \<open>C29: when the directory is there and every file can be written, \<open>write_list_of_files_into_dir\<close> returns the
  number of files and has stored each under the directory and its base name; of two files with the
  same base name the later one stays.\<close>

theorem write_list_stores:
  assumes "\<And>p. ancestor p dir \<Longrightarrow> present (the_disk s) p" "dir \<noteq> []" "length dir < PATH_MAX" "pmem s = Ample"
    and "\<forall>f \<in> set fs. can_write (the_disk s) dir (fst f) (snd f)"
  shows "\<exists>s'. write_list_of_files_into_dir (map (\<lambda>f. (fst f, snb (snd f))) fs) (Some dir) s = Some (Ok (int (length fs), s')) \<and>
    the_disk s' = the_disk s\<lparr>disk_files := disk_files (the_disk s) ++
      map_of (rev (map (\<lambda>f. (canon (target dir (fst f)), snd f)) fs))\<rparr>"
proof -
  have "write_list_of_files_into_dir (map (\<lambda>f. (fst f, snb (snd f))) fs) (Some dir) s =
      write_files_loop dir (map (\<lambda>f. (fst f, snb (snd f))) fs) 0 (-1) (s\<lparr>errno_v := EEXIST\<rparr>)"
    by (rule write_list_ready [OF assms(1-3)])
  then show ?thesis using assms(4,5) by (simp add: write_files_ok fold_store_files)
qed

definition demo_proc2 :: proc where
  "demo_proc2 = \<lparr>errno_v = Errno_0, pmem = Ample, the_disk = demo_disk\<lparr>disk_dirs := {[46], [100]}\<rparr>\<rparr>"

lemma demo_ready: "ancestor p [100] \<Longrightarrow> present (the_disk demo_proc2) p"
  by (auto simp: ancestor_def present_def demo_proc2_def canon_def Cons_eq_append_conv)

lemma demo_can_write: "length bs < 1000 \<Longrightarrow> can_write (the_disk demo_proc2) [100] [97] bs"
  "length bs < 1000 \<Longrightarrow> can_write (the_disk demo_proc2) [100] [47, 98, 47, 97] bs"
  by (simp_all add: can_write_def target_def base_name_def demo_proc2_def demo_disk_def fopen_wb_def canon_def
      parent_def Let_def)

lemma write_list_stores_witness:
  "\<exists>s'. write_list_of_files_into_dir [([97], snb [1]), ([47, 98, 47, 97], snb [2])] (Some [100]) demo_proc2 = Some (Ok (2, s')) \<and>
     disk_files (the_disk s') [100, 47, 97] = Some [2] \<and> disk_files (the_disk s') [97] = Some [1, 2, 3]"
proof -
  have "\<forall>f \<in> set [([97], [1]), ([47, 98, 47, 97], [2])]. can_write (the_disk demo_proc2) [100] (fst f) (snd f)"
    using demo_can_write by simp
  from write_list_stores [OF demo_ready _ _ _ this] show ?thesis
    by (auto simp: demo_proc2_def demo_disk_def PATH_MAX_def target_def base_name_def canon_def)
qed

text \<open>
  The error of a small file comes only in \<open>fclose\<close>: the file is counted as written although it is cut.
\<close>

lemma buffered_content:
  assumes "fopen_wb (target dir k) d \<noteq> None" "length bs < 2 ^ 31" "length bs < stdio_block d"
  shows "write_content (target dir k) (snb bs) d =
    Ok (True, d\<lparr>disk_files := (disk_files d)(canon (target dir k) \<mapsto> take (disk_limit d) bs)\<rparr>)"
proof -
  obtain d' where d: "fopen_wb (target dir k) d = Some d'"
    "d' = d\<lparr>disk_files := (disk_files d)(canon (target dir k) \<mapsto> [])\<rparr>"
    using assms(1) by (auto simp: fopen_wb_def Let_def split: if_splits)
  have i: "to_int32 (int (length bs)) = int (length bs)" using assms(2) by (intro to_int32_id) simp_all
  show ?thesis
    unfolding write_content_def d(1) using assms(2,3) d(2) by (auto simp: snb_def i fwrite_def Let_def)
qed

lemma buffered_write_lost:
  assumes "\<And>p. ancestor p dir \<Longrightarrow> present (the_disk s) p" "dir \<noteq> []" "length dir < PATH_MAX" "pmem s = Ample"
    and "fopen_wb (target dir k) (the_disk s) \<noteq> None" "small_file dir (k, bs)"
    and "disk_limit (the_disk s) < length bs" "length bs < stdio_block (the_disk s)"
  shows "\<exists>s'. write_list_of_files_into_dir [(k, snb bs)] (Some dir) s = Some (Ok (1, s')) \<and>
    disk_files (the_disk s') (canon (target dir k)) = Some (take (disk_limit (the_disk s)) bs)"
proof -
  let ?n = "length (base_name k) + length dir + 2"
  have n: "?n < 2 ^ 31" "length bs < 2 ^ 31" using assms(6) by (simp_all add: small_file_def target_def)
  have i: "to_int32 (int ?n) = int ?n" using n(1) by (intro to_int32_id) simp_all
  have "write_one dir k (snb bs) (-1) (s\<lparr>errno_v := EEXIST\<rparr>) = Ok (True, int ?n, s\<lparr>errno_v := EEXIST, pmem := Ample,
      the_disk := (the_disk s)\<lparr>disk_files := (disk_files (the_disk s))(canon (target dir k) \<mapsto> take (disk_limit (the_disk s)) bs)\<rparr>\<rparr>)"
    using buffered_content [OF assms(5) n(2) assms(8)] safe_malloc_small [OF n(1)] assms(4)
    unfolding write_one_content Let_def i by simp
  moreover have "write_list_of_files_into_dir [(k, snb bs)] (Some dir) s =
      write_files_loop dir [(k, snb bs)] 0 (-1) (s\<lparr>errno_v := EEXIST\<rparr>)"
    by (rule write_list_ready [OF assms(1-3)])
  ultimately show ?thesis
    by (simp add: write_files_loop.simps [of dir "[_]"] write_files_loop.simps [of dir "[]"])
qed

text \<open>C30: when some file of the list is refused, because it cannot be opened or because the disk does not take
  the whole blocks that \<open>fwrite\<close> writes at once, the loop stays at the first such file and tries it for
  ever: \<open>write_list_of_files_into_dir\<close> does not return. The directory exists, and names and
  files fit an \<open>int\<close>.\<close>

theorem write_list_never_returns:
  assumes "\<And>p. ancestor p dir \<Longrightarrow> present (the_disk s) p" "dir \<noteq> []" "length dir < PATH_MAX" "pmem s = Ample"
    and "\<forall>f \<in> set fs. small_file dir f" "\<exists>f \<in> set fs. refused (the_disk s) dir (fst f) (snd f)"
  shows "write_list_of_files_into_dir (map (\<lambda>f. (fst f, snb (snd f))) fs) (Some dir) s = None"
proof (rule ccontr)
  assume "write_list_of_files_into_dir (map (\<lambda>f. (fst f, snb (snd f))) fs) (Some dir) s \<noteq> None"
  moreover have "write_list_of_files_into_dir (map (\<lambda>f. (fst f, snb (snd f))) fs) (Some dir) s =
      write_files_loop dir (map (\<lambda>f. (fst f, snb (snd f))) fs) 0 (-1) (s\<lparr>errno_v := EEXIST\<rparr>)"
    by (rule write_list_ready [OF assms(1-3)])
  ultimately obtain r where
    "write_files_loop dir (map (\<lambda>f. (fst f, snb (snd f))) fs) 0 (-1) (s\<lparr>errno_v := EEXIST\<rparr>) = Some r" by auto
  then show False by (rule write_files_refused) (use assms(4-6) in simp_all)
qed

text \<open>The second file of the list has 9000 bytes, and two blocks of it do not fit on the disk.\<close>

lemma write_list_never_returns_witness:
  "write_list_of_files_into_dir [([98], snb [1]), ([97], snb (replicate 9000 7))] (Some [100]) demo_proc2 = None"
proof -
  let ?fs = "[([98], [1]), ([97], replicate 9000 7)]"
  have "\<forall>f \<in> set ?fs. small_file [100] f" by (simp add: small_file_def target_def base_name_def)
  moreover have "\<exists>f \<in> set ?fs. refused (the_disk demo_proc2) [100] (fst f) (snd f)"
    by (simp add: refused_def demo_proc2_def demo_disk_def)
  ultimately show ?thesis
    using write_list_never_returns [of "[100]" demo_proc2 ?fs, OF demo_ready] by (simp add: PATH_MAX_def demo_proc2_def)
qed

end
