(* ===== verification/Client_Options.thy ===== *)
theory Client_Options
  imports Files_Util
begin

text \<open>
  \<open>client/parse_options.c\<close>: the options of the client program become a list of requests, which is then
  checked. What \<open>getopt\<close> delivers is given as the list of its answers, an option letter (\<open>:\<close> for a missing
  argument, \<open>?\<close> for an unknown option) with its argument; \<open>realpath\<close> is a parameter.
\<close>

section \<open>The state\<close>

record client_conf_t =
  conf_socket :: "path option"
  print_to_stdout :: bool
  waiting_sec :: int
  print_helper :: bool

text \<open>The data of the nodes of the request list, by the option that made them.\<close>

datatype req_data =
    Dir_and_number path int   \<comment> \<open>\<open>str_long_pair_t\<close>\<close>
  | File_list "path list"
  | Number int
  | Dir_name path

type_synonym req_node = "char \<times> req_data"

record options =
  conf :: client_conf_t
  f_option :: bool
  p_option :: bool
  a_option :: bool
  request_q :: "req_node list"
  omem :: mem

definition options_init :: "mem \<Rightarrow> options" where
  "options_init m =
     \<lparr>conf = \<lparr>conf_socket = None, print_to_stdout = False, waiting_sec = 5, print_helper = False\<rparr>,
      f_option = False, p_option = False, a_option = False, request_q = [], omem = m\<rparr>"

section \<open>Separating and converting\<close>

text \<open>The strings that repeated calls of \<open>strtok_r\<close> with the separator give: the pieces that are not empty.\<close>

lemma length_dropWhile_Suc [termination_simp]: "length (dropWhile P xs) < Suc (length xs)"
  using length_dropWhile_le [of P xs] by simp

fun strtok_all :: "byte \<Rightarrow> byte list \<Rightarrow> byte list list" where
  "strtok_all c [] = []"
| "strtok_all c (x # xs) =
     (if x = c then strtok_all c xs
      else (x # takeWhile (\<lambda>y. y \<noteq> c) xs) # strtok_all c (dropWhile (\<lambda>y. y \<noteq> c) xs))"

abbreviation comma :: byte where "comma \<equiv> 44"

text \<open>
  \<open>sscanf(s, "%ld", &n)\<close>: the value returned, \<open>EOF\<close> being -1, and the number stored if there is one.
\<close>

definition sscanf_ld :: "byte list \<Rightarrow> int \<times> int option" where
  "sscanf_ld s =
     (case strtol10 s of
        (v, e, erange) \<Rightarrow>
          if e = s then (if dropWhile is_space s = [] then (-1, None) else (0, None)) else (1, Some v))"

definition list_push :: "char \<Rightarrow> req_data \<Rightarrow> options \<Rightarrow> bool \<times> options" where
  "list_push k d st =
     (case malloc (omem st) of
        (ok, m) \<Rightarrow> if ok then (True, st\<lparr>omem := m, request_q := request_q st @ [(k, d)]\<rparr>) else (False, st\<lparr>omem := m\<rparr>))"

text \<open>A piece that is not a path of the disk, or a lack of memory, ends the process.\<close>

fun comma_sep_loop :: "(path \<Rightarrow> path option) \<Rightarrow> byte list list \<Rightarrow> path list \<Rightarrow> bool \<Rightarrow> mem \<Rightarrow> (path list \<times> mem) res" where
  "comma_sep_loop realpath [] acc absolute m = Ok (acc, m)"
| "comma_sep_loop realpath (token # tokens) acc absolute m =
     (case (if absolute then realpath token else Some token) of
        None \<Rightarrow> Exit
      | Some abs_token \<Rightarrow>
          (case malloc m of
             (False, m) \<Rightarrow> Exit
           | (True, m) \<Rightarrow> comma_sep_loop realpath tokens (acc @ [abs_token]) absolute m))"

definition comma_sep :: "(path \<Rightarrow> path option) \<Rightarrow> byte list \<Rightarrow> bool \<Rightarrow> mem \<Rightarrow> (path list \<times> mem) res" where
  "comma_sep realpath arg absolute m = comma_sep_loop realpath (strtok_all comma arg) [] absolute m"

section \<open>Options\<close>

text \<open>
  One answer of \<open>getopt\<close>: the value that \<open>parse_options\<close> returns at once, if it does, and the new state.
\<close>

definition push_or_exit :: "char \<Rightarrow> req_data \<Rightarrow> options \<Rightarrow> (int option \<times> options) res" where
  "push_or_exit k d st = (case list_push k d st of (ok, st) \<Rightarrow> if ok then Ok (None, st) else Exit)"

definition option_files :: "(path \<Rightarrow> path option) \<Rightarrow> char \<Rightarrow> byte list \<Rightarrow> options \<Rightarrow> (int option \<times> options) res" where
  "option_files realpath k arg st =
     (case malloc (omem st) of
        (False, m) \<Rightarrow> Exit
      | (True, m) \<Rightarrow>
          rbind (comma_sep realpath arg True m) (\<lambda>(fs, m). push_or_exit k (File_list fs) (st\<lparr>omem := m\<rparr>)))"

definition option_w :: "(path \<Rightarrow> path option) \<Rightarrow> byte list \<Rightarrow> options \<Rightarrow> (int option \<times> options) res" where
  "option_w realpath arg st =
     (case strtok_all comma arg of
        [] \<Rightarrow> Ok (Some (-1), st)
      | directory # pieces \<Rightarrow>
          (case realpath directory of
             None \<Rightarrow> Ok (Some (-1), st)
           | Some abs_directory \<Rightarrow>
               (let (r, n) = (case pieces of [] \<Rightarrow> (1, None) | str # _ \<Rightarrow> sscanf_ld str);
                    fs = (case n of None \<Rightarrow> 0 | Some v \<Rightarrow> v)
                in if r = -1 \<or> fs < 0 then Ok (Some (-1), st)
                   else rbind (safe_malloc 16 (omem st)) (\<lambda>m.
                        push_or_exit CHR ''w'' (Dir_and_number abs_directory fs) (st\<lparr>omem := m\<rparr>)))))"

definition option_t :: "byte list \<Rightarrow> options \<Rightarrow> (int option \<times> options) res" where
  "option_t arg st =
     (case str_to_long (Some arg) of
        (r, v) \<Rightarrow>
          if r \<noteq> 0 then Ok (Some (-1), st)
          else if the v < 0 then Ok (Some (-1), st)
          else push_or_exit CHR ''t'' (Number (the v)) st)"

definition option_R :: "byte list option \<Rightarrow> options \<Rightarrow> (int option \<times> options) res" where
  "option_R arg st =
     (let (r, n) = (case arg of None \<Rightarrow> (1, Some 0) | Some s \<Rightarrow> sscanf_ld s);
          n = (case n of None \<Rightarrow> 0 | Some v \<Rightarrow> v)
      in if r = -1 \<or> n < 0 then Ok (Some (-1), st) else push_or_exit CHR ''R'' (Number n) st)"

text \<open>Only the value -1 of \<open>str_to_long\<close> is treated as an error; \<open>waiting_sec\<close> keeps its value on the others.\<close>

definition option_a :: "byte list \<Rightarrow> options \<Rightarrow> (int option \<times> options) res" where
  "option_a arg st =
     (if a_option st then Ok (Some (-1), st)
      else case str_to_long (Some arg) of
        (r, v) \<Rightarrow>
          (let st = (case v of None \<Rightarrow> st | Some n \<Rightarrow> st\<lparr>conf := (conf st)\<lparr>waiting_sec := n\<rparr>\<rparr>)
           in if r = -1 then Ok (Some (-1), st)
              else if waiting_sec (conf st) < 0 then Ok (Some (-1), st)
              else Ok (None, st\<lparr>a_option := True\<rparr>)))"

definition parse_option :: "(path \<Rightarrow> path option) \<Rightarrow> char \<Rightarrow> byte list option \<Rightarrow> options \<Rightarrow> (int option \<times> options) res" where
  "parse_option realpath opt optarg st =
     (if opt = CHR ''h'' then Ok (Some 0, st\<lparr>conf := (conf st)\<lparr>print_helper := True\<rparr>\<rparr>)
      else if opt = CHR ''f'' then
        (if f_option st then Ok (Some (-1), st)
         else Ok (None, st\<lparr>conf := (conf st)\<lparr>conf_socket := optarg\<rparr>, f_option := True\<rparr>))
      else if opt = CHR ''w'' then option_w realpath (the optarg) st
      else if opt \<in> {CHR ''W'', CHR ''r'', CHR ''l'', CHR ''u'', CHR ''c''} then option_files realpath opt (the optarg) st
      else if opt = CHR ''t'' then option_t (the optarg) st
      else if opt = CHR ''p'' then
        (if p_option st then Ok (Some (-1), st)
         else Ok (None, st\<lparr>conf := (conf st)\<lparr>print_to_stdout := True\<rparr>, p_option := True\<rparr>))
      else if opt = CHR ''D'' then push_or_exit CHR ''D'' (Dir_name (the optarg)) st
      else if opt = CHR ''R'' then option_R optarg st
      else if opt = CHR ''d'' then Ok (None, snd (list_push CHR ''d'' (Dir_name (the optarg)) st))
      else if opt = CHR ''a'' then option_a (the optarg) st
      else if opt = CHR '':'' \<or> opt = CHR ''?'' then Ok (Some (-1), st)
      else Ok (None, st))"

fun parse_options :: "(path \<Rightarrow> path option) \<Rightarrow> (char \<times> byte list option) list \<Rightarrow> options \<Rightarrow> (int \<times> options) res" where
  "parse_options realpath [] st = Ok (0, st)"
| "parse_options realpath ((opt, optarg) # opts) st =
     rbind (parse_option realpath opt optarg st) (\<lambda>(r, st).
       case r of None \<Rightarrow> parse_options realpath opts st | Some v \<Rightarrow> Ok (v, st))"

section \<open>Validation\<close>

text \<open>The walk along the list; \<open>prev\<close> is the letter of the node before.\<close>

fun validate_loop :: "char option \<Rightarrow> req_node list \<Rightarrow> unit res" where
  "validate_loop prev [] = Ok ()"
| "validate_loop prev ((k, d) # nodes) =
     (if k = CHR ''d'' \<and> (prev = None \<or> the prev \<noteq> CHR ''r'' \<and> the prev \<noteq> CHR ''R'') then Exit
      else if k = CHR ''D'' \<and> (prev = None \<or> the prev \<noteq> CHR ''w'' \<and> the prev \<noteq> CHR ''W'') then Exit
      else validate_loop (Some k) nodes)"

definition validate_options :: "options \<Rightarrow> unit res" where
  "validate_options st = (if f_option st then validate_loop None (request_q st) else Exit)"

section \<open>Facts\<close>

text \<open>A directory option is allowed directly after the requests it is for.\<close>

definition dir_follows :: "char \<Rightarrow> char \<Rightarrow> bool" where
  "dir_follows j k \<longleftrightarrow> (k = CHR ''d'' \<longrightarrow> j = CHR ''r'' \<or> j = CHR ''R'') \<and> (k = CHR ''D'' \<longrightarrow> j = CHR ''w'' \<or> j = CHR ''W'')"

fun dirs_follow :: "char option \<Rightarrow> char list \<Rightarrow> bool" where
  "dirs_follow prev [] = True"
| "dirs_follow prev (k # ks) \<longleftrightarrow>
     (case prev of None \<Rightarrow> k \<noteq> CHR ''d'' \<and> k \<noteq> CHR ''D'' | Some j \<Rightarrow> dir_follows j k) \<and> dirs_follow (Some k) ks"

lemma validate_loop_iff: "validate_loop prev nodes = (if dirs_follow prev (map fst nodes) then Ok () else Exit)"
  by (induction prev nodes rule: validate_loop.induct) (auto simp: dir_follows_def split: option.splits)

text \<open>The data that goes with each letter; every node of a parsed list has it.\<close>

definition node_ok :: "req_node \<Rightarrow> bool" where
  "node_ok n \<longleftrightarrow>
     (case snd n of
        Dir_and_number d k \<Rightarrow> fst n = CHR ''w'' \<and> 0 \<le> k
      | File_list fs \<Rightarrow> fst n \<in> {CHR ''W'', CHR ''r'', CHR ''l'', CHR ''u'', CHR ''c''}
      | Number k \<Rightarrow> fst n \<in> {CHR ''t'', CHR ''R''} \<and> 0 \<le> k
      | Dir_name d \<Rightarrow> fst n \<in> {CHR ''d'', CHR ''D''})"

definition queue_ok :: "options \<Rightarrow> bool" where
  "queue_ok st \<longleftrightarrow> (\<forall>n \<in> set (request_q st). node_ok n)"

lemma push_queue: "queue_ok st \<Longrightarrow> node_ok (k, d) \<Longrightarrow> queue_ok (snd (list_push k d st))"
  by (auto simp: list_push_def queue_ok_def split: prod.splits)

lemma queue_ok_upd [simp]: "queue_ok (st\<lparr>conf := c\<rparr>) = queue_ok st" "queue_ok (st\<lparr>omem := m\<rparr>) = queue_ok st"
  "queue_ok (st\<lparr>f_option := b\<rparr>) = queue_ok st" "queue_ok (st\<lparr>p_option := b\<rparr>) = queue_ok st"
  "queue_ok (st\<lparr>a_option := b\<rparr>) = queue_ok st"
  by (simp_all add: queue_ok_def)

definition keeps_queue :: "options \<Rightarrow> ('a \<times> options) res \<Rightarrow> bool" where
  "keeps_queue st m \<longleftrightarrow> (\<forall>r st'. m = Ok (r, st') \<longrightarrow> queue_ok st \<longrightarrow> queue_ok st')"

lemma keeps_queue_if: "(c \<Longrightarrow> keeps_queue st a) \<Longrightarrow> (\<not> c \<Longrightarrow> keeps_queue st b) \<Longrightarrow> keeps_queue st (if c then a else b)"
  by simp

lemma keeps_queue_Ok: "(queue_ok st \<Longrightarrow> queue_ok st') \<Longrightarrow> keeps_queue st (Ok (r, st'))" "keeps_queue st Exit"
  by (simp_all add: keeps_queue_def)

lemma keeps_queue_bind: "(\<And>x. keeps_queue st (f x)) \<Longrightarrow> keeps_queue st (rbind m f)"
  by (auto simp: keeps_queue_def rbind_eq_Ok)

lemma push_or_exit_queue: "node_ok (k, d) \<Longrightarrow> keeps_queue (st\<lparr>omem := m\<rparr>) (push_or_exit k d st)"
  using push_queue [of st k d] by (auto simp: push_or_exit_def keeps_queue_def split: prod.splits if_splits)

lemma push_or_exit_queue': "node_ok (k, d) \<Longrightarrow> keeps_queue st (push_or_exit k d (st\<lparr>omem := m\<rparr>))"
  "node_ok (k, d) \<Longrightarrow> keeps_queue st (push_or_exit k d st)"
  using push_or_exit_queue [where k = k and d = d and st = "st\<lparr>omem := m\<rparr>" and m = "omem st"]
    push_or_exit_queue [where k = k and d = d and st = st and m = "omem st"] by simp_all

lemma option_files_queue:
  assumes "k \<in> {CHR ''W'', CHR ''r'', CHR ''l'', CHR ''u'', CHR ''c''}"
  shows "keeps_queue st (option_files realpath k arg st)"
proof -
  have "node_ok (k, File_list fs)" for fs using assms by (simp add: node_ok_def)
  then show ?thesis using push_or_exit_queue'(1) unfolding option_files_def
    by (auto split: prod.split bool.split intro!: keeps_queue_bind keeps_queue_Ok(2))
qed

lemma option_w_queue: "keeps_queue st (option_w realpath arg st)"
proof -
  have "node_ok (CHR ''w'', Dir_and_number d n)" if "\<not> n < 0" for d n using that by (simp add: node_ok_def)
  then show ?thesis using push_or_exit_queue'(1) unfolding option_w_def Let_def
    by (auto split: list.split option.split prod.split intro!: keeps_queue_bind keeps_queue_if keeps_queue_Ok)
qed

lemma option_t_queue: "keeps_queue st (option_t arg st)"
proof -
  have "node_ok (CHR ''t'', Number n)" if "\<not> n < 0" for n using that by (simp add: node_ok_def)
  then show ?thesis using push_or_exit_queue'(2) unfolding option_t_def
    by (auto split: prod.split intro!: keeps_queue_if keeps_queue_Ok)
qed

lemma option_R_queue: "keeps_queue st (option_R arg st)"
proof -
  have "node_ok (CHR ''R'', Number n)" if "\<not> n < 0" for n using that by (simp add: node_ok_def)
  then show ?thesis using push_or_exit_queue'(2) unfolding option_R_def Let_def
    by (auto split: prod.split intro!: keeps_queue_if keeps_queue_Ok)
qed

lemma option_a_queue: "keeps_queue st (option_a arg st)"
  unfolding option_a_def Let_def
  by (auto split: prod.split option.split intro!: keeps_queue_if keeps_queue_Ok)

lemma parse_option_queue: "keeps_queue st (parse_option realpath opt optarg st)"
proof -
  have "node_ok (CHR ''d'', Dir_name d)" "node_ok (CHR ''D'', Dir_name d)" for d by (simp_all add: node_ok_def)
  then show ?thesis unfolding parse_option_def
    by (intro keeps_queue_if keeps_queue_Ok push_or_exit_queue'(2) option_files_queue option_w_queue option_t_queue
        option_R_queue option_a_queue push_queue) simp_all
qed

lemma parse_options_queue: "parse_options realpath opts st = Ok (r, st') \<Longrightarrow> queue_ok st \<Longrightarrow> queue_ok st'"
proof (induction realpath opts st rule: parse_options.induct)
  case (2 realpath opt optarg opts st)
  then obtain v st1 where p: "parse_option realpath opt optarg st = Ok (v, st1)" by (auto simp: rbind_eq_Ok)
  then have "queue_ok st1" using 2(3) parse_option_queue [of st realpath opt optarg] by (simp add: keeps_queue_def)
  then show ?case using 2 p by (cases v) auto
qed auto

section \<open>Properties\<close>

text \<open>C35: the requests that the client program accepts are well formed: after \<open>parse_options\<close> every node has the
  data that its letter stands for, with numbers that are not negative, and \<open>validate_options\<close> lets the
  list through exactly when the socket was given and every \<open>-d\<close> directly follows a \<open>-r\<close> or a \<open>-R\<close>, every
  \<open>-D\<close> a \<open>-w\<close> or a \<open>-W\<close>; otherwise it ends the process.\<close>

theorem accepted_requests:
  assumes "parse_options realpath opts (options_init m) = Ok (r, st)"
  shows "(\<forall>n \<in> set (request_q st). node_ok n) \<and>
    validate_options st = (if f_option st \<and> dirs_follow None (map fst (request_q st)) then Ok () else Exit)"
proof -
  have "queue_ok (options_init m)" by (simp add: queue_ok_def options_init_def)
  then have "queue_ok st" using parse_options_queue [OF assms] by blast
  then show ?thesis by (simp add: queue_ok_def validate_options_def validate_loop_iff)
qed

text \<open>\<open>-f s -W x,,y -D e -R3\<close>\<close>

lemma accepted_requests_witness:
  "\<exists>st. parse_options Some [(CHR ''f'', Some [115]), (CHR ''W'', Some [120, 44, 44, 121]), (CHR ''D'', Some [101]), (CHR ''R'', Some [51])]
      (options_init Ample) = Ok (0, st) \<and> validate_options st = Ok () \<and>
    request_q st = [(CHR ''W'', File_list [[120], [121]]), (CHR ''D'', Dir_name [101]), (CHR ''R'', Number 3)]"
proof -
  let ?opts = "[(CHR ''f'', Some [115]), (CHR ''W'', Some [120, 44, 44, 121]), (CHR ''D'', Some [101]), (CHR ''R'', Some [51])]"
  have n: "sscanf_ld [51] = (1, Some 3)"
    by (simp add: sscanf_ld_def strtol10_def is_space_def is_digit_def long_max_def long_min_def)
  obtain st where st: "parse_options Some ?opts (options_init Ample) = Ok (0, st)" "f_option st"
    "request_q st = [(CHR ''W'', File_list [[120], [121]]), (CHR ''D'', Dir_name [101]), (CHR ''R'', Number 3)]"
    by (simp add: parse_option_def options_init_def option_files_def comma_sep_def push_or_exit_def list_push_def
        option_R_def n)
  with accepted_requests [OF st(1)] show ?thesis by (simp add: dir_follows_def)
qed

end
