(* ===== verification/Api.thy ===== *)
theory Api
  imports Files_Util
begin

text \<open>
  The client library (\<open>src/api\<close>): the globals, the calls that send a request and wait for its result, and
  the reception of the files that the server sends back.
\<close>

section \<open>Globals\<close>

record last_op_t =
  is_open :: bool
  lo_create :: bool
  lo_lock :: bool
  lo_success :: bool
  lo_path :: "path option"

text \<open>The connection of \<open>fd_sock\<close> is \<open>the_link\<close>.\<close>

record api = proc +
  fd_sock :: int
  socket_path :: "path option"
  last_op :: last_op_t
  the_link :: conn

definition no_op :: last_op_t where
  "no_op = \<lparr>is_open = False, lo_create = False, lo_lock = False, lo_success = False, lo_path = None\<rparr>"

definition RESET_LAST_OP :: "api \<Rightarrow> api" where
  "RESET_LAST_OP a = a\<lparr>last_op := no_op\<rparr>"

definition RESET_SOCK :: "api \<Rightarrow> api" where
  "RESET_SOCK a = a\<lparr>fd_sock := -1, socket_path := None\<rparr>"

section \<open>Results and messages\<close>

definition convert_res_to_errno :: "int \<Rightarrow> errno" where
  "convert_res_to_errno res =
     (if res = SA_SUCCESS then Errno_0
      else if res = SA_EXISTS then EEXIST
      else if res = SA_NO_FILE then ENOENT
      else if res = SA_ALREADY_LOCKED then EBUSY
      else if res = SA_NOT_LOCKED then EPERM
      else if res = SA_TOO_BIG then EFBIG
      else if res = SA_NO_OPEN then ENOKEY
      else if res = SA_NOT_EMPTY then EACCES
      else ENOTRECOVERABLE)"

text \<open>The texts of \<open>api_perror\<close>; the others are those of \<open>strerror\<close>, the parameter.\<close>

fun errno_to_msg :: "(errno \<Rightarrow> string) \<Rightarrow> errno \<Rightarrow> string" where
  "errno_to_msg strerror Errno_0 = ''success''"
| "errno_to_msg strerror EINVAL = ''invalid argument passed to API function''"
| "errno_to_msg strerror ENOTCONN = ''client is not connected to server''"
| "errno_to_msg strerror ENOTEMPTY = ''could not create directory''"
| "errno_to_msg strerror ECANCELED = ''could not write every file into directory''"
| "errno_to_msg strerror ENOTTY = ''cannot write into file: last operation was not a locking-creation''"
| "errno_to_msg strerror ENOSYS = ''operation is not implemented yet''"
| "errno_to_msg strerror EIO = ''could not open file on disk''"
| "errno_to_msg strerror ENOTRECOVERABLE = ''fatal error in server or client application''"
| "errno_to_msg strerror EBADE = ''fatal error in server-client communication''"
| "errno_to_msg strerror EEXIST = ''file already exists''"
| "errno_to_msg strerror ENOENT = ''file is not present in server''"
| "errno_to_msg strerror EBUSY = ''file is already locked''"
| "errno_to_msg strerror EPERM = ''file is not locked by client''"
| "errno_to_msg strerror EFBIG = ''file is too big to fit into server''"
| "errno_to_msg strerror ENOKEY = ''file has not been opened by client''"
| "errno_to_msg strerror EACCES = ''file was not empty''"
| "errno_to_msg strerror e = strerror e"

definition api_perror :: "(errno \<Rightarrow> string) \<Rightarrow> string \<Rightarrow> api \<Rightarrow> string" where
  "api_perror strerror str a = str @ '': '' @ errno_to_msg strerror (errno_v a) @ ''.'' @ [CHR 0x0A]"

section \<open>Calls\<close>

text \<open>
  A call goes on with a value, or returns -1 with \<open>errno\<close> set (\<open>None\<close>).
\<close>

type_synonym 'a call = "api \<Rightarrow> ('a option \<times> api) res"

definition api_fail :: "errno \<Rightarrow> 'a call" where
  "api_fail e a = Ok (None, a\<lparr>errno_v := e\<rparr>)"

definition api_ret :: "'a \<Rightarrow> 'a call" where
  "api_ret x a = Ok (Some x, a)"

definition api_bind :: "'a call \<Rightarrow> ('a \<Rightarrow> 'b call) \<Rightarrow> 'b call" where
  "api_bind m f a = rbind (m a) (\<lambda>(x, a). case x of None \<Rightarrow> Ok (None, a) | Some y \<Rightarrow> f y a)"

text \<open>The value that the C function returns.\<close>

definition returned :: "int call \<Rightarrow> api \<Rightarrow> (int \<times> api) res" where
  "returned m a = rbind (m a) (\<lambda>(x, a). Ok (case x of None \<Rightarrow> -1 | Some r \<Rightarrow> r, a))"

text \<open>One \<open>writen\<close> after the other; the first that fails ends the call.\<close>

fun send_all :: "byte list list \<Rightarrow> unit call" where
  "send_all [] a = api_ret () a"
| "send_all (bs # bss) a =
     (case conn_writen bs (the_link a) of
        (l, c) \<Rightarrow> if l = -1 then api_fail EBADE (a\<lparr>the_link := c\<rparr>) else send_all bss (a\<lparr>the_link := c\<rparr>))"

definition api_readn :: "nat \<Rightarrow> byte list call" where
  "api_readn n a =
     rbind (conn_readn n (the_link a)) (\<lambda>(l, bs, c).
       if l = -1 \<or> l = 0 then api_fail EBADE (a\<lparr>the_link := c\<rparr>) else api_ret bs (a\<lparr>the_link := c\<rparr>))"

definition read_res :: "int call" where
  "read_res = api_bind (api_readn 4) (\<lambda>bs. api_ret (dec_int bs))"

definition api_malloc :: "u64 \<Rightarrow> unit call" where
  "api_malloc n a = rbind (safe_malloc n (pmem a)) (\<lambda>m. Ok (Some (), a\<lparr>pmem := m\<rparr>))"

text \<open>\<open>return (res == SA_SUCCESS ? 0 : -1)\<close> after \<open>errno = convert_res_to_errno(res)\<close>.\<close>

definition finish :: "int \<Rightarrow> int call" where
  "finish res a = (if res = SA_SUCCESS then api_ret 0 (a\<lparr>errno_v := Errno_0\<rparr>) else api_fail (convert_res_to_errno res) a)"

definition check_res :: "int \<Rightarrow> unit call" where
  "check_res res = (if res = SA_SUCCESS then api_ret () else api_fail (convert_res_to_errno res))"

text \<open>
  The checks at the start of a call. The length of the path is kept in an \<open>int\<close>, to which 1 is added.
\<close>

definition connected_path :: "path option \<Rightarrow> (path \<Rightarrow> 'a call) \<Rightarrow> 'a call" where
  "connected_path pathname act a =
     (if fd_sock a = -1 then api_fail ENOTCONN a
      else case pathname of
             None \<Rightarrow> api_fail EINVAL a
           | Some p \<Rightarrow> if length p < 2 ^ 31 - 1 then act p a else UB)"

definition path_bufs :: "path \<Rightarrow> byte list list" where
  "path_bufs p = [enc_int (int (length p)), p @ [0]]"

definition op_buf :: "op_code_t \<Rightarrow> byte list" where
  "op_buf op = enc_int (op_value op)"

definition modify_api :: "(api \<Rightarrow> api) \<Rightarrow> unit call" where
  "modify_api f a = Ok (Some (), f a)"

section \<open>Requests without files in the answer\<close>

definition openFile :: "path option \<Rightarrow> u32 \<Rightarrow> api \<Rightarrow> (int \<times> api) res" where
  "openFile pathname flags =
     returned (connected_path pathname (\<lambda>p.
       api_bind (send_all (op_buf OPEN_FILE # path_bufs p @ [enc_u32 flags])) (\<lambda>_.
       api_bind (api_malloc (word_of_nat (length p + 1))) (\<lambda>_.
       api_bind (modify_api (\<lambda>a. a\<lparr>last_op := \<lparr>is_open = True, lo_create = is_flag_set flags O_CREATE,
          lo_lock = is_flag_set flags O_LOCK, lo_success = False, lo_path = Some p\<rparr>\<rparr>)) (\<lambda>_.
       api_bind read_res (\<lambda>res.
       api_bind (check_res res) (\<lambda>_.
       api_bind (modify_api (\<lambda>a. a\<lparr>last_op := (last_op a)\<lparr>lo_success := True\<rparr>, errno_v := Errno_0\<rparr>)) (\<lambda>_.
       api_ret 0))))))))"

definition closeFile :: "path option \<Rightarrow> api \<Rightarrow> (int \<times> api) res" where
  "closeFile pathname =
     returned (connected_path pathname (\<lambda>p.
       api_bind (modify_api RESET_LAST_OP) (\<lambda>_.
       api_bind (send_all (op_buf CLOSE_FILE # path_bufs p)) (\<lambda>_.
       api_bind read_res finish))))"

definition removeFile :: "path option \<Rightarrow> api \<Rightarrow> (int \<times> api) res" where
  "removeFile pathname =
     returned (connected_path pathname (\<lambda>p.
       api_bind (modify_api RESET_LAST_OP) (\<lambda>_.
       api_bind (send_all (op_buf REMOVE_FILE # path_bufs p)) (\<lambda>_.
       api_bind read_res finish))))"

definition lockFile :: "path option \<Rightarrow> api \<Rightarrow> int \<times> api" where
  "lockFile pathname a = (-1, a\<lparr>errno_v := ENOSYS\<rparr>)"

definition unlockFile :: "path option \<Rightarrow> api \<Rightarrow> int \<times> api" where
  "unlockFile pathname a = (-1, a\<lparr>errno_v := ENOSYS\<rparr>)"

text \<open>
  What \<open>readFile\<close> stores through its pointers: the size, and the buffer, which is \<open>None\<close> when it was not
  set or has been freed.
\<close>

definition read_contents :: "(u64 option \<times> byte list option) \<Rightarrow> (int \<times> u64 option \<times> byte list option) call" where
  "read_contents out a0 =
     rbind (api_readn 8 a0) (\<lambda>(x, a). case x of
       None \<Rightarrow> Ok (Some (-1, out), a)
     | Some sz \<Rightarrow>
         rbind (api_malloc (dec_u64 sz) a) (\<lambda>(_, a).
         rbind (api_readn (unat (dec_u64 sz)) a) (\<lambda>(x, a). case x of
           None \<Rightarrow> Ok (Some (-1, Some (dec_u64 sz), None), a)
         | Some buf \<Rightarrow>
             rbind (returned (api_bind read_res finish) a) (\<lambda>(r, a).
               Ok (Some (r, Some (dec_u64 sz), Some buf), a)))))"

definition readFile :: "path option \<Rightarrow> bool \<Rightarrow> bool \<Rightarrow> api \<Rightarrow> ((int \<times> u64 option \<times> byte list option) \<times> api) res" where
  "readFile pathname has_buf has_size a0 =
     rbind (connected_path (if has_buf \<and> has_size then pathname else None) (\<lambda>p.
       api_bind (modify_api RESET_LAST_OP) (\<lambda>_.
       api_bind (send_all (op_buf READ_FILE # path_bufs p)) (\<lambda>_.
       api_bind read_res (\<lambda>res.
       api_bind (check_res res) (\<lambda>_.
       read_contents (None, None)))))) a0)
     (\<lambda>(x, a). Ok (case x of None \<Rightarrow> (-1, None, None) | Some r \<Rightarrow> r, a))"

section \<open>Files sent by the server\<close>

text \<open>\<open>list_push_back\<close> and \<open>empty_list\<close> can fail for lack of memory without ending the process.\<close>

definition list_alloc :: "unit call" where
  "list_alloc a = (case malloc (pmem a) of (ok, m) \<Rightarrow> if ok then Ok (Some (), a\<lparr>pmem := m\<rparr>) else api_fail ENOTRECOVERABLE (a\<lparr>pmem := m\<rparr>))"

text \<open>One file of the list, after the length of its path; the path is the buffer as it was read.\<close>

definition recv_one :: "int \<Rightarrow> (byte list \<times> size_n_buf_t) call" where
  "recv_one path_len =
     (if path_len = 2 ^ 31 - 1 then (\<lambda>a. UB)
      else (let n = word_of_int (path_len + 1) :: u64
            in api_bind (api_malloc 16) (\<lambda>_.
               api_bind (api_malloc n) (\<lambda>_.
               api_bind (api_readn (unat n)) (\<lambda>path.
               api_bind (api_readn 8) (\<lambda>sz.
               api_bind
                 (if dec_u64 sz = 0 then api_ret None
                  else api_bind (api_malloc (dec_u64 sz)) (\<lambda>_. api_bind (api_readn (unat (dec_u64 sz))) (\<lambda>buf. api_ret (Some buf))))
                 (\<lambda>buf.
               api_bind list_alloc (\<lambda>_.
               api_ret (path, \<lparr>snb_size = dec_u64 sz, snb_buf = buf\<rparr>)))))))))"

definition pending :: "api \<Rightarrow> nat" where
  "pending a = length (rx (the_link a))"

definition consumes :: "'a call \<Rightarrow> bool" where
  "consumes m \<longleftrightarrow> (\<forall>a x a'. m a = Ok (x, a') \<longrightarrow> pending a' \<le> pending a)"

lemma conn_readn_pending: "conn_readn n c = Ok (l, bs, c') \<Longrightarrow> length (rx c') \<le> length (rx c)"
  by (auto simp: conn_readn_def split: if_splits rx_end.splits)

lemma api_readn_consumes: "consumes (api_readn n)"
  by (auto simp: consumes_def api_readn_def pending_def rbind_eq_Ok api_fail_def api_ret_def
      split: if_splits dest: conn_readn_pending)

lemma api_bind_consumes: "consumes m \<Longrightarrow> (\<And>x. consumes (f x)) \<Longrightarrow> consumes (api_bind m f)"
  unfolding consumes_def api_bind_def by (fastforce simp: rbind_eq_Ok split: option.splits dest: order_trans)

lemma plain_consumes: "consumes (api_ret x)" "consumes (api_fail e)" "consumes (api_malloc n)" "consumes list_alloc"
  "consumes (\<lambda>a. UB)"
  by (auto simp: consumes_def api_ret_def api_fail_def api_malloc_def list_alloc_def pending_def rbind_eq_Ok split: if_splits prod.splits)

lemma recv_one_consumes: "consumes (recv_one path_len)"
  unfolding recv_one_def Let_def by (auto intro!: api_bind_consumes api_readn_consumes plain_consumes)

lemma readn_4_less: "api_readn 4 a = Ok (Some bs, a') \<Longrightarrow> pending a' < pending a"
  by (auto simp: api_readn_def conn_readn_def rbind_eq_Ok api_fail_def api_ret_def pending_def
      split: if_splits rx_end.splits)

function recv_files :: "(byte list \<times> size_n_buf_t) list \<Rightarrow> (byte list \<times> size_n_buf_t) list call" where
  "recv_files fs a =
     rbind (api_readn 4 a) (\<lambda>(x, a1). case x of
       None \<Rightarrow> Ok (None, a1)
     | Some bs \<Rightarrow>
         if dec_int bs = 0 then Ok (Some fs, a1)
         else rbind (recv_one (dec_int bs) a1) (\<lambda>(y, a2). case y of
           None \<Rightarrow> Ok (None, a2)
         | Some f \<Rightarrow> recv_files (fs @ [f]) a2))"
  by pat_completeness auto
termination
proof (relation "measure (\<lambda>(fs, a). pending a)")
  fix fs a x x1 a1 bs y y1 a2 f
  assume h: "api_readn 4 a = Ok x" "(x1, a1) = x" "x1 = Some bs" "recv_one (dec_int bs) a1 = Ok y" "(y1, a2) = y"
  then have "pending a2 \<le> pending a1" using recv_one_consumes [of "dec_int bs"] unfolding consumes_def by metis
  also have "pending a1 < pending a" using h by (intro readn_4_less) auto
  finally show "((fs @ [f], a2), (fs, a)) \<in> measure (\<lambda>(fs, a). pending a)" by simp
qed simp

declare recv_files.simps [simp del]

text \<open>
  The names of the files are the strings in the buffers; they are read only when there is a directory.
\<close>

definition key_strings :: "(byte list \<times> size_n_buf_t) list \<Rightarrow> (path \<times> size_n_buf_t) list res" where
  "key_strings fs =
     (if \<forall>f \<in> set fs. 0 \<in> set (fst f) then Ok (map (\<lambda>f. (takeWhile (\<lambda>b. b \<noteq> 0) (fst f), snd f)) fs) else UB)"

text \<open>
  The number of files written is an \<open>int\<close>, compared with the \<open>unsigned int\<close> length of the list.
\<close>

definition store_received :: "(byte list \<times> size_n_buf_t) list \<Rightarrow> path option \<Rightarrow> api \<Rightarrow> (int \<times> api) res option" where
  "store_received fs dirname a =
     lbind (case dirname of
              None \<Rightarrow> write_list_of_files_into_dir [] None a
            | Some dir \<Rightarrow> lbind (Some (key_strings fs)) (\<lambda>names. write_list_of_files_into_dir names (Some dir) a))
       (\<lambda>(n_files, a).
          if (word_of_int n_files :: u32) < word_of_nat (length fs)
          then Some (Ok (-1, a\<lparr>errno_v := (if n_files = -1 then ENOTEMPTY else ECANCELED)\<rparr>))
          else Some (Ok (n_files, a)))"

definition receive_list :: "(byte list \<times> size_n_buf_t) list call" where
  "receive_list =
     api_bind list_alloc (\<lambda>_. api_bind (recv_files []) (\<lambda>fs.
     api_bind read_res (\<lambda>res. api_bind (check_res res) (\<lambda>_. api_ret fs))))"

definition write_files_sent_by_server :: "path option \<Rightarrow> api \<Rightarrow> (int \<times> api) res option" where
  "write_files_sent_by_server dirname a =
     lbind (Some (receive_list a)) (\<lambda>(x, a).
       case x of None \<Rightarrow> Some (Ok (-1, a)) | Some fs \<Rightarrow> store_received fs dirname a)"

section \<open>Requests with files in the answer\<close>

text \<open>What follows when the first part of a call has ended well.\<close>

definition then_files :: "unit call \<Rightarrow> path option \<Rightarrow> api \<Rightarrow> (int \<times> api) res option" where
  "then_files m dirname a =
     lbind (Some (m a)) (\<lambda>(x, a).
       case x of None \<Rightarrow> Some (Ok (-1, a)) | Some _ \<Rightarrow> write_files_sent_by_server dirname a)"

text \<open>\<open>strncmp(s, t, n) == 0\<close>\<close>

definition strncmp_eq :: "path \<Rightarrow> path \<Rightarrow> nat \<Rightarrow> bool" where
  "strncmp_eq s t n \<longleftrightarrow> take n (s @ [0]) = take n (t @ [0])"

definition last_op_allows :: "path \<Rightarrow> unit call" where
  "last_op_allows p a =
     (let op = last_op a
      in if \<not> is_open op \<or> \<not> lo_create op \<or> \<not> lo_lock op \<or> \<not> lo_success op then api_fail ENOTTY a
         else case lo_path op of
                None \<Rightarrow> UB
              | Some q \<Rightarrow> if strncmp_eq q p (length p) then api_ret () a else api_fail ENOTTY a)"

text \<open>The file on the disk of the client, which does not change while it is read.\<close>

definition read_disk :: "path \<Rightarrow> byte list call" where
  "read_disk p a =
     (case fopen_rb p (the_disk a) of
        None \<Rightarrow> api_fail EIO a
      | Some bs \<Rightarrow>
          if 2 ^ 63 \<le> length bs then api_fail EIO a
          else api_bind (api_malloc (word_of_nat (length bs)))
                 (\<lambda>_. if read_broken (the_disk a) (canon p) \<and> bs \<noteq> [] then api_fail EIO else api_ret bs) a)"

definition writeFile :: "path option \<Rightarrow> path option \<Rightarrow> api \<Rightarrow> (int \<times> api) res option" where
  "writeFile pathname dirname a =
     lbind (then_files (connected_path pathname (\<lambda>p.
       api_bind (last_op_allows p) (\<lambda>_.
       api_bind (modify_api RESET_LAST_OP) (\<lambda>_.
       api_bind (read_disk p) (\<lambda>buffer.
       api_bind (send_all (op_buf WRITE_FILE # path_bufs p @ [enc_u64 (word_of_nat (length buffer)), buffer])) (\<lambda>_.
       api_bind read_res check_res)))))) dirname a)
     (\<lambda>(n, a). Some (Ok (if n = -1 then -1 else 0, a)))"

definition appendToFile :: "path option \<Rightarrow> byte list option \<Rightarrow> u64 \<Rightarrow> path option \<Rightarrow> api \<Rightarrow> (int \<times> api) res option" where
  "appendToFile pathname buf n dirname =
     then_files (connected_path (if buf = None then None else pathname) (\<lambda>p.
       api_bind (modify_api RESET_LAST_OP) (\<lambda>_.
       if length (the buf) < unat n then (\<lambda>a. UB)
       else api_bind (send_all (op_buf APPEND_TO_FILE # path_bufs p @
                enc_u64 n # (if 0 < n then [take (unat n) (the buf)] else []))) (\<lambda>_.
            api_bind read_res check_res)))) dirname"

definition readNFiles :: "int \<Rightarrow> path option \<Rightarrow> api \<Rightarrow> (int \<times> api) res option" where
  "readNFiles N dirname =
     then_files (\<lambda>a.
       if fd_sock a = -1 then api_fail ENOTCONN a
       else api_bind (modify_api RESET_LAST_OP) (\<lambda>_.
            api_bind (send_all [op_buf READ_N_FILES, enc_int N]) (\<lambda>_.
            api_bind read_res check_res)) a) dirname"

section \<open>Connecting\<close>

text \<open>
  What happens at one attempt: whether \<open>connect\<close> succeeds, and if not what \<open>nanosleep\<close> and then
  \<open>clock_gettime\<close> answer.
\<close>

record attempt =
  connects :: bool
  sleep_err :: "errno option"
  time_now :: "errno + timespec"

fun connect_loop :: "timespec \<Rightarrow> timespec \<Rightarrow> attempt list \<Rightarrow> int call" where
  "connect_loop abstime curr_time [] a = Stuck"
| "connect_loop abstime curr_time (at # ats) a =
     (if connects at then api_ret 0 a
      else if \<not> tv_sec curr_time < tv_sec abstime then api_fail ETIMEDOUT (RESET_SOCK a)
      else case sleep_err at of
             Some e \<Rightarrow> api_fail e (RESET_SOCK a)
           | None \<Rightarrow>
               (case time_now at of
                  Inl e \<Rightarrow> api_fail e (RESET_SOCK a)
                | Inr t \<Rightarrow> connect_loop abstime t ats a))"

definition sun_path_size :: nat where "sun_path_size = 108"

text \<open>
  \<open>socket\<close> answers a descriptor or an error; the name is copied into \<open>sun_path\<close> with the length of the name
  as the bound, so a long name is written past the end.
\<close>

definition openConnection ::
  "errno + int \<Rightarrow> timespec \<Rightarrow> attempt list \<Rightarrow> path option \<Rightarrow> int \<Rightarrow> timespec \<Rightarrow> api \<Rightarrow> (int \<times> api) res" where
  "openConnection sock now attempts sockname msec abstime a =
     (if socket_path a \<noteq> None \<or> fd_sock a \<noteq> -1 then Ok (-1, a\<lparr>errno_v := EISCONN\<rparr>)
      else case sockname of
        None \<Rightarrow> Ok (-1, a\<lparr>errno_v := EINVAL\<rparr>)
      | Some name \<Rightarrow>
          if msec < 0 then Ok (-1, a\<lparr>errno_v := EINVAL\<rparr>)
          else case sock of
            Inl e \<Rightarrow> Ok (-1, a\<lparr>fd_sock := -1, errno_v := e\<rparr>)
          | Inr fd \<Rightarrow>
              if sun_path_size < length name + 1 then UB
              else returned (api_bind (connect_loop abstime now attempts) (\<lambda>r.
                     api_bind (modify_api (\<lambda>a. a\<lparr>socket_path := Some name\<rparr>)) (\<lambda>_. api_ret r))) (a\<lparr>fd_sock := fd\<rparr>))"

text \<open>\<open>strcmp\<close> reads \<open>socket_path\<close> even when there is no connection. \<open>close\<close> may answer an error.\<close>

definition closeConnection :: "errno option \<Rightarrow> path option \<Rightarrow> api \<Rightarrow> (int \<times> api) res" where
  "closeConnection close_err sockname a =
     (case sockname of
        None \<Rightarrow> Ok (-1, a\<lparr>errno_v := EINVAL\<rparr>)
      | Some name \<Rightarrow>
          (case socket_path a of
             None \<Rightarrow> UB
           | Some path \<Rightarrow>
               if name \<noteq> path then Ok (-1, a\<lparr>errno_v := ENOTCONN\<rparr>)
               else case close_err of
                      Some e \<Rightarrow> Ok (-1, (RESET_SOCK a)\<lparr>errno_v := e\<rparr>)
                    | None \<Rightarrow> Ok (0, RESET_SOCK a)))"

end
