(* ===== verification/Service.thy ===== *)
theory Service
  imports Wire
begin

text \<open>
  The request handlers end to end: from the bytes of a well-formed request to the reply, the new
  store and the invariant; \<open>read_n_files\<close> and \<open>close_client\<close>, which visit many files; and the
  sequences of requests that a server answers.
\<close>

section \<open>Reading many files\<close>

definition rlocked :: "nat set \<Rightarrow> (nat \<Rightarrow> file_t option) \<Rightarrow> nat \<Rightarrow> file_t option" where
  "rlocked A h = (\<lambda>b. if b \<in> A then map_option (\<lambda>f. f\<lparr>n_readers := 1\<rparr>) (h b) else h b)"

lemma read_lock_all_ok:
  assumes "distinct as" "smem s = Ample" "\<And>a. a \<in> set as \<Longrightarrow> \<exists>f. fheap s a = Some f \<and> unlocked f"
  shows "read_lock_all as lst s = Ok (True, lst @ as, s\<lparr>fheap := rlocked (set as) (fheap s)\<rparr>)"
  using assms
proof (induction as arbitrary: lst s)
  case Nil
  then show ?case by (simp add: rlocked_def)
next
  case (Cons a as)
  obtain f where f: "fheap s a = Some f" "unlocked f" using Cons.prems(3) [of a] by auto
  obtain s1 where s1: "s1 = put a (f\<lparr>n_readers := 1\<rparr>) s" by blast
  have IH: "read_lock_all as (lst @ [a]) s1 =
      Ok (True, (lst @ [a]) @ as, s1\<lparr>fheap := rlocked (set as) (fheap s1)\<rparr>)"
  proof (rule Cons.IH)
    show "\<exists>g. fheap s1 b = Some g \<and> unlocked g" if "b \<in> set as" for b
      using Cons.prems(1) Cons.prems(3) [of b] that s1 by auto
  qed (use Cons.prems s1 in auto)
  have h: "rlocked (set as) (fheap s1) = rlocked (set (a # as)) (fheap s)"
    using f Cons.prems(1) s1 by (auto simp: rlocked_def fun_eq_iff)
  have upd: "s1\<lparr>fheap := x\<rparr> = s\<lparr>fheap := x\<rparr>" for x by (simp add: s1 put_def)
  have "smem s1 = Ample" using s1 Cons.prems(2) by simp
  moreover have "file_reader_lock a s = Ok s1" using run_lock(2) [OF f] s1 by simp
  ultimately have "read_lock_all (a # as) lst s = read_lock_all as (lst @ [a]) s1"
    by (simp add: smem_same)
  then show ?case unfolding IH h upd by simp
qed

lemma reader_unlock_all_ok:
  assumes "distinct as" "\<And>a. a \<in> set as \<Longrightarrow> \<exists>f. h a = Some f \<and> unlocked f"
    "\<And>b. b \<notin> set as \<Longrightarrow> fheap s b = h b" "\<And>a. a \<in> set as \<Longrightarrow> fheap s a = rlocked (set as) h a"
  shows "reader_unlock_all as s = Ok (s\<lparr>fheap := h\<rparr>)"
  using assms
proof (induction as arbitrary: s)
  case Nil
  then have "fheap s = h" by auto
  then show ?case by (cases s) simp
next
  case (Cons a as)
  obtain f where f: "h a = Some f" "unlocked f" using Cons.prems(2) [of a] by auto
  have a: "fheap s a = Some (f\<lparr>n_readers := 1\<rparr>)" using Cons.prems(4) [of a] f by (simp add: rlocked_def)
  have "f\<lparr>n_readers := 0\<rparr> = f" by (rule file_reunlock(2) [OF f(2)])
  then have un: "file_reader_unlock a s = Ok (put a f s)"
    using a by (simp add: file_reader_unlock_def upd_file_def deref_def put_def)
  have "reader_unlock_all as (put a f s) = Ok ((put a f s)\<lparr>fheap := h\<rparr>)"
  proof (rule Cons.IH)
    show "fheap (put a f s) b = h b" if "b \<notin> set as" for b
      using that f Cons.prems(3) [of b] by (cases "b = a") auto
    show "fheap (put a f s) b = rlocked (set as) h b" if "b \<in> set as" for b
      using that Cons.prems(1) Cons.prems(4) [of b] by (auto simp: rlocked_def)
  qed (use Cons.prems in auto)
  then show ?case using un by (simp add: put_def)
qed

lemma dest_entries:
  assumes inv: "server_inv s" and m: "files s = Some m"
  shows "(k, a) \<in> set (entries m) \<Longrightarrow> \<exists>f. fheap s a = Some f \<and> unlocked f \<and> can_be_expelled f \<and>
      file_ok k f \<and> stored s k = Some f \<and> addr_of s k = Some a"
    "distinct (map fst (entries m))" "distinct (map snd (entries m))"
    "unat (st_files (curr_state s)) = length (entries m)" "int (length (lists m)) = nlist m"
proof -
  have ok: "store_ok s" using inv by (rule server_inv_store)
  note ent = store_entries [OF ok m]
  show "distinct (map fst (entries m))" "distinct (map snd (entries m))" "int (length (lists m)) = nlist m"
    using ent by (auto simp: file_map_ok_def)
  show "unat (st_files (curr_state s)) = length (entries m)" using ok m by (elim store_okE) auto
  assume "(k, a) \<in> set (entries m)"
  then have a: "addr_of s k = Some a" using ent(2) by simp
  then obtain f where f: "fheap s a = Some f" "file_ok k f" "stored s k = Some f"
    using addr_of_file [OF ok] by blast
  have "unlocked f \<and> can_be_expelled f" using f(3) inv idle_stored [OF ok] by (simp add: server_inv_def)
  with a f show "\<exists>f. fheap s a = Some f \<and> unlocked f \<and> can_be_expelled f \<and> file_ok k f \<and> stored s k = Some f \<and> addr_of s k = Some a"
    by blast
qed

text \<open>The number of files that a request for \<open>N\<close> files means.\<close>

definition wanted :: "int \<Rightarrow> server \<Rightarrow> nat" where
  "wanted N s = (if N \<le> 0 then unat (st_files (curr_state s)) else nat N)"

definition chosen :: "int \<Rightarrow> server \<Rightarrow> victim list" where
  "chosen N s = (case files s of None \<Rightarrow> []
     | Some m \<Rightarrow> map (\<lambda>(k, a). (k, a, the (fheap s a))) (take (wanted N s) (entries m)))"

lemma chosen_files:
  assumes inv: "server_inv s"
  shows "distinct (map v_path (chosen N s))" "distinct (map v_addr (chosen N s))"
    "length (chosen N s) = min (wanted N s) (unat (st_files (curr_state s)))"
    "\<And>v. v \<in> set (chosen N s) \<Longrightarrow> addr_of s (v_path v) = Some (v_addr v) \<and> fheap s (v_addr v) = Some (v_file v) \<and>
       stored s (v_path v) = Some (v_file v) \<and> file_ok (v_path v) (v_file v) \<and> unlocked (v_file v)"
proof -
  have "store_ok s" using inv by (rule server_inv_store)
  then obtain m where m: "files s = Some m" by (elim store_okE)
  note e = dest_entries [OF inv m]
  have ch: "chosen N s = map (\<lambda>(k, a). (k, a, the (fheap s a))) (take (wanted N s) (entries m))"
    using m by (simp add: chosen_def)
  have p: "map v_path (chosen N s) = take (wanted N s) (map fst (entries m))"
    "map v_addr (chosen N s) = take (wanted N s) (map snd (entries m))"
    unfolding ch by (simp_all add: take_map comp_def case_prod_beta)
  show "distinct (map v_path (chosen N s))" "distinct (map v_addr (chosen N s))"
    unfolding p using e(2,3) by (simp_all add: distinct_take)
  show "length (chosen N s) = min (wanted N s) (unat (st_files (curr_state s)))"
    using e(4) by (simp add: ch)
  fix v assume "v \<in> set (chosen N s)"
  then obtain k a where ka: "(k, a) \<in> set (entries m)" "v = (k, a, the (fheap s a))"
    unfolding ch by (auto dest: in_set_takeD)
  with e(1) [OF ka(1)] show "addr_of s (v_path v) = Some (v_addr v) \<and> fheap s (v_addr v) = Some (v_file v) \<and>
      stored s (v_path v) = Some (v_file v) \<and> file_ok (v_path v) (v_file v) \<and> unlocked (v_file v)"
    by auto
qed

lemma read_n_core_ok:
  assumes inv: "server_inv s" and pos: "0 < wanted N s"
  shows "read_n_core N s = Ok (Inr (map v_addr (chosen N s)),
    s\<lparr>fheap := rlocked (v_addr ` set (chosen N s)) (fheap s)\<rparr>)"
proof -
  have ok: "store_ok s" and lim: "limits_ok s" and mem: "smem s = Ample"
    using inv by (auto simp: server_inv_def store_ok_def)
  obtain m where m: "files s = Some m" using ok by (elim store_okE)
  note e = dest_entries [OF inv m]
  let ?n = "if N \<le> 0 then to_int32 (uint (st_files (curr_state s))) else N"
  have "unat (st_files (curr_state s)) < 2 ^ 27" using lim by (simp add: limits_ok_def)
  then have "int (unat (st_files (curr_state s))) < int (2 ^ 27)" by (simp only: of_nat_less_iff)
  then have "to_int32 (uint (st_files (curr_state s))) = uint (st_files (curr_state s))"
    by (intro to_int32_id) (simp_all add: order_trans [OF _ uint_ge_0])
  then have n: "nat ?n = wanted N s" by (simp add: wanted_def)
  have it: "iter_upto (wanted N s) hash_iter_init None (files s) =
      Ok (take (wanted N s) (entries m), Some (Inr (wanted N s \<le> length (entries m))))"
    using iter_upto_spec [OF e(5) iter_init_ok(1), of "wanted N s" None] pos m by (simp add: iter_init_ok)
  have addrs: "map snd (take (wanted N s) (entries m)) = map v_addr (chosen N s)"
    using m by (simp add: chosen_def comp_def case_prod_beta)
  have "read_lock_all (map v_addr (chosen N s)) [] s =
      Ok (True, [] @ map v_addr (chosen N s), s\<lparr>fheap := rlocked (set (map v_addr (chosen N s))) (fheap s)\<rparr>)"
    using chosen_files [OF inv] mem by (intro read_lock_all_ok) auto
  then show ?thesis
    using it mem n by (simp add: read_n_core_def safe_malloc_def malloc_bytes_def Let_def addrs smem_same)
qed

lemma read_n_core_empty:
  assumes inv: "server_inv s" and none: "wanted N s = 0"
  shows "read_n_core N s = UB"
proof -
  have mem: "smem s = Ample" using inv by (auto simp: server_inv_def store_ok_def)
  have "N \<le> 0" "st_files (curr_state s) = 0"
    using none by (auto simp: wanted_def unat_eq_zero split: if_splits)
  then show ?thesis
    using mem by (simp add: read_n_core_def safe_malloc_def malloc_bytes_def to_int32_def)
qed

lemma read_n_reply_ok:
  assumes inv: "server_inv s"
  shows "\<exists>r c'. read_n_reply (map v_addr (chosen N s)) c
      (s\<lparr>fheap := rlocked (v_addr ` set (chosen N s)) (fheap s)\<rparr>) = Ok (r, c', s) \<and>
    (if 4 + length (list_msg (listing (chosen N s))) \<le> room c
     then r = SA_SUCCESS \<and> c' = say (enc_int SA_SUCCESS @ list_msg (listing (chosen N s))) c else r = SA_ERROR \<and> room c' = 0)"
proof -
  let ?vs = "chosen N s" and ?s = "s\<lparr>fheap := rlocked (v_addr ` set (chosen N s)) (fheap s)\<rparr>"
  note ch = chosen_files [OF inv]
  have same: "?s\<lparr>fheap := fheap s\<rparr> = s" by simp
  have "reader_unlock_all (map v_addr ?vs) ?s = Ok (?s\<lparr>fheap := fheap s\<rparr>)"
    using ch by (intro reader_unlock_all_ok) (auto simp: rlocked_def)
  then have un: "reader_unlock_all (map v_addr ?vs) ?s = Ok s" unfolding same .
  let ?ws = "map (\<lambda>(k, a, f). (k, a, f\<lparr>n_readers := 1\<rparr>)) ?vs"
  have addrs: "map v_addr ?ws = map v_addr ?vs" by (auto simp: comp_def split: prod.splits)
  have "file_data (f\<lparr>n_readers := 1\<rparr>) = file_data f" for f by (simp add: file_data_def abs_file_def)
  then have lst: "listing ?ws = listing ?vs" by (auto simp: listing_def split: prod.splits)
  have w: "fheap ?s (v_addr w) = Some (v_file w) \<and> file_ok (v_path w) (v_file w)" if "w \<in> set ?ws" for w
  proof -
    from that obtain v where v: "v \<in> set ?vs" "w = (v_path v, v_addr v, (v_file v)\<lparr>n_readers := 1\<rparr>)"
      by (auto split: prod.splits)
    then show ?thesis using ch(4) [OF v(1)] by (auto simp: file_ok_def rlocked_def)
  qed
  show ?thesis
  proof (cases rule: conn_writen_cases [of "enc_int SA_SUCCESS" c])
    case (2 c')
    then show ?thesis using un by (intro exI [of _ SA_ERROR] exI [of _ c']) (simp add: read_n_reply_def)
  next
    case 1
    obtain r c' where sl: "send_list_of_files (Some (map v_addr ?vs)) True ?s (say (enc_int SA_SUCCESS) c) = Ok (r, c')"
      "if length (list_msg (listing ?vs)) \<le> room (say (enc_int SA_SUCCESS) c)
       then r = 0 \<and> c' = say (list_msg (listing ?vs)) (say (enc_int SA_SUCCESS) c) else r = -1 \<and> room c' = 0"
      using send_list_ok [OF w, of ?ws "say (enc_int SA_SUCCESS) c"] unfolding addrs lst by blast
    have "read_n_reply (map v_addr ?vs) c ?s = Ok (if r = -1 then SA_ERROR else SA_SUCCESS, c', s)"
      using un 1(2) sl(1) by (simp add: read_n_reply_def)
    moreover have "if 4 + length (list_msg (listing ?vs)) \<le> room c
      then r = 0 \<and> c' = say (enc_int SA_SUCCESS @ list_msg (listing ?vs)) c else r = -1 \<and> room c' = 0"
      using sl(2) 1(1) say_say [of "enc_int SA_SUCCESS" "list_msg (listing ?vs)" c] by (auto split: if_splits)
    ultimately show ?thesis by (intro exI [of _ "if r = -1 then SA_ERROR else SA_SUCCESS"] exI [of _ c']) auto
  qed
qed

section \<open>A client that leaves\<close>

lemma leave_step:
  assumes inv: "server_inv s" and fd: "client_fd fd" and k: "addr_of s k = Some a"
  shows "\<exists>s1. (\<forall>as. close_client_files fd (a # as) s = close_client_files fd as s1) \<and> server_inv s1 \<and>
    addr_of s1 = addr_of s \<and> abs_store s1 = (abs_store s)(k := map_option (leave fd) (abs_store s k)) \<and>
    curr_state s1 = curr_state s \<and> clock s1 = clock s \<and> files s1 = files s"
proof -
  obtain f where st: "stored s k = Some f" using addr_of_file [OF server_inv_store [OF inv] k] by blast
  obtain t where a: "fheap s a = Some f" and f: "file_ok k f" "unlocked f" "can_be_expelled f"
    and t: "fd_open f = Some t" "fd_table_ok t"
    using inv_file [OF inv st] k by auto
  let ?f1 = "if fd_lock f = fd then f\<lparr>n_writers := 1, fd_lock := -1\<rparr> else f\<lparr>n_writers := 1\<rparr>"
  have "fd_open ?f1 = Some t" using t by simp
  from remove_opener_put [OF this t(2) fd] obtain t' where
    t': "remove_opener fd a (put a ?f1 s) = Ok (put a (?f1\<lparr>fd_open := Some t'\<rparr>) s)" "fd_table_ok t'"
      "set (entries t') = set (entries t) - {fd}" by blast
  let ?g = "f\<lparr>fd_lock := (if fd_lock f = fd then -1 else fd_lock f), fd_open := Some t'\<rparr>"
  have fin: "?f1\<lparr>fd_open := Some t', n_writers := 0\<rparr> = ?g" using f(2) by (cases f) (simp add: unlocked_def)
  have "close_client_files fd (a # as) s =
      close_client_files fd as (put a (?f1\<lparr>fd_open := Some t', n_writers := 0\<rparr>) (s\<lparr>clock := clock s\<rparr>))" for as
    using run_lock(1) [OF a f(2)] t'(1)
    by (cases "fd_lock f = fd") (simp_all add: release_lock_put)
  then have run: "close_client_files fd (a # as) s = close_client_files fd as (put a ?g (s\<lparr>clock := clock s\<rparr>))" for as
    unfolding fin .
  have g: "file_ok k ?g" "fsize ?g = fsize f" "unlocked ?g" "can_be_expelled ?g"
    using f t' by (auto simp: file_ok_def unlocked_def)
  note inv' = put_inv [OF inv k a g, of "clock s"]
  have "abs_file ?g = leave fd (abs_file f)"
    using t t'(3) by (simp add: abs_file_def leave_def openers_def)
  then have "abs_store (put a ?g (s\<lparr>clock := clock s\<rparr>)) = (abs_store s)(k := map_option (leave fd) (abs_store s k))"
    using abs_store_upd [OF inv'(2)] st by (simp add: abs_store_at)
  with run inv'(1) show ?thesis
    by (intro exI [of _ "put a ?g (s\<lparr>clock := clock s\<rparr>)"]) (simp add: addr_of_def fun_eq_iff)
qed

lemma close_client_files_ok:
  assumes "server_inv s" "client_fd fd" "distinct as" "\<And>a. a \<in> set as \<Longrightarrow> \<exists>k. addr_of s k = Some a"
  shows "\<exists>s'. close_client_files fd as s = Ok s' \<and> server_inv s' \<and> curr_state s' = curr_state s \<and>
    clock s' = clock s \<and>
    abs_store s' = (\<lambda>k. if addr_of s k \<in> Some ` set as then map_option (leave fd) (abs_store s k) else abs_store s k)"
  using assms
proof (induction as arbitrary: s)
  case Nil
  then show ?case by simp
next
  case (Cons a as)
  obtain k where k: "addr_of s k = Some a" using Cons.prems(4) [of a] by auto
  obtain s1 where s1: "\<And>as. close_client_files fd (a # as) s = close_client_files fd as s1" "server_inv s1"
    "addr_of s1 = addr_of s" "abs_store s1 = (abs_store s)(k := map_option (leave fd) (abs_store s k))"
    "curr_state s1 = curr_state s" "clock s1 = clock s"
    using leave_step [OF Cons.prems(1,2) k] by blast
  have d: "distinct as" "a \<notin> set as" using Cons.prems(3) by auto
  have "\<exists>k. addr_of s1 k = Some b" if "b \<in> set as" for b using Cons.prems(4) [of b] that s1(3) by auto
  from Cons.IH [OF s1(2) Cons.prems(2) d(1) this] obtain s' where
    s': "close_client_files fd as s1 = Ok s'" "server_inv s'" "curr_state s' = curr_state s" "clock s' = clock s"
      "abs_store s' = (\<lambda>k. if addr_of s1 k \<in> Some ` set as then map_option (leave fd) (abs_store s1 k) else abs_store s1 k)"
    using s1(5,6) by auto
  have "(if addr_of s1 j \<in> Some ` set as then map_option (leave fd) (abs_store s1 j) else abs_store s1 j) =
      (if addr_of s j \<in> Some ` set (a # as) then map_option (leave fd) (abs_store s j) else abs_store s j)" for j
  proof (cases "j = k")
    case True
    then show ?thesis using k d s1(3,4) by auto
  next
    case False
    then have "addr_of s j \<noteq> Some a"
      using addr_of_inj [OF server_inv_store [OF Cons.prems(1)] k] by blast
    then show ?thesis using False s1(3,4) by auto
  qed
  then show ?case using s1(1) s' by (intro exI [of _ s']) auto
qed

lemma close_client_core:
  assumes inv: "server_inv s" and fd: "client_fd fd"
  shows "\<exists>s'. close_client fd s = Ok s' \<and> server_inv s' \<and> clock s' = clock s \<and>
    abs_store s' = (\<lambda>k. map_option (leave fd) (abs_store s k)) \<and>
    st_conn (curr_state s') = st_conn (curr_state s) - 1"
proof -
  have ok: "store_ok s" and mem: "smem s = Ample" using inv by (auto simp: server_inv_def store_ok_def)
  obtain m where m: "files s = Some m" using ok by (elim store_okE)
  note e = dest_entries [OF inv m]
  let ?s = "s\<lparr>curr_state := (curr_state s)\<lparr>st_conn := st_conn (curr_state s) - 1\<rparr>\<rparr>"
  have fr: "store_ok ?s" "stored ?s = stored s" "addr_of ?s = addr_of s"
    by (intro store_frame [OF ok]; simp)+
  have "idle ?s" using inv unfolding server_inv_def idle_stored [OF ok] idle_stored [OF fr(1)] fr(2) by blast
  then have inv': "server_inv ?s" using inv fr(1) by (simp add: server_inv_def limits_ok_def watermarks_ok_def)
  have "\<exists>k. addr_of ?s k = Some a" if "a \<in> set (map snd (entries m))" for a
    using that e(1) unfolding fr(3) by fastforce
  from close_client_files_ok [OF inv' fd e(3) this] obtain s' where
    s': "close_client_files fd (map snd (entries m)) ?s = Ok s'" "server_inv s'" "curr_state s' = curr_state ?s"
      "clock s' = clock s" "abs_store s' = (\<lambda>k. if addr_of ?s k \<in> Some ` set (map snd (entries m))
          then map_option (leave fd) (abs_store ?s k) else abs_store ?s k)" by auto
  have "abs_store s' = (\<lambda>k. map_option (leave fd) (abs_store s k))"
  proof
    fix k
    show "abs_store s' k = map_option (leave fd) (abs_store s k)"
    proof (cases "addr_of s k")
      case None
      then have "abs_store s k = None" by (simp add: abs_store_at stored_def)
      then show ?thesis using s'(5) None fr(2,3) by (auto simp: abs_store_def)
    next
      case (Some a)
      then have "(k, a) \<in> set (entries m)" using store_entries(2) [OF ok m] by simp
      then have "addr_of ?s k \<in> Some ` set (map snd (entries m))" unfolding fr(3) Some by force
      then show ?thesis using s'(5) fr(2) by (simp add: abs_store_def)
    qed
  qed
  moreover have "close_client fd s = Ok s'"
    using fd m mem s'(1) iter_all_entries [OF e(5)]
    by (simp add: close_client_def client_fd_def safe_malloc_def malloc_bytes_def smem_same)
  ultimately show ?thesis using s' by auto
qed

section \<open>Properties of the handlers\<close>

lemma open_file_run:
  assumes p: "valid_path p" and rx: "rx c = path_msg p @ enc_u32 flags @ rest" and mem: "smem s = Ample"
  shows "open_file fd c s = rbind (if is_flag_set flags O_CREATE then open_create fd p flags s
      else open_existing fd p flags s) (\<lambda>(r, s). Ok (r, c\<lparr>rx := rest\<rparr>, s))"
proof -
  have r1: "read_pathname c (smem s) = Ok (Inr (p @ [0]), c\<lparr>rx := enc_u32 flags @ rest\<rparr>, Ample)"
    using read_pathname_ok [OF p rx] mem by simp
  have r2: "conn_readn 4 (c\<lparr>rx := enc_u32 flags @ rest\<rparr>) = Ok (4, enc_u32 flags, c\<lparr>rx := rest\<rparr>)"
    using conn_readn_prefix [of "c\<lparr>rx := enc_u32 flags @ rest\<rparr>" "enc_u32 flags" rest 4] by simp
  have cs: "c_string (p @ [0]) = Ok p" using p by (simp add: c_string_nul valid_path_def)
  show ?thesis
    unfolding open_file_def r1 rbind.simps prod.case sum.case Let_def r2 cs dec_enc_u32
    using mem by (simp add: smem_same)
qed

lemma open_file_ok:
  assumes inv: "server_inv s" and fd: "client_fd fd" and p: "valid_path p"
    and rx: "rx c = path_msg p @ enc_u32 flags @ rest" and clk: "clock s = t1 # t2 # ts"
  shows "\<exists>r s' vs. open_file fd c s = Ok (r, c\<lparr>rx := rest\<rparr>, s') \<and> server_inv s' \<and>
    (r, abs_store s') =
      (if is_flag_set flags O_CREATE then spec_create fd p (is_flag_set flags O_LOCK) (v_path ` set vs) (abs_store s)
       else spec_open fd p (is_flag_set flags O_LOCK) (abs_store s)) \<and>
    eviction_order (policy_stamp (cfg_policy (config s))) (stored s) vs \<and>
    length vs = (if is_flag_set flags O_CREATE \<and> stored s p = None \<and>
                    st_files (curr_state s) = cfg_max_files (config s) then 1 else 0)"
proof -
  have "smem s = Ample" using inv by (simp add: server_inv_def store_ok_def)
  note run = open_file_run [OF p rx this]
  show ?thesis
  proof (cases "is_flag_set flags O_CREATE")
    case True
    from open_create_ok [OF inv fd p clk, of flags] obtain r s' vs where
      o: "open_create fd p flags s = Ok (r, s')" "server_inv s'"
        "(r, abs_store s') = spec_create fd p (is_flag_set flags O_LOCK) (v_path ` set vs) (abs_store s)"
        "if stored s p \<noteq> None then s' = s
         else clock s' = ts \<and> eviction_order (policy_stamp (cfg_policy (config s))) (stored s) vs \<and>
           length vs = (if st_files (curr_state s) = cfg_max_files (config s) then 1 else 0) \<and>
           (\<exists>g. stored s' p = Some g \<and> creation_time g = t1 \<and> last_use g = t2)" by blast
    show ?thesis
    proof (cases "stored s p")
      case None
      with True o run show ?thesis by auto
    next
      case (Some f)
      with o have "(r, abs_store s') = spec_create fd p (is_flag_set flags O_LOCK) (v_path ` set ([] :: victim list)) (abs_store s)"
        by (simp add: spec_create_def abs_store_at)
      with True Some o(1,2) run show ?thesis
        by (intro exI [of _ r] exI [of _ s'] exI [of _ "[]"]) simp
    qed
  next
    case False
    from open_existing_ok [OF inv fd clk, of p flags] obtain r s' where
      "open_existing fd p flags s = Ok (r, s')" "server_inv s'"
      "(r, abs_store s') = spec_open fd p (is_flag_set flags O_LOCK) (abs_store s)" by blast
    with False run show ?thesis by (intro exI [of _ r] exI [of _ s'] exI [of _ "[]"]) simp
  qed
qed

text \<open>C12: \<open>open_file\<close> on a well-formed request implements the abstract operation: with \<open>O_CREATE\<close> a new
  empty file, opened by the client and locked by him if \<open>O_LOCK\<close> asks for it, unless the path exists;
  without it an entry in the openers of the file and possibly its lock, unless the file is missing
  or locked by another client. The invariant is kept, and a file is expelled only by a creation that
  finds the store full: exactly one, the least one of the policy.\<close>

theorem open_file_refines:
  assumes inv: "server_inv s" and fd: "client_fd fd" and p: "valid_path p"
    and rx: "rx c = path_msg p @ enc_u32 flags @ rest" and clk: "clock s = t1 # t2 # ts"
  shows "\<exists>r s' vs. open_file fd c s = Ok (r, c\<lparr>rx := rest\<rparr>, s') \<and> server_inv s' \<and>
    (r, abs_store s') =
      (if is_flag_set flags O_CREATE then spec_create fd p (is_flag_set flags O_LOCK) (v_path ` set vs) (abs_store s)
       else spec_open fd p (is_flag_set flags O_LOCK) (abs_store s)) \<and>
    eviction_order (policy_stamp (cfg_policy (config s))) (stored s) vs \<and>
    length vs = (if is_flag_set flags O_CREATE \<and> stored s p = None \<and>
                    st_files (curr_state s) = cfg_max_files (config s) then 1 else 0)"
  by (rule open_file_ok [OF assms])

definition demo_conn :: "byte list \<Rightarrow> conn" where
  "demo_conn bs = \<lparr>rx = bs, rx_end = Rx_wait, sent = [], room = 1000\<rparr>"

lemma demo_conn_rx [simp]: "rx (demo_conn bs) = bs"
  by (simp add: demo_conn_def)

lemma demo_clock: "clock demo = Timespec 20 0 # Timespec 21 0 # [Timespec 22 0]"
  by (simp add: demo_def)

lemma demo_path: "valid_path [97]" "valid_path [99]"
  by (simp_all add: valid_path_def)

lemma open_file_refines_witness:
  "\<exists>r s' vs. open_file 6 (demo_conn (path_msg [99] @ enc_u32 3 @ [])) demo =
       Ok (r, (demo_conn (path_msg [99] @ enc_u32 3 @ []))\<lparr>rx := []\<rparr>, s') \<and> server_inv s' \<and>
     (r, abs_store s') = spec_create 6 [99] True (v_path ` set vs) (abs_store demo) \<and> length vs = 1 \<and>
     eviction_order last_use (stored demo) vs"
proof -
  have "is_flag_set 3 O_CREATE" "is_flag_set 3 O_LOCK"
    by (simp_all add: is_flag_set_bit bit_iff_odd)
  moreover have "policy_stamp (cfg_policy (config demo)) = last_use"
    by (simp add: policy_stamp_def demo_def demo_config_def)
  moreover have "stored demo [99] = None" "st_files (curr_state demo) = cfg_max_files (config demo)"
    by (simp add: demo_stored) (simp add: demo_def demo_config_def)
  ultimately show ?thesis
    using open_file_refines [OF demo_inv _ demo_path(2) _ demo_clock,
        of 6 "demo_conn (path_msg [99] @ enc_u32 3 @ [])" 3 "[]"]
    by (auto simp: client_fd_def demo_conn_def)
qed

lemma close_file_ok:
  assumes inv: "server_inv s" and fd: "client_fd fd" and p: "valid_path p" and rx: "rx c = path_msg p @ rest"
  shows "\<exists>r s'. close_file fd c s = Ok (r, c\<lparr>rx := rest\<rparr>, s') \<and> server_inv s' \<and>
    (r, abs_store s') = spec_close fd p (abs_store s) \<and> clock s' = clock s"
proof -
  have mem: "smem s = Ample" using inv by (simp add: server_inv_def store_ok_def)
  from close_core_ok [OF inv fd, of p] obtain r s' where
    "close_core fd p s = Ok (r, s')" "server_inv s'" "(r, abs_store s') = spec_close fd p (abs_store s)"
    "clock s' = clock s" by blast
  then show ?thesis using with_path_ok [OF p rx mem] by (auto simp: close_file_def)
qed

text \<open>\<open>close_file\<close> takes the client off the openers of the file and releases the lock if it is his,
  also when he had not opened it, and fails only when there is no such file.\<close>

theorem close_file_refines:
  assumes inv: "server_inv s" and fd: "client_fd fd" and p: "valid_path p" and rx: "rx c = path_msg p @ rest"
  shows "\<exists>r s'. close_file fd c s = Ok (r, c\<lparr>rx := rest\<rparr>, s') \<and> server_inv s' \<and>
    (r, abs_store s') = spec_close fd p (abs_store s) \<and> clock s' = clock s"
  by (rule close_file_ok [OF assms])

lemma close_file_refines_witness:
  "\<exists>r s'. close_file 4 (demo_conn (path_msg [97] @ [])) demo =
       Ok (r, (demo_conn (path_msg [97] @ []))\<lparr>rx := []\<rparr>, s') \<and> server_inv s' \<and>
     (r, abs_store s') = spec_close 4 [97] (abs_store demo)"
  using close_file_refines [OF demo_inv _ demo_path(1), of 4 "demo_conn (path_msg [97] @ [])" "[]"]
  by (auto simp: client_fd_def demo_conn_def)

lemma remove_file_ok:
  assumes inv: "server_inv s" and p: "valid_path p" and rx: "rx c = path_msg p @ rest"
  shows "\<exists>r s'. remove_file fd c s = Ok (r, c\<lparr>rx := rest\<rparr>, s') \<and> server_inv s' \<and>
    (r, abs_store s') = spec_remove fd p (abs_store s) \<and>
    (case stored s p of None \<Rightarrow> s' = s
     | Some f \<Rightarrow> if r = SA_SUCCESS
         then unat (st_space (curr_state s')) + unat (fsize f) = unat (st_space (curr_state s)) \<and>
              Suc (unat (st_files (curr_state s'))) = unat (st_files (curr_state s))
         else s' = s)"
proof -
  have mem: "smem s = Ample" using inv by (simp add: server_inv_def store_ok_def)
  from remove_core_ok [OF inv, of fd p] obtain r s' where
    "remove_core fd p s = Ok (r, s')" "server_inv s'" "(r, abs_store s') = spec_remove fd p (abs_store s)"
    "case stored s p of None \<Rightarrow> s' = s
     | Some f \<Rightarrow> if r = SA_SUCCESS
         then unat (st_space (curr_state s')) + unat (fsize f) = unat (st_space (curr_state s)) \<and>
              Suc (unat (st_files (curr_state s'))) = unat (st_files (curr_state s))
         else s' = s" by blast
  then show ?thesis using with_path_ok [OF p rx mem]
    by (intro exI [of _ r] exI [of _ s']) (simp add: remove_file_def)
qed

text \<open>C14: \<open>remove_file\<close> removes the file exactly when the client opened it and holds its lock, and
  gives back its bytes and its place in the counters; a missing file is a success, and every
  refusal leaves the state as it was.\<close>

theorem remove_file_refines:
  assumes inv: "server_inv s" and p: "valid_path p" and rx: "rx c = path_msg p @ rest"
  shows "\<exists>r s'. remove_file fd c s = Ok (r, c\<lparr>rx := rest\<rparr>, s') \<and> server_inv s' \<and>
    (r, abs_store s') = spec_remove fd p (abs_store s) \<and>
    (case stored s p of None \<Rightarrow> s' = s
     | Some f \<Rightarrow> if r = SA_SUCCESS
         then unat (st_space (curr_state s')) + unat (fsize f) = unat (st_space (curr_state s)) \<and>
              Suc (unat (st_files (curr_state s'))) = unat (st_files (curr_state s))
         else s' = s)"
  by (rule remove_file_ok [OF assms])

lemma remove_file_refines_witness:
  "\<exists>s'. remove_file 4 (demo_conn (path_msg [97] @ [])) demo =
       Ok (SA_SUCCESS, (demo_conn (path_msg [97] @ []))\<lparr>rx := []\<rparr>, s') \<and> server_inv s' \<and>
     abs_store s' = (abs_store demo)([97] := None) \<and> unat (st_space (curr_state s')) + 3 = 7"
proof -
  have "spec_remove 4 [97] (abs_store demo) = (SA_SUCCESS, (abs_store demo)([97] := None))"
    by (simp add: spec_remove_def abs_store_at demo_stored abs_file_def demo_file_def openers_def entries_def)
  moreover have "unat (st_space (curr_state demo)) = 7" by (simp add: demo_def)
  moreover have "stored demo [97] = Some (demo_file [97] [1, 2, 3] 4 1 9)" by (simp add: demo_stored)
  ultimately show ?thesis
    using remove_file_refines [OF demo_inv demo_path(1), of "demo_conn (path_msg [97] @ [])" "[]" 4]
    by (auto simp: demo_conn_def demo_file_def)
qed

subsection \<open>Writes\<close>

lemma data_length: "length bs < 2 ^ 31 \<Longrightarrow> unat (word_of_nat (length bs) :: u64) = length bs"
  using order_less_le_trans [of "length bs" "2 ^ 31" "2 ^ 64"] by (simp add: unsigned_of_nat take_bit_nat_eq_self)

lemma read_data_ok:
  assumes rx: "rx c = data_msg bs @ rest" and n: "length bs < 2 ^ 31"
  shows "conn_readn 8 c = Ok (8, enc_u64 (word_of_nat (length bs)), c\<lparr>rx := bs @ rest\<rparr>)"
    "conn_readn (length bs) (c\<lparr>rx := bs @ rest\<rparr>) = Ok (int (length bs), bs, c\<lparr>rx := rest\<rparr>)"
    "unat (word_of_nat (length bs) :: u64) = length bs"
proof -
  show "conn_readn 8 c = Ok (8, enc_u64 (word_of_nat (length bs)), c\<lparr>rx := bs @ rest\<rparr>)"
    using conn_readn_prefix [of c "enc_u64 (word_of_nat (length bs))" "bs @ rest" 8] rx by (simp add: data_msg_def)
  show "conn_readn (length bs) (c\<lparr>rx := bs @ rest\<rparr>) = Ok (int (length bs), bs, c\<lparr>rx := rest\<rparr>)"
    using conn_readn_prefix [of "c\<lparr>rx := bs @ rest\<rparr>" bs rest] n by simp
  show "unat (word_of_nat (length bs) :: u64) = length bs" using n by (rule data_length)
qed

text \<open>The reply of a write whose store part succeeded, or its result code alone.\<close>

definition write_reply :: "victim list \<Rightarrow> conn \<Rightarrow> int \<Rightarrow> conn \<Rightarrow> bool" where
  "write_reply vs c r c' \<longleftrightarrow>
     (if 4 + length (list_msg (listing vs)) \<le> room c
      then r = SA_SUCCESS \<and> c' = say (enc_int SA_SUCCESS @ list_msg (listing vs)) c
      else r = SA_ERROR \<and> room c' = 0)"

lemma finish_reply:
  assumes inv: "server_inv s" and inv': "server_inv s1"
    and e: "if code = SA_SUCCESS then made_room p n s vs s1 \<and> victims_in_memory s vs s1 \<and> clock s1 = ts else s1 = s"
  shows "\<exists>r c' s'. (case (if code = SA_SUCCESS then Some (map v_addr vs) else None) of
      None \<Rightarrow> Ok (code, c, s1) | Some es \<Rightarrow> send_expelled es c s1) = Ok (r, c', s') \<and> server_inv s' \<and>
    abs_store s' = abs_store s1 \<and>
    (if code = SA_SUCCESS then made_room p n s vs s' \<and> write_reply vs c r c' \<and> (\<forall>v \<in> set vs. fheap s' (v_addr v) = None)
     else r = code \<and> c' = c \<and> s' = s)"
proof (cases "code = SA_SUCCESS")
  case True
  then have m: "made_room p n s vs s1" "victims_in_memory s vs s1" using e by auto
  then have "distinct (map v_path vs)" by (simp add: made_room_def)
  from send_expelled_ok [OF server_inv_store [OF inv] inv' m(2) this, of c] obtain r c' s' where
    s': "send_expelled (map v_addr vs) c s1 = Ok (r, c', s')" "server_inv s'" "stored s' = stored s1"
      "\<forall>v \<in> set vs. fheap s' (v_addr v) = None" "curr_state s' = curr_state s1" "write_reply vs c r c'"
    unfolding write_reply_def by blast
  have "made_room p n s vs s'" using m(1) s'(5) by (simp add: made_room_def)
  moreover have "abs_store s' = abs_store s1" using s'(3) by (rule abs_store_same)
  ultimately show ?thesis using s' True by auto
next
  case False
  with e inv' show ?thesis by auto
qed

lemma write_file_run:
  assumes p: "valid_path p" and bs: "bs \<noteq> []" "length bs < 2 ^ 31"
    and rx: "rx c = path_msg p @ data_msg bs @ rest" and mem: "smem s = Ample"
  shows "write_file fd c s = rbind (write_core fd p (word_of_nat (length bs)) bs s) (\<lambda>(r, es, s).
      case es of None \<Rightarrow> Ok (r, c\<lparr>rx := rest\<rparr>, s) | Some es \<Rightarrow> send_expelled es (c\<lparr>rx := rest\<rparr>) s)"
proof -
  let ?c1 = "c\<lparr>rx := data_msg bs @ rest\<rparr>" and ?sz = "word_of_nat (length bs) :: u64"
  have r1: "read_pathname c (smem s) = Ok (Inr (p @ [0]), ?c1, Ample)"
    using read_pathname_ok [OF p rx] mem by simp
  note rd = read_data_ok [of ?c1, OF _ bs(2), of rest, simplified]
  have cs: "c_string (p @ [0]) = Ok p" using p by (simp add: c_string_nul valid_path_def)
  have "length bs < 2 ^ 63" using bs(2) by (rule order_less_le_trans) simp
  then have al: "safe_malloc ?sz Ample = Ok Ample" by (intro safe_malloc_Ample) (simp only: rd(3))
  have rd2: "conn_readn (unat ?sz) (c\<lparr>rx := bs @ rest\<rparr>) = Ok (int (length bs), bs, c\<lparr>rx := rest\<rparr>)"
    unfolding rd(3) by (rule rd(2))
  show ?thesis
    unfolding write_file_def r1 rbind.simps prod.case sum.case rd(1) Let_def dec_enc_u64 al rd2 cs
    using mem bs(1) by (simp add: smem_same)
qed

lemma write_file_ok:
  assumes inv: "server_inv s" and p: "valid_path p" and bs: "bs \<noteq> []" "length bs < 2 ^ 31"
    and rx: "rx c = path_msg p @ data_msg bs @ rest" and clk: "clock s = now # ts"
  shows "\<exists>r c' s' vs code. write_file fd c s = Ok (r, c', s') \<and> server_inv s' \<and>
    (code, abs_store s') = spec_write fd p bs (unat (cfg_max_space (config s))) (v_path ` set vs) (abs_store s) \<and>
    (if code = SA_SUCCESS then made_room p (length bs) s vs s' \<and> write_reply vs (c\<lparr>rx := rest\<rparr>) r c' \<and>
       (\<forall>v \<in> set vs. fheap s' (v_addr v) = None)
     else r = code \<and> c' = c\<lparr>rx := rest\<rparr> \<and> s' = s)"
proof -
  have mem: "smem s = Ample" using inv by (simp add: server_inv_def store_ok_def)
  let ?sz = "word_of_nat (length bs) :: u64"
  note run = write_file_run [OF p bs rx mem]
  note rd = data_length [OF bs(2)]
  from write_core_ok [OF inv clk _ bs(1), of ?sz fd p] rd obtain code vs s1 where
    w: "write_core fd p ?sz bs s = Ok (code, if code = SA_SUCCESS then Some (map v_addr vs) else None, s1)"
      "server_inv s1"
      "(code, abs_store s1) = spec_write fd p bs (unat (cfg_max_space (config s))) (v_path ` set vs) (abs_store s)"
      "if code = SA_SUCCESS then made_room p (length bs) s vs s1 \<and> victims_in_memory s vs s1 \<and> clock s1 = ts else s1 = s"
    by auto
  from finish_reply [OF inv w(2,4), of "c\<lparr>rx := rest\<rparr>"] obtain r c' s' where
    "write_file fd c s = Ok (r, c', s')" "server_inv s'" "abs_store s' = abs_store s1"
    "if code = SA_SUCCESS then made_room p (length bs) s vs s' \<and> write_reply vs (c\<lparr>rx := rest\<rparr>) r c' \<and>
       (\<forall>v \<in> set vs. fheap s' (v_addr v) = None) else r = code \<and> c' = c\<lparr>rx := rest\<rparr> \<and> s' = s"
    unfolding run w(1) by auto
  with w(3) show ?thesis by (intro exI [of _ r] exI [of _ c'] exI [of _ s'] exI [of _ vs] exI [of _ code]) simp
qed

text \<open>C11: \<open>write_file\<close> with some bytes implements the abstract write: it fills an empty file that the client
  opened and locked, unless it exceeds the capacity; each refusal leaves the state as it was. When
  the store gets too full it expels other files, in the order of the policy and no more than
  necessary, sends them to the client after a success code, and destroys them even when the client
  cannot be written to. The store never stays above its capacity.\<close>

theorem write_file_refines:
  assumes inv: "server_inv s" and p: "valid_path p" and bs: "bs \<noteq> []" "length bs < 2 ^ 31"
    and rx: "rx c = path_msg p @ data_msg bs @ rest" and clk: "clock s = now # ts"
  shows "\<exists>r c' s' vs code. write_file fd c s = Ok (r, c', s') \<and> server_inv s' \<and>
    (code, abs_store s') = spec_write fd p bs (unat (cfg_max_space (config s))) (v_path ` set vs) (abs_store s) \<and>
    (if code = SA_SUCCESS then made_room p (length bs) s vs s' \<and> write_reply vs (c\<lparr>rx := rest\<rparr>) r c' \<and>
       (\<forall>v \<in> set vs. fheap s' (v_addr v) = None)
     else r = code \<and> c' = c\<lparr>rx := rest\<rparr> \<and> s' = s)"
  by (rule write_file_ok [OF assms])

lemma write_file_refines_witness:
  "\<exists>c' s'. write_file 4 (demo_conn (path_msg [97] @ data_msg [1] @ [])) demo = Ok (SA_NOT_EMPTY, c', s') \<and> s' = demo"
proof -
  have "spec_write 4 [97] [1] 10 vs (abs_store demo) = (SA_NOT_EMPTY, abs_store demo)" for vs
    by (simp add: spec_write_def abs_store_at demo_stored abs_file_def demo_file_def openers_def entries_def)
  then show ?thesis
    using write_file_refines [OF demo_inv demo_path(1) _ _ _ demo_clock,
        of "[1]" "demo_conn (path_msg [97] @ data_msg [1] @ [])" "[]" 4]
    by (auto simp: demo_conn_def demo_def demo_config_def)
qed

lemma append_to_file_run:
  assumes p: "valid_path p" and bs: "bs \<noteq> []" "length bs < 2 ^ 31"
    and rx: "rx c = path_msg p @ data_msg bs @ rest" and mem: "smem s = Ample"
  shows "append_to_file fd c s = rbind (append_core fd p (word_of_nat (length bs)) bs s) (\<lambda>(r, es, s).
      case es of None \<Rightarrow> Ok (r, c\<lparr>rx := rest\<rparr>, s) | Some es \<Rightarrow> send_expelled es (c\<lparr>rx := rest\<rparr>) s)"
proof -
  let ?c1 = "c\<lparr>rx := data_msg bs @ rest\<rparr>" and ?sz = "word_of_nat (length bs) :: u64"
  have r1: "read_pathname c (smem s) = Ok (Inr (p @ [0]), ?c1, Ample)"
    using read_pathname_ok [OF p rx] mem by simp
  note rd = read_data_ok [of ?c1, OF _ bs(2), of rest, simplified]
  have cs: "c_string (p @ [0]) = Ok p" using p by (simp add: c_string_nul valid_path_def)
  have sz: "unat ?sz < 2 ^ 63" unfolding rd(3) using bs(2) by (rule order_less_le_trans) simp
  then have al: "safe_malloc ?sz Ample = Ok Ample" by (rule safe_malloc_Ample)
  have nz: "?sz \<noteq> 0" using rd(3) bs(1) by (metis length_0_conv unsigned_0)
  have rd2: "conn_readn (unat ?sz) (c\<lparr>rx := bs @ rest\<rparr>) = Ok (int (length bs), bs, c\<lparr>rx := rest\<rparr>)"
    unfolding rd(3) by (rule rd(2))
  show ?thesis
    unfolding append_to_file_def r1 rbind.simps prod.case sum.case rd(1) Let_def dec_enc_u64 al rd2 cs
    using mem bs(1) nz rd2 by (simp add: smem_same cs)
qed

lemma append_to_file_ok:
  assumes inv: "server_inv s" and p: "valid_path p" and bs: "bs \<noteq> []" "length bs < 2 ^ 31"
    and rx: "rx c = path_msg p @ data_msg bs @ rest" and clk: "clock s = now # ts"
  shows "\<exists>r c' s' vs code. append_to_file fd c s = Ok (r, c', s') \<and> server_inv s' \<and>
    (code, abs_store s') = spec_append fd p bs (unat (cfg_max_space (config s))) (v_path ` set vs) (abs_store s) \<and>
    (if code = SA_SUCCESS then made_room p (length bs) s vs s' \<and> write_reply vs (c\<lparr>rx := rest\<rparr>) r c' \<and>
       (\<forall>v \<in> set vs. fheap s' (v_addr v) = None)
     else r = code \<and> c' = c\<lparr>rx := rest\<rparr> \<and> s' = s)"
proof -
  have mem: "smem s = Ample" using inv by (simp add: server_inv_def store_ok_def)
  let ?sz = "word_of_nat (length bs) :: u64"
  note run = append_to_file_run [OF p bs rx mem]
  note rd = data_length [OF bs(2)]
  have sz: "unat ?sz < 2 ^ 63" unfolding rd using bs(2) by (rule order_less_le_trans) simp
  from append_core_ok [OF inv clk _ bs(1) sz, of fd p] rd obtain code vs s1 where
    w: "append_core fd p ?sz bs s = Ok (code, if code = SA_SUCCESS then Some (map v_addr vs) else None, s1)"
      "server_inv s1"
      "(code, abs_store s1) = spec_append fd p bs (unat (cfg_max_space (config s))) (v_path ` set vs) (abs_store s)"
      "if code = SA_SUCCESS then made_room p (length bs) s vs s1 \<and> victims_in_memory s vs s1 \<and> clock s1 = ts else s1 = s"
    by auto
  from finish_reply [OF inv w(2,4), of "c\<lparr>rx := rest\<rparr>"] obtain r c' s' where
    "append_to_file fd c s = Ok (r, c', s')" "server_inv s'" "abs_store s' = abs_store s1"
    "if code = SA_SUCCESS then made_room p (length bs) s vs s' \<and> write_reply vs (c\<lparr>rx := rest\<rparr>) r c' \<and>
       (\<forall>v \<in> set vs. fheap s' (v_addr v) = None) else r = code \<and> c' = c\<lparr>rx := rest\<rparr> \<and> s' = s"
    unfolding run w(1) by auto
  with w(3) show ?thesis by (intro exI [of _ r] exI [of _ c'] exI [of _ s'] exI [of _ vs] exI [of _ code]) simp
qed

text \<open>C13: \<open>append_to_file\<close> with some bytes implements the abstract append: it extends the contents of a file
  that the client opened, whoever holds its lock, unless the file would exceed the capacity; the
  expulsions are as in a write.\<close>

theorem append_to_file_refines:
  assumes inv: "server_inv s" and p: "valid_path p" and bs: "bs \<noteq> []" "length bs < 2 ^ 31"
    and rx: "rx c = path_msg p @ data_msg bs @ rest" and clk: "clock s = now # ts"
  shows "\<exists>r c' s' vs code. append_to_file fd c s = Ok (r, c', s') \<and> server_inv s' \<and>
    (code, abs_store s') = spec_append fd p bs (unat (cfg_max_space (config s))) (v_path ` set vs) (abs_store s) \<and>
    (if code = SA_SUCCESS then made_room p (length bs) s vs s' \<and> write_reply vs (c\<lparr>rx := rest\<rparr>) r c' \<and>
       (\<forall>v \<in> set vs. fheap s' (v_addr v) = None)
     else r = code \<and> c' = c\<lparr>rx := rest\<rparr> \<and> s' = s)"
  by (rule append_to_file_ok [OF assms])

text \<open>The example: \<open>b\<close> grows by five bytes, which do not fit beside \<open>a\<close>.\<close>

lemma append_to_file_refines_witness:
  "\<exists>r c' s' vs. append_to_file 5 (demo_conn (path_msg [98] @ data_msg [1, 2, 3, 4, 5] @ [])) demo = Ok (r, c', s') \<and>
     server_inv s' \<and> vs \<noteq> [] \<and> made_room [98] 5 demo vs s' \<and> map_option a_data (abs_store s' [98]) = Some [4, 5, 6, 7, 1, 2, 3, 4, 5]"
proof -
  let ?bs = "[1, 2, 3, 4, 5] :: byte list"
  have sp: "spec_append 5 [98] ?bs 10 vs (abs_store demo) =
      (SA_SUCCESS, (abs_store demo |` (- vs))([98] \<mapsto> (abs_file (demo_file [98] [4, 5, 6, 7] (-1) 2 5))\<lparr>a_data := [4, 5, 6, 7] @ ?bs\<rparr>))" for vs
    by (simp add: spec_append_def abs_store_at demo_stored abs_file_def demo_file_def openers_def entries_def)
  have cap: "unat (cfg_max_space (config demo)) = 10" by (simp add: demo_def demo_config_def)
  have "valid_path [98]" by (simp add: valid_path_def)
  from append_to_file_refines [where bs = ?bs and rest = "[]" and fd = 5, OF demo_inv this _ _ demo_conn_rx demo_clock]
  obtain r c' s' vs code where r: "append_to_file 5 (demo_conn (path_msg [98] @ data_msg ?bs @ [])) demo = Ok (r, c', s')"
    "server_inv s'" and sc: "(code, abs_store s') = spec_append 5 [98] ?bs 10 (v_path ` set vs) (abs_store demo)"
    and post: "if code = SA_SUCCESS then made_room [98] (length ?bs) demo vs s' \<and>
       write_reply vs ((demo_conn (path_msg [98] @ data_msg ?bs @ []))\<lparr>rx := []\<rparr>) r c' \<and>
       (\<forall>v \<in> set vs. fheap s' (v_addr v) = None)
     else r = code \<and> c' = (demo_conn (path_msg [98] @ data_msg ?bs @ []))\<lparr>rx := []\<rparr> \<and> s' = demo"
    unfolding cap by force
  have len: "length ?bs = 5" by simp
  have m: "made_room [98] 5 demo vs s'" "map_option a_data (abs_store s' [98]) = Some [4, 5, 6, 7, 1, 2, 3, 4, 5]"
    using sc post unfolding sp len by (auto split: if_splits)
  then have "vs \<noteq> []" using cap by (auto simp: made_room_def victims_size_def demo_def)
  with r m show ?thesis by blast
qed

subsection \<open>Reads\<close>

lemma read_file_run:
  assumes inv: "server_inv s" and p: "valid_path p" and rx: "rx c = path_msg p @ rest" and clk: "clock s = now # ts"
    and f: "stored s p = Some f" "fd \<in> openers f"
  obtains a where "addr_of s p = Some a" "fheap s a = Some f"
    "read_file fd c s = read_reply a (c\<lparr>rx := rest\<rparr>) (put a (f\<lparr>last_use := now, n_readers := 1\<rparr>) (s\<lparr>clock := ts\<rparr>))"
proof -
  have mem: "smem s = Ample" using inv by (simp add: server_inv_def store_ok_def)
  from read_core_ok [OF inv clk, of fd p] f obtain a where
    a: "addr_of s p = Some a" "read_core fd p s = Ok (Inr a, put a (f\<lparr>last_use := now, n_readers := 1\<rparr>) (s\<lparr>clock := ts\<rparr>))"
    by auto
  have "fheap s a = Some f" using f(1) a(1) by (simp add: stored_def)
  with a that show ?thesis using with_path_ok [OF p rx mem] by (simp add: read_file_def)
qed

lemma read_file_ok:
  assumes inv: "server_inv s" and p: "valid_path p" and rx: "rx c = path_msg p @ rest" and clk: "clock s = now # ts"
    and room: "\<And>f. stored s p = Some f \<Longrightarrow> 4 + length (data_msg (file_data f)) \<le> room c"
  shows "case stored s p of
      None \<Rightarrow> read_file fd c s = Ok (SA_NO_FILE, c\<lparr>rx := rest\<rparr>, s)
    | Some f \<Rightarrow>
        if fd \<notin> openers f then read_file fd c s = Ok (SA_NO_OPEN, c\<lparr>rx := rest\<rparr>, s)
        else \<exists>s'. read_file fd c s =
               Ok (SA_SUCCESS, say (enc_int SA_SUCCESS @ data_msg (file_data f)) (c\<lparr>rx := rest\<rparr>), s') \<and>
             server_inv s' \<and> stored s' = (stored s)(p \<mapsto> f\<lparr>last_use := now\<rparr>) \<and> abs_store s' = abs_store s"
proof (cases "stored s p")
  case None
  have mem: "smem s = Ample" using inv by (simp add: server_inv_def store_ok_def)
  from None read_core_ok [OF inv clk, of fd p] have "read_core fd p s = Ok (Inl SA_NO_FILE, s)" by auto
  with None show ?thesis using with_path_ok [OF p rx mem] by (simp add: read_file_def)
next
  case (Some f)
  have mem: "smem s = Ample" using inv by (simp add: server_inv_def store_ok_def)
  show ?thesis
  proof (cases "fd \<in> openers f")
    case False
    with Some read_core_ok [OF inv clk, of fd p] have "read_core fd p s = Ok (Inl SA_NO_OPEN, s)" by auto
    with Some False show ?thesis using with_path_ok [OF p rx mem] by (simp add: read_file_def)
  next
    case True
    obtain a where a: "addr_of s p = Some a" "fheap s a = Some f" and run: "read_file fd c s =
        read_reply a (c\<lparr>rx := rest\<rparr>) (put a (f\<lparr>last_use := now, n_readers := 1\<rparr>) (s\<lparr>clock := ts\<rparr>))"
      using read_file_run [OF inv p rx clk Some True] by blast
    obtain "file_ok p f" "unlocked f" "can_be_expelled f" using inv_file [OF inv Some] by blast
    note f = this
    let ?f = "f\<lparr>last_use := now, n_readers := 1\<rparr>" and ?g = "f\<lparr>last_use := now\<rparr>" and ?c = "c\<lparr>rx := rest\<rparr>"
    let ?m = "data_msg (file_data f)"
    have f': "file_ok p ?f" "file_data ?f = file_data f" using f(1) by (simp_all add: file_ok_def file_data_def abs_file_def)
    have rm: "4 + length ?m \<le> room ?c" using room [OF Some] by simp
    have pl: "length p < 2 ^ 31 - 1" using p by (simp add: valid_path_def)
    have "send_single_file (Some ?f) False (say (enc_int SA_SUCCESS) ?c) = Ok (0, say ?m (say (enc_int SA_SUCCESS) ?c))"
      using send_single_ok [OF f'(1) pl, of False "say (enc_int SA_SUCCESS) ?c"] rm f'(2)
      by (auto simp: file_msg_def)
    then have snd: "send_single_file (Some ?f) False (say (enc_int SA_SUCCESS) ?c) = Ok (0, say (enc_int SA_SUCCESS @ ?m) ?c)"
      using say_say [of "enc_int SA_SUCCESS" ?m ?c] rm by simp
    have w: "conn_writen (enc_int SA_SUCCESS) ?c = (1, say (enc_int SA_SUCCESS) ?c)"
      using rm by (intro conn_writen_room) simp
    have un: "?f\<lparr>n_readers := 0\<rparr> = ?g" using f(2) by (cases f) (simp add: unlocked_def)
    have "read_file fd c s = Ok (SA_SUCCESS, say (enc_int SA_SUCCESS @ ?m) ?c, put a (?f\<lparr>n_readers := 0\<rparr>) (s\<lparr>clock := ts\<rparr>))"
      unfolding run read_reply_def w using snd by simp
    then have res: "read_file fd c s = Ok (SA_SUCCESS, say (enc_int SA_SUCCESS @ ?m) ?c, put a ?g (s\<lparr>clock := ts\<rparr>))"
      unfolding un .
    have g: "file_ok p ?g" "fsize ?g = fsize f" "unlocked ?g" "can_be_expelled ?g"
      using f by (auto simp: file_ok_def unlocked_def)
    note inv' = put_inv [OF inv a g, of ts]
    have "abs_file ?g = abs_file f" by (simp add: abs_file_def openers_def)
    then have "abs_store (put a ?g (s\<lparr>clock := ts\<rparr>)) = abs_store s"
      using abs_store_upd [OF inv'(2)] Some by (auto simp: abs_store_def fun_eq_iff)
    with res inv' Some True show ?thesis by auto
  qed
qed

text \<open>C15: \<open>read_file\<close> refuses a missing file and a client that did not open the file; otherwise, with room for
  the reply, the client receives a success code, the size and exactly the contents, the time of
  use is recorded, no lock is left and nothing else changes.\<close>

theorem read_file_sends_contents:
  assumes inv: "server_inv s" and p: "valid_path p" and rx: "rx c = path_msg p @ rest" and clk: "clock s = now # ts"
    and room: "\<And>f. stored s p = Some f \<Longrightarrow> 4 + length (data_msg (file_data f)) \<le> room c"
  shows "case stored s p of
      None \<Rightarrow> read_file fd c s = Ok (SA_NO_FILE, c\<lparr>rx := rest\<rparr>, s)
    | Some f \<Rightarrow>
        if fd \<notin> openers f then read_file fd c s = Ok (SA_NO_OPEN, c\<lparr>rx := rest\<rparr>, s)
        else \<exists>s'. read_file fd c s =
               Ok (SA_SUCCESS, say (enc_int SA_SUCCESS @ data_msg (file_data f)) (c\<lparr>rx := rest\<rparr>), s') \<and>
             server_inv s' \<and> stored s' = (stored s)(p \<mapsto> f\<lparr>last_use := now\<rparr>) \<and> abs_store s' = abs_store s"
  by (rule read_file_ok [OF assms])

lemma read_file_sends_contents_witness:
  "\<exists>s'. read_file 5 (demo_conn (path_msg [97] @ [])) demo =
     Ok (SA_SUCCESS, say (enc_int SA_SUCCESS @ data_msg [1, 2, 3]) ((demo_conn (path_msg [97] @ []))\<lparr>rx := []\<rparr>), s') \<and>
     server_inv s' \<and> abs_store s' = abs_store demo"
proof -
  have "stored demo [97] = Some (demo_file [97] [1, 2, 3] 4 1 9)" by (simp add: demo_stored)
  moreover have "5 \<in> openers (demo_file [97] [1, 2, 3] 4 1 9)" "file_data (demo_file [97] [1, 2, 3] 4 1 9) = [1, 2, 3]"
    by (simp_all add: openers_def demo_file_def entries_def file_data_def abs_file_def)
  moreover have "4 + length (data_msg [1, 2, 3]) \<le> room (demo_conn (path_msg [97] @ []))"
    by (simp add: demo_conn_def data_msg_def)
  ultimately show ?thesis
    using read_file_sends_contents [OF demo_inv demo_path(1) demo_conn_rx demo_clock, of "[]" 5] by auto
qed

text \<open>C37: a client that goes away before it has taken the whole reply leaves the file locked: \<open>read_file\<close> returns
  an error without releasing the reader lock, and from then on every attempt to lock the file for writing waits for
  a reader that is gone.\<close>

theorem read_file_leaks_lock:
  assumes inv: "server_inv s" and p: "valid_path p" and rx: "rx c = path_msg p @ rest" and clk: "clock s = now # ts"
    and f: "stored s p = Some f" "fd \<in> openers f" and broken: "room c < 4 + length (data_msg (file_data f))"
  shows "\<exists>c' s' a. read_file fd c s = Ok (SA_ERROR, c', s') \<and> addr_of s' p = Some a \<and>
    file_writer_lock a s' = Stuck \<and> remove_core fd p s' = Stuck \<and> write_core fd p sz bs s' = Stuck"
proof -
  obtain a where a: "addr_of s p = Some a" "fheap s a = Some f" and run: "read_file fd c s =
      read_reply a (c\<lparr>rx := rest\<rparr>) (put a (f\<lparr>last_use := now, n_readers := 1\<rparr>) (s\<lparr>clock := ts\<rparr>))"
    using read_file_run [OF inv p rx clk f] by blast
  let ?f = "f\<lparr>last_use := now, n_readers := 1\<rparr>"
  let ?s = "put a ?f (s\<lparr>clock := ts\<rparr>)"
  have fok: "file_ok p f" using addr_of_file [OF server_inv_store [OF inv] a(1)] a(2) by auto
  then have g: "file_ok p ?f" by (simp add: file_ok_def)
  have "file_data ?f = file_data f" "length p < 2 ^ 31 - 1" using p by (simp_all add: file_data_def abs_file_def valid_path_def)
  with send_single_ok [OF g, of False "say (enc_int SA_SUCCESS) (c\<lparr>rx := rest\<rparr>)"] broken
  have cut: "\<exists>c'. send_single_file (Some ?f) False (say (enc_int SA_SUCCESS) (c\<lparr>rx := rest\<rparr>)) = Ok (-1, c')"
    if "4 \<le> room c" using that by (auto simp: file_msg_def)
  obtain c' where "read_file fd c s = Ok (SA_ERROR, c', ?s)"
    unfolding run read_reply_def
    by (rule conn_writen_cases [of "enc_int SA_SUCCESS" "c\<lparr>rx := rest\<rparr>"]) (use cut in auto)
  moreover have up: "store_ok ?s" "addr_of ?s = addr_of s"
    by (rule store_upd [OF server_inv_store [OF inv] a g]; simp)+
  have "addr_of ?s p = Some a" using up(2) a(1) by simp
  moreover have st: "file_writer_lock a ?s = Stuck"
    by (simp add: file_writer_lock_def deref_def)
  moreover have "lookup_file p ?s = Ok (Some a)" using lookup_file_addr [OF up(1), of p] up(2) a(1) by simp
  ultimately show ?thesis
    by (intro exI [of _ c'] exI [of _ ?s] exI [of _ a]) (simp add: remove_core_def write_core_def)
qed

lemma read_file_leaks_lock_witness:
  "\<exists>c' s' a. read_file 5 ((demo_conn (path_msg [97] @ []))\<lparr>room := 0\<rparr>) demo = Ok (SA_ERROR, c', s') \<and>
     addr_of s' [97] = Some a \<and> file_writer_lock a s' = Stuck \<and> remove_core 5 [97] s' = Stuck \<and>
     write_core 5 [97] 1 [0] s' = Stuck"
  by (rule read_file_leaks_lock [OF demo_inv demo_path(1) _ demo_clock, where f = "demo_file [97] [1, 2, 3] 4 1 9"])
    (simp_all add: demo_stored openers_def demo_file_def entries_def)

lemma read_n_files_ok:
  assumes inv: "server_inv s" and some: "0 < unat (st_files (curr_state s)) \<or> 0 < N"
    and N: "- (2 ^ 31) \<le> N" "N < 2 ^ 31" and rx: "rx c = enc_int N @ rest"
  shows "\<exists>r c' vs. read_n_files fd c s = Ok (r, c', s) \<and>
    length vs = min (if N \<le> 0 then unat (st_files (curr_state s)) else nat N) (unat (st_files (curr_state s))) \<and>
    distinct (map v_path vs) \<and> (\<forall>v \<in> set vs. stored s (v_path v) = Some (v_file v)) \<and>
    (if 4 + length (list_msg (listing vs)) \<le> room c
     then r = SA_SUCCESS \<and> c' = say (enc_int SA_SUCCESS @ list_msg (listing vs)) (c\<lparr>rx := rest\<rparr>)
     else r = SA_ERROR \<and> room c' = 0)"
proof -
  have r1: "conn_readn 4 c = Ok (4, enc_int N, c\<lparr>rx := rest\<rparr>)"
    using conn_readn_prefix [of c "enc_int N" rest 4] rx by simp
  have pos: "0 < wanted N s" using some by (auto simp: wanted_def)
  note ch = chosen_files [OF inv, where N = N]
  obtain r c' where rep: "read_n_reply (map v_addr (chosen N s)) (c\<lparr>rx := rest\<rparr>)
      (s\<lparr>fheap := rlocked (v_addr ` set (chosen N s)) (fheap s)\<rparr>) = Ok (r, c', s)"
    "if 4 + length (list_msg (listing (chosen N s))) \<le> room (c\<lparr>rx := rest\<rparr>)
     then r = SA_SUCCESS \<and> c' = say (enc_int SA_SUCCESS @ list_msg (listing (chosen N s))) (c\<lparr>rx := rest\<rparr>) else r = SA_ERROR \<and> room c' = 0"
    using read_n_reply_ok [OF inv] by blast
  have run: "read_n_files fd c s = Ok (r, c', s)"
    unfolding read_n_files_def r1 rbind.simps prod.case dec_enc_int [OF N] read_n_core_ok [OF inv pos] sum.case
    using rep(1) by simp
  have "(if N \<le> 0 then unat (st_files (curr_state s)) else nat N) = wanted N s" by (simp add: wanted_def)
  with run rep(2) ch show ?thesis by (intro exI [of _ r] exI [of _ c'] exI [of _ "chosen N s"]) auto
qed

text \<open>C17: \<open>read_n_files\<close> for \<open>N\<close> files (all of them when \<open>N\<close> is not positive), on a store with files: it sends
  a success code and then exactly the smaller of \<open>N\<close> and the number of files, all different and each
  with its own contents, and leaves the server as it was, locks included, also when the connection
  breaks.\<close>

theorem read_n_files_sends:
  assumes inv: "server_inv s" and some: "0 < unat (st_files (curr_state s)) \<or> 0 < N"
    and N: "- (2 ^ 31) \<le> N" "N < 2 ^ 31" and rx: "rx c = enc_int N @ rest"
  shows "\<exists>r c' vs. read_n_files fd c s = Ok (r, c', s) \<and>
    length vs = min (if N \<le> 0 then unat (st_files (curr_state s)) else nat N) (unat (st_files (curr_state s))) \<and>
    distinct (map v_path vs) \<and> (\<forall>v \<in> set vs. stored s (v_path v) = Some (v_file v)) \<and>
    (if 4 + length (list_msg (listing vs)) \<le> room c
     then r = SA_SUCCESS \<and> c' = say (enc_int SA_SUCCESS @ list_msg (listing vs)) (c\<lparr>rx := rest\<rparr>)
     else r = SA_ERROR \<and> room c' = 0)"
  by (rule read_n_files_ok [OF assms])

lemma read_n_files_sends_witness:
  "\<exists>r c' vs. read_n_files 4 (demo_conn (enc_int 0 @ [])) demo = Ok (r, c', demo) \<and> length vs = 2 \<and>
     distinct (map v_path vs) \<and> (\<forall>v \<in> set vs. stored demo (v_path v) = Some (v_file v))"
proof -
  have "unat (st_files (curr_state demo)) = 2" by (simp add: demo_def)
  then show ?thesis
    using read_n_files_sends [where N = 0 and rest = "[]" and fd = 4, OF demo_inv _ _ _ demo_conn_rx] by fastforce
qed

text \<open>Asking an empty store for all its files is undefined behaviour: the loop does not run and the
  variable that it sets is tested.\<close>

theorem read_n_files_empty_store:
  assumes inv: "server_inv s" and none: "st_files (curr_state s) = 0"
    and N: "- (2 ^ 31) \<le> N" "N \<le> 0" and rx: "rx c = enc_int N @ rest"
  shows "read_n_files fd c s = UB"
proof -
  have r1: "conn_readn 4 c = Ok (4, enc_int N, c\<lparr>rx := rest\<rparr>)"
    using conn_readn_prefix [of c "enc_int N" rest 4] rx by simp
  have "dec_int (enc_int N) = N" using N by (intro dec_enc_int) simp_all
  moreover have "wanted N s = 0" using N none by (simp add: wanted_def)
  ultimately show ?thesis
    unfolding read_n_files_def r1 using read_n_core_empty [OF inv] by simp
qed

lemma fresh_server:
  "\<exists>s. server_init demo_config [Timespec 1 0, Timespec 2 0] Ample = Some s \<and> server_inv s \<and> abs_store s = Map.empty \<and>
     st_files (curr_state s) = 0 \<and> clock s = [Timespec 1 0, Timespec 2 0]"
proof -
  obtain m :: "nat hashmap" where m: "hashmap_init HASH_N_LIST default_hashmap_hash Ample = (Inr (), Some m, Ample)"
    "hm_wf m" "entries m = []" "nlist m = HASH_N_LIST"
    using hashmap_init_Ample [of HASH_N_LIST] by (auto simp: HASH_N_LIST_def)
  define s where "s = the (server_init demo_config [Timespec 1 0, Timespec 2 0] Ample)"
  have s: "server_init demo_config [Timespec 1 0, Timespec 2 0] Ample = Some s" "files s = Some m" "smem s = Ample"
    "config s = demo_config" "unat (st_files (curr_state s)) = 0" "st_space (curr_state s) = 0"
    "st_files (curr_state s) = 0" "clock s = [Timespec 1 0, Timespec 2 0]"
    unfolding s_def using m(1) by (simp_all add: server_init_def)
  have ok: "store_ok s"
    using m s by (intro store_okI [of _ m]) (simp_all add: file_map_ok_def space_of_def)
  have "stored s k = None" for k using s(2) m(3) by (simp add: stored_def addr_of_def)
  then have "idle s" "abs_store s = Map.empty" unfolding idle_stored [OF ok] by (auto simp: abs_store_def)
  with ok s show ?thesis
    by (intro exI [of _ s]) (simp add: server_inv_def limits_ok_def watermarks_ok_def demo_config_def)
qed

lemma read_n_files_empty_store_witness:
  "\<exists>s. server_init demo_config [Timespec 1 0, Timespec 2 0] Ample = Some s \<and>
     read_n_files 4 (demo_conn (enc_int 0 @ [])) s = UB"
proof -
  obtain s where s: "server_init demo_config [Timespec 1 0, Timespec 2 0] Ample = Some s" "server_inv s"
    "st_files (curr_state s) = 0" using fresh_server by blast
  from read_n_files_empty_store [where N = 0 and rest = "[]" and fd = 4, OF s(2,3) _ _ demo_conn_rx] s(1)
  show ?thesis by auto
qed

subsection \<open>Leaving\<close>

lemma close_client_ok:
  assumes inv: "server_inv s" and fd: "client_fd fd"
  shows "\<exists>s'. close_client fd s = Ok s' \<and> server_inv s' \<and>
    abs_store s' = (\<lambda>k. map_option (leave fd) (abs_store s k)) \<and>
    (\<forall>k f. abs_store s' k = Some f \<longrightarrow> a_lock f \<noteq> fd \<and> fd \<notin> a_open f) \<and>
    st_conn (curr_state s') = st_conn (curr_state s) - 1"
proof -
  from close_client_core [OF inv fd] obtain s' where
    s': "close_client fd s = Ok s'" "server_inv s'" "abs_store s' = (\<lambda>k. map_option (leave fd) (abs_store s k))"
      "st_conn (curr_state s') = st_conn (curr_state s) - 1" by blast
  have "fd \<noteq> -1" using fd by (simp add: client_fd_def)
  then have "\<forall>k f. abs_store s' k = Some f \<longrightarrow> a_lock f \<noteq> fd \<and> fd \<notin> a_open f"
    unfolding s'(3) by (auto simp: leave_def)
  with s' show ?thesis by blast
qed

text \<open>C16: when a client leaves, \<open>close_client\<close> takes him off the openers of every file and releases every
  lock he held, on all files and nothing else; the counter of connections goes down by one.\<close>

theorem close_client_forgets:
  assumes inv: "server_inv s" and fd: "client_fd fd"
  shows "\<exists>s'. close_client fd s = Ok s' \<and> server_inv s' \<and>
    abs_store s' = (\<lambda>k. map_option (leave fd) (abs_store s k)) \<and>
    (\<forall>k f. abs_store s' k = Some f \<longrightarrow> a_lock f \<noteq> fd \<and> fd \<notin> a_open f) \<and>
    st_conn (curr_state s') = st_conn (curr_state s) - 1"
  by (rule close_client_ok [OF assms])

lemma close_client_forgets_witness:
  "\<exists>s'. close_client 4 demo = Ok s' \<and> server_inv s' \<and>
     map_option a_lock (abs_store s' [97]) = Some (-1) \<and> map_option a_open (abs_store s' [98]) = Some {5}"
proof -
  have "client_fd 4" by (simp add: client_fd_def)
  from close_client_forgets [OF demo_inv this] obtain s' where s': "close_client 4 demo = Ok s'" "server_inv s'"
    "abs_store s' = (\<lambda>k. map_option (leave 4) (abs_store demo k))" by blast
  have "abs_store demo [97] = Some \<lparr>a_data = [1, 2, 3], a_lock = 4, a_open = {4, 5}\<rparr>"
    "abs_store demo [98] = Some \<lparr>a_data = [4, 5, 6, 7], a_lock = -1, a_open = {4, 5}\<rparr>"
    by (simp_all add: abs_store_at demo_stored abs_file_def demo_file_def openers_def entries_def)
  then have "map_option a_lock (abs_store s' [97]) = Some (-1)" "map_option a_open (abs_store s' [98]) = Some {5}"
    unfolding s'(3) by (auto simp: leave_def)
  with s' show ?thesis by blast
qed

end
