(* ===== verification/Frame.thy ===== *)
theory Frame
  imports Handlers
begin

text \<open>
  What the request handlers leave alone, whatever the state and the request. The proofs run a small calculus
  of postconditions over the definitions: \<open>post m Q\<close> says that \<open>Q\<close> holds of what \<open>m\<close> returns, if it
  returns. What is left alone is the parameter \<open>pi\<close> of three locales: one for the operations that do not
  change the counters, one for those that take files out of the store, and one for all of them.
\<close>

definition post :: "'a res \<Rightarrow> ('a \<Rightarrow> bool) \<Rightarrow> bool" where
  "post m Q \<longleftrightarrow> (\<forall>x. m = Ok x \<longrightarrow> Q x)"

lemma post_simps [simp]: "post (Ok x) Q \<longleftrightarrow> Q x" "post Exit Q" "post UB Q" "post Stuck Q"
  by (simp_all add: post_def)

lemma post_bind: "post m (\<lambda>x. post (f x) Q) \<Longrightarrow> post (rbind m f) Q"
  by (cases m) simp_all

lemma post_run: "(\<And>x. m = Ok x \<Longrightarrow> post (f x) Q) \<Longrightarrow> post (rbind m f) Q"
  by (cases m) simp_all

lemma post_if: "(b \<Longrightarrow> post m Q) \<Longrightarrow> (\<not> b \<Longrightarrow> post n Q) \<Longrightarrow> post (if b then m else n) Q"
  by simp

lemma post_any: "(\<And>x. Q x) \<Longrightarrow> post m Q"
  by (simp add: post_def)

lemma postD: "post m Q \<Longrightarrow> m = Ok x \<Longrightarrow> Q x"
  by (simp add: post_def)

lemma post_mono: "post m P \<Longrightarrow> (\<And>x. P x \<Longrightarrow> Q x) \<Longrightarrow> post m Q"
  by (simp add: post_def)

lemmas post_read =
  post_any [of _ "deref a s" for a s] post_any [of _ "hashtbl_insert t fd m" for t fd m]
  post_any [of _ "hashtbl_remove t fd" for t fd] post_any [of _ "hashtbl_contains t fd" for t fd]
  post_any [of _ "hashmap_insert mp k a m" for mp k a m] post_any [of _ "hashmap_remove mp k" for mp k]
  post_any [of _ "hashmap_contains mp k" for mp k] post_any [of _ "safe_malloc n m" for n m]
  post_any [of _ "iter_all mp" for mp] post_any [of _ "iter_upto n it e mp" for n it e mp]
  post_any [of _ "lookup_file p s" for p s] post_any [of _ "opened_by fd a s" for fd a s]
  post_any [of _ "read_pathname c m" for c m] post_any [of _ "conn_readn n c" for n c]
  post_any [of _ "c_string b" for b] post_any [of _ "file_bytes f" for f]
  post_any [of _ "send_single_file f b c" for f b c] post_any [of _ "send_list_of_files fs b s c" for fs b s c]

section \<open>Operations that leave the counters alone\<close>

named_theorems kept_wp \<open>what an operation of the store returns has the same \<open>pi\<close>\<close>

declare post_bind [kept_wp] post_read [kept_wp]

locale kept =
  fixes pi :: "server \<Rightarrow> 'a"
  assumes pi_upd [simp]: "pi (s\<lparr>files := mp\<rparr>) = pi s" "pi (s\<lparr>fheap := h\<rparr>) = pi s" "pi (s\<lparr>fnext := n\<rparr>) = pi s"
    "pi (s\<lparr>clock := ts\<rparr>) = pi s" "pi (s\<lparr>smem := m\<rparr>) = pi s"
begin

lemma wp_upd_file [kept_wp]: "(\<And>s'. pi s' = pi s \<Longrightarrow> Q s') \<Longrightarrow> post (upd_file a g s) Q"
  unfolding upd_file_def by (auto intro!: post_bind post_read)

lemma wp_clock [kept_wp]: "(\<And>t s'. pi s' = pi s \<Longrightarrow> Q (t, s')) \<Longrightarrow> post (clock_gettime s) Q"
  unfolding clock_gettime_def by (auto split: list.splits)

lemma wp_locks [kept_wp]:
  "(\<And>s'. pi s' = pi s \<Longrightarrow> Q s') \<Longrightarrow> post (file_reader_lock a s) Q"
  "(\<And>s'. pi s' = pi s \<Longrightarrow> Q s') \<Longrightarrow> post (file_reader_unlock a s) Q"
  "(\<And>s'. pi s' = pi s \<Longrightarrow> Q s') \<Longrightarrow> post (file_writer_lock a s) Q"
  "(\<And>s'. pi s' = pi s \<Longrightarrow> Q s') \<Longrightarrow> post (file_writer_unlock a s) Q"
  unfolding file_reader_lock_def file_reader_unlock_def file_writer_lock_def file_writer_unlock_def
  by (auto intro!: kept_wp)

lemma wp_file_delete [kept_wp]: "(\<And>s'. pi s' = pi s \<Longrightarrow> Q s') \<Longrightarrow> post (file_delete p s) Q"
  unfolding file_delete_def by (auto intro!: kept_wp split: option.splits)

lemma post_delete_files: "post (delete_files as s) (\<lambda>s'. pi s' = pi s)"
proof (induction as arbitrary: s)
  case (Cons a as)
  have "post (delete_files as s') (\<lambda>s''. pi s'' = pi s)" if "pi s' = pi s" for s'
    using Cons.IH [of s'] that by simp
  then show ?case by (auto intro!: kept_wp)
qed simp

lemma wp_delete_files [kept_wp]: "(\<And>s'. pi s' = pi s \<Longrightarrow> Q s') \<Longrightarrow> post (delete_files as s) Q"
  by (rule post_mono [OF post_delete_files])

lemma post_expell_scan: "post (expell_scan pol as least s) (\<lambda>(l, s'). pi s' = pi s)"
proof (induction as arbitrary: least s)
  case (Cons a as)
  have "post (expell_scan pol as l s') (\<lambda>(l, s''). pi s'' = pi s)" if "pi s' = pi s" for l s'
    using Cons.IH [of l s'] that by simp
  then show ?case by (auto intro!: kept_wp split: option.splits)
qed simp

lemma wp_expell_scan [kept_wp]:
  "(\<And>l s'. pi s' = pi s \<Longrightarrow> Q (l, s')) \<Longrightarrow> post (expell_scan pol as least s) Q"
  by (rule post_mono [OF post_expell_scan]) auto

lemma wp_create_file [kept_wp]:
  assumes "\<And>a s'. pi s' = pi s \<Longrightarrow> Q (a, s')"
  shows "post (create_file p fl fd s) Q"
  unfolding create_file_def case_prod_unfold Let_def
  by (rule kept_wp)+ (simp add: assms)

lemma wp_file_parts [kept_wp]:
  "(\<And>s'. pi s' = pi s \<Longrightarrow> Q s') \<Longrightarrow> post (add_opener fd a s) Q"
  "(\<And>s'. pi s' = pi s \<Longrightarrow> Q s') \<Longrightarrow> post (touch a s) Q"
  "(\<And>s'. pi s' = pi s \<Longrightarrow> Q s') \<Longrightarrow> post (remove_opener fd a s) Q"
  "(\<And>s'. pi s' = pi s \<Longrightarrow> Q s') \<Longrightarrow> post (release_lock fd a s) Q"
  unfolding add_opener_def touch_def remove_opener_def release_lock_def
  by (auto intro!: kept_wp split: prod.splits)

lemma wp_cores [kept_wp]:
  "(\<And>r s'. pi s' = pi s \<Longrightarrow> Q (r, s')) \<Longrightarrow> post (open_existing fd p fl s) Q"
  "(\<And>r s'. pi s' = pi s \<Longrightarrow> Q (r, s')) \<Longrightarrow> post (close_core fd p s) Q"
  "(\<And>r s'. pi s' = pi s \<Longrightarrow> Q' (r, s')) \<Longrightarrow> post (read_core fd p s) Q'"
  unfolding open_existing_def close_core_def read_core_def
  by (auto simp: Let_def intro!: kept_wp split: prod.splits option.splits)

lemma wp_send_expelled [kept_wp]:
  "(\<And>r c' s'. pi s' = pi s \<Longrightarrow> Q (r, c', s')) \<Longrightarrow> post (send_expelled xs c s) Q"
  unfolding send_expelled_def by (auto intro!: kept_wp split: prod.splits)

lemma post_with_path:
  assumes "\<And>p c s'. pi s' = pi s \<Longrightarrow> post (act p c s') Q" "\<And>e c s'. pi s' = pi s \<Longrightarrow> Q (e, c, s')"
  shows "post (with_path act c s) Q"
  unfolding with_path_def using assms by (auto simp: Let_def intro!: post_bind post_read split: sum.splits)

lemma post_unlock_all: "post (reader_unlock_all as s) (\<lambda>s'. pi s' = pi s)"
proof (induction as arbitrary: s)
  case (Cons a as)
  have "post (reader_unlock_all as s') (\<lambda>s''. pi s'' = pi s)" if "pi s' = pi s" for s'
    using Cons.IH [of s'] that by simp
  then show ?case by (auto intro!: kept_wp)
qed simp

lemma wp_unlock_all [kept_wp]: "(\<And>s'. pi s' = pi s \<Longrightarrow> Q s') \<Longrightarrow> post (reader_unlock_all as s) Q"
  by (rule post_mono [OF post_unlock_all])

lemma post_lock_all: "post (read_lock_all as lst s) (\<lambda>r. pi (snd (snd r)) = pi s)"
proof (induction as arbitrary: lst s)
  case (Cons a as)
  have "post (read_lock_all as l s') (\<lambda>r. pi (snd (snd r)) = pi s)" if "pi s' = pi s" for l s'
    using Cons.IH [of l s'] that by simp
  then show ?case by (auto intro!: kept_wp split: prod.splits bool.splits)
qed simp

lemma wp_lock_all [kept_wp]:
  "(\<And>ok l s'. pi s' = pi s \<Longrightarrow> Q (ok, l, s')) \<Longrightarrow> post (read_lock_all as lst s) Q"
  by (rule post_mono [OF post_lock_all]) auto

lemma wp_read_parts [kept_wp]:
  "(\<And>r c' s'. pi s' = pi s \<Longrightarrow> Q (r, c', s')) \<Longrightarrow> post (read_reply a c s) Q"
  "(\<And>r s'. pi s' = pi s \<Longrightarrow> Q' (r, s')) \<Longrightarrow> post (read_n_core N s) Q'"
  "(\<And>r c' s'. pi s' = pi s \<Longrightarrow> Q (r, c', s')) \<Longrightarrow> post (read_n_reply l c s) Q"
  unfolding read_reply_def read_n_core_def read_n_reply_def
  by (auto simp: Let_def intro!: kept_wp split: prod.splits bool.splits option.splits sum.splits)

lemma post_close_client_files: "post (close_client_files fd as s) (\<lambda>s'. pi s' = pi s)"
proof (induction as arbitrary: s)
  case (Cons a as)
  have "post (close_client_files fd as s') (\<lambda>s''. pi s'' = pi s)" if "pi s' = pi s" for s'
    using Cons.IH [of s'] that by simp
  then show ?case by (auto intro!: kept_wp)
qed simp

lemmas kept_rules = post_bind post_read wp_upd_file wp_clock wp_locks wp_file_delete wp_delete_files wp_expell_scan
  wp_create_file wp_file_parts wp_cores wp_send_expelled wp_unlock_all wp_lock_all wp_read_parts

end

section \<open>Operations that take files out\<close>

text \<open>An expulsion and a removal change the numbers of files, bytes and expulsions, and not the highest ones.\<close>

locale kept_out = kept +
  assumes pi_counts [simp]:
    "st_conn st = st_conn (curr_state s) \<Longrightarrow> st_max_conn st = st_max_conn (curr_state s) \<Longrightarrow>
     st_max_files st = st_max_files (curr_state s) \<Longrightarrow> st_max_space st = st_max_space (curr_state s) \<Longrightarrow>
     pi (s\<lparr>curr_state := st\<rparr>) = pi s"
begin

lemma wp_take_out [kept_wp]: "(\<And>r s'. pi s' = pi s \<Longrightarrow> Q (r, s')) \<Longrightarrow> post (take_out a s) Q"
  unfolding take_out_def by (auto intro!: kept_wp split: sum.splits option.splits)

lemma wp_expell_single [kept_wp]:
  "(\<And>r s'. pi s' = pi s \<Longrightarrow> Q (r, s')) \<Longrightarrow> post (expell_single_file s) Q"
  unfolding expell_single_file_def by (auto intro!: kept_wp split: option.splits)

lemma post_expell_single: "post (expell_single_file s) (\<lambda>r. pi (snd r) = pi s)"
  by (auto intro!: kept_wp)

lemma post_expell_loop: "post (expell_loop z d xs s) (\<lambda>r. pi (snd r) = pi s)"
proof (induction z d xs s rule: expell_loop.induct)
  case (1 z d xs s)
  show ?case
  proof (cases "d < z")
    case True
    show ?thesis unfolding expell_loop.simps [of z d xs s] if_P [OF True]
    proof (rule post_run)
      fix x assume x: "expell_single_file s = Ok x"
      obtain r t where rt: "x = (r, t)" by force
      have t: "pi t = pi s" using x rt postD [OF post_expell_single] by fastforce
      have "post (expell_loop z (d + fsize f) (xs @ [a]) (t\<lparr>smem := m\<rparr>)) (\<lambda>r. pi (snd r) = pi s)"
        if "r = Some a" "malloc (smem t) = (True, m)" "deref a t = Ok f" for a m f
        using "1.IH" [OF True x rt [symmetric] that(1) that(2) [symmetric] refl that(3)] t by simp
      then show "post (case x of (r, t) \<Rightarrow> case r of None \<Rightarrow> Ok (xs, t) | Some a \<Rightarrow>
          (case malloc (smem t) of (True, m) \<Rightarrow>
             rbind (deref a t) (\<lambda>f. expell_loop z (d + fsize f) (xs @ [a]) (t\<lparr>smem := m\<rparr>))
           | (False, m) \<Rightarrow> Exit)) (\<lambda>r. pi (snd r) = pi s)"
        unfolding rt prod.case using t by (cases r) (auto intro!: post_run split: prod.splits bool.splits)
    qed
  next
    case False
    then show ?thesis by (subst expell_loop.simps) simp
  qed
qed

lemma wp_expell_multiple [kept_wp]:
  "(\<And>r es s'. pi s' = pi s \<Longrightarrow> Q (r, es, s')) \<Longrightarrow> post (expell_multiple_files z xs s) Q"
  unfolding expell_multiple_files_def
  by (auto intro!: post_bind post_mono [OF post_expell_loop] split: option.splits)

lemma wp_remove_kept [kept_wp]: "(\<And>r s'. pi s' = pi s \<Longrightarrow> Q (r, s')) \<Longrightarrow> post (remove_core fd p s) Q"
  unfolding remove_core_def by (auto simp: Let_def intro!: kept_wp split: prod.splits option.splits)

end

section \<open>The handlers\<close>

locale kept_all = kept_out +
  assumes pi_highs [simp]:
    "st_conn st = st_conn (curr_state s) \<Longrightarrow> st_max_conn st = st_max_conn (curr_state s) \<Longrightarrow>
     pi (s\<lparr>curr_state := st\<rparr>) = pi s"
begin

lemma count_file_conn [simp]: "st_conn (count_file st) = st_conn st" "st_max_conn (count_file st) = st_max_conn st"
  by (simp_all add: count_file_def Let_def)

lemma wp_open_create [kept_wp]:
  "(\<And>r s'. pi s' = pi s \<Longrightarrow> Q (r, s')) \<Longrightarrow> post (open_create fd p fl s) Q"
  unfolding open_create_def by (auto intro!: kept_wp split: prod.splits)

lemma wp_charge [kept_wp]:
  "(\<And>es s'. pi s' = pi s \<Longrightarrow> Q (es, s')) \<Longrightarrow> post (charge_space a n xs s) Q"
  unfolding charge_space_def by (auto simp: Let_def intro!: kept_wp)

lemma wp_writes [kept_wp]:
  "(\<And>r es s'. pi s' = pi s \<Longrightarrow> Q (r, es, s')) \<Longrightarrow> post (write_core fd p sz b s) Q"
  "(\<And>r es s'. pi s' = pi s \<Longrightarrow> Q (r, es, s')) \<Longrightarrow> post (append_core fd p sz b s) Q"
  unfolding write_core_def append_core_def
  by (auto intro!: kept_wp split: prod.splits option.splits bool.splits)

lemma wp_handlers [kept_wp]:
  assumes "\<And>r c' s'. pi s' = pi s \<Longrightarrow> Q (r, c', s')"
  shows "post (open_file fd c s) Q" "post (close_file fd c s) Q" "post (remove_file fd c s) Q"
    "post (write_file fd c s) Q" "post (append_to_file fd c s) Q" "post (read_file fd c s) Q"
    "post (read_n_files fd c s) Q"
  unfolding open_file_def close_file_def remove_file_def write_file_def append_to_file_def read_file_def
    read_n_files_def
  using assms
  by (auto simp: Let_def intro!: kept_wp post_with_path split: prod.splits bool.splits option.splits sum.splits)

end

section \<open>The configuration and the connections\<close>

text \<open>
  The configuration is read once at the start of the server and the counters of connections belong to the main
  thread: no operation on the store and no handler changes them.
\<close>

definition static :: "server \<Rightarrow> server_config_t \<times> u32 \<times> u32" where
  "static s = (config s, st_conn (curr_state s), st_max_conn (curr_state s))"

interpretation static: kept_all static
  by unfold_locales (simp_all add: static_def)

text \<open>The operations that leave all counters alone, and those that leave the highest numbers alone.\<close>

interpretation counters: kept curr_state
  by unfold_locales simp_all

definition highs :: "server \<Rightarrow> u32 \<times> u64" where
  "highs s = (st_max_files (curr_state s), st_max_space (curr_state s))"

interpretation highs: kept_out highs
  by unfold_locales (simp_all add: highs_def)

lemmas keeps_wp = static.kept_rules static.wp_open_create static.wp_remove_kept static.wp_writes static.wp_handlers

text \<open>A client that leaves is one connection less.\<close>

lemma post_close_client:
  "post (close_client fd s) (\<lambda>s'. config s' = config s \<and> st_max_conn (curr_state s') = st_max_conn (curr_state s) \<and>
     st_conn (curr_state s') = (if fd = -1 then st_conn (curr_state s) else st_conn (curr_state s) - 1))"
  unfolding close_client_def
  by (auto intro!: post_bind post_read post_mono [OF static.post_close_client_files] simp: static_def)

end
