(* ===== verification/Workers.thy ===== *)
theory Workers
  imports Service Frame
begin

text \<open>
  \<open>server/workers.c\<close>: what a worker does with one request of a client, from the operation code to the
  result for the main thread, and the sessions of any number of clients as sequences of such requests.
  The loop of the worker around the request queue is in \<open>Main_Loop\<close>.
\<close>

section \<open>One request\<close>

datatype worker_code_t = MW_SUCCESS | MW_CLOSE | MW_FATAL_ERROR | MW_NON_FATAL_ERROR

definition result_code :: "int \<Rightarrow> worker_code_t" where
  "result_code res =
     (if res = SA_SUCCESS then MW_SUCCESS
      else if res = SA_CLOSE \<or> res = SA_ERROR then MW_FATAL_ERROR
      else MW_NON_FATAL_ERROR)"

text \<open>
  The \<open>switch\<close> over the operation code. \<open>LOCK_FILE\<close> and \<open>UNLOCK_FILE\<close> are in the protocol, but the
  worker has no case for them.
\<close>

type_synonym handler_fun = "int \<Rightarrow> conn \<Rightarrow> server \<Rightarrow> (int \<times> conn \<times> server) res"

definition handler :: "int \<Rightarrow> handler_fun option" where
  "handler op =
     (if op = op_value OPEN_FILE then Some open_file
      else if op = op_value CLOSE_FILE then Some close_file
      else if op = op_value WRITE_FILE then Some write_file
      else if op = op_value APPEND_TO_FILE then Some append_to_file
      else if op = op_value READ_FILE then Some read_file
      else if op = op_value READ_N_FILES then Some read_n_files
      else if op = op_value REMOVE_FILE then Some remove_file
      else None)"

definition serve_request :: "int \<Rightarrow> conn \<Rightarrow> server \<Rightarrow> (worker_code_t \<times> conn \<times> server) res" where
  "serve_request fd c s =
     rbind (conn_readn 4 c) (\<lambda>(l, op_code, c).
       if l = -1 then Ok (MW_FATAL_ERROR, c, s)
       else if l = 0 then Ok (MW_CLOSE, c, s)
       else case handler (dec_int op_code) of
              None \<Rightarrow> Ok (MW_FATAL_ERROR, c, s)
            | Some h \<Rightarrow>
                rbind (h fd c s) (\<lambda>(res, c, s).
                  case conn_writen (enc_int res) c of (l, c) \<Rightarrow>
                    Ok (if l = -1 then MW_FATAL_ERROR else result_code res, c, s)))"

text \<open>The texts of the log; the codes of a refused write have no text of their own.\<close>

definition thread_res_to_msg :: "int \<Rightarrow> string" where
  "thread_res_to_msg res =
     (if res = SA_SUCCESS then ''success''
      else if res = SA_EXISTS then ''file already exists''
      else if res = SA_NO_FILE then ''file doesn't exist''
      else if res = SA_ALREADY_LOCKED then ''file is already locked''
      else if res = SA_CLOSE then ''client closed connection''
      else ''general fatal error'')"

section \<open>Requests\<close>

text \<open>The requests a client of the API can send, their bytes, and the operations they stand for.\<close>

datatype request =
    Req_open path u32 | Req_close path | Req_read path | Req_write path "byte list"
  | Req_append path "byte list" | Req_read_n int | Req_remove path

fun request_op :: "request \<Rightarrow> op_code_t" where
  "request_op (Req_open _ _) = OPEN_FILE"
| "request_op (Req_close _) = CLOSE_FILE"
| "request_op (Req_read _) = READ_FILE"
| "request_op (Req_write _ _) = WRITE_FILE"
| "request_op (Req_append _ _) = APPEND_TO_FILE"
| "request_op (Req_read_n _) = READ_N_FILES"
| "request_op (Req_remove _) = REMOVE_FILE"

fun request_args :: "request \<Rightarrow> byte list" where
  "request_args (Req_open p fl) = path_msg p @ enc_u32 fl"
| "request_args (Req_close p) = path_msg p"
| "request_args (Req_read p) = path_msg p"
| "request_args (Req_write p bs) = path_msg p @ data_msg bs"
| "request_args (Req_append p bs) = path_msg p @ data_msg bs"
| "request_args (Req_read_n N) = enc_int N"
| "request_args (Req_remove p) = path_msg p"

definition request_msg :: "request \<Rightarrow> byte list" where
  "request_msg r = enc_int (op_value (request_op r)) @ request_args r"

definition payload_ok :: "byte list \<Rightarrow> bool" where
  "payload_ok bs \<longleftrightarrow> bs \<noteq> [] \<and> length bs < 2 ^ 31"

fun request_ok :: "request \<Rightarrow> bool" where
  "request_ok (Req_open p _) = valid_path p"
| "request_ok (Req_close p) = valid_path p"
| "request_ok (Req_read p) = valid_path p"
| "request_ok (Req_write p bs) = (valid_path p \<and> payload_ok bs)"
| "request_ok (Req_append p bs) = (valid_path p \<and> payload_ok bs)"
| "request_ok (Req_read_n N) = (- (2 ^ 31) \<le> N \<and> N < 2 ^ 31)"
| "request_ok (Req_remove p) = valid_path p"

text \<open>The result and the store after a request, \<open>vs\<close> being the paths that are expelled.\<close>

fun spec_request :: "int \<Rightarrow> request \<Rightarrow> nat \<Rightarrow> path set \<Rightarrow> astore \<Rightarrow> int \<times> astore" where
  "spec_request fd (Req_open p fl) cap vs A =
     (if is_flag_set fl O_CREATE then spec_create fd p (is_flag_set fl O_LOCK) vs A
      else spec_open fd p (is_flag_set fl O_LOCK) A)"
| "spec_request fd (Req_close p) cap vs A = spec_close fd p A"
| "spec_request fd (Req_read p) cap vs A =
     (case A p of None \<Rightarrow> (SA_NO_FILE, A)
      | Some f \<Rightarrow> (if fd \<in> a_open f then SA_SUCCESS else SA_NO_OPEN, A))"
| "spec_request fd (Req_write p bs) cap vs A = spec_write fd p bs cap vs A"
| "spec_request fd (Req_append p bs) cap vs A = spec_append fd p bs cap vs A"
| "spec_request fd (Req_read_n N) cap vs A = (SA_SUCCESS, A)"
| "spec_request fd (Req_remove p) cap vs A = spec_remove fd p A"

text \<open>
  The two requests that the code gets wrong are excluded here. A client that sends \<open>READ_FILE\<close> has a connection
  that takes a success code and the largest file: when it goes away before, the file stays locked
  (\<open>read_file_leaks_lock\<close>). \<open>READ_N_FILES\<close> for all the files is not sent to an empty store, where the handler tests a
  variable that it never set (\<open>read_n_files_empty_store\<close>). Nothing is asked of any other request: its
  connection may break at any byte of the reply.
\<close>

definition can_reply :: "request \<Rightarrow> conn \<Rightarrow> server \<Rightarrow> bool" where
  "can_reply r c s \<longleftrightarrow>
     (case r of Req_read p \<Rightarrow> 12 + unat (cfg_max_space (config s)) \<le> room c
      | Req_read_n N \<Rightarrow> 0 < N \<or> 0 < unat (st_files (curr_state s))
      | _ \<Rightarrow> True)"

lemma can_reply_simps [simp]:
  "can_reply (Req_open p fl) c s" "can_reply (Req_close p) c s" "can_reply (Req_write p bs) c s"
  "can_reply (Req_append p bs) c s" "can_reply (Req_remove p) c s"
  "can_reply (Req_read p) c s \<longleftrightarrow> 12 + unat (cfg_max_space (config s)) \<le> room c"
  "can_reply (Req_read_n N) c s \<longleftrightarrow> 0 < N \<or> 0 < unat (st_files (curr_state s))"
  by (simp_all add: can_reply_def)

lemma can_reply_mono:
  assumes "can_reply r c s" "config s' = config s" "st_files (curr_state s') = st_files (curr_state s)" "room c' = room c"
  shows "can_reply r c' s'"
  using assms by (cases r) simp_all

lemma handler_op: "handler (op_value (request_op r)) =
  Some (case r of Req_open _ _ \<Rightarrow> open_file | Req_close _ \<Rightarrow> close_file | Req_read _ \<Rightarrow> read_file
        | Req_write _ _ \<Rightarrow> write_file | Req_append _ _ \<Rightarrow> append_to_file | Req_read_n _ \<Rightarrow> read_n_files
        | Req_remove _ \<Rightarrow> remove_file)"
  by (cases r) (simp_all add: handler_def)

lemma dec_op: "dec_int (enc_int (op_value op)) = op_value op"
  by (rule dec_enc_int) (cases op; simp)+

lemma serve_run:
  assumes "rx c = request_msg r @ rest" "handler (op_value (request_op r)) = Some h"
    "h fd (c\<lparr>rx := request_args r @ rest\<rparr>) s = Ok (res, c1, s1)"
  shows "\<exists>code c'. serve_request fd c s = Ok (code, c', s1) \<and>
    (if 4 \<le> room c1 then code = result_code res \<and> c' = say (enc_int res) c1 else code = MW_FATAL_ERROR \<and> room c' = 0)"
proof -
  have r: "conn_readn 4 c = Ok (4, enc_int (op_value (request_op r)), c\<lparr>rx := request_args r @ rest\<rparr>)"
    using conn_readn_prefix [of c "enc_int (op_value (request_op r))" "request_args r @ rest" 4] assms(1)
    by (simp add: request_msg_def)
  show ?thesis
    by (rule conn_writen_cases [of "enc_int res" c1]) (simp_all add: serve_request_def r dec_op assms(2,3))
qed

text \<open>What a handler did for a request, whatever the handler.\<close>

definition handled :: "int \<Rightarrow> request \<Rightarrow> server \<Rightarrow> (int \<times> conn \<times> server) res \<Rightarrow> bool" where
  "handled fd r s out \<longleftrightarrow> (\<exists>res c' s' vs code. out = Ok (res, c', s') \<and> server_inv s' \<and>
     (code, abs_store s') = spec_request fd r (unat (cfg_max_space (config s))) vs (abs_store s) \<and>
     (res = code \<or> res = SA_ERROR \<and> room c' = 0))"

lemma handledI:
  assumes "out = Ok (res, c', s')" "server_inv s'"
    "(code, abs_store s') = spec_request fd r (unat (cfg_max_space (config s))) vs (abs_store s)"
    "res = code \<or> res = SA_ERROR \<and> room c' = 0"
  shows "handled fd r s out"
  using assms unfolding handled_def by blast

lemma inv_size_le:
  assumes inv: "server_inv s" and f: "stored s p = Some f"
  shows "length (file_data f) \<le> unat (cfg_max_space (config s))"
proof -
  obtain a where a: "addr_of s p = Some a" "fheap s a = Some f" "file_ok p f" using inv_file [OF inv f] by blast
  have ok: "store_ok s" "limits_ok s" using inv by (auto simp: server_inv_def)
  have cap: "unat (fsize f) \<le> unat (cfg_max_space (config s))" "unat (cfg_max_space (config s)) < 2 ^ 63"
    using stored_size_le [OF ok(1) a(1,2)] ok(2) by (auto simp: limits_ok_def)
  have "length (file_data f) = unat (fsize f)"
    using a(3) by (cases "contents f") (auto simp: file_ok_def file_data_def abs_file_def)
  then show ?thesis using cap by simp
qed

lemma open_handled:
  assumes "server_inv s" "client_fd fd" "valid_path p" "rx c = path_msg p @ enc_u32 fl @ rest" "clock s = t1 # t2 # ts"
  shows "handled fd (Req_open p fl) s (open_file fd c s)"
proof -
  from open_file_ok [OF assms] obtain r s' vs where
    "open_file fd c s = Ok (r, c\<lparr>rx := rest\<rparr>, s')" "server_inv s'"
    "(r, abs_store s') = spec_request fd (Req_open p fl) (unat (cfg_max_space (config s))) (v_path ` set vs) (abs_store s)"
    unfolding spec_request.simps by blast
  then show ?thesis by (rule handledI) simp
qed

lemma close_handled:
  assumes "server_inv s" "client_fd fd" "valid_path p" "rx c = path_msg p @ rest"
  shows "handled fd (Req_close p) s (close_file fd c s)"
proof -
  from close_file_ok [OF assms] obtain r s' where
    "close_file fd c s = Ok (r, c\<lparr>rx := rest\<rparr>, s')" "server_inv s'"
    "(r, abs_store s') = spec_request fd (Req_close p) (unat (cfg_max_space (config s))) {} (abs_store s)"
    unfolding spec_request.simps by blast
  then show ?thesis by (rule handledI) simp
qed

lemma remove_handled:
  assumes "server_inv s" "valid_path p" "rx c = path_msg p @ rest"
  shows "handled fd (Req_remove p) s (remove_file fd c s)"
proof -
  from remove_file_ok [OF assms, of fd] obtain r s' where
    "remove_file fd c s = Ok (r, c\<lparr>rx := rest\<rparr>, s')" "server_inv s'"
    "(r, abs_store s') = spec_request fd (Req_remove p) (unat (cfg_max_space (config s))) {} (abs_store s)"
    unfolding spec_request.simps by blast
  then show ?thesis by (rule handledI) simp
qed

lemma reply_code: "(if code = SA_SUCCESS then A \<and> write_reply vs c r c' \<and> B else r = code \<and> C) \<Longrightarrow>
  r = code \<or> r = SA_ERROR \<and> room c' = 0"
  by (auto simp: write_reply_def split: if_splits)

lemma write_handled:
  assumes "server_inv s" "valid_path p" "payload_ok bs" "rx c = path_msg p @ data_msg bs @ rest" "clock s = now # ts"
  shows "handled fd (Req_write p bs) s (write_file fd c s)"
proof -
  have bs: "bs \<noteq> []" "length bs < 2 ^ 31" using assms(3) by (simp_all add: payload_ok_def)
  from write_file_ok [OF assms(1,2) bs assms(4,5), of fd] obtain r c' s' vs code where
    w: "write_file fd c s = Ok (r, c', s')" "server_inv s'"
    "(code, abs_store s') = spec_request fd (Req_write p bs) (unat (cfg_max_space (config s))) (v_path ` set vs) (abs_store s)"
    and e: "if code = SA_SUCCESS then made_room p (length bs) s vs s' \<and> write_reply vs (c\<lparr>rx := rest\<rparr>) r c' \<and>
       (\<forall>v \<in> set vs. fheap s' (v_addr v) = None)
     else r = code \<and> c' = c\<lparr>rx := rest\<rparr> \<and> s' = s"
    unfolding spec_request.simps by blast
  from w show ?thesis by (rule handledI) (rule reply_code [OF e])
qed

lemma append_handled:
  assumes "server_inv s" "valid_path p" "payload_ok bs" "rx c = path_msg p @ data_msg bs @ rest" "clock s = now # ts"
  shows "handled fd (Req_append p bs) s (append_to_file fd c s)"
proof -
  have bs: "bs \<noteq> []" "length bs < 2 ^ 31" using assms(3) by (simp_all add: payload_ok_def)
  from append_to_file_ok [OF assms(1,2) bs assms(4,5), of fd] obtain r c' s' vs code where
    w: "append_to_file fd c s = Ok (r, c', s')" "server_inv s'"
    "(code, abs_store s') = spec_request fd (Req_append p bs) (unat (cfg_max_space (config s))) (v_path ` set vs) (abs_store s)"
    and e: "if code = SA_SUCCESS then made_room p (length bs) s vs s' \<and> write_reply vs (c\<lparr>rx := rest\<rparr>) r c' \<and>
       (\<forall>v \<in> set vs. fheap s' (v_addr v) = None)
     else r = code \<and> c' = c\<lparr>rx := rest\<rparr> \<and> s' = s"
    unfolding spec_request.simps by blast
  from w show ?thesis by (rule handledI) (rule reply_code [OF e])
qed

lemma read_handled:
  assumes inv: "server_inv s" and "valid_path p" "rx c = path_msg p @ rest" "clock s = now # ts"
    and room: "12 + unat (cfg_max_space (config s)) \<le> room c"
  shows "handled fd (Req_read p) s (read_file fd c s)"
proof -
  have r: "4 + length (data_msg (file_data f)) \<le> room c" if "stored s p = Some f" for f
    using inv_size_le [OF inv that] room by (simp add: data_msg_def)
  note rd = read_file_ok [OF assms(1-4) r, of fd]
  show ?thesis
  proof (cases "stored s p")
    case None
    then show ?thesis using rd inv
      by (intro handledI [of _ SA_NO_FILE "c\<lparr>rx := rest\<rparr>" s SA_NO_FILE]) (simp_all add: abs_store_at)
  next
    case (Some f)
    then have A: "abs_store s p = Some (abs_file f)" by (simp add: abs_store_at)
    have o: "fd \<in> a_open (abs_file f) \<longleftrightarrow> fd \<in> openers f" by (simp add: abs_file_def)
    show ?thesis
    proof (cases "fd \<in> openers f")
      case False
      then show ?thesis using rd inv Some A o
        by (intro handledI [of _ SA_NO_OPEN "c\<lparr>rx := rest\<rparr>" s SA_NO_OPEN]) simp_all
    next
      case True
      with rd Some obtain s' where run: "read_file fd c s = Ok (SA_SUCCESS, say (enc_int SA_SUCCESS @ data_msg (file_data f)) (c\<lparr>rx := rest\<rparr>), s')"
        "server_inv s'" and same: "abs_store s' = abs_store s" by auto
      from run show ?thesis by (rule handledI [where code = SA_SUCCESS]) (use A o True same in simp_all)
    qed
  qed
qed

lemma read_n_handled:
  assumes inv: "server_inv s" and some: "0 < unat (st_files (curr_state s)) \<or> 0 < N"
    and N: "- (2 ^ 31) \<le> N" "N < 2 ^ 31" and rx: "rx c = enc_int N @ rest"
  shows "handled fd (Req_read_n N) s (read_n_files fd c s)"
proof -
  from read_n_files_ok [OF assms, of fd] obtain r c' where
    r: "read_n_files fd c s = Ok (r, c', s)" "r = SA_SUCCESS \<or> r = SA_ERROR \<and> room c' = 0" by (auto split: if_splits)
  show ?thesis by (rule handledI [OF r(1) inv, of SA_SUCCESS]) (use r(2) in simp_all)
qed

lemma request_handled:
  assumes "server_inv s" "client_fd fd" "request_ok r" "rx c = request_args r @ rest" "clock s = t1 # t2 # ts"
    and "can_reply r c s"
  shows "\<exists>h. handler (op_value (request_op r)) = Some h \<and> handled fd r s (h fd c s)"
proof (cases r)
  case (Req_open p fl)
  then show ?thesis using assms open_handled [of s fd p c fl rest t1 t2 ts] handler_op [of r] by simp
next
  case (Req_close p)
  then show ?thesis using assms close_handled [of s fd p c rest] handler_op [of r] by simp
next
  case (Req_read p)
  then show ?thesis using assms read_handled [of s p c rest t1 "t2 # ts" fd] handler_op [of r] by simp
next
  case (Req_write p bs)
  then show ?thesis using assms write_handled [of s p bs c rest t1 "t2 # ts" fd] handler_op [of r] by simp
next
  case (Req_append p bs)
  then show ?thesis using assms append_handled [of s p bs c rest t1 "t2 # ts" fd] handler_op [of r] by simp
next
  case (Req_read_n N)
  then show ?thesis using assms read_n_handled [of s N c rest fd] handler_op [of r] by auto
next
  case (Req_remove p)
  then show ?thesis using assms remove_handled [of s p c rest fd] handler_op [of r] by simp
qed

lemma handler_post: "handler op = Some h \<Longrightarrow> post (h fd c s) (\<lambda>(r, c', s'). static s' = static s)"
  by (auto simp: handler_def intro!: keeps_wp split: if_splits)

lemma serve_post: "post (serve_request fd c st) (\<lambda>(code, c', st'). static st' = static st)"
proof -
  have run: "post (rbind (h fd c st) (\<lambda>(res, c, s). case conn_writen (enc_int res) c of (l, c) \<Rightarrow>
      Ok (if l = -1 then MW_FATAL_ERROR else result_code res, c, s))) (\<lambda>(code, c', st'). static st' = static st)"
    if "handler op = Some h" for op h c
    by (rule post_bind, rule post_mono [OF handler_post [OF that]]) (auto split: prod.splits)
  have step: "post (case handler op of None \<Rightarrow> Ok (MW_FATAL_ERROR, c, st) | Some h \<Rightarrow>
      rbind (h fd c st) (\<lambda>(res, c, s). case conn_writen (enc_int res) c of (l, c) \<Rightarrow>
        Ok (if l = -1 then MW_FATAL_ERROR else result_code res, c, s))) (\<lambda>(code, c', st'). static st' = static st)"
    for op c using run by (cases "handler op") simp_all
  have "post (case x of (l, op_code, c) \<Rightarrow> if l = -1 then Ok (MW_FATAL_ERROR, c, st)
      else if l = 0 then Ok (MW_CLOSE, c, st)
      else case handler (dec_int op_code) of None \<Rightarrow> Ok (MW_FATAL_ERROR, c, st)
           | Some h \<Rightarrow> rbind (h fd c st) (\<lambda>(res, c, s). case conn_writen (enc_int res) c of (l, c) \<Rightarrow>
               Ok (if l = -1 then MW_FATAL_ERROR else result_code res, c, s)))
      (\<lambda>(code, c', st'). static st' = static st)" for x :: "int \<times> byte list \<times> conn"
    by (cases x) (simp only: prod.case, intro post_if step, simp_all only: post_simps prod.case)
  then show ?thesis unfolding serve_request_def by (intro post_bind [OF post_any])
qed

lemma serve_ok:
  assumes inv: "server_inv s" "client_fd fd" and r: "request_ok r" and rx: "rx c = request_msg r @ rest"
    and clk: "clock s = t1 # t2 # ts" and reply: "can_reply r c s"
  shows "\<exists>code c' s' vs res. serve_request fd c s = Ok (code, c', s') \<and> server_inv s' \<and> config s' = config s \<and>
    (res, abs_store s') = spec_request fd r (unat (cfg_max_space (config s))) vs (abs_store s) \<and>
    (code = MW_FATAL_ERROR \<and> room c' = 0 \<or> code = result_code res \<and> (\<exists>reply. sent c' = reply @ enc_int res))"
proof -
  let ?c = "c\<lparr>rx := request_args r @ rest\<rparr>"
  have "can_reply r ?c s" using reply by (rule can_reply_mono) simp_all
  from request_handled [OF inv r _ clk this, of rest] obtain h where
    h: "handler (op_value (request_op r)) = Some h" "handled fd r s (h fd ?c s)" by auto
  then obtain res c1 s1 vs code where run: "h fd ?c s = Ok (res, c1, s1)" and s1: "server_inv s1"
    and sp: "(code, abs_store s1) = spec_request fd r (unat (cfg_max_space (config s))) vs (abs_store s)"
    and res: "res = code \<or> res = SA_ERROR \<and> room c1 = 0" unfolding handled_def by blast
  from serve_run [OF rx h(1) run] obtain mw c' where w: "serve_request fd c s = Ok (mw, c', s1)"
    "if 4 \<le> room c1 then mw = result_code res \<and> c' = say (enc_int res) c1 else mw = MW_FATAL_ERROR \<and> room c' = 0" by blast
  have "mw = MW_FATAL_ERROR \<and> room c' = 0 \<or> mw = result_code code \<and> (\<exists>reply. sent c' = reply @ enc_int code)"
    using w(2) res by (auto simp: result_code_def split: if_splits)
  then show ?thesis using w(1) s1 sp postD [OF handler_post [OF h(1)] run] unfolding static_def by blast
qed

section \<open>Sessions\<close>

text \<open>
  What happens to the server over time: requests of any clients, in any order, each with the state of
  its connection and the answers of the clock at that moment, and clients that leave. The events considered
  are those of \<open>event_ok\<close>: a whole request in the format of the protocol, and \<open>can_reply\<close>.
\<close>

datatype event = Ev_request int conn request "timespec list" | Ev_leave int

fun event_ok :: "event \<Rightarrow> server \<Rightarrow> bool" where
  "event_ok (Ev_request fd c r ts) s =
     (client_fd fd \<and> request_ok r \<and> (\<exists>rest. rx c = request_msg r @ rest) \<and> 2 \<le> length ts \<and> can_reply r c s)"
| "event_ok (Ev_leave fd) s = client_fd fd"

fun run_event :: "event \<Rightarrow> server \<Rightarrow> server res" where
  "run_event (Ev_request fd c r ts) s = rbind (serve_request fd c (s\<lparr>clock := ts\<rparr>)) (\<lambda>(code, c, s). Ok s)"
| "run_event (Ev_leave fd) s = close_client fd s"

inductive session :: "server_config_t \<Rightarrow> server \<Rightarrow> bool" for cfg where
  session_start: "server_init cfg ts Ample = Some s \<Longrightarrow> session cfg s"
| session_event: "session cfg s \<Longrightarrow> event_ok e s \<Longrightarrow> run_event e s = Ok s' \<Longrightarrow> session cfg s'"

definition config_ok :: "server_config_t \<Rightarrow> bool" where
  "config_ok cfg \<longleftrightarrow> 0 < unat (cfg_max_files cfg) \<and> unat (cfg_max_files cfg) < 2 ^ 27 \<and> unat (cfg_max_space cfg) < 2 ^ 63"

lemma set_clock [simp]: "server_inv (s\<lparr>clock := ts\<rparr>) = server_inv s" "abs_store (s\<lparr>clock := ts\<rparr>) = abs_store s"
  "can_reply r c (s\<lparr>clock := ts\<rparr>) = can_reply r c s"
  by (auto simp: server_inv_def store_ok_def limits_ok_def idle_def watermarks_ok_def abs_store_def stored_def
      addr_of_def fun_eq_iff cong: option.case_cong elim: can_reply_mono)

lemma event_runs:
  assumes inv: "server_inv s" and ok: "event_ok e s"
  shows "\<exists>s'. run_event e s = Ok s' \<and> server_inv s' \<and> config s' = config s"
proof (cases e)
  case (Ev_request fd c r ts)
  then obtain rest t1 t2 ts' where e: "client_fd fd" "request_ok r" "rx c = request_msg r @ rest"
    "ts = t1 # t2 # ts'" "can_reply r c s"
    using ok by (auto simp: numeral_2_eq_2 Suc_le_length_iff)
  from serve_ok [of "s\<lparr>clock := ts\<rparr>" fd r c rest t1 t2 ts'] e inv
  show ?thesis using Ev_request by (auto simp: rbind_eq_Ok)
next
  case (Ev_leave fd)
  then obtain s' where s': "close_client fd s = Ok s'" "server_inv s'"
    using close_client_ok [OF inv, of fd] ok by auto
  from postD [OF post_close_client s'(1)] s' Ev_leave show ?thesis by simp
qed

lemma server_init_starts: "\<exists>s. server_init cfg ts Ample = Some s"
proof -
  obtain m where "hashmap_init HASH_N_LIST default_hashmap_hash Ample = (Inr (), Some (m :: nat hashmap), Ample)"
    using hashmap_init_Ample [of HASH_N_LIST] by (auto simp: HASH_N_LIST_def)
  then show ?thesis by (simp add: server_init_def)
qed

lemma server_init_inv:
  assumes "server_init cfg ts Ample = Some s" "config_ok cfg"
  shows "server_inv s" "config s = cfg" "abs_store s = Map.empty"
proof -
  obtain m where m: "hashmap_init HASH_N_LIST default_hashmap_hash Ample = (Inr (), Some (m :: nat hashmap), Ample)"
    "hm_wf m" "entries m = []" "nlist m = HASH_N_LIST"
    using hashmap_init_Ample [of HASH_N_LIST] by (auto simp: HASH_N_LIST_def)
  from assms(1) m(1) have s: "files s = Some m" "smem s = Ample" "config s = cfg"
    "st_files (curr_state s) = 0" "st_space (curr_state s) = 0"
    by (auto simp: server_init_def)
  have ok: "store_ok s"
    using m s by (intro store_okI [of _ m]) (simp_all add: file_map_ok_def space_of_def)
  have "stored s k = None" for k using s(1) m(3) by (simp add: stored_def addr_of_def)
  then have "idle s" "abs_store s = Map.empty" unfolding idle_stored [OF ok] by (auto simp: abs_store_def)
  with ok s assms(2) show "server_inv s" "config s = cfg" "abs_store s = Map.empty"
    by (simp_all add: server_inv_def limits_ok_def watermarks_ok_def config_ok_def)
qed

lemma session_inv:
  assumes "session cfg s" "config_ok cfg"
  shows "server_inv s \<and> config s = cfg"
  using assms
proof (induction rule: session.induct)
  case (session_event s e s')
  then have "server_inv s" "config s = cfg" by auto
  from event_runs [OF this(1) session_event.hyps(2)] session_event.hyps(3) this(2) show ?case by auto
qed (simp add: server_init_inv)

section \<open>Properties\<close>

text \<open>C8: a worker serves every well-formed request on a server that satisfies the invariant: it returns (no
  crash, no undefined behaviour, no wait that never ends), the invariant and the configuration are kept,
  and the store changes as the abstract operation says. The client is told the result of that operation in the
  last bytes sent and the main thread gets the class of the result; only when the connection takes no more bytes
  is the answer a fatal error instead. Two conditions (\<open>can_reply\<close>): the connection of a
  \<open>READ_FILE\<close> takes the largest file, and \<open>READ_N_FILES\<close> for all the files is not sent to an empty store.
  The clock gives two readings.\<close>

theorem worker_serves_request:
  assumes "server_inv s" "client_fd fd" "request_ok r" "rx c = request_msg r @ rest" "clock s = t1 # t2 # ts"
    and "can_reply r c s"
  shows "\<exists>code c' s' vs res. serve_request fd c s = Ok (code, c', s') \<and> server_inv s' \<and> config s' = config s \<and>
    (res, abs_store s') = spec_request fd r (unat (cfg_max_space (config s))) vs (abs_store s) \<and>
    (code = MW_FATAL_ERROR \<and> room c' = 0 \<or> code = result_code res \<and> (\<exists>reply. sent c' = reply @ enc_int res))"
  by (rule serve_ok [OF assms])

lemma worker_serves_request_witness:
  "\<exists>code c' s'. serve_request 5 (demo_conn (request_msg (Req_remove [97]) @ [])) demo = Ok (code, c', s') \<and>
     server_inv s' \<and> abs_store s' = abs_store demo"
proof -
  have "client_fd 5" "request_ok (Req_remove [97])" using demo_path(1) by (simp_all add: client_fd_def)
  moreover have "can_reply (Req_remove [97]) (demo_conn (request_msg (Req_remove [97]) @ [])) demo"
    by simp
  moreover have "spec_remove 5 [97] (abs_store demo) = (SA_NOT_LOCKED, abs_store demo)"
    by (simp add: spec_remove_def abs_store_at demo_stored abs_file_def demo_file_def openers_def entries_def)
  ultimately show ?thesis
    using worker_serves_request [OF demo_inv _ _ demo_conn_rx demo_clock, of 5 "Req_remove [97]" "[]"] by fastforce
qed

text \<open>C1: no sequence of well-formed requests of any clients, in any order, with clients leaving in between,
  breaks the server, but for the two that the code gets wrong: from its start every event runs to its end,
  and in every state reached the store is well formed, no lock is held between requests, and the numbers of
  files and of bytes are within the limits of the configuration file. The two exceptions (\<open>can_reply\<close> in \<open>event_ok\<close>) are a
  client that sends \<open>READ_FILE\<close> and goes away before it has taken the reply (C37 shows the lock that is left), and
  \<open>READ_N_FILES\<close> for all the files of an empty store (undefined behaviour, \<open>read_n_files_empty_store\<close>). Any other client may
  stop reading at any byte. The clock gives two readings per request, and memory does not run
  out.\<close>

theorem session_safe:
  assumes "session cfg s" "config_ok cfg"
  shows "server_inv s \<and> st_files (curr_state s) \<le> cfg_max_files cfg \<and> st_space (curr_state s) \<le> cfg_max_space cfg \<and>
    (event_ok e s \<longrightarrow> (\<exists>s'. run_event e s = Ok s' \<and> session cfg s'))"
proof -
  have s: "server_inv s" "config s = cfg" using session_inv [OF assms] by auto
  then have "st_files (curr_state s) \<le> cfg_max_files cfg" "st_space (curr_state s) \<le> cfg_max_space cfg"
    by (auto simp: server_inv_def limits_ok_def word_le_nat_alt)
  moreover have "\<exists>s'. run_event e s = Ok s' \<and> session cfg s'" if "event_ok e s"
    using event_runs [OF s(1) that] session_event [OF assms(1) that] by blast
  ultimately show ?thesis using s(1) by blast
qed

definition demo_event :: event where
  "demo_event = Ev_request 4 (demo_conn (request_msg (Req_open [97] 3))) (Req_open [97] 3) [Timespec 1 0, Timespec 2 0]"

lemma session_safe_witness:
  "\<exists>s s'. session demo_config s \<and> run_event demo_event s = Ok s' \<and> server_inv s' \<and>
     st_files (curr_state s') \<le> cfg_max_files demo_config"
proof -
  have cfg: "config_ok demo_config" by (simp add: config_ok_def demo_config_def)
  obtain s where s: "server_init demo_config [] Ample = Some s" using server_init_starts by blast
  note start = session_start [OF s]
  have "config s = demo_config" using session_inv [OF start cfg] by simp
  then have "event_ok demo_event s"
    using demo_path(1) by (auto simp: demo_event_def client_fd_def demo_conn_def)
  with session_safe [OF start cfg, of demo_event] obtain s' where
    s': "run_event demo_event s = Ok s'" "session demo_config s'" by blast
  with session_safe [OF s'(2) cfg] start show ?thesis by blast
qed

end
