(* ===== verification/Api_Calls.thy ===== *)
theory Api_Calls
  imports Api Workers
begin

text \<open>
  What the calls of the client library send and what they make of the answer: each call sends the message
  of its request, and decodes the result and the files of the reply.
\<close>

section \<open>Sending and receiving\<close>

lemma api_bind_Ok: "m a = Ok (Some x, a1) \<Longrightarrow> api_bind m f a = f x a1"
  "m a = Ok (None, a1) \<Longrightarrow> api_bind m f a = Ok (None, a1)"
  by (simp_all add: api_bind_def)

lemma returned_Ok: "m a = Ok (Some r, a1) \<Longrightarrow> returned m a = Ok (r, a1)"
  "m a = Ok (None, a1) \<Longrightarrow> returned m a = Ok (-1, a1)"
  by (simp_all add: returned_def)

lemma send_all_room:
  "length (concat bss) \<le> room (the_link a) \<Longrightarrow>
   send_all bss a = Ok (Some (), a\<lparr>the_link := say (concat bss) (the_link a)\<rparr>)"
proof (induction bss arbitrary: a)
  case (Cons bs bss)
  let ?a = "a\<lparr>the_link := say bs (the_link a)\<rparr>"
  have "send_all bss ?a = Ok (Some (), ?a\<lparr>the_link := say (concat bss) (the_link ?a)\<rparr>)"
    using Cons.prems by (intro Cons.IH) simp
  moreover have "conn_writen bs (the_link a) = (1, say bs (the_link a))"
    using Cons.prems by (intro conn_writen_room) simp
  ultimately show ?case using Cons.prems by (simp add: say_say)
next
  case Nil
  show ?case by (cases a) (simp add: api_ret_def)
qed

definition hear :: "byte list \<Rightarrow> api \<Rightarrow> api" where
  "hear rest a = a\<lparr>the_link := (the_link a)\<lparr>rx := rest\<rparr>\<rparr>"

lemma hear_fields [simp]: "rx (the_link (hear rest a)) = rest" "hear rest' (hear rest a) = hear rest' a"
  "pmem (hear rest a) = pmem a" "the_disk (hear rest a) = the_disk a" "errno_v (hear rest a) = errno_v a"
  "fd_sock (hear rest a) = fd_sock a" "last_op (hear rest a) = last_op a" "socket_path (hear rest a) = socket_path a"
  "sent (the_link (hear rest a)) = sent (the_link a)" "room (the_link (hear rest a)) = room (the_link a)"
  by (simp_all add: hear_def)

lemma api_readn_prefix:
  assumes "rx (the_link a) = bs @ rest" "length bs = n" "0 < n" "n < 2 ^ 31"
  shows "api_readn n a = Ok (Some bs, hear rest a)"
  using conn_readn_prefix [OF assms(1,2,4)] assms(3) by (simp add: api_readn_def api_ret_def hear_def)

lemma read_res_prefix:
  assumes "rx (the_link a) = enc_int r @ rest" "- (2 ^ 31) \<le> r" "r < 2 ^ 31"
  shows "read_res a = Ok (Some r, hear rest a)"
  using api_readn_prefix [OF assms(1), of 4] dec_enc_int [OF assms(2,3)]
  by (simp add: read_res_def api_bind_Ok api_ret_def)

lemma api_malloc_Ample: "pmem a = Ample \<Longrightarrow> unat n < 2 ^ 63 \<Longrightarrow> api_malloc n a = Ok (Some (), a)"
  by (cases a) (simp add: api_malloc_def safe_malloc_Ample)

lemma list_alloc_Ample: "pmem a = Ample \<Longrightarrow> list_alloc a = Ok (Some (), a)"
  by (cases a) (simp add: list_alloc_def)

section \<open>The list of files\<close>

text \<open>A file that can be sent in a list: the path is not empty, for its length 0 ends the list.\<close>

definition sendable :: "path \<times> byte list \<Rightarrow> bool" where
  "sendable f \<longleftrightarrow> valid_path (fst f) \<and> fst f \<noteq> [] \<and> length (snd f) < 2 ^ 31"

definition received :: "(path \<times> byte list) list \<Rightarrow> (byte list \<times> size_n_buf_t) list" where
  "received fs = map (\<lambda>f. (fst f @ [0], snb (snd f))) fs"

lemma recv_one_ok:
  assumes f: "sendable (p, bs)" and mem: "pmem a = Ample" and rx: "rx (the_link a) = (p @ [0]) @ data_msg bs @ rest"
  shows "recv_one (int (length p)) a = Ok (Some (p @ [0], snb bs), hear rest a)"
proof -
  have len: "length p < 2 ^ 31 - 1" "length bs < 2 ^ 31" using f by (simp_all add: sendable_def valid_path_def)
  have n: "word_of_int (int (length p) + 1) = (word_of_nat (Suc (length p)) :: u64)" by simp
  have u: "unat (word_of_nat (Suc (length p)) :: u64) = Suc (length p)" using len by (intro unat_small) simp
  have b: "unat (word_of_nat (length bs) :: u64) = length bs" using len by (intro unat_small) simp
  have "api_readn (Suc (length p)) a = Ok (Some (p @ [0]), hear (data_msg bs @ rest) a)"
    using rx len by (intro api_readn_prefix) simp_all
  moreover have "api_readn 8 (hear (data_msg bs @ rest) a) = Ok (Some (enc_u64 (word_of_nat (length bs))), hear (bs @ rest) a)"
    using api_readn_prefix [of "hear (data_msg bs @ rest) a" "enc_u64 (word_of_nat (length bs))" "bs @ rest" 8]
    by (simp add: data_msg_def)
  moreover have "api_malloc (word_of_nat (length bs)) (hear (bs @ rest) a) = Ok (Some (), hear (bs @ rest) a)"
    using mem len b by (intro api_malloc_Ample) simp_all
  moreover have "api_readn (length bs) (hear (bs @ rest) a) = Ok (Some bs, hear rest a)" if "bs \<noteq> []"
    using api_readn_prefix [of "hear (bs @ rest) a" bs rest] len that by simp
  moreover have "api_malloc 16 a = Ok (Some (), a)" "api_malloc (word_of_nat (Suc (length p))) a = Ok (Some (), a)"
    using mem u len by (auto intro: api_malloc_Ample)
  moreover have "int (length p) \<noteq> 2 ^ 31 - 1" using len by simp
  ultimately show ?thesis
    using mem len unfolding recv_one_def Let_def n u
    by (auto simp: api_bind_Ok list_alloc_Ample b snb_def api_ret_def)
qed

lemma recv_files_ok:
  assumes "\<forall>f \<in> set fs. sendable f" "pmem a = Ample" "rx (the_link a) = list_msg fs @ rest"
  shows "recv_files acc a = Ok (Some (acc @ received fs), hear rest a)"
  using assms
proof (induction fs arbitrary: acc a)
  case Nil
  have "api_readn 4 a = Ok (Some (enc_int 0), hear rest a)"
    using Nil by (intro api_readn_prefix) (simp_all add: list_msg_def)
  moreover have "dec_int (enc_int 0) = 0" by (rule dec_enc_int) simp_all
  ultimately show ?case by (subst recv_files.simps) (simp add: received_def)
next
  case (Cons f fs)
  obtain p bs where f: "f = (p, bs)" by (cases f)
  have s: "sendable (p, bs)" using Cons.prems f by simp
  then have len: "length p < 2 ^ 31 - 1" "p \<noteq> []" by (simp_all add: sendable_def valid_path_def)
  let ?r1 = "(p @ [0]) @ data_msg bs @ list_msg fs @ rest"
  have "api_readn 4 a = Ok (Some (enc_int (int (length p))), hear ?r1 a)"
    using Cons.prems(3) f by (intro api_readn_prefix) (simp_all add: list_msg_def file_msg_def path_msg_def)
  moreover have "dec_int (enc_int (int (length p))) = int (length p)" using len by (intro dec_enc_int) simp_all
  moreover have "recv_one (int (length p)) (hear ?r1 a) = Ok (Some (p @ [0], snb bs), hear (list_msg fs @ rest) a)"
    using recv_one_ok [OF s, of "hear ?r1 a"] Cons.prems(2) by simp
  moreover have "recv_files (acc @ [(p @ [0], snb bs)]) (hear (list_msg fs @ rest) a) =
      Ok (Some ((acc @ [(p @ [0], snb bs)]) @ received fs), hear rest a)"
    using Cons.IH [of "hear (list_msg fs @ rest) a" "acc @ [(p @ [0], snb bs)]"] Cons.prems by simp
  ultimately show ?case using f len by (subst recv_files.simps) (simp add: received_def)
qed

lemma receive_list_ok:
  assumes "\<forall>f \<in> set fs. sendable f" "pmem a = Ample" "rx (the_link a) = list_msg fs @ enc_int SA_SUCCESS @ rest"
  shows "receive_list a = Ok (Some (received fs), hear rest a)"
  using recv_files_ok [OF assms(1,2), of "enc_int SA_SUCCESS @ rest" "[]"] assms(2,3)
    read_res_prefix [of "hear (enc_int SA_SUCCESS @ rest) a" SA_SUCCESS rest]
  by (simp add: receive_list_def api_bind_Ok list_alloc_Ample check_res_def api_ret_def)

section \<open>Storing the files\<close>

lemma key_strings_received:
  "\<forall>f \<in> set fs. sendable f \<Longrightarrow> key_strings (received fs) = Ok (map (\<lambda>f. (fst f, snb (snd f))) fs)"
proof -
  assume s: "\<forall>f \<in> set fs. sendable f"
  have "takeWhile (\<lambda>b. b \<noteq> 0) (fst f @ [0]) = fst f" if "f \<in> set fs" for f
    using s that by (subst takeWhile_append2) (auto simp: sendable_def valid_path_def)
  then show ?thesis by (auto simp: key_strings_def received_def)
qed

text \<open>A directory that is there and can take the files.\<close>

definition dir_ready :: "path \<Rightarrow> disk \<Rightarrow> (path \<times> byte list) list \<Rightarrow> bool" where
  "dir_ready dir d fs \<longleftrightarrow> dir \<noteq> [] \<and> length dir < PATH_MAX \<and> (\<forall>p. ancestor p dir \<longrightarrow> present d p) \<and>
     (\<forall>f \<in> set fs. can_write d dir (fst f) (snd f))"

definition with_files :: "path \<Rightarrow> (path \<times> byte list) list \<Rightarrow> disk \<Rightarrow> disk" where
  "with_files dir fs d = d\<lparr>disk_files := disk_files d ++ map_of (rev (map (\<lambda>f. (canon (target dir (fst f)), snd f)) fs))\<rparr>"

lemma store_received_dir:
  assumes "\<forall>f \<in> set fs. sendable f" "dir_ready dir (the_disk a) fs" "pmem a = Ample" "length fs < 2 ^ 31"
  shows "store_received (received fs) (Some dir) a =
    Some (Ok (int (length fs), a\<lparr>errno_v := EEXIST, the_disk := with_files dir fs (the_disk a)\<rparr>))"
proof -
  have "write_list_of_files_into_dir (map (\<lambda>f. (fst f, snb (snd f))) fs) (Some dir) a =
      write_files_loop dir (map (\<lambda>f. (fst f, snb (snd f))) fs) 0 (-1) (a\<lparr>errno_v := EEXIST\<rparr>)"
    using assms(2) by (intro write_list_ready) (simp_all add: dir_ready_def)
  also have "\<dots> = Some (Ok (0 + int (length fs), (a\<lparr>errno_v := EEXIST\<rparr>)
      \<lparr>the_disk := fold (store_file dir) fs (the_disk (a\<lparr>errno_v := EEXIST\<rparr>))\<rparr>))"
    using assms(2,3) by (intro write_files_ok) (simp_all add: dir_ready_def)
  finally show ?thesis
    using key_strings_received [OF assms(1)]
    by (simp add: store_received_def with_files_def fold_store_files) (simp add: received_def)
qed

lemma store_received_none:
  assumes "length fs < 2 ^ 32"
  shows "store_received fs None a = Some (Ok (if fs = [] then (0, a) else (-1, a\<lparr>errno_v := ECANCELED\<rparr>)))"
proof -
  have "0 < (word_of_nat (length fs) :: u32)" if "fs \<noteq> []"
    using assms that by (simp add: word_less_nat_alt unsigned_of_nat take_bit_nat_eq_self)
  then show ?thesis by (auto simp: store_received_def write_list_of_files_into_dir_def)
qed

lemma store_received_no_dir:
  assumes "\<forall>f \<in> set fs. sendable f" "mkdir_p dir a = Ok (-1, a')"
  shows "store_received (received fs) (Some dir) a = Some (Ok (-1, a'))"
proof -
  have "(word_of_int (-1) :: u32) = - 1" by simp
  moreover have "\<not> (- 1 :: u32) < w" for w by (simp add: not_less)
  ultimately show ?thesis
    by (simp add: store_received_def key_strings_received [OF assms(1)] write_list_of_files_into_dir_def assms(2))
qed

section \<open>The calls\<close>

text \<open>
  The state of a client that has sent a request and read an answer up to \<open>rest\<close>.
\<close>

definition spoke :: "request \<Rightarrow> byte list \<Rightarrow> api \<Rightarrow> api" where
  "spoke r rest a = a\<lparr>the_link := say (request_msg r) ((the_link a)\<lparr>rx := rest\<rparr>)\<rparr>"

lemma spoke_fields [simp]: "rx (the_link (spoke r rest a)) = rest" "sent (the_link (spoke r rest a)) = sent (the_link a) @ request_msg r"
  "pmem (spoke r rest a) = pmem a" "the_disk (spoke r rest a) = the_disk a" "errno_v (spoke r rest a) = errno_v a"
  "fd_sock (spoke r rest a) = fd_sock a" "last_op (spoke r rest a) = last_op a" "socket_path (spoke r rest a) = socket_path a"
  "hear rest' (spoke r rest a) = spoke r rest' a"
  by (simp_all add: spoke_def hear_def say_def)

text \<open>A connected client whose connection does not break while the request is sent.\<close>

definition can_send :: "request \<Rightarrow> api \<Rightarrow> bool" where
  "can_send r a \<longleftrightarrow> fd_sock a \<noteq> -1 \<and> pmem a = Ample \<and> length (request_msg r) \<le> room (the_link a)"

lemma send_request:
  assumes "concat bss = request_msg r" "can_send r a"
  shows "send_all bss a = Ok (Some (), spoke r (rx (the_link a)) a)"
proof -
  have "(the_link a)\<lparr>rx := rx (the_link a)\<rparr> = the_link a" by simp
  then show ?thesis using send_all_room [of bss a] assms by (simp add: spoke_def can_send_def)
qed

definition res_ok :: "int \<Rightarrow> bool" where
  "res_ok res \<longleftrightarrow> - (2 ^ 31) \<le> res \<and> res < 2 ^ 31"

text \<open>What a call answers for a result of the server.\<close>

definition answer_of :: "int \<Rightarrow> api \<Rightarrow> (int \<times> api) res" where
  "answer_of res a = Ok (if res = SA_SUCCESS then 0 else -1, a\<lparr>errno_v := convert_res_to_errno res\<rparr>)"

lemma convert_success [simp]: "convert_res_to_errno SA_SUCCESS = Errno_0"
  by (simp add: convert_res_to_errno_def)

lemma can_send_reset [simp]: "can_send r (a\<lparr>last_op := L\<rparr>) = can_send r a"
  by (simp add: can_send_def)

lemma spoke_upd [simp]: "spoke r rest (a\<lparr>last_op := L\<rparr>) = (spoke r rest a)\<lparr>last_op := L\<rparr>"
  by (simp add: spoke_def)

lemma hear_upd [simp]: "hear rest (a\<lparr>last_op := L\<rparr>) = (hear rest a)\<lparr>last_op := L\<rparr>"
  by (simp add: hear_def)

lemma read_res_spoke:
  assumes "rx (the_link a) = enc_int res @ rest" "res_ok res"
  shows "read_res ((spoke r (rx (the_link a)) a)\<lparr>last_op := L\<rparr>) = Ok (Some res, (spoke r rest a)\<lparr>last_op := L\<rparr>)"
  using read_res_prefix [of "(spoke r (rx (the_link a)) a)\<lparr>last_op := L\<rparr>" res rest] assms by (simp add: res_ok_def)

lemma connected_ok: "fd_sock a \<noteq> -1 \<Longrightarrow> valid_path p \<Longrightarrow> connected_path (Some p) act a = act p a"
  by (simp add: connected_path_def valid_path_def)

lemma path_bufs_msg: "concat (path_bufs p) = path_msg p"
  by (simp add: path_bufs_def path_msg_def)

lemma finish_answer: "returned (finish res) a = answer_of res a"
  by (simp add: returned_def finish_def api_ret_def api_fail_def answer_of_def)

lemma returned_bind: "m a = Ok (Some x, a1) \<Longrightarrow> returned (api_bind m f) a = returned (f x) a1"
  by (simp add: returned_def api_bind_def)

lemma plain_call:
  assumes "can_send r a" "concat bss = request_msg r" "rx (the_link a) = enc_int res @ rest" "res_ok res"
  shows "returned (api_bind (modify_api RESET_LAST_OP) (\<lambda>_. api_bind (send_all bss) (\<lambda>_. api_bind read_res finish))) a =
    answer_of res ((spoke r rest a)\<lparr>last_op := no_op\<rparr>)"
proof -
  let ?a = "a\<lparr>last_op := no_op\<rparr>"
  have "modify_api RESET_LAST_OP a = Ok (Some (), ?a)" by (simp add: modify_api_def RESET_LAST_OP_def)
  moreover have "send_all bss ?a = Ok (Some (), (spoke r (rx (the_link a)) a)\<lparr>last_op := no_op\<rparr>)"
    using send_request [OF assms(2), of ?a] assms(1) by simp
  ultimately show ?thesis
    by (simp add: returned_bind read_res_spoke [OF assms(3,4)] finish_answer)
qed

lemma closeFile_ok:
  assumes "can_send (Req_close p) a" "valid_path p" "rx (the_link a) = enc_int res @ rest" "res_ok res"
  shows "closeFile (Some p) a = answer_of res ((spoke (Req_close p) rest a)\<lparr>last_op := no_op\<rparr>)"
  using plain_call [OF assms(1) _ assms(3,4), of "op_buf CLOSE_FILE # path_bufs p"] assms(1,2)
  by (simp add: closeFile_def connected_ok can_send_def returned_def request_msg_def op_buf_def path_bufs_msg)

lemma removeFile_ok:
  assumes "can_send (Req_remove p) a" "valid_path p" "rx (the_link a) = enc_int res @ rest" "res_ok res"
  shows "removeFile (Some p) a = answer_of res ((spoke (Req_remove p) rest a)\<lparr>last_op := no_op\<rparr>)"
  using plain_call [OF assms(1) _ assms(3,4), of "op_buf REMOVE_FILE # path_bufs p"] assms(1,2)
  by (simp add: removeFile_def connected_ok can_send_def returned_def request_msg_def op_buf_def path_bufs_msg)

definition opened :: "path \<Rightarrow> u32 \<Rightarrow> bool \<Rightarrow> last_op_t" where
  "opened p flags ok = \<lparr>is_open = True, lo_create = is_flag_set flags O_CREATE, lo_lock = is_flag_set flags O_LOCK,
     lo_success = ok, lo_path = Some p\<rparr>"

lemma openFile_ok:
  assumes "can_send (Req_open p fl) a" "valid_path p" "rx (the_link a) = enc_int res @ rest" "res_ok res"
  shows "openFile (Some p) fl a = answer_of res ((spoke (Req_open p fl) rest a)\<lparr>last_op := opened p fl (res = SA_SUCCESS)\<rparr>)"
proof -
  let ?r = "Req_open p fl" and ?a = "spoke (Req_open p fl) (rx (the_link a)) a"
  have len: "length p < 2 ^ 31 - 1" using assms(2) by (simp add: valid_path_def)
  have "send_all (op_buf OPEN_FILE # path_bufs p @ [enc_u32 fl]) a = Ok (Some (), ?a)"
    using assms(1) by (intro send_request) (simp_all add: request_msg_def op_buf_def path_bufs_msg)
  moreover have "unat (word_of_nat (length p + 1) :: u64) = length p + 1" using len by (intro unat_small) simp
  then have "api_malloc (word_of_nat (length p + 1)) ?a = Ok (Some (), ?a)"
    using assms(1) len by (intro api_malloc_Ample) (simp_all add: can_send_def)
  moreover have "modify_api (\<lambda>a. a\<lparr>last_op := \<lparr>is_open = True, lo_create = is_flag_set fl O_CREATE,
      lo_lock = is_flag_set fl O_LOCK, lo_success = False, lo_path = Some p\<rparr>\<rparr>) ?a = Ok (Some (), ?a\<lparr>last_op := opened p fl False\<rparr>)"
    by (simp add: modify_api_def opened_def)
  ultimately show ?thesis
    using assms(1,2) read_res_spoke [OF assms(3,4), of "opened p fl False" ?r]
    by (simp add: openFile_def returned_def connected_ok can_send_def api_bind_Ok check_res_def api_ret_def api_fail_def
        modify_api_def answer_of_def opened_def)
qed

text \<open>The start of a call up to its first result.\<close>

lemma first_result:
  assumes "can_send r a" "concat bss = request_msg r" "rx (the_link a) = enc_int res @ rest" "res_ok res"
  shows "api_bind (modify_api RESET_LAST_OP) (\<lambda>_. api_bind (send_all bss) (\<lambda>_. api_bind read_res k)) a =
    k res ((spoke r rest a)\<lparr>last_op := no_op\<rparr>)"
proof -
  let ?a = "a\<lparr>last_op := no_op\<rparr>"
  have "modify_api RESET_LAST_OP a = Ok (Some (), ?a)" by (simp add: modify_api_def RESET_LAST_OP_def)
  moreover have "send_all bss ?a = Ok (Some (), (spoke r (rx (the_link a)) a)\<lparr>last_op := no_op\<rparr>)"
    using send_request [OF assms(2), of ?a] assms(1) by simp
  ultimately show ?thesis
    by (simp add: api_bind_Ok read_res_spoke [OF assms(3,4)])
qed

lemma readFile_run:
  assumes "can_send (Req_read p) a" "valid_path p" "rx (the_link a) = enc_int res @ rest" "res_ok res"
  shows "readFile (Some p) True True a =
    (let a1 = (spoke (Req_read p) rest a)\<lparr>last_op := no_op\<rparr>
     in if res = SA_SUCCESS
        then rbind (read_contents (None, None) a1) (\<lambda>(x, a). Ok (case x of None \<Rightarrow> (-1, None, None) | Some r \<Rightarrow> r, a))
        else Ok ((-1, None, None), a1\<lparr>errno_v := convert_res_to_errno res\<rparr>))"
proof -
  have "concat (op_buf READ_FILE # path_bufs p) = request_msg (Req_read p)"
    by (simp add: request_msg_def op_buf_def path_bufs_msg)
  note run = first_result [OF assms(1) this assms(3,4)]
  have "fd_sock a \<noteq> -1" using assms(1) by (simp add: can_send_def)
  then show ?thesis
    unfolding readFile_def using assms(2)
    by (simp add: connected_ok run) (simp add: check_res_def api_bind_def api_ret_def api_fail_def Let_def)
qed

lemma read_contents_ok:
  assumes "rx (the_link a) = data_msg bs @ enc_int res @ rest" "bs \<noteq> []" "length bs < 2 ^ 31" "pmem a = Ample" "res_ok res"
  shows "read_contents out a =
    Ok (Some (if res = SA_SUCCESS then 0 else -1, Some (word_of_nat (length bs)), Some bs),
        (hear rest a)\<lparr>errno_v := convert_res_to_errno res\<rparr>)"
proof -
  let ?n = "word_of_nat (length bs) :: u64"
  have n: "unat ?n = length bs" using assms(3) by (rule unat_small)
  have "api_readn 8 a = Ok (Some (enc_u64 ?n), hear (bs @ enc_int res @ rest) a)"
    using assms(1) by (intro api_readn_prefix) (simp_all add: data_msg_def)
  moreover have "api_malloc ?n (hear (bs @ enc_int res @ rest) a) = Ok (Some (), hear (bs @ enc_int res @ rest) a)"
    using n assms(3,4) by (intro api_malloc_Ample) simp_all
  moreover have "api_readn (length bs) (hear (bs @ enc_int res @ rest) a) = Ok (Some bs, hear (enc_int res @ rest) a)"
    using api_readn_prefix [of "hear (bs @ enc_int res @ rest) a" bs "enc_int res @ rest"] assms(2,3) by simp
  moreover have "read_res (hear (enc_int res @ rest) a) = Ok (Some res, hear rest a)"
    using read_res_prefix [of "hear (enc_int res @ rest) a" res rest] assms(5) by (simp add: res_ok_def)
  ultimately show ?thesis
    by (simp add: read_contents_def n returned_bind finish_answer answer_of_def)
qed

text \<open>The buffer of an empty file has size 0, and \<open>readn\<close> answers 0 for it as for a closed connection.\<close>

lemma read_contents_empty:
  assumes "rx (the_link a) = data_msg [] @ rest" "pmem a = Ample"
  shows "read_contents out a = Ok (Some (-1, Some 0, None), (hear rest a)\<lparr>errno_v := EBADE\<rparr>)"
proof -
  have "api_readn 8 a = Ok (Some (enc_u64 0), hear rest a)"
    using assms(1) by (intro api_readn_prefix) (simp_all add: data_msg_def)
  moreover have "api_malloc 0 (hear rest a) = Ok (Some (), hear rest a)"
    using assms(2) by (intro api_malloc_Ample) simp_all
  moreover have "api_readn 0 (hear rest a) = Ok (None, (hear rest a)\<lparr>errno_v := EBADE\<rparr>)"
    by (simp add: api_readn_def conn_readn_def to_int32_def api_fail_def hear_def)
  ultimately show ?thesis by (simp add: read_contents_def)
qed

lemma then_files_ok:
  assumes "m a = Ok (Some (), a1)" "\<forall>f \<in> set fs. sendable f" "pmem a1 = Ample"
    "rx (the_link a1) = list_msg fs @ enc_int SA_SUCCESS @ rest"
  shows "then_files m dirname a = store_received (received fs) dirname (hear rest a1)"
  using assms(1) receive_list_ok [OF assms(2-4)] by (simp add: then_files_def write_files_sent_by_server_def)

lemma then_files_fail: "m a = Ok (None, a1) \<Longrightarrow> then_files m dirname a = Some (Ok (-1, a1))"
  by (simp add: then_files_def)

text \<open>The client after the answer to a request whose reply has files.\<close>

definition heard :: "request \<Rightarrow> byte list \<Rightarrow> api \<Rightarrow> api" where
  "heard r rest a = (spoke r rest a)\<lparr>last_op := no_op\<rparr>"

lemma heard_fields [simp]: "rx (the_link (heard r rest a)) = rest" "pmem (heard r rest a) = pmem a"
  "the_disk (heard r rest a) = the_disk a" "hear rest' (heard r rest a) = heard r rest' a"
  "sent (the_link (heard r rest a)) = sent (the_link a) @ request_msg r" "fd_sock (heard r rest a) = fd_sock a"
  "last_op (heard r rest a) = no_op" "socket_path (heard r rest a) = socket_path a"
  by (simp_all add: heard_def)

lemma check_res_answer: "check_res res a = Ok (if res = SA_SUCCESS then (Some (), a) else (None, a\<lparr>errno_v := convert_res_to_errno res\<rparr>))"
  by (simp add: check_res_def api_ret_def api_fail_def)

text \<open>A call with files in the answer, when the request goes out by \<open>m\<close>.\<close>

definition files_answer :: "request \<Rightarrow> int \<Rightarrow> (path \<times> byte list) list \<Rightarrow> byte list \<Rightarrow> path option \<Rightarrow> api \<Rightarrow> (int \<times> api) res option" where
  "files_answer r res fs rest dirname a =
     (if res = SA_SUCCESS then store_received (received fs) dirname (heard r rest a)
      else Some (Ok (-1, (heard r rest a)\<lparr>errno_v := convert_res_to_errno res\<rparr>)))"

definition files_reply :: "int \<Rightarrow> (path \<times> byte list) list \<Rightarrow> byte list" where
  "files_reply res fs = (if res = SA_SUCCESS then enc_int SA_SUCCESS @ list_msg fs @ enc_int SA_SUCCESS else enc_int res)"

lemma files_call:
  assumes "can_send r a" "concat bss = request_msg r" "rx (the_link a) = files_reply res fs @ rest" "res_ok res"
    "\<forall>f \<in> set fs. sendable f"
  shows "then_files (api_bind (modify_api RESET_LAST_OP) (\<lambda>_. api_bind (send_all bss) (\<lambda>_. api_bind read_res check_res))) dirname a =
    files_answer r res fs rest dirname a"
proof -
  obtain tail where tail: "rx (the_link a) = enc_int res @ tail"
    "res = SA_SUCCESS \<Longrightarrow> tail = list_msg fs @ enc_int SA_SUCCESS @ rest" "res \<noteq> SA_SUCCESS \<Longrightarrow> tail = rest"
    by (cases "res = SA_SUCCESS") (use assms(3) in \<open>auto simp: files_reply_def\<close>)
  note run = first_result [OF assms(1,2) tail(1) assms(4), of check_res]
  show ?thesis
  proof (cases "res = SA_SUCCESS")
    case True
    then show ?thesis
      using then_files_ok [of _ a "heard r tail a" fs rest dirname] run assms(1,5) tail(2)
      by (simp add: files_answer_def check_res_answer heard_def [symmetric] can_send_def)
  next
    case False
    then show ?thesis using run tail(3)
      by (simp add: files_answer_def check_res_answer heard_def [symmetric] then_files_fail)
  qed
qed

lemma appendToFile_ok:
  assumes "can_send (Req_append p bs) a" "valid_path p" "length bs < 2 ^ 31" "bs \<noteq> []"
    "rx (the_link a) = files_reply res fs @ rest" "res_ok res" "\<forall>f \<in> set fs. sendable f"
  shows "appendToFile (Some p) (Some bs) (word_of_nat (length bs)) dirname a = files_answer (Req_append p bs) res fs rest dirname a"
proof -
  let ?n = "word_of_nat (length bs) :: u64"
  have n: "unat ?n = length bs" "0 < ?n" using assms(3,4) by (simp_all add: word_less_nat_alt)
  have "concat (op_buf APPEND_TO_FILE # path_bufs p @ [enc_u64 ?n, bs]) = request_msg (Req_append p bs)"
    by (simp add: request_msg_def op_buf_def path_bufs_msg data_msg_def)
  from files_call [OF assms(1) this assms(5-7)] show ?thesis
    using assms(1,2) n by (simp add: appendToFile_def connected_ok can_send_def then_files_def)
qed

lemma readNFiles_ok:
  assumes "can_send (Req_read_n N) a" "rx (the_link a) = files_reply res fs @ rest" "res_ok res" "\<forall>f \<in> set fs. sendable f"
  shows "readNFiles N dirname a = files_answer (Req_read_n N) res fs rest dirname a"
  using files_call [OF assms(1) _ assms(2-4), of "[op_buf READ_N_FILES, enc_int N]"] assms(1)
  by (simp add: readNFiles_def can_send_def then_files_def request_msg_def op_buf_def)

text \<open>The check on the last operation lets through every path that the opened path starts with.\<close>

lemma strncmp_eq_prefix:
  assumes "0 \<notin> set p" "0 \<notin> set q"
  shows "strncmp_eq q p (length p) \<longleftrightarrow> (\<exists>q'. q = p @ q')"
proof
  assume "strncmp_eq q p (length p)"
  then have eq: "take (length p) (q @ [0]) = p" by (simp add: strncmp_eq_def)
  then have "length p \<le> length q"
    using assms(1) by (cases "length p \<le> length q") (auto simp: not_le Suc_le_eq)
  with eq have "take (length p) q = p" by simp
  then show "\<exists>q'. q = p @ q'" by (metis append_take_drop_id)
qed (auto simp: strncmp_eq_def)

lemma writeFile_ok:
  assumes "can_send (Req_write p bs) a" "valid_path p" "length bs < 2 ^ 31"
    "fopen_rb p (the_disk a) = Some bs" "\<not> read_broken (the_disk a) (canon p)"
    "last_op a = opened p (O_CREATE OR O_LOCK) True"
    "rx (the_link a) = files_reply res fs @ rest" "res_ok res" "\<forall>f \<in> set fs. sendable f"
  shows "writeFile (Some p) dirname a =
    lbind (files_answer (Req_write p bs) res fs rest dirname a) (\<lambda>(n, a). Some (Ok (if n = -1 then -1 else 0, a)))"
proof -
  let ?n = "word_of_nat (length bs) :: u64" and ?a = "a\<lparr>last_op := no_op\<rparr>"
  have n: "unat ?n = length bs" using assms(3) by simp
  have fl: "is_flag_set (O_CREATE OR O_LOCK) O_CREATE" "is_flag_set (O_CREATE OR O_LOCK) O_LOCK"
    by (simp_all add: is_flag_set_bit bit_or_iff) (simp_all add: O_CREATE_def O_LOCK_def bit_iff_odd)
  have "last_op_allows p a = Ok (Some (), a)"
    using assms(6) fl by (simp add: last_op_allows_def opened_def strncmp_eq_def api_ret_def)
  moreover have reset: "modify_api RESET_LAST_OP a = Ok (Some (), ?a)" by (simp add: modify_api_def RESET_LAST_OP_def)
  moreover have "read_disk p ?a = Ok (Some bs, ?a)"
    using assms(1,3-5) n by (simp add: read_disk_def api_bind_Ok api_malloc_Ample can_send_def api_ret_def)
  ultimately have run: "connected_path (Some p) (\<lambda>p. api_bind (last_op_allows p) (\<lambda>_.
       api_bind (modify_api RESET_LAST_OP) (\<lambda>_. api_bind (read_disk p) (\<lambda>buffer.
       api_bind (send_all (op_buf WRITE_FILE # path_bufs p @ [enc_u64 (word_of_nat (length buffer)), buffer])) (\<lambda>_.
       api_bind read_res check_res))))) a =
     api_bind (modify_api RESET_LAST_OP) (\<lambda>_. api_bind (send_all (op_buf WRITE_FILE # path_bufs p @ [enc_u64 ?n, bs])) (\<lambda>_.
       api_bind read_res check_res)) a"
    using assms(1,2) by (simp add: connected_ok can_send_def api_bind_Ok)
  have "concat (op_buf WRITE_FILE # path_bufs p @ [enc_u64 ?n, bs]) = request_msg (Req_write p bs)"
    by (simp add: request_msg_def op_buf_def path_bufs_msg data_msg_def)
  from files_call [OF assms(1) this assms(7-9)] show ?thesis
    unfolding writeFile_def then_files_def run by simp
qed

section \<open>Connecting\<close>

text \<open>The time known before each attempt: the one at the start, then what the clock answered.\<close>

definition times_before :: "timespec \<Rightarrow> attempt list \<Rightarrow> timespec list" where
  "times_before now ats = now # map (\<lambda>at. case time_now at of Inr t \<Rightarrow> t | Inl e \<Rightarrow> now) ats"

lemma connect_loop_run:
  assumes "k < length ats" "\<forall>at \<in> set ats. sleep_err at = None \<and> isl (time_now at) = False"
    "\<forall>j < k. \<not> connects (ats ! j) \<and> tv_sec (times_before now ats ! j) < tv_sec abstime"
    "connects (ats ! k) \<or> \<not> tv_sec (times_before now ats ! k) < tv_sec abstime"
  shows "connect_loop abstime now ats a =
    (if connects (ats ! k) then Ok (Some 0, a) else Ok (None, (RESET_SOCK a)\<lparr>errno_v := ETIMEDOUT\<rparr>))"
  using assms
proof (induction ats arbitrary: now k)
  case (Cons at ats)
  show ?case
  proof (cases k)
    case 0
    then show ?thesis using Cons.prems(4) by (auto simp: times_before_def api_ret_def api_fail_def)
  next
    case (Suc k')
    obtain t where t: "time_now at = Inr t" "sleep_err at = None" using Cons.prems(2) by (cases "time_now at") auto
    have first: "\<not> connects at" "tv_sec now < tv_sec abstime" using Cons.prems(3) Suc by (auto simp: times_before_def)
    have sh: "times_before t ats ! j = times_before now (at # ats) ! Suc j" if "j \<le> length ats" for j
    proof (cases j)
      case (Suc i)
      then have "isl (time_now (ats ! i)) = False" using Cons.prems(2) that by auto
      then show ?thesis using Suc that by (cases "time_now (ats ! i)") (simp_all add: times_before_def)
    qed (simp add: times_before_def t)
    have "connect_loop abstime t ats a = (if connects (ats ! k') then Ok (Some 0, a) else Ok (None, (RESET_SOCK a)\<lparr>errno_v := ETIMEDOUT\<rparr>))"
    proof (rule Cons.IH)
      show "\<forall>j < k'. \<not> connects (ats ! j) \<and> tv_sec (times_before t ats ! j) < tv_sec abstime"
        using Cons.prems(1,3) Suc sh by fastforce
      show "connects (ats ! k') \<or> \<not> tv_sec (times_before t ats ! k') < tv_sec abstime"
        using Cons.prems(1,4) Suc sh [of k'] by simp
    qed (use Cons.prems Suc in simp_all)
    then show ?thesis using first t Suc by simp
  qed
qed simp

section \<open>Properties\<close>

text \<open>C27: the list of files that the server sends after an expulsion or a reading, \<open>send_list_of_files\<close>, is what
  \<open>write_files_sent_by_server\<close> reads: the same paths and contents in the same order, leaving what
  follows; provided that no path is empty.\<close>

theorem file_list_roundtrip:
  assumes "\<forall>v \<in> set vs. fheap s (v_addr v) = Some (v_file v) \<and> file_ok (v_path v) (v_file v) \<and> v_path v \<noteq> [] \<and>
      length (file_data (v_file v)) < 2 ^ 31"
    and "length (list_msg (listing vs)) \<le> room c" "pmem a = Ample"
  shows "\<exists>m c'. send_list_of_files (Some (map v_addr vs)) True s c = Ok (0, c') \<and> sent c' = sent c @ m \<and>
    receive_list (hear (m @ enc_int SA_SUCCESS @ rest) a) = Ok (Some (received (listing vs)), hear rest a)"
proof -
  obtain c' where "send_list_of_files (Some (map v_addr vs)) True s c = Ok (0, c')"
    "c' = say (list_msg (listing vs)) c"
    using send_list_ok [of vs s c] assms(1,2) by auto
  moreover have "\<forall>f \<in> set (listing vs). sendable f"
    using assms(1) by (auto simp: listing_def sendable_def file_ok_def)
  then have "receive_list (hear (list_msg (listing vs) @ enc_int SA_SUCCESS @ rest) a) = Ok (Some (received (listing vs)), hear rest a)"
    using receive_list_ok [of "listing vs" "hear (list_msg (listing vs) @ enc_int SA_SUCCESS @ rest) a" rest] assms(3) by simp
  ultimately show ?thesis by auto
qed

definition demo_client :: api where
  "demo_client = \<lparr>errno_v = Errno_0, pmem = Ample, the_disk = demo_disk, fd_sock = 4, socket_path = Some [115],
     last_op = no_op, the_link = demo_conn []\<rparr>"

lemma file_list_roundtrip_witness:
  "\<exists>m c'. send_list_of_files (Some [0]) True demo (demo_conn []) = Ok (0, c') \<and> sent c' = sent (demo_conn []) @ m \<and>
     receive_list (hear (m @ enc_int SA_SUCCESS @ [7]) demo_client) = Ok (Some [([97, 0], snb [1, 2, 3])], hear [7] demo_client)"
proof -
  let ?v = "([97], 0, demo_file [97] [1, 2, 3] 4 1 9)"
  have d: "file_data (demo_file [97] [1, 2, 3] 4 1 9) = [1, 2, 3]" by (simp add: demo_file_def file_data_def abs_file_def)
  have "file_ok [97] (demo_file [97] [1, 2, 3] 4 1 9)" using demo_path(1) by (intro demo_file_ok) simp_all
  then have v: "\<forall>v \<in> set [?v]. fheap demo (v_addr v) = Some (v_file v) \<and> file_ok (v_path v) (v_file v) \<and> v_path v \<noteq> [] \<and>
      length (file_data (v_file v)) < 2 ^ 31" using d by (simp add: demo_def)
  have "length (list_msg (listing [?v])) \<le> room (demo_conn [])" "pmem demo_client = Ample"
    by (simp_all add: list_msg_def listing_def d file_msg_def path_msg_def data_msg_def demo_conn_def demo_client_def)
  from file_list_roundtrip [OF v this, of "[7]"] show ?thesis by (simp add: received_def listing_def d)
qed

lemma demo_can_send: "length (request_msg r) \<le> 1000 \<Longrightarrow> can_send r demo_client"
  by (simp add: can_send_def demo_client_def demo_conn_def)

text \<open>\<open>writeFile\<close> sends nothing and returns -1 with \<open>ENOTTY\<close> unless the last call was a successful opening
  with creation and lock of a path that starts with the given one; a longer path passes the check
  as well as the path itself.\<close>

theorem writeFile_guard:
  assumes "fd_sock a \<noteq> -1" "valid_path p" "\<And>q. lo_path (last_op a) = Some q \<Longrightarrow> 0 \<notin> set q"
    "is_open (last_op a) \<Longrightarrow> lo_path (last_op a) \<noteq> None"
  shows "if is_open (last_op a) \<and> lo_create (last_op a) \<and> lo_lock (last_op a) \<and> lo_success (last_op a) \<and>
       (\<exists>q. lo_path (last_op a) = Some (p @ q))
     then last_op_allows p a = Ok (Some (), a)
     else writeFile (Some p) dirname a = Some (Ok (-1, a\<lparr>errno_v := ENOTTY\<rparr>))"
proof (cases "is_open (last_op a) \<and> lo_create (last_op a) \<and> lo_lock (last_op a) \<and> lo_success (last_op a) \<and>
       (\<exists>q. lo_path (last_op a) = Some (p @ q))")
  case True
  then show ?thesis by (auto simp: last_op_allows_def strncmp_eq_def api_ret_def)
next
  case False
  have p: "0 \<notin> set p" using assms(2) by (simp add: valid_path_def)
  have "last_op_allows p a = Ok (None, a\<lparr>errno_v := ENOTTY\<rparr>)"
  proof (cases "is_open (last_op a) \<and> lo_create (last_op a) \<and> lo_lock (last_op a) \<and> lo_success (last_op a)")
    case True
    then obtain q where q: "lo_path (last_op a) = Some q" using assms(4) by auto
    then have "\<not> strncmp_eq q p (length p)"
      using False True strncmp_eq_prefix [OF p assms(3) [OF q]] by auto
    with True q show ?thesis by (simp add: last_op_allows_def api_fail_def)
  qed (auto simp: last_op_allows_def api_fail_def)
  then show ?thesis unfolding if_not_P [OF False] using assms(1,2) by (simp add: writeFile_def then_files_def connected_ok api_bind_Ok)
qed

lemma writeFile_guard_witness:
  "writeFile (Some [97]) None demo_client = Some (Ok (-1, demo_client\<lparr>errno_v := ENOTTY\<rparr>)) \<and>
   last_op_allows [97] (demo_client\<lparr>last_op := opened [97, 98] 3 True\<rparr>) = Ok (Some (), demo_client\<lparr>last_op := opened [97, 98] 3 True\<rparr>)"
proof -
  let ?a = "demo_client\<lparr>last_op := opened [97, 98] 3 True\<rparr>"
  have "is_flag_set 3 O_CREATE" "is_flag_set 3 O_LOCK" by (simp_all add: is_flag_set_def O_CREATE_def O_LOCK_def)
  then have "if True then last_op_allows [97] ?a = Ok (Some (), ?a) else True"
    using writeFile_guard [of ?a "[97]" None] demo_path(1) by (simp add: demo_client_def opened_def)
  moreover have "writeFile (Some [97]) None demo_client = Some (Ok (-1, demo_client\<lparr>errno_v := ENOTTY\<rparr>))"
    using writeFile_guard [of demo_client "[97]" None] demo_path(1) by (simp add: demo_client_def no_op_def)
  ultimately show ?thesis by simp
qed

text \<open>C31: reading an empty file fails with \<open>EBADE\<close> and leaves the last result of the server unread, so that the
  next call takes it for its own answer: it succeeds whatever the server answers, and the real
  answer waits for the call after it.\<close>

theorem read_empty_out_of_step:
  assumes "can_send (Req_read p) a" "valid_path p" "rx (the_link a) = enc_int SA_SUCCESS @ data_msg [] @ enc_int SA_SUCCESS"
    and "valid_path q" "length (request_msg (Req_read p)) + length (request_msg (Req_close q)) \<le> room (the_link a)"
  shows "\<exists>a'. readFile (Some p) True True a = Ok ((-1, Some 0, None), a') \<and> errno_v a' = EBADE \<and>
    (\<exists>a''. closeFile (Some q) (hear (rx (the_link a') @ enc_int res) a') = Ok (0, a'') \<and> rx (the_link a'') = enc_int res)"
proof -
  let ?t = "data_msg [] @ enc_int SA_SUCCESS" and ?a = "\<lambda>t. (spoke (Req_read p) t a)\<lparr>last_op := no_op\<rparr>"
  have ok: "res_ok SA_SUCCESS" by (simp add: res_ok_def)
  have "read_contents (None, None) (?a ?t) = Ok (Some (-1, Some 0, None), (hear (enc_int SA_SUCCESS) (?a ?t))\<lparr>errno_v := EBADE\<rparr>)"
    using assms(1) by (intro read_contents_empty) (simp_all add: can_send_def)
  then have r: "readFile (Some p) True True a = Ok ((-1, Some 0, None), (?a (enc_int SA_SUCCESS))\<lparr>errno_v := EBADE\<rparr>)"
    using readFile_run [OF assms(1,2) assms(3) ok] by (simp add: Let_def)
  let ?b = "hear (enc_int SA_SUCCESS @ enc_int res) ((?a (enc_int SA_SUCCESS))\<lparr>errno_v := EBADE\<rparr>)"
  have "can_send (Req_close q) ?b"
    using assms(1,5) by (simp add: can_send_def spoke_def)
  then have "closeFile (Some q) ?b = answer_of SA_SUCCESS ((spoke (Req_close q) (enc_int res) ?b)\<lparr>last_op := no_op\<rparr>)"
    by (rule closeFile_ok [OF _ assms(4) _ ok]) simp
  then show ?thesis using r by (auto simp: answer_of_def)
qed

lemma read_empty_out_of_step_witness:
  "\<exists>a'. readFile (Some [97]) True True (hear (enc_int SA_SUCCESS @ data_msg [] @ enc_int SA_SUCCESS) demo_client) = Ok ((-1, Some 0, None), a') \<and>
    (\<exists>a''. closeFile (Some [99]) (hear (rx (the_link a') @ enc_int SA_NO_FILE) a') = Ok (0, a''))"
proof -
  let ?a = "hear (enc_int SA_SUCCESS @ data_msg [] @ enc_int SA_SUCCESS) demo_client"
  have "can_send (Req_read [97]) ?a" "length (request_msg (Req_read [97])) + length (request_msg (Req_close [99])) \<le> room (the_link ?a)"
    by (simp_all add: can_send_def demo_client_def demo_conn_def request_msg_def path_msg_def hear_def)
  then show ?thesis
    using read_empty_out_of_step [of "[97]" ?a "[99]" SA_NO_FILE] demo_path by fastforce
qed

text \<open>\<open>openConnection\<close> tries until \<open>connect\<close> succeeds or the time is up, whichever is first: it returns 0
  and records the socket, or returns -1 with \<open>ETIMEDOUT\<close> and forgets the descriptor. It returns as
  soon as one of the two happens at some attempt.\<close>

theorem openConnection_tries:
  assumes "socket_path a = None" "fd_sock a = -1" "0 \<le> msec" "length name < sun_path_size"
    and "k < length ats" "\<forall>at \<in> set ats. sleep_err at = None \<and> isl (time_now at) = False"
    and "\<forall>j < k. \<not> connects (ats ! j) \<and> tv_sec (times_before now ats ! j) < tv_sec abstime"
    and "connects (ats ! k) \<or> \<not> tv_sec (times_before now ats ! k) < tv_sec abstime"
  shows "openConnection (Inr fd) now ats (Some name) msec abstime a =
    Ok (if connects (ats ! k) then (0, a\<lparr>fd_sock := fd, socket_path := Some name\<rparr>) else (-1, a\<lparr>errno_v := ETIMEDOUT\<rparr>))"
proof -
  have "(RESET_SOCK (a\<lparr>fd_sock := fd\<rparr>))\<lparr>errno_v := ETIMEDOUT\<rparr> = a\<lparr>errno_v := ETIMEDOUT\<rparr>"
    using assms(1,2) by (cases a) (simp add: RESET_SOCK_def)
  then show ?thesis
    using connect_loop_run [OF assms(5-8), of "a\<lparr>fd_sock := fd\<rparr>"] assms(1-4)
    by (simp add: openConnection_def returned_def api_bind_def modify_api_def api_ret_def)
qed

lemma openConnection_tries_witness:
  "openConnection (Inr 4) (Timespec 1 0) [\<lparr>connects = False, sleep_err = None, time_now = Inr (Timespec 2 0)\<rparr>,
      \<lparr>connects = True, sleep_err = None, time_now = Inr (Timespec 2 0)\<rparr>] (Some [115]) 50 (Timespec 6 0)
      (demo_client\<lparr>fd_sock := -1, socket_path := None\<rparr>) = Ok (0, demo_client)"
  by (subst openConnection_tries [where k = 1]) (auto simp: sun_path_size_def demo_client_def times_before_def)

end
