(* ===== verification/Execute.thy ===== *)
theory Execute
  imports Client_Options Api_Calls
begin

text \<open>
  \<open>client/execute_requests.c\<close> and \<open>client/client.c\<close>: the requests of the command line, one after the other, as
  calls of the client library. What is printed is left out.
\<close>

text \<open>\<open>lbind\<close> is monotone, so that recursive definitions may use it.\<close>

lemma lbind_mono [partial_function_mono]:
  assumes "mono_option B" "\<And>y. mono_option (\<lambda>f. C y f)"
  shows "mono_option (\<lambda>f. lbind (B f) (\<lambda>y. C y f))"
proof (rule monotoneI)
  fix f g :: "'a \<Rightarrow> 'b option" assume fg: "fun_ord (flat_ord None) f g"
  have B: "flat_ord None (B f) (B g)" using assms(1) fg by (rule monotoneD [of _ _ _ f g])
  have C: "flat_ord None (C y f) (C y g)" for y using assms(2) fg by (rule monotoneD [of _ _ _ f g])
  show "flat_ord None (lbind (B f) (\<lambda>y. C y f)) (lbind (B g) (\<lambda>y. C y g))"
  proof (cases "B f")
    case (Some r)
    then have "B g = Some r" using B by (auto simp: flat_ord_def)
    with Some C show ?thesis by (cases r) (auto simp: flat_ord_def)
  qed (simp add: flat_ord_def)
qed

section \<open>One file\<close>

text \<open>\<open>CHECK_IF_FATAL_ERR\<close>\<close>

definition check_fatal :: "api \<Rightarrow> api res" where
  "check_fatal a = (if errno_v a = ENOTRECOVERABLE \<or> errno_v a = EBADE then Exit else Ok a)"

text \<open>Creates, writes and closes a file of the server; whether everything worked.\<close>

definition send_file :: "path \<Rightarrow> path option \<Rightarrow> api \<Rightarrow> (bool \<times> api) res option" where
  "send_file f exp_dir a =
     lbind (Some (openFile (Some f) (O_CREATE OR O_LOCK) a)) (\<lambda>(r, a).
       if r = -1 then Some (rbind (check_fatal a) (\<lambda>a. Ok (False, a)))
       else lbind (writeFile (Some f) exp_dir a) (\<lambda>(r, a).
         if r = -1 then Some (rbind (check_fatal a) (\<lambda>a. Ok (False, a)))
         else lbind (Some (closeFile (Some f) a)) (\<lambda>(r, a).
           if r = -1 then Some (rbind (check_fatal a) (\<lambda>a. Ok (False, a)))
           else Some (Ok (True, a)))))"

fun send_files :: "path list \<Rightarrow> path option \<Rightarrow> api \<Rightarrow> api res option" where
  "send_files [] exp_dir a = Some (Ok a)"
| "send_files (f # fs) exp_dir a = lbind (send_file f exp_dir a) (\<lambda>(ok, a). send_files fs exp_dir a)"

text \<open>
  Opens and reads a file and adds it to the list \<open>to_write\<close>; the result of closing it changes nothing
  but the messages.
\<close>

definition fetch_file :: "path \<Rightarrow> (path \<times> size_n_buf_t) list \<Rightarrow> api \<Rightarrow> ((path \<times> size_n_buf_t) list \<times> api) res" where
  "fetch_file f to_write a =
     rbind (openFile (Some f) O_NOFLAG a) (\<lambda>(r, a).
       if r = -1 then rbind (check_fatal a) (\<lambda>a. Ok (to_write, a))
       else rbind (safe_malloc 16 (pmem a)) (\<lambda>m.
            rbind (readFile (Some f) True True (a\<lparr>pmem := m\<rparr>)) (\<lambda>((r, n, buf), a).
              if r = -1 then rbind (check_fatal a) (\<lambda>a. Ok (to_write, a))
              else (case malloc (pmem a) of
                      (False, m) \<Rightarrow> Exit
                    | (True, m) \<Rightarrow>
                        rbind (closeFile (Some f) (a\<lparr>pmem := m\<rparr>)) (\<lambda>(r, a).
                          rbind (if r = -1 then check_fatal a else Ok a) (\<lambda>a.
                            Ok (to_write @ [(f, \<lparr>snb_size = the n, snb_buf = buf\<rparr>)], a)))))))"

fun fetch_files :: "path list \<Rightarrow> (path \<times> size_n_buf_t) list \<Rightarrow> api \<Rightarrow> ((path \<times> size_n_buf_t) list \<times> api) res" where
  "fetch_files [] to_write a = Ok (to_write, a)"
| "fetch_files (f # fs) to_write a = rbind (fetch_file f to_write a) (\<lambda>(to_write, a). fetch_files fs to_write a)"

definition remove_one :: "path \<Rightarrow> api \<Rightarrow> api res" where
  "remove_one f a =
     rbind (openFile (Some f) O_LOCK a) (\<lambda>(r, a).
       if r = -1 then check_fatal a
       else rbind (removeFile (Some f) a) (\<lambda>(r, a). if r = -1 then check_fatal a else Ok a))"

fun remove_files :: "path list \<Rightarrow> api \<Rightarrow> api res" where
  "remove_files [] a = Ok a"
| "remove_files (f # fs) a = rbind (remove_one f a) (remove_files fs)"

section \<open>Directories\<close>

text \<open>
  \<open>readdir\<close> lists the names of a directory, with a flag that says whether reading fails after them; it is \<open>None\<close>
  when the directory cannot be opened. The scan of the entries that are left, after \<open>n_reads\<close> files; the number of files
  counted, or a negative value. A tree without end is scanned for ever.
\<close>

partial_function (option) scan_entries ::
  "(path \<Rightarrow> disk \<Rightarrow> (path list \<times> bool) option) \<Rightarrow> path \<Rightarrow> path option \<Rightarrow> int \<Rightarrow> path list \<Rightarrow> bool \<Rightarrow> int \<Rightarrow> api \<Rightarrow> (int \<times> api) res option" where
  "scan_entries readdir dirname exp_dir N ents fails n_reads a =
     (case ents of
        [] \<Rightarrow> Some (Ok (if fails \<and> (N = -1 \<or> n_reads < N) then -1 else n_reads, a))
      | d_name # rest \<Rightarrow>
          if \<not> (N = -1 \<or> n_reads < N) then Some (Ok (n_reads, a))
          else if d_name = [46] \<or> d_name = [46, 46] then scan_entries readdir dirname exp_dir N rest fails n_reads a
          else if canon (dirname @ [slash] @ d_name) \<in> disk_dirs (the_disk a) then
            (case readdir (dirname @ [slash] @ d_name) (the_disk a) of
               None \<Rightarrow> scan_entries readdir dirname exp_dir N rest fails n_reads a
             | Some (sub, sub_fails) \<Rightarrow>
                 lbind (scan_entries readdir (dirname @ [slash] @ d_name) exp_dir (if N = -1 then -1 else N - n_reads) sub sub_fails 0 a)
                   (\<lambda>x. scan_entries readdir dirname exp_dir N rest fails (if 0 \<le> fst x then n_reads + fst x else n_reads) (snd x)))
          else if disk_files (the_disk a) (canon (dirname @ [slash] @ d_name)) = None then Some (Ok (-3, a))
          else lbind (send_file (dirname @ [slash] @ d_name) exp_dir a)
                 (\<lambda>x. scan_entries readdir dirname exp_dir N rest fails (if fst x then n_reads + 1 else n_reads) (snd x)))"

definition rec_scan_dirs ::
  "(path \<Rightarrow> disk \<Rightarrow> (path list \<times> bool) option) \<Rightarrow> path \<Rightarrow> path option \<Rightarrow> int \<Rightarrow> api \<Rightarrow> (int \<times> api) res option" where
  "rec_scan_dirs readdir dirname exp_dir N a =
     (case readdir dirname (the_disk a) of
        None \<Rightarrow> Some (Ok (-1, a))
      | Some (ents, fails) \<Rightarrow> scan_entries readdir dirname exp_dir N ents fails 0 a)"

section \<open>The requests\<close>

text \<open>The directory of the next node, if that is a node of the letter.\<close>

fun dir_of_next :: "char \<Rightarrow> req_node list \<Rightarrow> path option" where
  "dir_of_next k ((j, Dir_name d) # nodes) = (if j = k then Some d else None)"
| "dir_of_next k nodes = None"

text \<open>\<open>GO_TO_NEXT\<close>\<close>

definition go_to_next :: "path option \<Rightarrow> req_node list \<Rightarrow> req_node list" where
  "go_to_next exp_dir nodes = (if exp_dir = None then nodes else tl nodes)"

lemma go_to_next_length [termination_simp]: "length (go_to_next exp_dir nodes) < Suc (length nodes)"
  by (auto simp: go_to_next_def)

text \<open>
  One request, with the nodes after it; the nodes that come next. Locking and unlocking are not
  implemented, and the data of a node is the one that its letter stands for.
\<close>

definition request_w ::
  "(path \<Rightarrow> disk \<Rightarrow> (path list \<times> bool) option) \<Rightarrow> path \<Rightarrow> int \<Rightarrow> req_node list \<Rightarrow> api \<Rightarrow> (req_node list \<times> api) res option" where
  "request_w readdir dir n nodes a =
     (let exp_dir = dir_of_next CHR ''D'' nodes in
      lbind (rec_scan_dirs readdir dir exp_dir (to_int32 (if n = 0 then -1 else n)) a) (\<lambda>(r, a).
        Some (Ok (go_to_next exp_dir nodes, a))))"

definition request_W :: "path list \<Rightarrow> req_node list \<Rightarrow> api \<Rightarrow> (req_node list \<times> api) res option" where
  "request_W fs nodes a =
     (let exp_dir = dir_of_next CHR ''D'' nodes in
      lbind (send_files fs exp_dir a) (\<lambda>a. Some (Ok (go_to_next exp_dir nodes, a))))"

definition request_r :: "path list \<Rightarrow> req_node list \<Rightarrow> api \<Rightarrow> (req_node list \<times> api) res option" where
  "request_r fs nodes a =
     (let exp_dir = dir_of_next CHR ''d'' nodes in
      lbind (Some (case malloc (pmem a) of (False, m) \<Rightarrow> Exit | (True, m) \<Rightarrow> fetch_files fs [] (a\<lparr>pmem := m\<rparr>))) (\<lambda>(to_write, a).
      lbind (write_list_of_files_into_dir to_write exp_dir a) (\<lambda>(err, a).
        Some (Ok (go_to_next exp_dir nodes, a)))))"

definition request_R :: "int \<Rightarrow> req_node list \<Rightarrow> api \<Rightarrow> (req_node list \<times> api) res option" where
  "request_R n nodes a =
     (let exp_dir = dir_of_next CHR ''d'' nodes in
      lbind (readNFiles (to_int32 (if n = 0 then -1 else n)) exp_dir a) (\<lambda>(r, a).
        Some (rbind (if r = -1 then check_fatal a else Ok a) (\<lambda>a. Ok (go_to_next exp_dir nodes, a)))))"

definition request_c :: "path list \<Rightarrow> req_node list \<Rightarrow> api \<Rightarrow> (req_node list \<times> api) res option" where
  "request_c fs nodes a = lbind (Some (remove_files fs a)) (\<lambda>a. Some (Ok (nodes, a)))"

fun execute_one ::
  "(path \<Rightarrow> disk \<Rightarrow> (path list \<times> bool) option) \<Rightarrow> req_node \<Rightarrow> req_node list \<Rightarrow> api \<Rightarrow> (req_node list \<times> api) res option" where
  "execute_one readdir (k, Number n) nodes a =
     (if k = CHR ''R'' then request_R n nodes a else Some (Ok (nodes, a)))"
| "execute_one readdir (k, Dir_and_number dir n) nodes a = request_w readdir dir n nodes a"
| "execute_one readdir (k, File_list fs) nodes a =
     (if k = CHR ''W'' then request_W fs nodes a
      else if k = CHR ''r'' then request_r fs nodes a
      else if k = CHR ''c'' then request_c fs nodes a
      else Some (Ok (nodes, a)))"
| "execute_one readdir (k, Dir_name d) nodes a = Some (Ok (nodes, a))"

text \<open>The loop over the list; \<open>nanosleep\<close> and the time that \<open>-t\<close> sets have no effect on the state.\<close>

partial_function (option) execute_loop ::
  "(path \<Rightarrow> disk \<Rightarrow> (path list \<times> bool) option) \<Rightarrow> req_node list \<Rightarrow> api \<Rightarrow> api res option" where
  "execute_loop readdir nodes a =
     (case nodes of
        [] \<Rightarrow> Some (Ok a)
      | n # rest \<Rightarrow> lbind (execute_one readdir n rest a) (\<lambda>x. execute_loop readdir (fst x) (snd x)))"

definition execute_requests :: "(path \<Rightarrow> disk \<Rightarrow> (path list \<times> bool) option) \<Rightarrow> options \<Rightarrow> api \<Rightarrow> api res option" where
  "execute_requests readdir st a = execute_loop readdir (request_q st) a"

section \<open>The program\<close>

definition TIME_BETWEEN_CONN :: int where "TIME_BETWEEN_CONN = 50"

definition add_to_current_time :: "timespec \<Rightarrow> int \<Rightarrow> int \<Rightarrow> timespec" where
  "add_to_current_time now sec nsec = Timespec (tv_sec now + sec) (tv_nsec now + nsec)"

text \<open>
  \<open>main\<close>: \<open>now\<close> and \<open>now'\<close> are the two readings of the clock, \<open>sock\<close> the answer of \<open>socket\<close>, \<open>attempts\<close> what
  happens at the attempts to connect, \<open>close_err\<close> the answer of \<open>close\<close>; the value returned.
\<close>

definition client_main ::
  "(path \<Rightarrow> path option) \<Rightarrow> (path \<Rightarrow> disk \<Rightarrow> (path list \<times> bool) option) \<Rightarrow> (char \<times> byte list option) list \<Rightarrow> timespec \<Rightarrow> timespec \<Rightarrow>
   errno + int \<Rightarrow> attempt list \<Rightarrow> errno option \<Rightarrow> api \<Rightarrow> (int \<times> api) res option" where
  "client_main realpath readdir opts now now' sock attempts close_err a =
     (case malloc (pmem a) of
        (False, m) \<Rightarrow> Some (Ok (-1, a\<lparr>pmem := m\<rparr>))
      | (True, m) \<Rightarrow>
          lbind (Some (parse_options realpath opts (options_init m))) (\<lambda>(r, st).
            let a = a\<lparr>pmem := omem st\<rparr>
            in if r = -1 then Some (Ok (-1, a))
               else if print_helper (conf st) then Some (Ok (0, a))
               else lbind (Some (validate_options st)) (\<lambda>_.
                    lbind (Some (openConnection sock now' attempts (conf_socket (conf st)) TIME_BETWEEN_CONN
                                   (add_to_current_time now (waiting_sec (conf st)) 0) a)) (\<lambda>(r, a).
                    if r = -1 then Some (Ok (-1, a))
                    else lbind (execute_requests readdir st a) (\<lambda>a.
                         Some (closeConnection close_err (conf_socket (conf st)) a))))))"

section \<open>Freeing the requests\<close>

text \<open>
  The memory that a node of the list of requests refers to, by what was allocated for it; the directories of
  \<open>-d\<close> and \<open>-D\<close> are arguments of the program. \<open>clean_req_node\<close> goes by the letter, and \<open>cleanup\<close> runs at exit.
\<close>

datatype block = Node_block | List_block | Pair_block | Path_block path

fun owned_blocks :: "req_node \<Rightarrow> block list" where
  "owned_blocks (k, Dir_and_number d n) = [Node_block, Pair_block, Path_block d]"
| "owned_blocks (k, File_list fs) = [Node_block, List_block] @ concat (map (\<lambda>f. [Node_block, Path_block f]) fs)"
| "owned_blocks (k, Number n) = [Node_block]"
| "owned_blocks (k, Dir_name d) = [Node_block]"

text \<open>\<open>list_delete\<close> with \<open>free_node_and_key\<close> on the list of paths of a node.\<close>

definition free_paths :: "path list \<Rightarrow> block list" where
  "free_paths fs = concat (map (\<lambda>f. [Path_block f, Node_block]) fs) @ [List_block]"

fun clean_req_node :: "req_node \<Rightarrow> block list res" where
  "clean_req_node (k, d) =
     (if k = CHR ''w'' then (case d of Dir_and_number dir n \<Rightarrow> Ok [Path_block dir, Pair_block, Node_block] | _ \<Rightarrow> UB)
      else if k \<in> {CHR ''t'', CHR ''D'', CHR ''R'', CHR ''d''} then Ok [Node_block]
      else if k \<in> {CHR ''W'', CHR ''r'', CHR ''l'', CHR ''u'', CHR ''c''}
      then (case d of File_list fs \<Rightarrow> Ok (free_paths fs @ [Node_block]) | _ \<Rightarrow> UB)
      else Ok [])"

fun clean_nodes :: "req_node list \<Rightarrow> block list res" where
  "clean_nodes [] = Ok []"
| "clean_nodes (n # ns) = rbind (clean_req_node n) (\<lambda>bs. rbind (clean_nodes ns) (\<lambda>cs. Ok (bs @ cs)))"

definition cleanup :: "options \<Rightarrow> block list res" where
  "cleanup st = rbind (clean_nodes (request_q st)) (\<lambda>bs. Ok (bs @ [List_block]))"

text \<open>Whatever the options, everything that was allocated for the requests is freed, and once.\<close>

lemma free_paths_mset: "mset (free_paths fs) = mset ([List_block] @ concat (map (\<lambda>f. [Node_block, Path_block f]) fs))"
  unfolding free_paths_def by (induction fs) simp_all

lemma clean_req_node_ok:
  assumes "node_ok n"
  shows "\<exists>bs. clean_req_node n = Ok bs \<and> mset bs = mset (owned_blocks n)"
proof (cases n)
  case (Pair k d)
  then show ?thesis using assms
    by (cases d) (auto simp: node_ok_def free_paths_mset add_mset_commute)
qed

lemma clean_nodes_ok:
  "\<forall>n \<in> set ns. node_ok n \<Longrightarrow> \<exists>bs. clean_nodes ns = Ok bs \<and> mset bs = mset (concat (map owned_blocks ns))"
proof (induction ns)
  case (Cons n ns)
  have "node_ok n" using Cons.prems by simp
  from clean_req_node_ok [OF this] obtain bs where "clean_req_node n = Ok bs" "mset bs = mset (owned_blocks n)" by blast
  moreover obtain cs where "clean_nodes ns = Ok cs" "mset cs = mset (concat (map owned_blocks ns))"
    using Cons.IH Cons.prems by auto
  ultimately show ?case by simp
qed simp

lemma cleanup_releases:
  assumes "parse_options realpath opts (options_init m) = Ok (r, st)"
  shows "\<exists>bs. cleanup st = Ok bs \<and> mset bs = mset (List_block # concat (map owned_blocks (request_q st)))"
proof -
  have "queue_ok (options_init m)" by (simp add: queue_ok_def options_init_def)
  then have "queue_ok st" using parse_options_queue [OF assms] by blast
  with clean_nodes_ok [of "request_q st"] show ?thesis by (auto simp: queue_ok_def cleanup_def)
qed

section \<open>Facts\<close>

lemma lbind_eq_Ok: "lbind m f = Some (Ok y) \<longleftrightarrow> (\<exists>x. m = Some (Ok x) \<and> f x = Some (Ok y))"
  by (cases "(m, f)" rule: lbind.cases) auto

text \<open>The number that a scan returns is at most the number asked for; more files may have been sent.\<close>

lemma scan_bound:
  assumes "scan_entries readdir dirname exp_dir N ents fails n_reads a = Some r"
  shows "r = Ok (k, a') \<longrightarrow> 0 \<le> N \<longrightarrow> n_reads \<le> N \<longrightarrow> k \<le> N"
  using assms
proof (induction arbitrary: k a' rule: scan_entries.raw_induct [rotated 1, consumes 1])
  case (1 scan readdir dirname exp_dir N ents fails n_reads a r)
  show ?case
  proof (intro impI)
    assume r: "r = Ok (k, a')" "0 \<le> N" "n_reads \<le> N"
    note IH = 1(1) [THEN mp, OF _ refl, THEN mp, THEN mp]
    let ?scan = "scan readdir dirname exp_dir N"
    show "k \<le> N"
    proof (cases ents)
      case (Cons d rest)
      let ?path = "dirname @ [slash] @ d"
      show ?thesis
      proof (cases "n_reads < N")
        case lt: True
        consider (dots) "d = [46] \<or> d = [46, 46]" | (subdir) "d \<noteq> [46]" "d \<noteq> [46, 46]" "canon ?path \<in> disk_dirs (the_disk a)"
          | (plain) "d \<noteq> [46]" "d \<noteq> [46, 46]" "canon ?path \<notin> disk_dirs (the_disk a)" by blast
        then show ?thesis
        proof cases
          case dots
          then show ?thesis using 1(2) Cons lt r IH [of readdir dirname exp_dir N rest fails n_reads a] by auto
        next
          case subdir
          show ?thesis
          proof (cases "readdir ?path (the_disk a)")
            case None
            then show ?thesis using 1(2) Cons lt subdir r IH [of readdir dirname exp_dir N rest fails n_reads a] by auto
          next
            case (Some sub)
            then obtain x where x: "scan readdir ?path exp_dir (N - n_reads) (fst sub) (snd sub) 0 a = Some (Ok x)"
              "?scan rest fails (if 0 \<le> fst x then n_reads + fst x else n_reads) (snd x) = Some (Ok (k, a'))"
              using 1(2) Cons lt subdir r by (cases sub) (auto simp: lbind_eq_Ok)
            have "fst x \<le> N - n_reads" using IH [of readdir ?path exp_dir "N - n_reads" "fst sub" "snd sub" 0 a "fst x" "snd x"] x(1) lt by simp
            then show ?thesis using IH [OF x(2)] r lt by simp
          qed
        next
          case plain
          then show ?thesis
          proof (cases "disk_files (the_disk a) (canon ?path)")
            case None
            then have "k = -3" using 1(2) Cons lt plain r by simp
            then show ?thesis using r by simp
          next
            case (Some bs)
            then obtain x where x: "?scan rest fails (if fst x then n_reads + 1 else n_reads) (snd x) = Some (Ok (k, a'))"
              using 1(2) Cons lt plain r by (auto simp: lbind_eq_Ok)
            then show ?thesis using IH [OF x] r lt by simp
          qed
        qed
      next
        case False
        then show ?thesis using 1(2) Cons r by (auto split: if_splits)
      qed
    qed (use 1(2) r in \<open>auto split: if_splits\<close>)
  qed
qed

lemma rec_scan_at_most:
  assumes "rec_scan_dirs readdir dirname exp_dir N a = Some (Ok (k, a'))" "0 \<le> N"
  shows "k \<le> N"
  using assms scan_bound [where n_reads = 0] by (auto simp: rec_scan_dirs_def split: option.splits)

text \<open>A file goes to the server when the three answers are good; the expelled files are stored.\<close>

definition send_replies :: "(path \<times> byte list) list \<Rightarrow> byte list" where
  "send_replies fs = enc_int SA_SUCCESS @ files_reply SA_SUCCESS fs @ enc_int SA_SUCCESS"

definition send_requests :: "path \<Rightarrow> byte list \<Rightarrow> request list" where
  "send_requests p bs = [Req_open p (O_CREATE OR O_LOCK), Req_write p bs, Req_close p]"

definition on_disk :: "path \<Rightarrow> byte list \<Rightarrow> disk \<Rightarrow> bool" where
  "on_disk p bs d \<longleftrightarrow> fopen_rb p d = Some bs \<and> \<not> read_broken d (canon p) \<and> bs \<noteq> [] \<and> length bs < 2 ^ 31"

lemma send_file_ok:
  assumes p: "valid_path p" and bs: "on_disk p bs (the_disk a)" and a: "fd_sock a \<noteq> -1" "pmem a = Ample"
    "length (concat (map request_msg (send_requests p bs))) \<le> room (the_link a)"
    and rx: "rx (the_link a) = send_replies fs @ rest" and fs: "\<forall>f \<in> set fs. sendable f"
    and st: "\<And>b. fd_sock b = fd_sock a \<Longrightarrow> pmem b = Ample \<Longrightarrow> the_disk b = the_disk a \<Longrightarrow>
      \<exists>n e d. store_received (received fs) exp_dir b = Some (Ok (n, b\<lparr>errno_v := e, the_disk := d\<rparr>)) \<and> n \<noteq> -1 \<and> d = d'"
  shows "\<exists>a'. send_file p exp_dir a = Some (Ok (True, a')) \<and> fd_sock a' = fd_sock a \<and> pmem a' = Ample \<and>
    rx (the_link a') = rest \<and> sent (the_link a') = sent (the_link a) @ concat (map request_msg (send_requests p bs)) \<and>
    room (the_link a') = room (the_link a) - length (concat (map request_msg (send_requests p bs))) \<and> the_disk a' = d'"
proof -
  let ?fl = "O_CREATE OR O_LOCK" and ?ok = "res_ok SA_SUCCESS"
  let ?r1 = "files_reply SA_SUCCESS fs @ enc_int SA_SUCCESS @ rest"
  let ?a1 = "((spoke (Req_open p ?fl) ?r1 a)\<lparr>last_op := opened p ?fl True\<rparr>)\<lparr>errno_v := Errno_0\<rparr>"
  have ok: ?ok by (simp add: res_ok_def)
  have "can_send (Req_open p ?fl) a" using a by (simp add: can_send_def send_requests_def)
  from openFile_ok [OF this p, of SA_SUCCESS ?r1] rx ok
  have o: "openFile (Some p) ?fl a = Ok (0, ?a1)" by (simp add: send_replies_def answer_of_def)
  let ?a2 = "heard (Req_write p bs) (enc_int SA_SUCCESS @ rest) ?a1"
  have "can_send (Req_write p bs) ?a1" using a by (simp add: can_send_def send_requests_def spoke_def)
  moreover have "length bs < 2 ^ 31" "fopen_rb p (the_disk ?a1) = Some bs" "\<not> read_broken (the_disk ?a1) (canon p)"
    using bs by (simp_all add: on_disk_def)
  ultimately have w: "writeFile (Some p) exp_dir ?a1 = lbind (files_answer (Req_write p bs) SA_SUCCESS fs (enc_int SA_SUCCESS @ rest) exp_dir ?a1)
      (\<lambda>(n, a). Some (Ok (if n = -1 then -1 else 0, a)))"
    using writeFile_ok [of p bs ?a1 SA_SUCCESS fs "enc_int SA_SUCCESS @ rest" exp_dir] p ok fs by simp
  have "fd_sock ?a2 = fd_sock a" "pmem ?a2 = Ample" "the_disk ?a2 = the_disk a" using a by simp_all
  from st [OF this] obtain n e where n: "store_received (received fs) exp_dir ?a2 = Some (Ok (n, ?a2\<lparr>errno_v := e, the_disk := d'\<rparr>))" "n \<noteq> -1"
    by blast
  let ?a3 = "?a2\<lparr>errno_v := e, the_disk := d'\<rparr>"
  have w: "writeFile (Some p) exp_dir ?a1 = Some (Ok (0, ?a3))" using w n by (simp add: files_answer_def)
  have "can_send (Req_close p) ?a3" using a by (simp add: can_send_def send_requests_def heard_def spoke_def)
  from closeFile_ok [OF this p, of SA_SUCCESS rest] ok
  have c: "closeFile (Some p) ?a3 = answer_of SA_SUCCESS ((spoke (Req_close p) rest ?a3)\<lparr>last_op := no_op\<rparr>)" by simp
  show ?thesis
    unfolding send_file_def using o w c a
    by (simp add: answer_of_def send_requests_def heard_def spoke_def)
qed

text \<open>With nothing to store no directory is needed.\<close>

lemma send_file_alone:
  assumes p: "valid_path p" and bs: "on_disk p bs (the_disk a)" and a: "fd_sock a \<noteq> -1" "pmem a = Ample"
    "length (concat (map request_msg (send_requests p bs))) \<le> room (the_link a)"
    and rx: "rx (the_link a) = send_replies [] @ rest"
  shows "\<exists>a'. send_file p None a = Some (Ok (True, a')) \<and> fd_sock a' = fd_sock a \<and> pmem a' = Ample \<and>
    rx (the_link a') = rest \<and> sent (the_link a') = sent (the_link a) @ concat (map request_msg (send_requests p bs)) \<and>
    room (the_link a') = room (the_link a) - length (concat (map request_msg (send_requests p bs))) \<and> the_disk a' = the_disk a"
proof (rule send_file_ok [OF assms])
  fix b :: api assume b: "the_disk b = the_disk a"
  have "b = b\<lparr>errno_v := errno_v b, the_disk := the_disk b\<rparr>" by (cases b) simp
  then have "store_received (received []) None b = Some (Ok (0, b\<lparr>errno_v := errno_v b, the_disk := the_disk a\<rparr>))"
    using store_received_none [of "received []" b] b by (simp add: received_def)
  then show "\<exists>n e d. store_received (received []) None b = Some (Ok (n, b\<lparr>errno_v := e, the_disk := d\<rparr>)) \<and> n \<noteq> -1 \<and> d = the_disk a"
    by (intro exI [of _ 0] exI [of _ "errno_v b"] exI [of _ "the_disk a"]) simp
qed simp

text \<open>A scan sends every plain file it comes to, as long as the number asked for is not reached.\<close>

definition plain_entry :: "disk \<Rightarrow> path \<Rightarrow> path \<Rightarrow> bool" where
  "plain_entry D dirname d \<longleftrightarrow> d \<noteq> [46] \<and> d \<noteq> [46, 46] \<and> canon (dirname @ [slash] @ d) \<notin> disk_dirs D \<and>
     valid_path (dirname @ [slash] @ d) \<and> (\<exists>bs. on_disk (dirname @ [slash] @ d) bs D)"

definition send_msg :: "disk \<Rightarrow> path \<Rightarrow> path \<Rightarrow> byte list" where
  "send_msg D dirname d = concat (map request_msg
     (send_requests (dirname @ [slash] @ d) (the (disk_files D (canon (dirname @ [slash] @ d))))))"

definition bad_entry :: "disk \<Rightarrow> path \<Rightarrow> path \<Rightarrow> bool" where
  "bad_entry D dirname d \<longleftrightarrow> d \<noteq> [46] \<and> d \<noteq> [46, 46] \<and> canon (dirname @ [slash] @ d) \<notin> disk_dirs D \<and>
     disk_files D (canon (dirname @ [slash] @ d)) = None"

lemma scan_bad:
  assumes "bad_entry (the_disk a) dirname d" "N = -1 \<or> n < N"
  shows "scan_entries readdir dirname exp_dir N (d # es) fails n a = Some (Ok (-3, a))"
  by (subst scan_entries.simps) (use assms in \<open>auto simp: bad_entry_def\<close>)

lemma scan_reached:
  assumes "n = N" "N \<noteq> -1"
  shows "scan_entries readdir dirname exp_dir N es fails n a = Some (Ok (n, a))"
  by (subst scan_entries.simps) (use assms in \<open>auto split: list.splits\<close>)

lemma scan_plain:
  assumes "\<forall>d \<in> set ds. plain_entry D dirname d" "N = -1 \<or> n + int (length ds) \<le> N"
    and "the_disk a = D" "fd_sock a \<noteq> -1" "pmem a = Ample"
    and "length (concat (map (send_msg D dirname) ds)) \<le> room (the_link a)"
    and "rx (the_link a) = concat (replicate (length ds) (send_replies [])) @ rest"
  shows "\<exists>a'. scan_entries readdir dirname None N (ds @ es) fails n a =
      scan_entries readdir dirname None N es fails (n + int (length ds)) a' \<and>
    the_disk a' = D \<and> fd_sock a' \<noteq> -1 \<and> pmem a' = Ample \<and> rx (the_link a') = rest \<and>
    sent (the_link a') = sent (the_link a) @ concat (map (send_msg D dirname) ds) \<and>
    room (the_link a') = room (the_link a) - length (concat (map (send_msg D dirname) ds))"
  using assms
proof (induction ds arbitrary: n a)
  case (Cons d ds)
  let ?p = "dirname @ [slash] @ d"
  let ?rest = "concat (replicate (length ds) (send_replies [])) @ rest"
  obtain bs where d: "plain_entry D dirname d" "valid_path ?p" "on_disk ?p bs (the_disk a)"
    using Cons.prems(1,3) by (auto simp: plain_entry_def)
  then have bs: "disk_files D (canon ?p) = Some bs"
    using Cons.prems(3) by (auto simp: on_disk_def fopen_rb_def split: if_splits)
  then have msg: "send_msg D dirname d = concat (map request_msg (send_requests ?p bs))" by (simp add: send_msg_def)
  have "rx (the_link a) = send_replies [] @ ?rest" using Cons.prems(7) by simp
  from send_file_alone [OF d(2,3) Cons.prems(4,5) _ this] Cons.prems(6) obtain a1 where
    a1: "send_file ?p None a = Some (Ok (True, a1))" "fd_sock a1 = fd_sock a" "pmem a1 = Ample" "rx (the_link a1) = ?rest"
    "sent (the_link a1) = sent (the_link a) @ send_msg D dirname d"
    "room (the_link a1) = room (the_link a) - length (send_msg D dirname d)" "the_disk a1 = D"
    unfolding msg [symmetric] using Cons.prems(3) by auto
  have "scan_entries readdir dirname None N ((d # ds) @ es) fails n a = scan_entries readdir dirname None N (ds @ es) fails (n + 1) a1"
    by (subst scan_entries.simps) (use d(1) a1(1) bs Cons.prems(2,3) in \<open>auto simp: plain_entry_def\<close>)
  moreover have "length (concat (map (send_msg D dirname) ds)) \<le> room (the_link a1)" using Cons.prems(6) a1(6) by simp
  moreover have "n + int (length (d # ds)) = n + 1 + int (length ds)" by simp
  ultimately show ?case using Cons.IH [of "n + 1" a1] Cons.prems(1,2,4) a1 by (auto simp: add.assoc)
next
  case Nil
  then show ?case by (intro exI [of _ a]) simp
qed

section \<open>Properties\<close>

text \<open>C33: the number given to the option -w does not bound the files sent. A subdirectory whose scan sends
  the files \<open>fs\<close> and then comes to an entry \<open>g\<close> for which \<open>stat\<close> fails answers -3; its files are not counted,
  and the scan of the directory goes on: with N files asked for, \<open>length fs + N\<close> are sent, and the answer
  is N. Every file can be read, and the server takes every file and expels nothing.\<close>

theorem rec_scan_sends_more:
  assumes "readdir dirname (the_disk a) = Some (sub # hs @ es, fails)"
    and "readdir (dirname @ [slash] @ sub) (the_disk a) = Some (fs @ g # gs, fails')"
    and "canon (dirname @ [slash] @ sub) \<in> disk_dirs (the_disk a)" "sub \<noteq> [46]" "sub \<noteq> [46, 46]"
    and "\<forall>f \<in> set fs. plain_entry (the_disk a) (dirname @ [slash] @ sub) f" "bad_entry (the_disk a) (dirname @ [slash] @ sub) g"
    and "\<forall>h \<in> set hs. plain_entry (the_disk a) dirname h" "length hs = N" "length fs < N"
    and "fd_sock a \<noteq> -1" "pmem a = Ample"
    and "rx (the_link a) = concat (replicate (length fs + N) (send_replies [])) @ rest"
    and "length (concat (map (send_msg (the_disk a) (dirname @ [slash] @ sub)) fs @ map (send_msg (the_disk a) dirname) hs))
      \<le> room (the_link a)"
  shows "\<exists>a'. rec_scan_dirs readdir dirname None (int N) a = Some (Ok (int N, a')) \<and>
    sent (the_link a') = sent (the_link a) @
      concat (map (send_msg (the_disk a) (dirname @ [slash] @ sub)) fs @ map (send_msg (the_disk a) dirname) hs)"
proof -
  let ?sub = "dirname @ [slash] @ sub" and ?D = "the_disk a"
  have "rx (the_link a) = concat (replicate (length fs) (send_replies [])) @
      concat (replicate N (send_replies [])) @ rest"
    using assms(13) by (simp add: replicate_add)
  from scan_plain [OF assms(6) _ refl assms(11,12) _ this, of "int N" 0 readdir "g # gs" fails'] assms(10,14) obtain a1 where
    a1: "scan_entries readdir ?sub None (int N) (fs @ g # gs) fails' 0 a =
        scan_entries readdir ?sub None (int N) (g # gs) fails' (int (length fs)) a1"
      "the_disk a1 = ?D" "fd_sock a1 \<noteq> -1" "pmem a1 = Ample" "rx (the_link a1) = concat (replicate N (send_replies [])) @ rest"
      "sent (the_link a1) = sent (the_link a) @ concat (map (send_msg ?D ?sub) fs)"
      "room (the_link a1) = room (the_link a) - length (concat (map (send_msg ?D ?sub) fs))"
    by auto
  then have inner: "scan_entries readdir ?sub None (int N) (fs @ g # gs) fails' 0 a = Some (Ok (-3, a1))"
    using scan_bad [of a1 ?sub g "int N"] assms(7,10) by simp
  have "scan_entries readdir dirname None (int N) (sub # hs @ es) fails 0 a =
      scan_entries readdir dirname None (int N) (hs @ es) fails 0 a1"
    by (subst scan_entries.simps) (use assms(2-5,10) inner in simp)
  moreover have "length (concat (map (send_msg ?D dirname) hs)) \<le> room (the_link a1)" using a1(7) assms(14) by simp
  from scan_plain [OF assms(8) _ a1(2-4) this, of "int N" 0 rest readdir es fails] a1(5) assms(9) obtain a2 where
    "scan_entries readdir dirname None (int N) (hs @ es) fails 0 a1 = scan_entries readdir dirname None (int N) es fails (int N) a2"
    "sent (the_link a2) = sent (the_link a1) @ concat (map (send_msg ?D dirname) hs)" by auto
  moreover have "scan_entries readdir dirname None (int N) es fails (int N) a2 = Some (Ok (int N, a2))"
    by (rule scan_reached) simp_all
  ultimately show ?thesis using a1(6) assms(1) by (simp add: rec_scan_dirs_def)
qed

text \<open>The directory \<open>d\<close> has the subdirectory \<open>d/s\<close> and two files; the name \<open>d/s/x\<close> leads nowhere.\<close>

definition scan_disk :: disk where
  "scan_disk = demo_disk\<lparr>disk_dirs := {[46], [100], [100, 47, 115]},
     disk_files := [[100, 47, 97] \<mapsto> [1], [100, 47, 98] \<mapsto> [2], [100, 47, 115, 47, 99] \<mapsto> [3]]\<rparr>"

definition scan_readdir :: "path \<Rightarrow> disk \<Rightarrow> (path list \<times> bool) option" where
  "scan_readdir p d = (if p = [100] then Some ([[115], [97], [98]], False)
     else if p = [100, 47, 115] then Some ([[99], [120]], False) else None)"

definition scan_client :: api where
  "scan_client = demo_client\<lparr>the_disk := scan_disk, the_link := demo_conn (concat (replicate 3 (send_replies [])))\<rparr>"

lemma rec_scan_sends_more_witness:
  "\<exists>a'. rec_scan_dirs scan_readdir [100] None 2 scan_client = Some (Ok (2, a')) \<and>
     sent (the_link a') = concat (map request_msg (send_requests [100, 47, 115, 47, 99] [3] @
       send_requests [100, 47, 97] [1] @ send_requests [100, 47, 98] [2]))"
proof -
  let ?D = "the_disk scan_client"
  have D: "?D = scan_disk" by (simp add: scan_client_def)
  have "plain_entry ?D [100, 47, 115] [99]" "plain_entry ?D [100] [97]" "plain_entry ?D [100] [98]" "bad_entry ?D [100, 47, 115] [120]"
    by (simp_all add: D plain_entry_def bad_entry_def valid_path_def on_disk_def scan_disk_def fopen_rb_def demo_disk_def canon_def)
  moreover have "canon ([100] @ [slash] @ [115]) \<in> disk_dirs ?D" by (simp add: D scan_disk_def canon_def)
  moreover have "rx (the_link scan_client) = concat (replicate (length [[99 :: byte]] + 2) (send_replies [])) @ []"
    by (simp add: scan_client_def demo_conn_def numeral_3_eq_3)
  moreover have msgs: "send_msg ?D [100, 47, 115] [99] = concat (map request_msg (send_requests [100, 47, 115, 47, 99] [3]))"
    "send_msg ?D [100] [97] = concat (map request_msg (send_requests [100, 47, 97] [1]))"
    "send_msg ?D [100] [98] = concat (map request_msg (send_requests [100, 47, 98] [2]))"
    by (simp_all add: send_msg_def D scan_disk_def canon_def)
  moreover have "fd_sock scan_client \<noteq> -1" "pmem scan_client = Ample" "sent (the_link scan_client) = []"
    by (simp_all add: scan_client_def demo_client_def demo_conn_def)
  moreover have "length (concat (map (send_msg ?D [100, 47, 115]) [[99]] @ map (send_msg ?D [100]) [[97], [98]])) \<le> room (the_link scan_client)"
    using msgs by (simp add: send_requests_def request_msg_def path_msg_def data_msg_def scan_client_def demo_conn_def)
  ultimately show ?thesis
    using rec_scan_sends_more [of scan_readdir "[100]" scan_client "[115]" "[[97], [98]]" "[]" False "[[99]]" "[120]" "[]" False 2 "[]"]
    by (simp add: scan_readdir_def)
qed

end
