(* ===== verification/End_To_End.thy ===== *)
theory End_To_End
  imports Api_Calls
begin

text \<open>
  A call of the client library and the worker that serves it, put together: what the client sends is what
  the worker reads, and what the worker sends is what the client reads.
\<close>

section \<open>What the server answers\<close>

definition reply_of :: "request \<Rightarrow> int \<Rightarrow> byte list \<Rightarrow> (path \<times> byte list) list \<Rightarrow> byte list" where
  "reply_of r res bytes fs =
     (case r of
        Req_read p \<Rightarrow> if res = SA_SUCCESS then enc_int res @ data_msg bytes @ enc_int res else enc_int res
      | Req_write p bs \<Rightarrow> files_reply res fs
      | Req_append p bs \<Rightarrow> files_reply res fs
      | Req_read_n N \<Rightarrow> files_reply res fs
      | _ \<Rightarrow> enc_int res)"

text \<open>The contents of the file that is read, and the files of a list.\<close>

definition contents_of :: "request \<Rightarrow> astore \<Rightarrow> byte list" where
  "contents_of r A = (case r of Req_read p \<Rightarrow> (case A p of Some f \<Rightarrow> a_data f | None \<Rightarrow> []) | _ \<Rightarrow> [])"

definition listed :: "request \<Rightarrow> int \<Rightarrow> path set \<Rightarrow> server \<Rightarrow> (path \<times> byte list) list \<Rightarrow> bool" where
  "listed r res vs s fs \<longleftrightarrow>
     distinct (map fst fs) \<and> (\<forall>f \<in> set fs. \<exists>g. abs_store s (fst f) = Some g \<and> a_data g = snd f) \<and>
     length fs \<le> unat (st_files (curr_state s)) \<and>
     (case r of
        Req_write _ _ \<Rightarrow> fst ` set fs = (if res = SA_SUCCESS then vs else {})
      | Req_append _ _ \<Rightarrow> fst ` set fs = (if res = SA_SUCCESS then vs else {})
      | Req_read_n N \<Rightarrow> length fs = min (if N \<le> 0 then unat (st_files (curr_state s)) else nat N) (unat (st_files (curr_state s)))
      | _ \<Rightarrow> fs = [])"

text \<open>With room for what is asked nothing is expelled.\<close>

definition unforced :: "request \<Rightarrow> int \<Rightarrow> server \<Rightarrow> path set \<Rightarrow> bool" where
  "unforced r res s vs \<longleftrightarrow> (res = SA_SUCCESS \<longrightarrow>
     (case r of
        Req_open _ _ \<Rightarrow> unat (st_files (curr_state s)) < unat (cfg_max_files (config s)) \<longrightarrow> vs = {}
      | Req_write _ bs \<Rightarrow> unat (st_space (curr_state s)) + length bs \<le> unat (cfg_max_space (config s)) \<longrightarrow> vs = {}
      | Req_append _ bs \<Rightarrow> unat (st_space (curr_state s)) + length bs \<le> unat (cfg_max_space (config s)) \<longrightarrow> vs = {}
      | _ \<Rightarrow> True))"

text \<open>A connection that takes any reply.\<close>

definition roomy :: "conn \<Rightarrow> bool" where
  "roomy c \<longleftrightarrow> 2 ^ 92 \<le> room c"

definition answered :: "int \<Rightarrow> request \<Rightarrow> conn \<Rightarrow> server \<Rightarrow> (int \<times> conn \<times> server) res \<Rightarrow> bool" where
  "answered fd r c s out \<longleftrightarrow> (\<exists>res c1 s1 vs fs body.
     out = Ok (res, c1, s1) \<and> server_inv s1 \<and>
     (res, abs_store s1) = spec_request fd r (unat (cfg_max_space (config s))) vs (abs_store s) \<and>
     res_ok res \<and> sent c1 = sent c @ body \<and> body @ enc_int res = reply_of r res (contents_of r (abs_store s)) fs \<and>
     4 \<le> room c1 \<and> listed r res vs s fs \<and> unforced r res s vs)"

lemma answeredI:
  assumes "out = Ok (res, c1, s1)" "server_inv s1"
    "(res, abs_store s1) = spec_request fd r (unat (cfg_max_space (config s))) vs (abs_store s)"
    "res_ok res" "sent c1 = sent c @ body" "body @ enc_int res = reply_of r res (contents_of r (abs_store s)) fs"
    "4 \<le> room c1" "listed r res vs s fs" "unforced r res s vs"
  shows "answered fd r c s out"
  using assms unfolding answered_def by blast

text \<open>A call whose reply is its result only.\<close>

lemma answered_plain:
  assumes "out = Ok (res, c\<lparr>rx := rest\<rparr>, s1)" "server_inv s1"
    "(res, abs_store s1) = spec_request fd r (unat (cfg_max_space (config s))) vs (abs_store s)"
    "res_ok res" "roomy c" "reply_of r res (contents_of r (abs_store s)) [] = enc_int res" "listed r res vs s []"
    "unforced r res s vs"
  shows "answered fd r c s out"
proof (rule answeredI [OF assms(1-4) _ _ _ assms(7,8), of _ "[]"])
  show "4 \<le> room (c\<lparr>rx := rest\<rparr>)" using assms(5) by (simp add: roomy_def)
qed (simp_all add: assms(6))

lemma listed_none [simp]: "listed (Req_open p fl) res vs s []" "listed (Req_close p) res vs s []"
  "listed (Req_remove p) res vs s []" "listed (Req_read p) res vs s []"
  "res \<noteq> SA_SUCCESS \<Longrightarrow> listed (Req_write p bs) res vs s []" "res \<noteq> SA_SUCCESS \<Longrightarrow> listed (Req_append p bs) res vs s []"
  by (simp_all add: listed_def)

lemma unforced_other [simp]: "unforced (Req_close p) res s vs" "unforced (Req_remove p) res s vs" "unforced (Req_read p) res s vs"
  "unforced (Req_read_n N) res s vs" "res \<noteq> SA_SUCCESS \<Longrightarrow> unforced r res s vs"
  by (simp_all add: unforced_def)

lemma spec_res_ok: "(res, A') = spec_request fd r cap vs A \<Longrightarrow> res_ok res"
  by (cases r) (auto simp: res_ok_def spec_open_def spec_create_def spec_close_def spec_remove_def spec_write_def
      spec_append_def split: option.splits if_splits)

lemma open_answered:
  assumes "server_inv s" "client_fd fd" "valid_path p" "rx c = path_msg p @ enc_u32 fl @ rest" "clock s = t1 # t2 # ts"
    and "roomy c"
  shows "answered fd (Req_open p fl) c s (open_file fd c s)"
proof -
  from open_file_ok [OF assms(1-5)] obtain r s' vs where
    o: "open_file fd c s = Ok (r, c\<lparr>rx := rest\<rparr>, s')" "server_inv s'"
    "(r, abs_store s') = spec_request fd (Req_open p fl) (unat (cfg_max_space (config s))) (v_path ` set vs) (abs_store s)"
    "length vs = (if is_flag_set fl O_CREATE \<and> stored s p = None \<and>
                    st_files (curr_state s) = cfg_max_files (config s) then 1 else 0)"
    unfolding spec_request.simps by blast
  have "unforced (Req_open p fl) r s (v_path ` set vs)" using o(4) by (auto simp: unforced_def split: if_splits)
  then show ?thesis by (rule answered_plain [OF o(1-3) spec_res_ok [OF o(3)] assms(6), rotated 2]) (simp_all add: reply_of_def)
qed

lemma close_answered:
  assumes "server_inv s" "client_fd fd" "valid_path p" "rx c = path_msg p @ rest" "roomy c"
  shows "answered fd (Req_close p) c s (close_file fd c s)"
proof -
  from close_file_ok [OF assms(1-4)] obtain r s' where
    o: "close_file fd c s = Ok (r, c\<lparr>rx := rest\<rparr>, s')" "server_inv s'"
    "(r, abs_store s') = spec_request fd (Req_close p) (unat (cfg_max_space (config s))) {} (abs_store s)"
    unfolding spec_request.simps by blast
  show ?thesis by (rule answered_plain [OF o spec_res_ok [OF o(3)] assms(5)]) (simp_all add: reply_of_def)
qed

lemma remove_answered:
  assumes "server_inv s" "valid_path p" "rx c = path_msg p @ rest" "roomy c"
  shows "answered fd (Req_remove p) c s (remove_file fd c s)"
proof -
  from remove_file_ok [OF assms(1-3), of fd] obtain r s' where
    o: "remove_file fd c s = Ok (r, c\<lparr>rx := rest\<rparr>, s')" "server_inv s'"
    "(r, abs_store s') = spec_request fd (Req_remove p) (unat (cfg_max_space (config s))) {} (abs_store s)"
    unfolding spec_request.simps by blast
  show ?thesis by (rule answered_plain [OF o spec_res_ok [OF o(3)] assms(4)]) (simp_all add: reply_of_def)
qed

text \<open>The size of a reply.\<close>

lemma stored_listing:
  assumes inv: "server_inv s" and v: "\<forall>v \<in> set vs. stored s (v_path v) = Some (v_file v)"
  shows "\<forall>f \<in> set (listing vs). (\<exists>g. abs_store s (fst f) = Some g \<and> a_data g = snd f) \<and>
    valid_path (fst f) \<and> length (snd f) \<le> unat (cfg_max_space (config s))"
proof
  fix f assume "f \<in> set (listing vs)"
  then obtain x where x: "x \<in> set vs" "f = (v_path x, file_data (v_file x))" by (auto simp: listing_def)
  have st: "stored s (v_path x) = Some (v_file x)" using v x(1) by blast
  obtain a where "file_ok (v_path x) (v_file x)" using inv_file [OF inv st] by blast
  then show "(\<exists>g. abs_store s (fst f) = Some g \<and> a_data g = snd f) \<and> valid_path (fst f) \<and>
      length (snd f) \<le> unat (cfg_max_space (config s))"
    using st inv_size_le [OF inv st] x(2) by (simp add: abs_store_at file_data_def file_ok_def)
qed

lemma list_msg_length:
  assumes "\<forall>f \<in> set fs. length (fst f) < 2 ^ 31 \<and> length (snd f) < 2 ^ 63" "length fs < 2 ^ 27"
  shows "length (list_msg fs) \<le> 2 ^ 91 + 4"
proof -
  have "length (concat (map (\<lambda>(p, bs). file_msg True p bs) fs)) \<le> length fs * 2 ^ 64"
    using assms(1)
  proof (induction fs)
    case (Cons f fs)
    have "length (file_msg True (fst f) (snd f)) \<le> 2 ^ 64"
      using Cons.prems by (simp add: file_msg_def path_msg_def data_msg_def)
    then show ?case using Cons by (auto split: prod.split)
  qed simp
  also have "\<dots> \<le> 2 ^ 27 * 2 ^ 64" using assms(2) by (intro mult_le_mono) simp_all
  finally show ?thesis by (simp add: list_msg_def)
qed

lemma listing_fits:
  assumes inv: "server_inv s" and v: "\<forall>v \<in> set vs. stored s (v_path v) = Some (v_file v)"
    and n: "length vs \<le> unat (st_files (curr_state s))"
  shows "length (list_msg (listing vs)) \<le> 2 ^ 91 + 4"
proof (rule list_msg_length)
  have lim: "unat (cfg_max_space (config s)) < 2 ^ 63" "unat (st_files (curr_state s)) < 2 ^ 27"
    using inv by (auto simp: server_inv_def limits_ok_def)
  then show "length (listing vs) < 2 ^ 27" using n by (simp add: listing_def)
  show "\<forall>f \<in> set (listing vs). length (fst f) < 2 ^ 31 \<and> length (snd f) < 2 ^ 63"
    using stored_listing [OF inv v] lim by (fastforce simp: valid_path_def)
qed

lemma eviction_order_stored:
  "eviction_order st M vs \<Longrightarrow> v \<in> set vs \<Longrightarrow> M (v_path v) = Some (v_file v)"
  by (induction st M vs rule: eviction_order.induct) (auto split: if_splits)

lemma made_room_files:
  assumes "made_room p n s vs s'"
  shows "distinct (map v_path vs)" "\<forall>v \<in> set vs. stored s (v_path v) = Some (v_file v)"
    "length vs \<le> unat (st_files (curr_state s))" "fst ` set (listing vs) = v_path ` set vs"
proof -
  have "eviction_order (policy_stamp (cfg_policy (config s))) ((stored s)(p := None)) vs"
    using assms by (simp add: made_room_def)
  then have "((stored s)(p := None)) (v_path v) = Some (v_file v)" if "v \<in> set vs" for v
    using that by (rule eviction_order_stored)
  then show "\<forall>v \<in> set vs. stored s (v_path v) = Some (v_file v)"
    by (metis fun_upd_apply option.distinct(1))
  show "distinct (map v_path vs)" "length vs \<le> unat (st_files (curr_state s))"
    using assms by (auto simp: made_room_def)
qed (simp add: listing_def image_image)

lemma listed_files:
  assumes inv: "server_inv s" and v: "distinct (map v_path vs)" "\<forall>v \<in> set vs. stored s (v_path v) = Some (v_file v)"
    "length vs \<le> unat (st_files (curr_state s))"
  shows "distinct (map fst (listing vs)) \<and> (\<forall>f \<in> set (listing vs). \<exists>g. abs_store s (fst f) = Some g \<and> a_data g = snd f) \<and>
    length (listing vs) \<le> unat (st_files (curr_state s))"
  using v(1,3) stored_listing [OF inv v(2)] by (auto simp: listing_def comp_def)

text \<open>A reply with files, as a write, an append and a reading of many files make it.\<close>

lemma answered_files:
  assumes inv: "server_inv s" and run: "out = Ok (r0, c1, s1)" "server_inv s1"
    "(code, abs_store s1) = spec_request fd r (unat (cfg_max_space (config s))) (v_path ` set vs) (abs_store s)"
    and ok: "if code = SA_SUCCESS then (distinct (map v_path vs) \<and> (\<forall>v \<in> set vs. stored s (v_path v) = Some (v_file v)) \<and>
        length vs \<le> unat (st_files (curr_state s))) \<and> write_reply vs (c\<lparr>rx := rest\<rparr>) r0 c1
      else r0 = code \<and> c1 = c\<lparr>rx := rest\<rparr>"
    and room: "roomy c" and rep: "\<And>fs. reply_of r code (contents_of r (abs_store s)) fs = files_reply code fs"
    and l: "listed r code (v_path ` set vs) s (if code = SA_SUCCESS then listing vs else [])"
    and u: "unforced r code s (v_path ` set vs)"
  shows "answered fd r c s out"
proof (cases "code = SA_SUCCESS")
  case True
  then have len: "length (list_msg (listing vs)) \<le> 2 ^ 91 + 4" using ok by (intro listing_fits [OF inv]) auto
  moreover have "2 ^ 92 \<le> room c" using room by (simp add: roomy_def)
  moreover have "8 + (2 ^ 91 + 4) \<le> (2 ^ 92 :: nat)" by simp
  ultimately have big: "8 + length (list_msg (listing vs)) \<le> room c" by linarith
  then have "r0 = SA_SUCCESS" "c1 = say (enc_int SA_SUCCESS @ list_msg (listing vs)) (c\<lparr>rx := rest\<rparr>)"
    using ok True by (auto simp: write_reply_def)
  with True l run rep big u show ?thesis
    unfolding answered_def by (intro exI [of _ SA_SUCCESS] exI [of _ c1] exI [of _ s1] exI [of _ "v_path ` set vs"]
        exI [of _ "listing vs"] exI [of _ "enc_int SA_SUCCESS @ list_msg (listing vs)"])
      (simp add: files_reply_def res_ok_def)
next
  case False
  have "out = Ok (code, c\<lparr>rx := rest\<rparr>, s1)" using False ok run(1) by simp
  then show ?thesis
    by (rule answered_plain [OF _ run(2,3) spec_res_ok [OF run(3)] room]) (use False l rep u in \<open>simp_all add: files_reply_def\<close>)
qed

lemma made_room_listed:
  assumes inv: "server_inv s" and m: "made_room p n s vs s'"
  shows "listed (Req_write q bs) SA_SUCCESS (v_path ` set vs) s (listing vs)"
    "listed (Req_append q bs) SA_SUCCESS (v_path ` set vs) s (listing vs)"
  using listed_files [OF inv made_room_files(1-3) [OF m]] made_room_files(4) [OF m] by (simp_all add: listed_def)

lemma made_room_unforced:
  assumes "made_room p (length bs) s vs s'"
  shows "unforced (Req_write q bs) res s (v_path ` set vs)" "unforced (Req_append q bs) res s (v_path ` set vs)"
  using assms by (auto simp: unforced_def made_room_def)

lemma write_answered:
  assumes inv: "server_inv s" and a: "valid_path p" "payload_ok bs" "rx c = path_msg p @ data_msg bs @ rest" "clock s = now # ts"
    and room: "roomy c"
  shows "answered fd (Req_write p bs) c s (write_file fd c s)"
proof -
  have bs: "bs \<noteq> []" "length bs < 2 ^ 31" using a(2) by (simp_all add: payload_ok_def)
  from write_file_ok [OF inv a(1) bs a(3,4), of fd] obtain r c' s' vs code where
    w: "write_file fd c s = Ok (r, c', s')" "server_inv s'"
    "(code, abs_store s') = spec_request fd (Req_write p bs) (unat (cfg_max_space (config s))) (v_path ` set vs) (abs_store s)"
    and e: "if code = SA_SUCCESS then made_room p (length bs) s vs s' \<and> write_reply vs (c\<lparr>rx := rest\<rparr>) r c' \<and>
       (\<forall>v \<in> set vs. fheap s' (v_addr v) = None)
     else r = code \<and> c' = c\<lparr>rx := rest\<rparr> \<and> s' = s"
    unfolding spec_request.simps by blast
  show ?thesis
  proof (rule answered_files [OF inv w _ room])
    show "unforced (Req_write p bs) code s (v_path ` set vs)"
      using e made_room_unforced by (cases "code = SA_SUCCESS") auto
    show "listed (Req_write p bs) code (v_path ` set vs) s (if code = SA_SUCCESS then listing vs else [])"
      using e made_room_listed [OF inv] by (cases "code = SA_SUCCESS") auto
    show "if code = SA_SUCCESS then (distinct (map v_path vs) \<and> (\<forall>v \<in> set vs. stored s (v_path v) = Some (v_file v)) \<and>
        length vs \<le> unat (st_files (curr_state s))) \<and> write_reply vs (c\<lparr>rx := rest\<rparr>) r c'
      else r = code \<and> c' = c\<lparr>rx := rest\<rparr>"
    proof (cases "code = SA_SUCCESS")
      case True
      then have m: "made_room p (length bs) s vs s'" "write_reply vs (c\<lparr>rx := rest\<rparr>) r c'" using e by simp_all
      show ?thesis using True m(2) made_room_files(1-3) [OF m(1)] by simp
    qed (use e in simp)
  qed (simp add: reply_of_def)
qed

lemma append_answered:
  assumes inv: "server_inv s" and a: "valid_path p" "payload_ok bs" "rx c = path_msg p @ data_msg bs @ rest" "clock s = now # ts"
    and room: "roomy c"
  shows "answered fd (Req_append p bs) c s (append_to_file fd c s)"
proof -
  have bs: "bs \<noteq> []" "length bs < 2 ^ 31" using a(2) by (simp_all add: payload_ok_def)
  from append_to_file_ok [OF inv a(1) bs a(3,4), of fd] obtain r c' s' vs code where
    w: "append_to_file fd c s = Ok (r, c', s')" "server_inv s'"
    "(code, abs_store s') = spec_request fd (Req_append p bs) (unat (cfg_max_space (config s))) (v_path ` set vs) (abs_store s)"
    and e: "if code = SA_SUCCESS then made_room p (length bs) s vs s' \<and> write_reply vs (c\<lparr>rx := rest\<rparr>) r c' \<and>
       (\<forall>v \<in> set vs. fheap s' (v_addr v) = None)
     else r = code \<and> c' = c\<lparr>rx := rest\<rparr> \<and> s' = s"
    unfolding spec_request.simps by blast
  show ?thesis
  proof (rule answered_files [OF inv w _ room])
    show "unforced (Req_append p bs) code s (v_path ` set vs)"
      using e made_room_unforced by (cases "code = SA_SUCCESS") auto
    show "listed (Req_append p bs) code (v_path ` set vs) s (if code = SA_SUCCESS then listing vs else [])"
      using e made_room_listed [OF inv] by (cases "code = SA_SUCCESS") auto
    show "if code = SA_SUCCESS then (distinct (map v_path vs) \<and> (\<forall>v \<in> set vs. stored s (v_path v) = Some (v_file v)) \<and>
        length vs \<le> unat (st_files (curr_state s))) \<and> write_reply vs (c\<lparr>rx := rest\<rparr>) r c'
      else r = code \<and> c' = c\<lparr>rx := rest\<rparr>"
    proof (cases "code = SA_SUCCESS")
      case True
      then have m: "made_room p (length bs) s vs s'" "write_reply vs (c\<lparr>rx := rest\<rparr>) r c'" using e by simp_all
      show ?thesis using True m(2) made_room_files(1-3) [OF m(1)] by simp
    qed (use e in simp)
  qed (simp add: reply_of_def)
qed

lemma read_n_answered:
  assumes inv: "server_inv s" and some: "0 < unat (st_files (curr_state s)) \<or> 0 < N"
    and N: "- (2 ^ 31) \<le> N" "N < 2 ^ 31" and rx: "rx c = enc_int N @ rest" and room: "roomy c"
  shows "answered fd (Req_read_n N) c s (read_n_files fd c s)"
proof -
  from read_n_files_ok [OF inv some N rx, of fd] obtain r c' vs where
    r: "read_n_files fd c s = Ok (r, c', s)"
    and vs: "length vs = min (if N \<le> 0 then unat (st_files (curr_state s)) else nat N) (unat (st_files (curr_state s)))"
      "distinct (map v_path vs)" "\<forall>v \<in> set vs. stored s (v_path v) = Some (v_file v)"
    and w: "write_reply vs (c\<lparr>rx := rest\<rparr>) r c'"
    by (auto simp: write_reply_def)
  have n: "length vs \<le> unat (st_files (curr_state s))" using vs(1) by simp
  show ?thesis
  proof (rule answered_files [OF inv r inv, of SA_SUCCESS])
    show "listed (Req_read_n N) SA_SUCCESS (v_path ` set vs) s (if SA_SUCCESS = SA_SUCCESS then listing vs else [])"
      using listed_files [OF inv vs(2,3) n] vs(1) by (simp add: listed_def) (simp add: listing_def)
  qed (use vs w n room in \<open>simp_all add: reply_of_def\<close>)
qed

lemma read_answered:
  assumes inv: "server_inv s" and a: "valid_path p" "rx c = path_msg p @ rest" "clock s = now # ts" and room: "roomy c"
  shows "answered fd (Req_read p) c s (read_file fd c s)"
proof -
  have lim: "unat (cfg_max_space (config s)) < 2 ^ 63" using inv by (auto simp: server_inv_def limits_ok_def)
  have big: "16 + 2 ^ 63 \<le> room c" using room by (simp add: roomy_def)
  have len: "length (file_data f) < 2 ^ 63" if "stored s p = Some f" for f
    using inv_size_le [OF inv that] lim by simp
  then have r: "4 + length (data_msg (file_data f)) \<le> room c" if "stored s p = Some f" for f
    using that [THEN len] big by (simp add: data_msg_def)
  note rd = read_file_ok [OF inv a r, of fd]
  show ?thesis
  proof (cases "stored s p")
    case None
    then show ?thesis using rd inv room
      by (intro answered_plain [where res = SA_NO_FILE and rest = rest and ?s1.0 = s]) (simp_all add: abs_store_at res_ok_def reply_of_def)
  next
    case (Some f)
    then have A: "abs_store s p = Some (abs_file f)" "fd \<in> a_open (abs_file f) \<longleftrightarrow> fd \<in> openers f"
      "a_data (abs_file f) = file_data f" by (simp_all add: abs_store_at file_data_def) (simp add: abs_file_def)
    show ?thesis
    proof (cases "fd \<in> openers f")
      case False
      then show ?thesis using rd inv Some A room
        by (intro answered_plain [where res = SA_NO_OPEN and rest = rest and ?s1.0 = s]) (simp_all add: res_ok_def reply_of_def)
    next
      case True
      with rd Some obtain s' where
        run: "read_file fd c s = Ok (SA_SUCCESS, say (enc_int SA_SUCCESS @ data_msg (file_data f)) (c\<lparr>rx := rest\<rparr>), s')"
        "server_inv s'" and same: "abs_store s' = abs_store s" by auto
      show ?thesis
      proof (rule answeredI [OF run, where fs = "[]" and vs = "{}"])
        show "4 \<le> room (say (enc_int SA_SUCCESS @ data_msg (file_data f)) (c\<lparr>rx := rest\<rparr>))"
          using len [OF Some] big by (simp add: data_msg_def)
      qed (use True A same in \<open>simp_all add: res_ok_def reply_of_def contents_of_def\<close>)
    qed
  qed
qed

section \<open>The worker\<close>

definition servable :: "request \<Rightarrow> server \<Rightarrow> bool" where
  "servable r s \<longleftrightarrow> request_ok r \<and> (case r of Req_read_n N \<Rightarrow> 0 < N \<or> 0 < unat (st_files (curr_state s)) | _ \<Rightarrow> True)"

lemma request_answered:
  assumes "server_inv s" "client_fd fd" "servable r s" "rx c = request_args r @ rest" "clock s = t1 # t2 # ts" "roomy c"
  shows "\<exists>h. handler (op_value (request_op r)) = Some h \<and> answered fd r c s (h fd c s)"
proof (cases r)
  case (Req_open p fl)
  then show ?thesis using assms open_answered [of s fd p c fl rest t1 t2 ts] handler_op [of r] by (simp add: servable_def)
next
  case (Req_close p)
  then show ?thesis using assms close_answered [of s fd p c rest] handler_op [of r] by (simp add: servable_def)
next
  case (Req_read p)
  then show ?thesis using assms read_answered [of s p c rest t1 "t2 # ts" fd] handler_op [of r] by (simp add: servable_def)
next
  case (Req_write p bs)
  then show ?thesis using assms write_answered [of s p bs c rest t1 "t2 # ts" fd] handler_op [of r] by (simp add: servable_def)
next
  case (Req_append p bs)
  then show ?thesis using assms append_answered [of s p bs c rest t1 "t2 # ts" fd] handler_op [of r] by (simp add: servable_def)
next
  case (Req_read_n N)
  then show ?thesis using assms read_n_answered [of s N c rest fd] handler_op [of r] by (auto simp: servable_def)
next
  case (Req_remove p)
  then show ?thesis using assms remove_answered [of s p c rest fd] handler_op [of r] by (simp add: servable_def)
qed

text \<open>The reply of the worker, in full.\<close>

lemma serve_reply:
  assumes inv: "server_inv s" "client_fd fd" and r: "servable r s" and rx: "rx c = request_msg r @ rest"
    and clk: "clock s = t1 # t2 # ts" and room: "roomy c"
  shows "\<exists>c' s' vs res fs. serve_request fd c s = Ok (result_code res, c', s') \<and> server_inv s' \<and> config s' = config s \<and>
    (res, abs_store s') = spec_request fd r (unat (cfg_max_space (config s))) vs (abs_store s) \<and> res_ok res \<and>
    sent c' = sent c @ reply_of r res (contents_of r (abs_store s)) fs \<and> listed r res vs s fs \<and> unforced r res s vs"
proof -
  let ?c = "c\<lparr>rx := request_args r @ rest\<rparr>"
  have "roomy ?c" "rx ?c = request_args r @ rest" using room by (simp_all add: roomy_def)
  from request_answered [OF inv r this(2) clk this(1)] obtain h where
    h: "handler (op_value (request_op r)) = Some h" "answered fd r ?c s (h fd ?c s)" by auto
  then obtain res c1 s1 vs fs body where run: "h fd ?c s = Ok (res, c1, s1)" and s1: "server_inv s1"
    "(res, abs_store s1) = spec_request fd r (unat (cfg_max_space (config s))) vs (abs_store s)" "res_ok res"
    and out: "sent c1 = sent ?c @ body" "body @ enc_int res = reply_of r res (contents_of r (abs_store s)) fs"
      "4 \<le> room c1" "listed r res vs s fs" "unforced r res s vs" unfolding answered_def by blast
  from serve_run [OF rx h(1) run] out(3) have w: "serve_request fd c s = Ok (result_code res, say (enc_int res) c1, s1)"
    by auto
  have "config s1 = config s" using postD [OF handler_post [OF h(1)] run] by (simp add: static_def)
  then show ?thesis using w s1 out by (intro exI [of _ "say (enc_int res) c1"] exI [of _ s1] exI [of _ vs] exI [of _ res] exI [of _ fs]) simp
qed

section \<open>The client\<close>

text \<open>The call of the library that makes a request: what it returns, and the buffer of \<open>readFile\<close>.\<close>

definition no_buf :: "(int \<times> api) res \<Rightarrow> ((int \<times> byte list option) \<times> api) res" where
  "no_buf m = rbind m (\<lambda>(r, a). Ok ((r, None), a))"

fun api_call :: "request \<Rightarrow> path option \<Rightarrow> api \<Rightarrow> ((int \<times> byte list option) \<times> api) res option" where
  "api_call (Req_open p fl) dirname a = Some (no_buf (openFile (Some p) fl a))"
| "api_call (Req_close p) dirname a = Some (no_buf (closeFile (Some p) a))"
| "api_call (Req_remove p) dirname a = Some (no_buf (removeFile (Some p) a))"
| "api_call (Req_read p) dirname a = Some (rbind (readFile (Some p) True True a) (\<lambda>((r, n, buf), a). Ok ((r, buf), a)))"
| "api_call (Req_write p bs) dirname a = map_option no_buf (writeFile (Some p) dirname a)"
| "api_call (Req_append p bs) dirname a =
     map_option no_buf (appendToFile (Some p) (Some bs) (word_of_nat (length bs)) dirname a)"
| "api_call (Req_read_n N) dirname a = map_option no_buf (readNFiles N dirname a)"

text \<open>A call that succeeds returns 0, or the number of the files it has stored.\<close>

fun ok_value :: "request \<Rightarrow> nat \<Rightarrow> int" where
  "ok_value (Req_append _ _) n = int n"
| "ok_value (Req_read_n _) n = int n"
| "ok_value _ n = 0"

text \<open>What a client has to have ready for a call: for a write the file on its disk, just opened.\<close>

definition call_ready :: "request \<Rightarrow> api \<Rightarrow> bool" where
  "call_ready r a \<longleftrightarrow> can_send r a \<and>
     (case r of
        Req_write p bs \<Rightarrow> fopen_rb p (the_disk a) = Some bs \<and> \<not> read_broken (the_disk a) (canon p) \<and>
          last_op a = opened p (O_CREATE OR O_LOCK) True
      | _ \<Rightarrow> True)"

lemma call_ready_hear [simp]: "call_ready r (hear bs a) = call_ready r a" "can_send r (hear bs a) = can_send r a"
  by (simp_all add: call_ready_def can_send_def hear_def split: request.split)

definition call_done :: "request \<Rightarrow> int \<Rightarrow> byte list \<Rightarrow> (path \<times> byte list) list \<Rightarrow> path \<Rightarrow> api \<Rightarrow> int \<times> byte list option \<Rightarrow> api \<Rightarrow> bool" where
  "call_done r res bytes fs dir a v a' \<longleftrightarrow>
     sent (the_link a') = sent (the_link a) @ request_msg r \<and> rx (the_link a') = [] \<and> fd_sock a' = fd_sock a \<and>
     (if res = SA_SUCCESS
      then v = (ok_value r (length fs), case r of Req_read _ \<Rightarrow> Some bytes | _ \<Rightarrow> None) \<and>
           the_disk a' = with_files dir fs (the_disk a)
      else v = (-1, None) \<and> errno_v a' = convert_res_to_errno res \<and> the_disk a' = the_disk a)"

lemma with_files_Nil [simp]: "with_files dir [] d = d"
  by (simp add: with_files_def)

lemma answer_of_done:
  assumes "\<forall>n. ok_value r n = 0" "\<And>p. r \<noteq> Req_read p"
  shows "\<exists>v a'. no_buf (answer_of res ((spoke r [] a)\<lparr>last_op := L\<rparr>)) = Ok (v, a') \<and> call_done r res bytes [] dir a v a'"
  using assms by (cases r) (auto simp: no_buf_def answer_of_def call_done_def)

lemma files_answer_done:
  assumes "\<forall>f \<in> set fs. sendable f" "res = SA_SUCCESS \<Longrightarrow> dir_ready dir (the_disk a) fs" "pmem a = Ample" "length fs < 2 ^ 31"
    and "r = Req_append p bs \<or> r = Req_read_n N"
  shows "\<exists>v a'. map_option no_buf (files_answer r res fs [] (Some dir) a) = Some (Ok (v, a')) \<and> call_done r res bytes fs dir a v a'"
  using store_received_dir [OF assms(1), of dir "heard r [] a"] assms(2-5)
  by (cases "res = SA_SUCCESS") (auto simp: files_answer_def no_buf_def call_done_def heard_def)

lemma write_answer_done:
  assumes "\<forall>f \<in> set fs. sendable f" "res = SA_SUCCESS \<Longrightarrow> dir_ready dir (the_disk a) fs" "pmem a = Ample" "length fs < 2 ^ 31"
  shows "\<exists>v a'. map_option no_buf (lbind (files_answer (Req_write p bs) res fs [] (Some dir) a)
      (\<lambda>(n, a). Some (Ok (if n = -1 then -1 else 0, a)))) = Some (Ok (v, a')) \<and> call_done (Req_write p bs) res bytes fs dir a v a'"
  using store_received_dir [OF assms(1), of dir "heard (Req_write p bs) [] a"] assms(2-4)
  by (cases "res = SA_SUCCESS") (auto simp: files_answer_def no_buf_def call_done_def heard_def)

lemma read_answer_done:
  assumes "call_ready (Req_read p) a" "valid_path p" "res_ok res" "rx (the_link a) = reply_of (Req_read p) res bytes fs"
    and "res = SA_SUCCESS \<Longrightarrow> bytes \<noteq> [] \<and> length bytes < 2 ^ 31"
  shows "\<exists>v a'. api_call (Req_read p) dirname a = Some (Ok (v, a')) \<and> call_done (Req_read p) res bytes [] dir a v a'"
proof -
  have c: "can_send (Req_read p) a" using assms(1) by (simp add: call_ready_def)
  obtain tail where tail: "rx (the_link a) = enc_int res @ tail"
    "res = SA_SUCCESS \<Longrightarrow> tail = data_msg bytes @ enc_int SA_SUCCESS @ []" "res \<noteq> SA_SUCCESS \<Longrightarrow> tail = []"
    by (cases "res = SA_SUCCESS") (use assms(4) in \<open>auto simp: reply_of_def\<close>)
  note run = readFile_run [OF c assms(2) tail(1) assms(3)]
  show ?thesis
  proof (cases "res = SA_SUCCESS")
    case False
    then show ?thesis using run tail(3) by (simp add: call_done_def Let_def)
  next
    case True
    let ?a = "(spoke (Req_read p) tail a)\<lparr>last_op := no_op\<rparr>"
    have "read_contents (None, None) ?a = Ok (Some (0, Some (word_of_nat (length bytes)), Some bytes), (hear [] ?a)\<lparr>errno_v := Errno_0\<rparr>)"
      using read_contents_ok [of ?a bytes SA_SUCCESS "[]" "(None, None)"] tail(2) True assms(3,5) c by (simp add: can_send_def)
    then show ?thesis using run True by (simp add: call_done_def Let_def)
  qed
qed

lemma api_call_done:
  assumes ready: "call_ready r a" and r: "request_ok r" "res_ok res" and rx: "rx (the_link a) = reply_of r res bytes fs"
    and fs: "\<forall>f \<in> set fs. sendable f" "length fs < 2 ^ 31" "dir_ready dir (the_disk a) fs"
    and "\<And>p. r = Req_read p \<Longrightarrow> fs = [] \<and> (res = SA_SUCCESS \<longrightarrow> bytes \<noteq> [] \<and> length bytes < 2 ^ 31)"
    and "\<And>p fl. r = Req_open p fl \<or> r = Req_close p \<or> r = Req_remove p \<Longrightarrow> fs = []"
  shows "\<exists>v a'. api_call r (Some dir) a = Some (Ok (v, a')) \<and> call_done r res bytes fs dir a v a'"
proof -
  have c: "can_send r a" "pmem a = Ample" using ready by (simp_all add: call_ready_def can_send_def)
  show ?thesis
  proof (cases r)
    case (Req_open p fl)
    then show ?thesis
      using openFile_ok [of p fl a res "[]"] answer_of_done [of r res "opened p fl (res = SA_SUCCESS)" a bytes dir] c r rx assms(9)
      by (simp add: reply_of_def)
  next
    case (Req_close p)
    then show ?thesis using closeFile_ok [of p a res "[]"] answer_of_done [of r res no_op a bytes dir] c r rx assms(9)
      by (simp add: reply_of_def)
  next
    case (Req_remove p)
    then show ?thesis using removeFile_ok [of p a res "[]"] answer_of_done [of r res no_op a bytes dir] c r rx assms(9)
      by (simp add: reply_of_def)
  next
    case (Req_read p)
    then show ?thesis using read_answer_done [of p a res bytes fs "Some dir" dir] ready r rx assms(8) by simp
  next
    case (Req_write p bs)
    then show ?thesis
      using writeFile_ok [of p bs a res fs "[]" "Some dir"] write_answer_done [where res = res and bytes = bytes and p = p and bs = bs, OF fs(1,3) c(2) fs(2)] ready c r rx fs
      by (simp add: reply_of_def call_ready_def payload_ok_def)
  next
    case (Req_append p bs)
    then show ?thesis
      using appendToFile_ok [of p bs a res fs "[]" "Some dir"] files_answer_done [where r = r and res = res and bytes = bytes and p = p and bs = bs and N = 0, OF fs(1,3) c(2) fs(2)] c r rx fs
      by (simp add: reply_of_def payload_ok_def)
  next
    case (Req_read_n N)
    then show ?thesis
      using readNFiles_ok [of N a res fs "[]" "Some dir"] files_answer_done [where r = r and res = res and bytes = bytes and p = "[]" and bs = "[]" and N = N, OF fs(1,3) c(2) fs(2)] c r rx fs
      by (simp add: reply_of_def)
  qed
qed

section \<open>Properties\<close>

text \<open>
  The client has a directory that can take every file of the store, and no file of the store has an
  empty name.
\<close>

definition dir_for_store :: "path \<Rightarrow> disk \<Rightarrow> astore \<Rightarrow> bool" where
  "dir_for_store dir d A \<longleftrightarrow> dir_ready dir d [] \<and>
     (\<forall>p f. A p = Some f \<longrightarrow> p \<noteq> [] \<and> can_write d dir p (a_data f))"

lemma listed_sendable:
  assumes inv: "server_inv s" and l: "listed r res vs s fs" and d: "dir_for_store dir d (abs_store s)"
    and cap: "unat (cfg_max_space (config s)) < 2 ^ 31"
  shows "\<forall>f \<in> set fs. sendable f" "length fs < 2 ^ 31" "dir_ready dir d fs"
proof -
  have f: "sendable f \<and> can_write d dir (fst f) (snd f)" if "f \<in> set fs" for f
  proof -
    have "\<forall>f \<in> set fs. \<exists>g. abs_store s (fst f) = Some g \<and> a_data g = snd f" using l by (simp add: listed_def)
    with that obtain g where g: "abs_store s (fst f) = Some g" "a_data g = snd f" by blast
    then obtain x where x: "stored s (fst f) = Some x" "snd f = file_data x"
      by (auto simp: abs_store_at file_data_def split: option.splits)
    obtain a where "file_ok (fst f) x" using inv_file [OF inv x(1)] by blast
    then have v: "valid_path (fst f)" by (simp add: file_ok_def)
    have "length (snd f) < 2 ^ 31" unfolding x(2) using inv_size_le [OF inv x(1)] cap by (rule le_less_trans)
    moreover have "fst f \<noteq> []" "can_write d dir (fst f) (a_data g)"
      using d g(1) by (simp_all add: dir_for_store_def)
    ultimately show ?thesis using v g(2) by (simp add: sendable_def)
  qed
  then show "\<forall>f \<in> set fs. sendable f" by blast
  show "dir_ready dir d fs" using f d by (auto simp: dir_ready_def dir_for_store_def)
  have "unat (st_files (curr_state s)) < 2 ^ 27" using inv by (auto simp: server_inv_def limits_ok_def)
  then show "length fs < 2 ^ 31" using l by (simp add: listed_def)
qed


text \<open>A client that reads all the files of the example store into a directory.\<close>

definition demo_api :: api where
  "demo_api = \<lparr>errno_v = Errno_0, pmem = Ample, the_disk = the_disk demo_proc2, fd_sock = 4, socket_path = Some [115],
     last_op = no_op, the_link = \<lparr>rx = [], rx_end = Rx_wait, sent = [], room = 1000\<rparr>\<rparr>"

definition big_conn :: "byte list \<Rightarrow> conn" where
  "big_conn bs = \<lparr>rx = bs, rx_end = Rx_wait, sent = [], room = 2 ^ 92\<rparr>"

lemma demo_dir: "dir_for_store [100] (the_disk demo_api) (abs_store demo)"
proof -
  have "dir_ready [100] (the_disk demo_api) []"
    using demo_ready by (simp add: dir_ready_def demo_api_def PATH_MAX_def)
  moreover have "can_write (the_disk demo_api) [100] [97] [1, 2, 3]" "can_write (the_disk demo_api) [100] [98] [4, 5, 6, 7]"
    by (simp_all add: demo_api_def can_write_def target_def base_name_def demo_proc2_def demo_disk_def fopen_wb_def
        canon_def parent_def Let_def)
  ultimately show ?thesis
    by (auto simp: dir_for_store_def abs_store_at demo_stored abs_file_def demo_file_def split: if_splits)
qed


text \<open>C32: a call that receives files (\<open>writeFile\<close>, \<open>appendToFile\<close> or \<open>readNFiles\<close>) and has nowhere to put them reports a failure
  although the server did what it was asked for: without a directory it returns -1 with \<open>ECANCELED\<close>, and
  when the directory cannot be made it returns -1 with the error of \<open>mkdir_p\<close>, never the documented
  \<open>ENOTEMPTY\<close>. At least one file is received, and what is received is well formed.\<close>

theorem files_without_directory:
  assumes "(\<exists>p bs. r = Req_write p bs) \<or> (\<exists>p bs. r = Req_append p bs) \<or> (\<exists>N. r = Req_read_n N)"
    and "request_ok r" "call_ready r a" "\<forall>f \<in> set fs. sendable f" "fs \<noteq> []" "length fs < 2 ^ 31"
    and "rx (the_link a) = files_reply SA_SUCCESS fs @ rest"
  shows "api_call r None a = Some (Ok ((-1, None), (heard r rest a)\<lparr>errno_v := ECANCELED\<rparr>)) \<and>
    (\<forall>dir a'. mkdir_p dir (heard r rest a) = Ok (-1, a') \<longrightarrow> api_call r (Some dir) a = Some (Ok ((-1, None), a')))"
proof -
  have ok: "res_ok SA_SUCCESS" by (simp add: res_ok_def)
  have c: "can_send r a" using assms(3) by (simp add: call_ready_def)
  have ne: "received fs \<noteq> []" "length (received fs) < 2 ^ 32" using assms(5,6) by (simp_all add: received_def)
  define ans where "ans dirname = files_answer r SA_SUCCESS fs rest dirname a" for dirname
  have none: "ans None = Some (Ok (-1, (heard r rest a)\<lparr>errno_v := ECANCELED\<rparr>))"
    using ne by (simp add: ans_def files_answer_def store_received_none)
  have dir: "ans (Some dir) = Some (Ok (-1, a'))" if "mkdir_p dir (heard r rest a) = Ok (-1, a')" for dir a'
    using store_received_no_dir [OF assms(4) that] by (simp add: ans_def files_answer_def)
  have "api_call r dirname a = Some (Ok ((-1, None), a'))" if "ans dirname = Some (Ok (-1, a'))" for dirname a'
    using assms(1)
  proof (elim disjE exE)
    fix p bs assume r: "r = Req_write p bs"
    have "valid_path p" "length bs < 2 ^ 31" "fopen_rb p (the_disk a) = Some bs" "\<not> read_broken (the_disk a) (canon p)"
      "last_op a = opened p (O_CREATE OR O_LOCK) True"
      using assms(2,3) r by (simp_all add: payload_ok_def call_ready_def)
    from writeFile_ok [OF c [unfolded r] this assms(7) ok assms(4)] that show ?thesis by (simp add: r ans_def no_buf_def)
  next
    fix p bs assume r: "r = Req_append p bs"
    have "valid_path p" "length bs < 2 ^ 31" "bs \<noteq> []" using assms(2) r by (simp_all add: payload_ok_def)
    from appendToFile_ok [OF c [unfolded r] this assms(7) ok assms(4)] that show ?thesis by (simp add: r ans_def no_buf_def)
  next
    fix N assume r: "r = Req_read_n N"
    from readNFiles_ok [OF c [unfolded r] assms(7) ok assms(4)] that show ?thesis by (simp add: r ans_def no_buf_def)
  qed
  with none dir show ?thesis by blast
qed

text \<open>A write that was served, and whose expelled file is lost.\<close>

lemma files_without_directory_witness:
  "\<exists>a'. writeFile (Some [97]) None (hear (files_reply SA_SUCCESS [([98], [4])] @ [])
     (demo_api\<lparr>last_op := opened [97] (O_CREATE OR O_LOCK) True\<rparr>)) = Some (Ok (-1, a')) \<and> errno_v a' = ECANCELED"
proof -
  let ?r = "Req_write [97] [1, 2, 3]" and ?a = "hear (files_reply SA_SUCCESS [([98], [4])] @ [])
     (demo_api\<lparr>last_op := opened [97] (O_CREATE OR O_LOCK) True\<rparr>)"
  have "request_ok ?r" using demo_path(1) by (simp add: payload_ok_def)
  moreover have "call_ready ?r ?a"
    by (simp add: call_ready_def can_send_def demo_api_def request_msg_def path_msg_def data_msg_def fopen_rb_def demo_proc2_def
        demo_disk_def canon_def hear_def)
  moreover have "\<forall>f \<in> set [([98], [4])]. sendable f" by (simp add: sendable_def valid_path_def)
  ultimately have "api_call ?r None ?a = Some (Ok ((-1, None), (heard ?r [] ?a)\<lparr>errno_v := ECANCELED\<rparr>))"
    using files_without_directory [of ?r ?a "[([98], [4])]" "[]"] by simp
  then obtain m where m: "writeFile (Some [97]) None ?a = Some m" "no_buf m = Ok ((-1, None), (heard ?r [] ?a)\<lparr>errno_v := ECANCELED\<rparr>)"
    by auto
  then show ?thesis by (cases m) (auto simp: no_buf_def)
qed

end
