(* ===== verification/Client_Server.thy ===== *)
theory Client_Server
  imports Execute End_To_End
begin

text \<open>
  The client program against the server: what the option \<open>-W\<close> does to the store. The server is seen through an
  interface, what it answers to a request and what it does to its files, which the worker provides.
\<close>

section \<open>The interface of the server\<close>

definition total_size :: "astore \<Rightarrow> nat" where
  "total_size A = (\<Sum>p \<in> dom A. length (a_data (the (A p))))"

text \<open>A request for which the limits leave room.\<close>

definition has_room :: "nat \<Rightarrow> nat \<Rightarrow> request \<Rightarrow> astore \<Rightarrow> bool" where
  "has_room max_files cap r A =
     (case r of
        Req_open _ _ \<Rightarrow> card (dom A) < max_files
      | Req_write _ bs \<Rightarrow> total_size A + length bs \<le> cap
      | Req_append _ bs \<Rightarrow> total_size A + length bs \<le> cap
      | Req_read_n _ \<Rightarrow> False
      | _ \<Rightarrow> True)"

locale file_service =
  fixes inv :: "'s \<Rightarrow> bool" and view :: "'s \<Rightarrow> astore" and serves :: "request \<Rightarrow> 's \<Rightarrow> byte list \<Rightarrow> 's \<Rightarrow> bool"
    and fd :: int and max_files :: nat and cap :: nat
  assumes serves: "inv s \<Longrightarrow> request_ok r \<Longrightarrow> has_room max_files cap r (view s) \<Longrightarrow> \<exists>reply s'. serves r s reply s'"
    and served: "inv s \<Longrightarrow> request_ok r \<Longrightarrow> has_room max_files cap r (view s) \<Longrightarrow> serves r s reply s' \<Longrightarrow>
      \<exists>res. inv s' \<and> (res, view s') = spec_request fd r cap {} (view s) \<and>
        reply = reply_of r res (contents_of r (view s)) []"
    and finite_view: "inv s \<Longrightarrow> finite (dom (view s))"

text \<open>Requests one after the other, with the replies put together.\<close>

fun serves_all :: "(request \<Rightarrow> 's \<Rightarrow> byte list \<Rightarrow> 's \<Rightarrow> bool) \<Rightarrow> request list \<Rightarrow> 's \<Rightarrow> byte list \<Rightarrow> 's \<Rightarrow> bool" where
  "serves_all serves [] s reply s' \<longleftrightarrow> reply = [] \<and> s' = s"
| "serves_all serves (r # rs) s reply s' \<longleftrightarrow>
     (\<exists>r1 s1 r2. serves r s r1 s1 \<and> serves_all serves rs s1 r2 s' \<and> reply = r1 @ r2)"

lemma serves_all_Cons:
  "serves r s r1 s1 \<Longrightarrow> serves_all serves rs s1 r2 s' \<Longrightarrow> serves_all serves (r # rs) s (r1 @ r2) s'"
  by auto

lemma serves_all_append:
  "serves_all serves (rs @ qs) s reply s' \<longleftrightarrow>
     (\<exists>r1 s1 r2. serves_all serves rs s r1 s1 \<and> serves_all serves qs s1 r2 s' \<and> reply = r1 @ r2)"
  by (induction rs arbitrary: s reply) (simp, force)

text \<open>
  The requests can be served, and however they are served the server sends \<open>reply\<close> and comes to the files \<open>A\<close>.
\<close>

definition yields ::
  "('s \<Rightarrow> bool) \<Rightarrow> ('s \<Rightarrow> astore) \<Rightarrow> (request \<Rightarrow> 's \<Rightarrow> byte list \<Rightarrow> 's \<Rightarrow> bool) \<Rightarrow> request list \<Rightarrow> 's \<Rightarrow> byte list \<Rightarrow> astore \<Rightarrow> bool" where
  "yields I view serves rs s reply A \<longleftrightarrow>
     (\<exists>s'. serves_all serves rs s reply s') \<and>
     (\<forall>reply' s'. serves_all serves rs s reply' s' \<longrightarrow> reply' = reply \<and> I s' \<and> view s' = A)"

lemma yields_append:
  assumes "yields I view serves rs s r1 A" "\<And>s1. I s1 \<Longrightarrow> view s1 = A \<Longrightarrow> yields I view serves qs s1 r2 B"
  shows "yields I view serves (rs @ qs) s (r1 @ r2) B"
proof -
  obtain s1 where s1: "serves_all serves rs s r1 s1" using assms(1) by (auto simp: yields_def)
  then have "I s1" "view s1 = A" using assms(1) by (auto simp: yields_def)
  from assms(2) [OF this] obtain s2 where "serves_all serves qs s1 r2 s2" by (auto simp: yields_def)
  with s1 have "\<exists>s'. serves_all serves (rs @ qs) s (r1 @ r2) s'" unfolding serves_all_append by blast
  moreover have "reply' = r1 @ r2 \<and> I s' \<and> view s' = B" if r: "serves_all serves (rs @ qs) s reply' s'" for reply' s'
  proof -
    obtain q1 t q2 where t: "serves_all serves rs s q1 t" "serves_all serves qs t q2 s'" "reply' = q1 @ q2"
      using r unfolding serves_all_append by blast
    then have q: "q1 = r1" "I t" "view t = A" using assms(1) by (auto simp: yields_def)
    from assms(2) [OF q(2,3)] t(2) have "q2 = r2 \<and> I s' \<and> view s' = B" by (auto simp: yields_def)
    with q(1) t(3) show ?thesis by simp
  qed
  ultimately show ?thesis unfolding yields_def by blast
qed

section \<open>A file of the client\<close>

lemma create_flags: "is_flag_set (O_CREATE OR O_LOCK) O_CREATE" "is_flag_set (O_CREATE OR O_LOCK) O_LOCK"
  by (simp_all add: is_flag_set_bit bit_or_iff) (simp_all add: O_CREATE_def O_LOCK_def bit_iff_odd)

lemma total_size_add:
  assumes "finite (dom A)" "A p = None"
  shows "total_size (A(p \<mapsto> f)) = total_size A + length (a_data f)"
proof -
  have p: "p \<notin> dom A" using assms(2) by auto
  have d: "dom (A(p \<mapsto> f)) = insert p (dom A)" by auto
  have "(\<Sum>q \<in> dom A. length (a_data (the ((A(p \<mapsto> f)) q)))) = total_size A"
    unfolding total_size_def using p by (intro sum.cong) auto
  then show ?thesis unfolding total_size_def d using assms(1) p by simp
qed

definition closed_file :: "byte list \<Rightarrow> afile" where
  "closed_file bs = \<lparr>a_data = bs, a_lock = -1, a_open = {}\<rparr>"

context file_service
begin

lemma yields_step:
  assumes "inv s" "request_ok r" "has_room max_files cap r (view s)"
    "spec_request fd r cap {} (view s) = (SA_SUCCESS, A)"
  shows "yields inv view serves [r] s (reply_of r SA_SUCCESS (contents_of r (view s)) []) A"
proof -
  have "reply = reply_of r SA_SUCCESS (contents_of r (view s)) [] \<and> inv s' \<and> view s' = A" if "serves r s reply s'" for reply s'
    using served [OF assms(1-3) that] assms(4) by auto
  with serves [OF assms(1-3)] show ?thesis by (auto simp: yields_def)
qed

lemma send_served:
  assumes s: "inv s" and p: "valid_path p" "view s p = None" and bs: "bs \<noteq> []" "length bs < 2 ^ 31"
    and room: "card (dom (view s)) < max_files" "total_size (view s) + length bs \<le> cap"
  shows "yields inv view serves (send_requests p bs) s (send_replies []) ((view s)(p \<mapsto> closed_file bs))"
proof -
  let ?fl = "O_CREATE OR O_LOCK"
  let ?f1 = "\<lparr>a_data = [], a_lock = fd, a_open = {fd}\<rparr>"
  let ?A1 = "(view s)(p \<mapsto> ?f1)" and ?A2 = "(view s)(p \<mapsto> ?f1\<lparr>a_data := bs\<rparr>)" and ?A3 = "(view s)(p \<mapsto> closed_file bs)"
  have fin: "finite (dom (view s))" using s by (rule finite_view)
  have "spec_request fd (Req_open p ?fl) cap {} (view s) = (SA_SUCCESS, ?A1)"
    using p(2) create_flags by (simp add: spec_create_def restrict_map_def)
  moreover have "request_ok (Req_open p ?fl)" "has_room max_files cap (Req_open p ?fl) (view s)"
    using p(1) room(1) by (simp_all add: has_room_def)
  ultimately have one: "yields inv view serves [Req_open p ?fl] s (enc_int SA_SUCCESS) ?A1"
    using yields_step [OF s] by (metis reply_of_def request.case(1))
  have two: "yields inv view serves [Req_write p bs] s1 (files_reply SA_SUCCESS []) ?A2" if s1: "inv s1" "view s1 = ?A1" for s1
  proof -
    have "spec_request fd (Req_write p bs) cap {} (view s1) = (SA_SUCCESS, ?A2)"
      using s1(2) room(2) by (simp add: spec_write_def restrict_map_def fun_eq_iff)
    moreover have "request_ok (Req_write p bs)" using p(1) bs by (simp add: payload_ok_def)
    moreover have "has_room max_files cap (Req_write p bs) (view s1)"
      using s1(2) room(2) total_size_add [OF fin p(2), of ?f1] by (simp add: has_room_def)
    ultimately show ?thesis using yields_step [OF s1(1)] by (metis reply_of_def request.case(4))
  qed
  have three: "yields inv view serves [Req_close p] s2 (enc_int SA_SUCCESS) ?A3" if s2: "inv s2" "view s2 = ?A2" for s2
  proof -
    have "spec_request fd (Req_close p) cap {} (view s2) = (SA_SUCCESS, ?A3)"
      using s2(2) by (simp add: spec_close_def leave_def closed_file_def)
    moreover have "request_ok (Req_close p)" "has_room max_files cap (Req_close p) (view s2)"
      using p(1) by (simp_all add: has_room_def)
    ultimately show ?thesis using yields_step [OF s2(1)] by (metis reply_of_def request.case(2))
  qed
  have "yields inv view serves ([Req_write p bs] @ [Req_close p]) s1 (files_reply SA_SUCCESS [] @ enc_int SA_SUCCESS) ?A3"
    if "inv s1" "view s1 = ?A1" for s1
    by (rule yields_append [OF two [OF that] three])
  from yields_append [OF one this] show ?thesis by (simp add: send_requests_def send_replies_def)
qed

text \<open>The whole list.\<close>

lemma send_files_served:
  assumes "inv s" "distinct (map fst fs)"
    and fs: "\<forall>f \<in> set fs. valid_path (fst f) \<and> view s (fst f) = None \<and> on_disk (fst f) (snd f) (the_disk a)"
    and room: "card (dom (view s)) + length fs \<le> max_files" "total_size (view s) + (\<Sum>f \<leftarrow> fs. length (snd f)) \<le> cap"
    and a: "fd_sock a \<noteq> -1" "pmem a = Ample"
      "length (concat (map request_msg (concat (map (\<lambda>f. send_requests (fst f) (snd f)) fs)))) \<le> room (the_link a)"
    and rx: "rx (the_link a) = concat (map (\<lambda>f. send_replies []) fs) @ rest"
  shows "yields inv view serves (concat (map (\<lambda>f. send_requests (fst f) (snd f)) fs)) s (concat (map (\<lambda>f. send_replies []) fs))
      (view s ++ map_of (map (\<lambda>f. (fst f, closed_file (snd f))) fs)) \<and>
    (\<exists>a'. send_files (map fst fs) None a = Some (Ok a') \<and> rx (the_link a') = rest \<and> the_disk a' = the_disk a \<and>
       sent (the_link a') = sent (the_link a) @ concat (map request_msg (concat (map (\<lambda>f. send_requests (fst f) (snd f)) fs))))"
  using assms
proof (induction fs arbitrary: s a)
  case Nil
  then show ?case by (simp add: yields_def)
next
  case (Cons f fs)
  obtain p bs where f: "f = (p, bs)" by (cases f)
  let ?rs = "concat (map (\<lambda>f. send_requests (fst f) (snd f)) fs)" and ?rep = "concat (map (\<lambda>f. send_replies []) fs)"
  have p: "valid_path p" "view s p = None" "on_disk p bs (the_disk a)" using Cons.prems(3) f by auto
  have fin: "finite (dom (view s))" using Cons.prems(1) by (rule finite_view)
  have first: "yields inv view serves (send_requests p bs) s (send_replies []) ((view s)(p \<mapsto> closed_file bs))"
    using send_served [OF Cons.prems(1) p(1,2), of bs] p(3) Cons.prems(4,5) f by (auto simp: on_disk_def)
  obtain a1 where a1: "send_file p None a = Some (Ok (True, a1))" "fd_sock a1 = fd_sock a" "pmem a1 = Ample"
    "rx (the_link a1) = ?rep @ rest" "the_disk a1 = the_disk a"
    "sent (the_link a1) = sent (the_link a) @ concat (map request_msg (send_requests p bs))"
    "room (the_link a1) = room (the_link a) - length (concat (map request_msg (send_requests p bs)))"
    using send_file_alone [OF p(1,3) Cons.prems(6,7), of "?rep @ rest"] Cons.prems(8,9) f by auto
  have later: "yields inv view serves ?rs s1 ?rep (view s1 ++ map_of (map (\<lambda>f. (fst f, closed_file (snd f))) fs)) \<and>
    (\<exists>a'. send_files (map fst fs) None a1 = Some (Ok a') \<and> rx (the_link a') = rest \<and> the_disk a' = the_disk a1 \<and>
       sent (the_link a') = sent (the_link a1) @ concat (map request_msg ?rs))"
    if s1: "inv s1" "view s1 = (view s)(p \<mapsto> closed_file bs)" for s1
  proof (rule Cons.IH [OF s1(1)])
    have "dom (view s1) = insert p (dom (view s))" using s1(2) by auto
    moreover have "p \<notin> dom (view s)" using p(2) by auto
    ultimately show "card (dom (view s1)) + length fs \<le> max_files" using Cons.prems(4) fin by simp
    show "total_size (view s1) + (\<Sum>f \<leftarrow> fs. length (snd f)) \<le> cap"
      using Cons.prems(5) f s1(2) total_size_add [OF fin p(2)] by (simp add: closed_file_def)
    have "p \<notin> fst ` set fs" using Cons.prems(2) f by simp
    then show "\<forall>f \<in> set fs. valid_path (fst f) \<and> view s1 (fst f) = None \<and> on_disk (fst f) (snd f) (the_disk a1)"
      using Cons.prems(3) s1(2) a1(5) by (auto simp: image_iff)
  qed (use Cons.prems a1 f in auto)
  have "p \<notin> dom (map_of (map (\<lambda>f. (fst f, closed_file (snd f))) fs))"
    using Cons.prems(2) f by (auto simp: dom_map_of_conv_image_fst image_iff)
  then have v: "(view s)(p \<mapsto> closed_file bs) ++ map_of (map (\<lambda>f. (fst f, closed_file (snd f))) fs) =
      view s ++ map_of (map (\<lambda>f. (fst f, closed_file (snd f))) (f # fs))"
    using f by (auto simp: map_add_def fun_eq_iff split: option.split)
  have "yields inv view serves ?rs s1 ?rep (view s ++ map_of (map (\<lambda>f. (fst f, closed_file (snd f))) (f # fs)))"
    if "inv s1" "view s1 = (view s)(p \<mapsto> closed_file bs)" for s1
    using conjunct1 [OF later [OF that]] unfolding that(2) v .
  from yields_append [OF first this] have
    sv: "yields inv view serves (concat (map (\<lambda>f. send_requests (fst f) (snd f)) (f # fs))) s (concat (map (\<lambda>f. send_replies []) (f # fs)))
      (view s ++ map_of (map (\<lambda>f. (fst f, closed_file (snd f))) (f # fs)))" using f by simp
  obtain s1 where "inv s1" "view s1 = (view s)(p \<mapsto> closed_file bs)" using first by (auto simp: yields_def)
  with later obtain a' where r: "send_files (map fst fs) None a1 = Some (Ok a')" "rx (the_link a') = rest" "the_disk a' = the_disk a1"
    "sent (the_link a') = sent (the_link a1) @ concat (map request_msg ?rs)" by blast
  have sf: "send_files (map fst (f # fs)) None a = Some (Ok a')" using a1(1) r(1) f by simp
  have "the_disk a' = the_disk a" using r(3) a1(5) by simp
  moreover have "sent (the_link a') = sent (the_link a) @ concat (map request_msg (concat (map (\<lambda>f. send_requests (fst f) (snd f)) (f # fs))))"
    using r(4) a1(6) f by simp
  ultimately show ?case using sv sf r(2) by blast
qed

end

section \<open>The worker as the server\<close>

text \<open>The counters of the server are the number and the total size of the files that a client sees.\<close>

lemma counters_view:
  assumes inv: "server_inv s"
  shows "finite (dom (abs_store s))" "card (dom (abs_store s)) = unat (st_files (curr_state s))"
    "total_size (abs_store s) = unat (st_space (curr_state s))"
proof -
  obtain m where m: "files s = Some m" "file_map_ok m"
    "\<And>k a. (k, a) \<in> set (entries m) \<Longrightarrow> a < fnext s \<and> (\<exists>f. fheap s a = Some f \<and> file_ok k f)"
    "unat (st_files (curr_state s)) = length (entries m)" "unat (st_space (curr_state s)) = space_of (fheap s) (entries m)"
    using server_inv_store [OF inv] by (elim store_okE) blast
  have dist: "distinct (map fst (entries m))" using m(2) by (simp add: file_map_ok_def)
  have at: "\<exists>f. stored s k = Some f \<and> fheap s a = Some f \<and> file_ok k f" if "(k, a) \<in> set (entries m)" for k a
    using m(3) [OF that] addr_of_entries [OF m(1,2), of k a] that by (auto simp: stored_def)
  have "k \<in> dom (abs_store s) \<longleftrightarrow> k \<in> fst ` set (entries m)" for k
  proof
    assume "k \<in> dom (abs_store s)"
    then obtain f where "stored s k = Some f" by (auto simp: abs_store_at split: option.splits)
    then obtain a where "addr_of s k = Some a" by (rule stored_addr)
    then show "k \<in> fst ` set (entries m)" using addr_of_entries [OF m(1,2)] by force
  next
    assume "k \<in> fst ` set (entries m)"
    then show "k \<in> dom (abs_store s)" using at by (fastforce simp: abs_store_at)
  qed
  then have dom: "dom (abs_store s) = fst ` set (entries m)" by blast
  then show "finite (dom (abs_store s))" by simp
  show "card (dom (abs_store s)) = unat (st_files (curr_state s))"
    unfolding dom m(4) using distinct_card [OF dist] by simp
  have size: "length (a_data (the (abs_store s k))) = size_at (fheap s) a" if "(k, a) \<in> set (entries m)" for k a
  proof -
    from at [OF that] obtain f where f: "stored s k = Some f" "fheap s a = Some f" "file_ok k f" by blast
    then have "length (a_data (abs_file f)) = unat (fsize f)"
      by (cases "contents f") (auto simp: file_ok_def abs_file_def)
    with f show ?thesis by (simp add: abs_store_at size_at_def)
  qed
  have "total_size (abs_store s) = (\<Sum>e \<in> set (entries m). length (a_data (the (abs_store s (fst e)))))"
    unfolding total_size_def dom by (rule sum.reindex_cong [OF _ refl refl]) (use dist in \<open>simp add: distinct_map\<close>)
  also have "\<dots> = (\<Sum>e \<in> set (entries m). size_at (fheap s) (snd e))"
    using size by (intro sum.cong) auto
  also have "\<dots> = space_of (fheap s) (entries m)"
    using dist by (simp add: space_of_def sum_list_distinct_conv_sum_set distinct_map)
  finally show "total_size (abs_store s) = unat (st_space (curr_state s))" using m(5) by simp
qed

text \<open>
  A request of the client \<open>fd\<close> that comes over a connection that does not break, whatever the clock says; what the
  worker sends is the reply.
\<close>

definition worker_serves :: "int \<Rightarrow> request \<Rightarrow> server \<Rightarrow> byte list \<Rightarrow> server \<Rightarrow> bool" where
  "worker_serves fd r s reply s' \<longleftrightarrow> (\<exists>c ts code c'. rx c = request_msg r \<and> sent c = [] \<and> roomy c \<and> 2 \<le> length ts \<and>
     serve_request fd c (s\<lparr>clock := ts\<rparr>) = Ok (code, c', s') \<and> reply = sent c')"

definition worker_inv :: "int \<Rightarrow> server_config_t \<Rightarrow> server \<Rightarrow> bool" where
  "worker_inv fd cfg s \<longleftrightarrow> server_inv s \<and> config s = cfg \<and> client_fd fd"

lemma failed_branch:
  "fst (if c then (e, A) else X) \<noteq> SA_SUCCESS \<Longrightarrow> (fst X \<noteq> SA_SUCCESS \<Longrightarrow> X = Y) \<Longrightarrow>
   (if c then (e, A) else X) = (if c then (e, A) else Y)"
  by (cases c) simp_all

lemma not_failed: "fst (SA_SUCCESS, B) \<noteq> SA_SUCCESS \<Longrightarrow> P"
  by (erule notE) (rule fst_conv)

lemma spec_create_fail: "fst (spec_create fd p l vs A) \<noteq> SA_SUCCESS \<Longrightarrow> spec_create fd p l vs A = spec_create fd p l {} A"
  unfolding spec_create_def by (erule failed_branch) (erule not_failed)

lemma spec_write_fail: "fst (spec_write fd p bs cap vs A) \<noteq> SA_SUCCESS \<Longrightarrow> spec_write fd p bs cap vs A = spec_write fd p bs cap {} A"
  unfolding spec_write_def
  by (cases "A p") (simp_all only: option.case, (erule failed_branch)+, erule not_failed)

lemma spec_append_fail: "fst (spec_append fd p bs cap vs A) \<noteq> SA_SUCCESS \<Longrightarrow> spec_append fd p bs cap vs A = spec_append fd p bs cap {} A"
  unfolding spec_append_def
  by (cases "A p") (simp_all only: option.case, (erule failed_branch)+, erule not_failed)

lemma spec_request_fail:
  assumes "(res, A') = spec_request fd r cap vs A" "res \<noteq> SA_SUCCESS"
  shows "(res, A') = spec_request fd r cap {} A"
proof -
  have f: "fst (spec_request fd r cap vs A) \<noteq> SA_SUCCESS" using assms by (metis fst_conv)
  have "spec_request fd r cap vs A = spec_request fd r cap {} A"
  proof (cases r)
    case (Req_open p fl)
    show ?thesis
      by (cases "is_flag_set fl O_CREATE")
        (use f spec_create_fail in \<open>simp_all only: Req_open spec_request.simps if_True if_False\<close>)
  next
    case (Req_write p bs)
    then show ?thesis using f spec_write_fail by (simp only: spec_request.simps)
  next
    case (Req_append p bs)
    then show ?thesis using f spec_append_fail by (simp only: spec_request.simps)
  qed (simp_all only: spec_request.simps)
  with assms(1) show ?thesis by simp
qed

lemma spec_code_known:
  assumes "(res, A') = spec_request fd r cap vs A"
  shows "res \<noteq> SA_ERROR \<and> res \<noteq> SA_CLOSE"
proof -
  have "fst (spec_request fd r cap vs A) \<noteq> SA_ERROR \<and> fst (spec_request fd r cap vs A) \<noteq> SA_CLOSE"
    by (cases r) (simp_all add: spec_open_def spec_create_def spec_close_def spec_remove_def spec_write_def
      spec_append_def split: option.split)
  with assms show ?thesis by (metis fst_conv)
qed

lemma worker_served_by:
  assumes inv: "worker_inv fd cfg s" and r: "request_ok r"
    and room: "has_room (unat (cfg_max_files cfg)) (unat (cfg_max_space cfg)) r (abs_store s)"
    and c: "rx c = request_msg r" "sent c = []" "roomy c" "2 \<le> length ts"
  shows "\<exists>code c' s' res. serve_request fd c (s\<lparr>clock := ts\<rparr>) = Ok (code, c', s') \<and> worker_inv fd cfg s' \<and>
    (res, abs_store s') = spec_request fd r (unat (cfg_max_space cfg)) {} (abs_store s) \<and>
    sent c' = reply_of r res (contents_of r (abs_store s)) []"
proof -
  let ?s = "s\<lparr>clock := ts\<rparr>"
  have s: "server_inv ?s" "client_fd fd" "config s = cfg" using inv by (simp_all add: worker_inv_def)
  note cnt = counters_view [of s]
  have cnt: "card (dom (abs_store s)) = unat (st_files (curr_state s))" "total_size (abs_store s) = unat (st_space (curr_state s))"
    using inv cnt by (simp_all add: worker_inv_def)
  have sv: "servable r ?s" using r room by (auto simp: servable_def has_room_def split: request.splits)
  obtain t1 t2 ts' where ts: "clock ?s = t1 # t2 # ts'" using c(4) by (auto simp: numeral_2_eq_2 Suc_le_length_iff)
  have "rx c = request_msg r @ []" using c(1) by simp
  from serve_reply [OF s(1,2) sv this ts c(3)] obtain c' s' vs res fs where
    w: "serve_request fd c ?s = Ok (result_code res, c', s')" "server_inv s'" "config s' = cfg"
    "(res, abs_store s') = spec_request fd r (unat (cfg_max_space cfg)) vs (abs_store s)"
    and out: "sent c' = reply_of r res (contents_of r (abs_store s)) fs" "listed r res vs ?s fs" "unforced r res ?s vs"
    using c(2) s(3) by auto
  have e: "(res, abs_store s') = spec_request fd r (unat (cfg_max_space cfg)) {} (abs_store s) \<and> fs = []"
  proof (cases "res = SA_SUCCESS")
    case False
    then show ?thesis using spec_request_fail [OF w(4)] out(2) room
      by (auto simp: listed_def has_room_def split: request.splits)
  next
    case True
    then show ?thesis using w(4) out(2,3) room cnt s(3)
      by (cases r) (auto simp: listed_def has_room_def unforced_def)
  qed
  then show ?thesis using w(1-3) out(1) s(2) by (auto simp: worker_inv_def)
qed

interpretation worker: file_service "worker_inv fd cfg" abs_store "worker_serves fd" fd
    "unat (cfg_max_files cfg)" "unat (cfg_max_space cfg)" for fd cfg
proof
  show "finite (dom (abs_store s))" if "worker_inv fd cfg s" for s
    using that by (simp add: worker_inv_def counters_view(1))
next
  fix s r assume a: "worker_inv fd cfg s" "request_ok r" "has_room (unat (cfg_max_files cfg)) (unat (cfg_max_space cfg)) r (abs_store s)"
  have c: "rx (big_conn (request_msg r)) = request_msg r" "sent (big_conn (request_msg r)) = []" "roomy (big_conn (request_msg r))"
    "2 \<le> length [Timespec 0 0, Timespec 0 0]" by (simp_all add: big_conn_def roomy_def)
  from worker_served_by [OF a c] c show "\<exists>reply s'. worker_serves fd r s reply s'" unfolding worker_serves_def by blast
next
  fix s r reply s'
  assume a: "worker_inv fd cfg s" "request_ok r" "has_room (unat (cfg_max_files cfg)) (unat (cfg_max_space cfg)) r (abs_store s)"
    and "worker_serves fd r s reply s'"
  then obtain c ts code c' where c: "rx c = request_msg r" "sent c = []" "roomy c" "2 \<le> length ts"
    and run: "serve_request fd c (s\<lparr>clock := ts\<rparr>) = Ok (code, c', s')" "reply = sent c'" unfolding worker_serves_def by blast
  from worker_served_by [OF a c] run show "\<exists>res. worker_inv fd cfg s' \<and>
      (res, abs_store s') = spec_request fd r (unat (cfg_max_space cfg)) {} (abs_store s) \<and>
      reply = reply_of r res (contents_of r (abs_store s)) []" by auto
qed

section \<open>Properties\<close>

text \<open>C10: the option \<open>-W\<close> of the client program, end to end, for files with different names that are readable and
  not empty, that the server does not have yet and that fit its limits, without the option \<open>-D\<close>: the server can
  answer the requests for every file; whatever its clock says and whatever connection the requests come over, its
  answers are the same bytes, and afterwards it has each file with the contents of the disk of the client, closed and
  unlocked, and its other files as they were. To these answers the client sends exactly these requests and ends well,
  with its disk as it was. The connection does not break. (An empty file is not stored: \<open>write_file\<close> reads none
  of its bytes and takes the client for gone.)\<close>

theorem send_files_stored:
  assumes "worker_inv fd cfg s" "distinct (map fst fs)"
    and "\<forall>f \<in> set fs. valid_path (fst f) \<and> abs_store s (fst f) = None \<and> on_disk (fst f) (snd f) (the_disk a)"
    and "card (dom (abs_store s)) + length fs \<le> unat (cfg_max_files cfg)"
    and "total_size (abs_store s) + (\<Sum>f \<leftarrow> fs. length (snd f)) \<le> unat (cfg_max_space cfg)"
    and "fd_sock a \<noteq> -1" "pmem a = Ample"
    and "length (concat (map request_msg (concat (map (\<lambda>f. send_requests (fst f) (snd f)) fs)))) \<le> room (the_link a)"
  shows "\<exists>reply a'.
    (\<exists>s'. serves_all (worker_serves fd) (concat (map (\<lambda>f. send_requests (fst f) (snd f)) fs)) s reply s') \<and>
    (\<forall>reply' s'. serves_all (worker_serves fd) (concat (map (\<lambda>f. send_requests (fst f) (snd f)) fs)) s reply' s' \<longrightarrow>
       reply' = reply \<and> worker_inv fd cfg s' \<and> abs_store s' = abs_store s ++ map_of (map (\<lambda>f. (fst f, closed_file (snd f))) fs)) \<and>
    send_files (map fst fs) None (hear reply a) = Some (Ok a') \<and> rx (the_link a') = [] \<and> the_disk a' = the_disk a \<and>
    sent (the_link a') = sent (the_link a) @ concat (map request_msg (concat (map (\<lambda>f. send_requests (fst f) (snd f)) fs)))"
proof -
  let ?reply = "concat (map (\<lambda>f. send_replies []) fs)"
  have r: "rx (the_link (hear ?reply a)) = ?reply @ []" by simp
  have h: "the_disk (hear ?reply a) = the_disk a" "fd_sock (hear ?reply a) = fd_sock a" "pmem (hear ?reply a) = pmem a"
    "room (the_link (hear ?reply a)) = room (the_link a)" "sent (the_link (hear ?reply a)) = sent (the_link a)" by simp_all
  from worker.send_files_served [OF assms(1,2) _ assms(4,5) _ _ _ r, unfolded h, OF assms(3,6-8)] show ?thesis
    unfolding yields_def by blast
qed

lemma send_files_stored_witness:
  "\<exists>s reply s' a'. serves_all (worker_serves 4) (concat (map (\<lambda>f. send_requests (fst f) (snd f)) [([97], [1, 2, 3])])) s reply s' \<and>
     abs_store s = Map.empty \<and> send_files [[97]] None (hear reply demo_client) = Some (Ok a') \<and>
     abs_store s' = [[97] \<mapsto> closed_file [1, 2, 3]]"
proof -
  obtain s where s: "server_init demo_config [] Ample = Some s" using server_init_starts by blast
  have "config_ok demo_config" by (simp add: config_ok_def demo_config_def)
  note init = server_init_inv [OF s this]
  then have w: "worker_inv 4 demo_config s" by (simp add: worker_inv_def client_fd_def)
  let ?fs = "[([97], [1, 2, 3])] :: (path \<times> byte list) list"
  let ?rs = "concat (map (\<lambda>f. send_requests (fst f) (snd f)) ?fs)"
  have p: "\<forall>f \<in> set ?fs. valid_path (fst f) \<and> abs_store s (fst f) = None \<and> on_disk (fst f) (snd f) (the_disk demo_client)"
    using demo_path(1) init(3) by (simp add: on_disk_def fopen_rb_def demo_client_def demo_disk_def canon_def)
  have room: "card (dom (abs_store s)) + length ?fs \<le> unat (cfg_max_files demo_config)"
    "total_size (abs_store s) + (\<Sum>f \<leftarrow> ?fs. length (snd f)) \<le> unat (cfg_max_space demo_config)"
    using init(3) by (simp_all add: total_size_def demo_config_def)
  have a: "fd_sock demo_client \<noteq> -1" "pmem demo_client = Ample" "length (concat (map request_msg ?rs)) \<le> room (the_link demo_client)"
    by (simp_all add: demo_client_def send_requests_def request_msg_def path_msg_def data_msg_def demo_conn_def)
  have d: "distinct (map fst ?fs)" by simp
  from send_files_stored [OF w d p room a] obtain reply a' s' where
    r: "serves_all (worker_serves 4) ?rs s reply s'" "abs_store s' = abs_store s ++ map_of (map (\<lambda>f. (fst f, closed_file (snd f))) ?fs)"
    "send_files (map fst ?fs) None (hear reply demo_client) = Some (Ok a')" by blast
  have "abs_store s' = [[97] \<mapsto> closed_file [1, 2, 3]]" using r(2) init(3) by simp
  moreover have "send_files [[97]] None (hear reply demo_client) = Some (Ok a')" using r(3) by simp
  ultimately show ?thesis using r(1) init(3) by blast
qed

end
