(* ===== verification/Transition.thy ===== *)
theory Transition
  imports Prelude
begin

text \<open>
  Transition systems: their finite behaviours, newest state first, the states they reach, and the simulation of one
  system by another, as a locale that the systems of the server instantiate.
\<close>

inductive behaviour :: "('s \<Rightarrow> bool) \<Rightarrow> ('s \<Rightarrow> 's \<Rightarrow> bool) \<Rightarrow> 's list \<Rightarrow> bool" for init step where
  behaviour_start: "init s \<Longrightarrow> behaviour init step [s]"
| behaviour_step: "behaviour init step (s # ss) \<Longrightarrow> step s t \<Longrightarrow> behaviour init step (t # s # ss)"

definition reachable :: "('s \<Rightarrow> bool) \<Rightarrow> ('s \<Rightarrow> 's \<Rightarrow> bool) \<Rightarrow> 's \<Rightarrow> bool" where
  "reachable init step s \<longleftrightarrow> (\<exists>ss. behaviour init step (s # ss))"

lemma reachable_start:
  assumes "init s"
  shows "reachable init step s"
  unfolding reachable_def using behaviour_start [of init s step, OF assms] by (rule exI)

lemma reachable_step: "reachable init step s \<Longrightarrow> step s t \<Longrightarrow> reachable init step t"
  unfolding reachable_def by (elim exE) (rule exI, rule behaviour_step)

lemma behaviour_reaches: "behaviour init step ss \<Longrightarrow> s \<in> set ss \<Longrightarrow> reachable init step s"
proof (induction rule: behaviour.induct)
  case (behaviour_step s' ss t)
  then have "behaviour init step (t # s' # ss)" by (blast intro: behaviour.behaviour_step)
  then show ?case using behaviour_step by (auto simp: reachable_def)
qed (simp add: reachable_start)

lemma reachable_induct [consumes 1, case_names start step]:
  assumes "reachable init step s"
    and "\<And>s. init s \<Longrightarrow> P s"
    and "\<And>s t. reachable init step s \<Longrightarrow> P s \<Longrightarrow> step s t \<Longrightarrow> P t"
  shows "P s"
proof -
  have "P (hd ss)" if "behaviour init step ss" for ss
    using that
  proof (induction rule: behaviour.induct)
    case (behaviour_step s ss t)
    then have "reachable init step s" by (auto simp: reachable_def)
    then show ?case using behaviour_step assms(3) by simp
  qed (simp add: assms(2))
  then show ?thesis using assms(1) by (fastforce simp: reachable_def)
qed

text \<open>
  Every step of the concrete system is a step of the abstract one or none at all, as long as the related states
  are reached.
\<close>

locale simulation =
  fixes cinit :: "'c \<Rightarrow> bool" and cstep :: "'c \<Rightarrow> 'c \<Rightarrow> bool"
    and ainit :: "'a \<Rightarrow> bool" and astep :: "'a \<Rightarrow> 'a \<Rightarrow> bool"
    and rel :: "'a \<Rightarrow> 'c \<Rightarrow> bool"
  assumes sim_start: "cinit c \<Longrightarrow> \<exists>a. ainit a \<and> rel a c"
    and sim_step: "reachable ainit astep a \<Longrightarrow> rel a c \<Longrightarrow> cstep c c' \<Longrightarrow> rel a c' \<or> (\<exists>a'. astep a a' \<and> rel a' c')"
begin

lemma reached:
  assumes "reachable cinit cstep c"
  shows "\<exists>a. reachable ainit astep a \<and> rel a c"
  using assms
proof (induction rule: reachable_induct)
  case (start c)
  then show ?case using sim_start reachable_start by metis
next
  case (step c c')
  then show ?case using sim_step reachable_step by metis
qed

text \<open>Invariants of the abstract system hold of what the concrete one stands for.\<close>

lemma transfer:
  assumes "reachable cinit cstep c" "\<And>a. reachable ainit astep a \<Longrightarrow> P a"
  obtains a where "rel a c" "P a" "reachable ainit astep a"
  using reached [OF assms(1)] assms(2) by blast

end

end
