(* ===== verification/Cores.thy ===== *)
theory Cores
  imports Workers
begin

text \<open>
  The part of a request that runs under \<open>files_mtx\<close>, while other workers still send files they hold a
  reader lock on, or files they took out of the store. \<open>settle D s\<close> is the store without them: no readers,
  and without the files of \<open>D\<close>, which wait to be destroyed. When a handler runs to its end on both
  states it does the same on both, and it leaves alone the files with readers and those of \<open>D\<close>. The proofs
  run a calculus of pairs of runs: \<open>both m m' R\<close> says that \<open>R\<close> relates what \<open>m\<close> and \<open>m'\<close> return, if both
  return.
\<close>

definition both :: "'a res \<Rightarrow> 'a res \<Rightarrow> ('a \<Rightarrow> 'a \<Rightarrow> bool) \<Rightarrow> bool" where
  "both m m' R \<longleftrightarrow> (\<forall>x y. m = Ok x \<longrightarrow> m' = Ok y \<longrightarrow> R x y)"

lemma both_simps [simp]:
  "both (Ok x) (Ok y) R \<longleftrightarrow> R x y" "both Exit m R" "both UB m R" "both Stuck m R"
  "both m Exit R" "both m UB R" "both m Stuck R"
  by (simp_all add: both_def)

lemma both_bind: "both m m' (\<lambda>x y. both (f x) (g y) R) \<Longrightarrow> both (rbind m f) (rbind m' g) R"
  by (cases m; cases m') simp_all

lemma both_run: "(\<And>x y. m = Ok x \<Longrightarrow> m' = Ok y \<Longrightarrow> both (f x) (g y) R) \<Longrightarrow> both (rbind m f) (rbind m' g) R"
  by (cases m; cases m') simp_all

lemma both_same: "(\<And>x. m = Ok x \<Longrightarrow> R x x) \<Longrightarrow> both m m R"
  by (simp add: both_def)

lemma both_if: "(b \<Longrightarrow> both m m' R) \<Longrightarrow> (\<not> b \<Longrightarrow> both n n' R) \<Longrightarrow> both (if b then m else n) (if b then m' else n') R"
  by simp

lemma both_mono: "both m m' P \<Longrightarrow> (\<And>x y. P x y \<Longrightarrow> R x y) \<Longrightarrow> both m m' R"
  by (simp add: both_def)

lemma bothD: "both m m' R \<Longrightarrow> m = Ok x \<Longrightarrow> m' = Ok y \<Longrightarrow> R x y"
  by (simp add: both_def)

section \<open>The store without the replies under way\<close>

abbreviation no_readers :: "file_t \<Rightarrow> file_t" where
  "no_readers f \<equiv> f\<lparr>n_readers := 0\<rparr>"

lemma no_readers_sel:
  "path_name (no_readers f) = path_name f" "contents (no_readers f) = contents f" "fsize (no_readers f) = fsize f"
  "fd_lock (no_readers f) = fd_lock f" "fd_open (no_readers f) = fd_open f"
  "can_be_expelled (no_readers f) = can_be_expelled f" "n_writers (no_readers f) = n_writers f"
  by simp_all

definition settle_heap :: "nat set \<Rightarrow> (nat \<Rightarrow> file_t option) \<Rightarrow> nat \<Rightarrow> file_t option" where
  "settle_heap D h = (\<lambda>b. if b \<in> D then None else map_option no_readers (h b))"

definition settle :: "nat set \<Rightarrow> server \<Rightarrow> server" where
  "settle D s = s\<lparr>fheap := settle_heap D (fheap s)\<rparr>"

lemma settle_fields [simp]:
  "config (settle D s) = config s" "files (settle D s) = files s" "fnext (settle D s) = fnext s"
  "curr_state (settle D s) = curr_state s" "clock (settle D s) = clock s" "smem (settle D s) = smem s"
  "fheap (settle D s) = settle_heap D (fheap s)"
  by (simp_all add: settle_def)

lemma settle_upd [simp]:
  "(settle D s)\<lparr>files := mp\<rparr> = settle D (s\<lparr>files := mp\<rparr>)" "(settle D s)\<lparr>fnext := n\<rparr> = settle D (s\<lparr>fnext := n\<rparr>)"
  "(settle D s)\<lparr>clock := ts\<rparr> = settle D (s\<lparr>clock := ts\<rparr>)" "(settle D s)\<lparr>smem := m\<rparr> = settle D (s\<lparr>smem := m\<rparr>)"
  "(settle D s)\<lparr>curr_state := st\<rparr> = settle D (s\<lparr>curr_state := st\<rparr>)"
  by (simp_all add: settle_def)

lemma settle_heap_upd:
  "a \<notin> D \<Longrightarrow> (settle_heap D h)(a \<mapsto> no_readers g) = settle_heap D (h(a \<mapsto> g))"
  "(settle_heap D h)(a := None) = settle_heap D (h(a := None))"
  by (auto simp: settle_heap_def)

lemma settle_Some: "fheap (settle D s) a = Some g \<longleftrightarrow> a \<notin> D \<and> (\<exists>f. fheap s a = Some f \<and> g = no_readers f)"
  by (auto simp: settle_heap_def)

text \<open>The number of readers of a file.\<close>

definition rd :: "server \<Rightarrow> nat \<Rightarrow> u32" where
  "rd s b = (case fheap s b of None \<Rightarrow> 0 | Some f \<Rightarrow> n_readers f)"

text \<open>Every entry of the map names its file.\<close>

definition named :: "server \<Rightarrow> bool" where
  "named s \<longleftrightarrow> (case files s of None \<Rightarrow> False | Some m \<Rightarrow> file_map_ok m \<and>
     (\<forall>(k, a) \<in> set (entries m). map_option path_name (fheap s a) = Some k))"

lemma namedE:
  assumes "named s"
  obtains m where "files s = Some m" "file_map_ok m" "iter_all (files s) = Ok (entries m, Some (Inr False))"
    "\<And>k a. (k, a) \<in> set (entries m) \<Longrightarrow> map_option path_name (fheap s a) = Some k"
  using assms
  by (auto simp: named_def file_map_ok_def hm_wf_def tab_wf_def iter_all_entries split: option.splits; blast)

text \<open>
  What the run of a handler from \<open>s0\<close> has kept when it is in \<open>s\<close>: the files with readers and those of
  \<open>D\<close> are as they were, nobody else has become a reader, the files of \<open>Z\<close>, which the handler may
  change, have no readers, and addresses not yet given out are free. \<open>N\<close> says whether the names are still known.
\<close>

definition run :: "nat set \<Rightarrow> server \<Rightarrow> nat set \<Rightarrow> bool \<Rightarrow> server \<Rightarrow> bool" where
  "run D s0 Z N s \<longleftrightarrow>
     (\<forall>b. rd s0 b \<noteq> 0 \<or> b \<in> D \<longrightarrow> fheap s b = fheap s0 b) \<and>
     (\<forall>b. rd s0 b = 0 \<longrightarrow> rd s b = 0) \<and> (\<forall>z \<in> Z. rd s z = 0) \<and>
     (\<forall>b. fnext s \<le> b \<longrightarrow> fheap s b = None) \<and> (\<forall>d \<in> D. d < fnext s) \<and> (N \<longrightarrow> named s)"

lemma rd_cong: "fheap s = fheap s' \<Longrightarrow> rd s = rd s'"
  by (simp add: rd_def fun_eq_iff)

lemma same_upd [simp]:
  "rd (s\<lparr>clock := ts\<rparr>) = rd s" "rd (s\<lparr>smem := m\<rparr>) = rd s" "rd (s\<lparr>curr_state := st\<rparr>) = rd s"
  "rd (s\<lparr>files := mp\<rparr>) = rd s" "rd (s\<lparr>fnext := n\<rparr>) = rd s"
  "named (s\<lparr>clock := ts\<rparr>) = named s" "named (s\<lparr>smem := m\<rparr>) = named s" "named (s\<lparr>curr_state := st\<rparr>) = named s"
  by (simp_all add: rd_def named_def fun_eq_iff split: option.split)

lemma run_upd [simp]:
  "run D s0 Z N (s\<lparr>clock := ts\<rparr>) = run D s0 Z N s" "run D s0 Z N (s\<lparr>smem := m\<rparr>) = run D s0 Z N s"
  "run D s0 Z N (s\<lparr>curr_state := st\<rparr>) = run D s0 Z N s" "run D s0 Z False (s\<lparr>files := mp\<rparr>) = run D s0 Z False s"
  by (simp_all add: run_def)

lemma run_weaken: "run D s0 Z N s \<Longrightarrow> run D s0 Z False s"
  by (simp add: run_def)

lemma run_zero: "run D s0 Z N s \<Longrightarrow> a \<in> Z \<Longrightarrow> rd s a = 0 \<and> rd s0 a = 0"
  unfolding run_def by (metis rd_def)

lemma run_put_file:
  assumes "run D s0 Z N s" "a \<in> Z" "a \<notin> D" "fheap s a = Some f" "path_name g = path_name f" "n_readers g = n_readers f"
  shows "run D s0 Z N (s\<lparr>fheap := (fheap s)(a \<mapsto> g)\<rparr>)"
proof -
  have "rd s0 a = 0" using run_zero [OF assms(1,2)] by simp
  moreover have "rd (s\<lparr>fheap := (fheap s)(a \<mapsto> g)\<rparr>) = rd s" using assms(4,6) by (auto simp: rd_def)
  moreover have "named s \<Longrightarrow> named (s\<lparr>fheap := (fheap s)(a \<mapsto> g)\<rparr>)"
    using assms(4,5) by (auto simp: named_def split: option.splits)
  moreover have "a < fnext s" using assms(1,4) by (force simp: run_def not_le [symmetric])
  ultimately show ?thesis using assms(1,3) by (auto simp: run_def)
qed

section \<open>The store\<close>

named_theorems settle_wp \<open>what an operation of the store returns on a state and on the settled state\<close>

declare both_bind [settle_wp]

lemma wp_same [settle_wp]:
  "(\<And>r. R r r) \<Longrightarrow> both (hashtbl_insert t fd m) (hashtbl_insert t fd m) R"
  "(\<And>r. R' r r) \<Longrightarrow> both (hashtbl_remove t fd) (hashtbl_remove t fd) R'"
  "(\<And>r. R2 r r) \<Longrightarrow> both (hashmap_insert mp k a m) (hashmap_insert mp k a m) R2"
  "(\<And>r. R3 r r) \<Longrightarrow> both (hashmap_contains mp k) (hashmap_contains mp k) R3"
  "(\<And>r. R4 r r) \<Longrightarrow> both (safe_malloc n m) (safe_malloc n m) R4"
  by (simp_all add: both_def)

lemma wp_deref [settle_wp]:
  "(\<And>f. fheap s a = Some f \<Longrightarrow> a \<notin> D \<Longrightarrow> R f (no_readers f)) \<Longrightarrow> both (deref a s) (deref a (settle D s)) R"
  by (simp add: deref_def settle_heap_def both_def split: option.splits)

lemma wp_opened_by [settle_wp]:
  "(\<And>b. R b b) \<Longrightarrow> both (opened_by fd a s) (opened_by fd a (settle D s)) R"
  unfolding opened_by_def by (auto intro!: settle_wp both_same)

lemma swp_upd_file [settle_wp]:
  assumes "run D s0 Z N s" "a \<in> Z" "\<And>f. path_name (g f) = path_name f" "\<And>f. n_readers (g f) = n_readers f"
    "\<And>f. g (no_readers f) = no_readers (g f)" "\<And>s'. run D s0 Z N s' \<Longrightarrow> R s' (settle D s')"
  shows "both (upd_file a g s) (upd_file a g (settle D s)) R"
  unfolding upd_file_def
proof (rule both_bind, rule wp_deref)
  fix f assume a: "fheap s a = Some f" "a \<notin> D"
  have "(settle D s)\<lparr>fheap := (settle_heap D (fheap s))(a \<mapsto> g (no_readers f))\<rparr> = settle D (s\<lparr>fheap := (fheap s)(a \<mapsto> g f)\<rparr>)"
    using settle_heap_upd(1) [OF a(2)] assms(5) by (simp add: settle_def)
  then show "both (Ok (s\<lparr>fheap := (fheap s)(a \<mapsto> g f)\<rparr>)) (Ok ((settle D s)\<lparr>fheap := (fheap (settle D s))(a \<mapsto> g (no_readers f))\<rparr>)) R"
    using assms(6) [OF run_put_file [OF assms(1,2) a(2,1) assms(3,4)]] by simp
qed

lemma swp_clock [settle_wp]:
  "run D s0 Z N s \<Longrightarrow> (\<And>t s'. run D s0 Z N s' \<Longrightarrow> R (t, s') (t, settle D s')) \<Longrightarrow>
    both (clock_gettime s) (clock_gettime (settle D s)) R"
  by (auto simp: clock_gettime_def split: list.splits)

text \<open>A file that can be locked for writing has no readers: the handler may change it.\<close>

lemma run_insert: "run D s0 Z N s \<Longrightarrow> fheap s a = Some f \<Longrightarrow> n_readers f = 0 \<Longrightarrow> run D s0 (insert a Z) N s"
  by (simp add: run_def rd_def)

lemma wp_writer_lock [settle_wp]:
  assumes "run D s0 Z N s" "\<And>s'. run D s0 (insert a Z) N s' \<Longrightarrow> R s' (settle D s')"
  shows "both (file_writer_lock a s) (file_writer_lock a (settle D s)) R"
  unfolding file_writer_lock_def
proof (rule both_bind, rule wp_deref)
  fix f assume a: "fheap s a = Some f" "a \<notin> D"
  show "both (if 0 < n_writers f \<or> 0 < n_readers f then Stuck else upd_file a (\<lambda>f. f\<lparr>n_writers := n_writers f + 1\<rparr>) s)
      (if 0 < n_writers (no_readers f) \<or> 0 < n_readers (no_readers f) then Stuck
       else upd_file a (\<lambda>f. f\<lparr>n_writers := n_writers f + 1\<rparr>) (settle D s)) R"
  proof (cases "n_writers f = 0 \<and> n_readers f = 0")
    case True
    then have r: "run D s0 (insert a Z) N s" using run_insert [OF assms(1) a(1)] by simp
    show ?thesis using True by (auto intro!: swp_upd_file [OF r] assms(2))
  next
    case False
    then show ?thesis by (auto simp: word_neq_0_conv)
  qed
qed

lemma wp_writer_unlock [settle_wp]:
  "run D s0 Z N s \<Longrightarrow> a \<in> Z \<Longrightarrow> (\<And>s'. run D s0 Z N s' \<Longrightarrow> R s' (settle D s')) \<Longrightarrow>
    both (file_writer_unlock a s) (file_writer_unlock a (settle D s)) R"
  unfolding file_writer_unlock_def by (auto intro!: swp_upd_file)

lemma swp_file_delete [settle_wp]:
  assumes "run D s0 Z N s" "\<And>a. p = Some a \<Longrightarrow> a \<in> Z" "\<And>s'. run D s0 Z False s' \<Longrightarrow> R s' (settle D s')"
  shows "both (file_delete p s) (file_delete p (settle D s)) R"
proof (cases p)
  case None
  then show ?thesis using assms(3) [OF run_weaken [OF assms(1)]] by (simp add: file_delete_def)
next
  case (Some a)
  show ?thesis unfolding file_delete_def Some option.case
  proof (rule both_bind, rule wp_deref)
    fix f assume a: "fheap s a = Some f" "a \<notin> D"
    let ?s = "s\<lparr>fheap := (fheap s)(a := None)\<rparr>"
    have z: "rd s a = 0" "rd s0 a = 0" using run_zero [OF assms(1,2)] Some by simp_all
    have "rd ?s = rd s" using z(1) by (auto simp: rd_def)
    then have "run D s0 Z False ?s" using assms(1) a(2) z(2) by (auto simp: run_def)
    from assms(3) [OF this] show "both (Ok ?s) (Ok ((settle D s)\<lparr>fheap := (fheap (settle D s))(a := None)\<rparr>)) R"
      by (simp add: settle_def settle_heap_upd(2))
  qed
qed

section \<open>Expulsions\<close>

text \<open>The addresses that the map gives away.\<close>

definition mapped :: "server \<Rightarrow> nat set" where
  "mapped s = (case files s of None \<Rightarrow> {} | Some m \<Rightarrow> snd ` set (entries m))"

lemma policy_no_readers [simp]: "policy_fun p (no_readers f) (no_readers g) = policy_fun p f g"
  by (simp add: policy_fun_def LRU_policy_def FIFO_policy_def)

lemma both_expell_scan:
  assumes "run D s0 Z N s" "set as \<subseteq> M" "\<And>b. least = Some b \<Longrightarrow> b \<in> Z \<and> b \<in> M"
  shows "both (expell_scan (policy_fun p) as least s) (expell_scan (policy_fun p) as least (settle D s))
    (\<lambda>(l, s') y. y = (l, settle D s') \<and>
       (\<exists>Z'. Z \<subseteq> Z' \<and> run D s0 Z' N s' \<and> (\<forall>b. l = Some b \<longrightarrow> b \<in> Z' \<and> b \<in> M)))"
  using assms
proof (induction as arbitrary: least s Z)
  case Nil
  then show ?case by auto
next
  case (Cons a as)
  let ?R = "\<lambda>(l, s') y. y = (l, settle D s') \<and>
       (\<exists>Z'. Z \<subseteq> Z' \<and> run D s0 Z' N s' \<and> (\<forall>b. l = Some b \<longrightarrow> b \<in> Z' \<and> b \<in> M))"
  have aM: "a \<in> M" "set as \<subseteq> M" using Cons.prems(2) by auto
  have IH: "both (expell_scan (policy_fun p) as l s') (expell_scan (policy_fun p) as l (settle D s')) ?R"
    if "run D s0 Z' N s'" "Z \<subseteq> Z'" "\<And>b. l = Some b \<Longrightarrow> b \<in> Z' \<and> b \<in> M" for l s' Z'
    by (rule both_mono [OF Cons.IH [OF that(1) aM(2) that(3)]]) (use that(2) in auto)
  let ?rest = "\<lambda>s. case least of None \<Rightarrow> expell_scan (policy_fun p) as (Some a) s
         | Some b \<Rightarrow> rbind (deref a s) (\<lambda>f. rbind (deref b s) (\<lambda>g. if policy_fun p f g < 0
             then rbind (file_writer_unlock b s) (\<lambda>s. expell_scan (policy_fun p) as (Some a) s)
             else rbind (file_writer_unlock a s) (\<lambda>s. expell_scan (policy_fun p) as least s)))"
  have rest: "both (?rest t) (?rest (settle D t)) ?R" if t: "run D s0 (insert a Z) N t" for t
    using Cons.prems(3) aM(1)
    by (cases least) (auto intro!: IH [where Z' = "insert a Z"] t both_bind wp_deref wp_writer_unlock [OF t])
  have stop: "both (expell_scan (policy_fun p) as least s) (expell_scan (policy_fun p) as least (settle D s)) ?R"
    using IH [OF Cons.prems(1)] Cons.prems(3) by blast
  have go: "both (rbind (file_writer_lock a s) ?rest) (rbind (file_writer_lock a (settle D s)) ?rest) ?R"
    by (rule both_bind, rule wp_writer_lock [OF Cons.prems(1)], rule rest)
  show ?case unfolding expell_scan.simps
    using stop go by (intro both_bind wp_deref) simp
qed

lemma both_take_out:
  assumes r: "run D s0 Z True s" and a: "a \<in> Z" "a \<in> mapped s"
  shows "both (take_out a s) (take_out a (settle D s)) (\<lambda>(l, s') y. y = (l, settle D s') \<and> l = Some a \<and> run D s0 Z True s')"
  unfolding take_out_def
proof (rule both_bind, rule wp_deref)
  fix f assume f: "fheap s a = Some f" "a \<notin> D"
  have "named s" using r by (simp add: run_def)
  then obtain m where m: "files s = Some m" "file_map_ok m"
    "\<And>k b. (k, b) \<in> set (entries m) \<Longrightarrow> map_option path_name (fheap s b) = Some k"
    by (rule namedE) simp
  obtain k where k: "(k, a) \<in> set (entries m)" using a(2) m(1) by (auto simp: mapped_def)
  then have kf: "path_name f = k" "map_of (entries m) k = Some a"
    using m(2,3) f(1) by (force simp: file_map_ok_def map_of_eq_Some_iff)+
  from fm_remove [OF m(2) kf(2)] obtain m' where
    m': "hashmap_remove (Some m) k = Ok (Inr (Some (k, a)), Some m')" "file_map_ok m'"
      "mset (entries m) = add_mset (k, a) (mset (entries m'))" by blast
  have sub: "set (entries m') \<subseteq> set (entries m)" using arg_cong [OF m'(3), of set_mset] by auto
  have rem: "hashmap_remove (files s) (path_name f) = Ok (Inr (Some (k, a)), Some m')" using m(1) m'(1) kf(1) by simp
  have nm: "run D s0 Z True (s\<lparr>files := Some m'\<rparr>)"
    using r m(1,3) m'(2) sub by (auto simp: run_def named_def)
  show "both
     (rbind (hashmap_remove (files s) (path_name f)) (\<lambda>(r, mp). case r of
         Inr (Some (k, b)) \<Rightarrow> rbind (deref b s) (\<lambda>g. Ok (Some b, s\<lparr>files := mp, curr_state := (curr_state s)
                 \<lparr>st_files := st_files (curr_state s) - 1, st_space := st_space (curr_state s) - fsize g,
                  st_no_LRU := st_no_LRU (curr_state s) + 1\<rparr>\<rparr>))
       | _ \<Rightarrow> UB))
     (rbind (hashmap_remove (files (settle D s)) (path_name (no_readers f))) (\<lambda>(r, mp). case r of
         Inr (Some (k, b)) \<Rightarrow> rbind (deref b (settle D s)) (\<lambda>g. Ok (Some b, (settle D s)\<lparr>files := mp, curr_state := (curr_state (settle D s))
                 \<lparr>st_files := st_files (curr_state (settle D s)) - 1, st_space := st_space (curr_state (settle D s)) - fsize g,
                  st_no_LRU := st_no_LRU (curr_state (settle D s)) + 1\<rparr>\<rparr>))
       | _ \<Rightarrow> UB)) (\<lambda>(l, s') y. y = (l, settle D s') \<and> l = Some a \<and> run D s0 Z True s')"
    by (simp add: rem) (auto intro!: both_bind wp_deref nm)
qed

lemma both_expell_single:
  assumes r: "run D s0 Z True s"
  shows "both (expell_single_file s) (expell_single_file (settle D s))
    (\<lambda>(l, s') y. y = (l, settle D s') \<and> (\<exists>Z'. Z \<subseteq> Z' \<and> run D s0 Z' True s' \<and> set_option l \<subseteq> Z'))"
proof -
  have "named s" using r by (simp add: run_def)
  then obtain m where m: "files s = Some m" "file_map_ok m" and it: "iter_all (Some m) = Ok (entries m, Some (Inr False))"
    by (rule namedE) simp
  show ?thesis
  proof (cases "nelem m = 0")
    case True
    then show ?thesis using m r by (auto simp: expell_single_file_def)
  next
    case False
    have mp: "set (map snd (entries m)) = mapped s" using m by (simp add: mapped_def)
    have rest: "both (rbind (expell_scan pol (map snd (entries m)) None t) (\<lambda>(least, s). case least of None \<Rightarrow> UB | Some a \<Rightarrow> take_out a s))
       (rbind (expell_scan pol (map snd (entries m)) None (settle D t)) (\<lambda>(least, s). case least of None \<Rightarrow> UB | Some a \<Rightarrow> take_out a s))
       (\<lambda>(l, s') y. y = (l, settle D s') \<and> (\<exists>Z'. Z \<subseteq> Z' \<and> run D s0 Z' True s' \<and> set_option l \<subseteq> Z'))"
      if t: "run D s0 Z True t" "files t = Some m" and pol: "pol = policy_fun p" for t pol p
    proof (rule both_run)
      fix x y assume xy: "expell_scan pol (map snd (entries m)) None t = Ok x" "expell_scan pol (map snd (entries m)) None (settle D t) = Ok y"
      obtain l t' where x: "x = (l, t')" by force
      from bothD [OF both_expell_scan [OF t(1), of _ "mapped t"] xy [unfolded pol]] x t(2)
      obtain Z' where Z': "y = (l, settle D t')" "Z \<subseteq> Z'" "run D s0 Z' True t'" "\<And>b. l = Some b \<Longrightarrow> b \<in> Z' \<and> b \<in> mapped t"
        by (auto simp: mapped_def)
      have fs: "mapped t' = mapped t" using expell_scan_files xy(1) x by (fastforce simp: mapped_def)
      show "both (case x of (least, s) \<Rightarrow> case least of None \<Rightarrow> UB | Some a \<Rightarrow> take_out a s)
        (case y of (least, s) \<Rightarrow> case least of None \<Rightarrow> UB | Some a \<Rightarrow> take_out a s)
        (\<lambda>(l, s') y. y = (l, settle D s') \<and> (\<exists>Z'. Z \<subseteq> Z' \<and> run D s0 Z' True s' \<and> set_option l \<subseteq> Z'))"
        unfolding x Z'(1) prod.case
      proof (cases l)
        case (Some a)
        with Z' fs have "a \<in> Z'" "a \<in> mapped t'" by auto
        from both_take_out [OF Z'(3) this] show "both (case l of None \<Rightarrow> UB | Some a \<Rightarrow> take_out a t')
          (case l of None \<Rightarrow> UB | Some a \<Rightarrow> take_out a (settle D t'))
          (\<lambda>(l, s') y. y = (l, settle D s') \<and> (\<exists>Z'. Z \<subseteq> Z' \<and> run D s0 Z' True s' \<and> set_option l \<subseteq> Z'))"
          unfolding Some option.case by (rule both_mono) (use Z'(2) \<open>a \<in> Z'\<close> in auto)
      qed simp
    qed
    show ?thesis
      unfolding expell_single_file_def settle_fields m(1) option.case if_not_P [OF False] it rbind.simps prod.case
      by (rule both_bind, rule wp_same(5)) (use rest [OF _ _ refl] m(1) r in simp)
  qed
qed

lemma both_expell_loop:
  assumes "run D s0 Z True s" "set xs \<subseteq> Z"
  shows "both (expell_loop z d xs s) (expell_loop z d xs (settle D s))
    (\<lambda>(es, s') y. y = (es, settle D s') \<and> (\<exists>Z'. Z \<subseteq> Z' \<and> run D s0 Z' True s' \<and> set es \<subseteq> Z'))"
  using assms
proof (induction z d xs s arbitrary: Z rule: expell_loop.induct)
  case (1 z d xs s)
  let ?R = "\<lambda>(es, s') y. y = (es, settle D s') \<and> (\<exists>Z'. Z \<subseteq> Z' \<and> run D s0 Z' True s' \<and> set es \<subseteq> Z')"
  show ?case
  proof (cases "d < z")
    case True
    show ?thesis unfolding expell_loop.simps [of z d xs s] expell_loop.simps [of z d xs "settle D s"] if_P [OF True]
    proof (rule both_run)
      fix x y assume xy: "expell_single_file s = Ok x" "expell_single_file (settle D s) = Ok y"
      obtain r t where x: "x = (r, t)" by force
      from bothD [OF both_expell_single [OF "1.prems"(1)] xy] x obtain Z' where
        Z': "y = (r, settle D t)" "Z \<subseteq> Z'" "run D s0 Z' True t" "set_option r \<subseteq> Z'" by auto
      show "both (case x of (r, s') \<Rightarrow> case r of None \<Rightarrow> Ok (xs, s') | Some a \<Rightarrow>
            (case malloc (smem s') of (True, m) \<Rightarrow>
               rbind (deref a s') (\<lambda>f. expell_loop z (d + fsize f) (xs @ [a]) (s'\<lparr>smem := m\<rparr>))
             | (False, m) \<Rightarrow> Exit))
          (case y of (r, s') \<Rightarrow> case r of None \<Rightarrow> Ok (xs, s') | Some a \<Rightarrow>
            (case malloc (smem s') of (True, m) \<Rightarrow>
               rbind (deref a s') (\<lambda>f. expell_loop z (d + fsize f) (xs @ [a]) (s'\<lparr>smem := m\<rparr>))
             | (False, m) \<Rightarrow> Exit)) ?R"
      proof (cases r)
        case None
        then show ?thesis using x Z' "1.prems"(2) by auto
      next
        case (Some a)
        obtain ok m where m: "malloc (smem t) = (ok, m)" by force
        have "both (rbind (deref a t) (\<lambda>f. expell_loop z (d + fsize f) (xs @ [a]) (t\<lparr>smem := m\<rparr>)))
          (rbind (deref a (settle D t)) (\<lambda>f. expell_loop z (d + fsize f) (xs @ [a]) ((settle D t)\<lparr>smem := m\<rparr>))) ?R"
          if ok: "ok"
        proof (rule both_run)
          fix f g assume fg: "deref a t = Ok f" "deref a (settle D t) = Ok g"
          then have g: "fsize g = fsize f" by (auto simp: deref_def settle_heap_def split: option.splits if_splits)
          have m': "malloc (smem t) = (True, m)" using m ok by simp
          have pre: "run D s0 Z' True (t\<lparr>smem := m\<rparr>)" "set (xs @ [a]) \<subseteq> Z'" using Z' "1.prems"(2) Some by auto
          from "1.IH" [OF True xy(1) x [symmetric] Some m' [symmetric] refl fg(1) pre] Z'(2)
          show "both (expell_loop z (d + fsize f) (xs @ [a]) (t\<lparr>smem := m\<rparr>))
              (expell_loop z (d + fsize g) (xs @ [a]) ((settle D t)\<lparr>smem := m\<rparr>)) ?R"
            unfolding g settle_upd by (elim both_mono) auto
        qed
        then show ?thesis using x Z'(1) Some m by (cases ok) simp_all
      qed
    qed
  next
    case False
    then show ?thesis using "1.prems"
      unfolding expell_loop.simps [of z d xs s] expell_loop.simps [of z d xs "settle D s"] by auto
  qed
qed

lemma swp_expell_single:
  assumes "run D s0 Z True s" "\<And>l Z' s'. Z \<subseteq> Z' \<Longrightarrow> run D s0 Z' True s' \<Longrightarrow> set_option l \<subseteq> Z' \<Longrightarrow> R (l, s') (l, settle D s')"
  shows "both (expell_single_file s) (expell_single_file (settle D s)) R"
  by (rule both_mono [OF both_expell_single [OF assms(1)]]) (use assms(2) in auto)

lemma swp_expell_multiple:
  assumes "run D s0 Z True s" "set xs \<subseteq> Z"
    "\<And>r es Z' s'. Z \<subseteq> Z' \<Longrightarrow> run D s0 Z' True s' \<Longrightarrow> set es \<subseteq> Z' \<Longrightarrow> R (r, Some es, s') (r, Some es, settle D s')"
  shows "both (expell_multiple_files z (Some xs) s) (expell_multiple_files z (Some xs) (settle D s)) R"
  unfolding expell_multiple_files_def option.case settle_fields
proof (rule both_if)
  show "both (Ok (- 1, Some xs, s)) (Ok (- 1, Some xs, settle D s)) R" using assms(3) [OF subset_refl assms(1,2)] by simp
  show "both (rbind (expell_loop z 0 xs s) (\<lambda>(xs, s). Ok (0, Some xs, s)))
      (rbind (expell_loop z 0 xs (settle D s)) (\<lambda>(xs, s). Ok (0, Some xs, s))) R"
    by (rule both_bind, rule both_mono [OF both_expell_loop [OF assms(1,2)]]) (use assms(3) in auto)
qed

lemma wp_charge_space:
  assumes r: "run D s0 Z True s" and a: "a \<in> Z"
    and R: "\<And>es Z' s'. Z \<subseteq> Z' \<Longrightarrow> run D s0 Z' True s' \<Longrightarrow> set es \<subseteq> Z' \<Longrightarrow> R (es, s') (es, settle D s')"
  shows "both (charge_space a n [] s) (charge_space a n [] (settle D s)) R"
proof -
  have exp: "both
     (rbind (upd_file a (\<lambda>f. f\<lparr>can_be_expelled := False\<rparr>) t) (\<lambda>s.
        rbind (expell_multiple_files z (Some []) s) (\<lambda>(_, es, s).
        rbind (upd_file a (\<lambda>f. f\<lparr>can_be_expelled := True\<rparr>) s) (\<lambda>s. Ok ((case es of None \<Rightarrow> [] | Some es \<Rightarrow> es), s)))))
     (rbind (upd_file a (\<lambda>f. f\<lparr>can_be_expelled := False\<rparr>) (settle D t)) (\<lambda>s.
        rbind (expell_multiple_files z (Some []) s) (\<lambda>(_, es, s).
        rbind (upd_file a (\<lambda>f. f\<lparr>can_be_expelled := True\<rparr>) s) (\<lambda>s. Ok ((case es of None \<Rightarrow> [] | Some es \<Rightarrow> es), s)))))
     R'" if t: "run D s0 Z True t" and R': "\<And>es Z' s'. Z \<subseteq> Z' \<Longrightarrow> run D s0 Z' True s' \<Longrightarrow> set es \<subseteq> Z' \<Longrightarrow> R' (es, s') (es, settle D s')"
    for z t R'
    by (rule both_bind, rule swp_upd_file [OF t a], simp_all, rule both_bind, rule swp_expell_multiple, assumption, simp, simp,
        rule both_bind, rule swp_upd_file, assumption) (use a R' in auto)
  show ?thesis unfolding charge_space_def Let_def settle_upd settle_fields
    by (rule both_bind, rule both_if, rule exp) (use r R R [OF subset_refl] in auto)
qed

section \<open>The handlers under the mutex\<close>

lemma run_shrink: "run D s0 Z N s \<Longrightarrow> Z' \<subseteq> Z \<Longrightarrow> run D s0 Z' False s"
  by (auto simp: run_def)

lemma run_fresh:
  assumes r: "run D s0 Z N s" and f: "n_readers f = 0"
  shows "run D s0 (insert (fnext s) Z) N (s\<lparr>fnext := Suc (fnext s), fheap := (fheap s)(fnext s \<mapsto> f)\<rparr>)" "fnext s \<notin> D"
proof -
  let ?s = "s\<lparr>fnext := Suc (fnext s), fheap := (fheap s)(fnext s \<mapsto> f)\<rparr>"
  have free: "fheap s (fnext s) = None" using r by (simp add: run_def)
  have rd: "rd ?s b = rd s b" for b using free f by (simp add: rd_def)
  have "rd s0 (fnext s) = 0"
  proof (rule ccontr)
    assume n: "rd s0 (fnext s) \<noteq> 0"
    then have "fheap s0 (fnext s) = None" using r free by (auto simp: run_def)
    with n show False by (simp add: rd_def)
  qed
  moreover have "named s \<Longrightarrow> named ?s" using free by (force simp: named_def split: option.splits)
  moreover show "fnext s \<notin> D" using r by (force simp: run_def)
  moreover have "rd s (fnext s) = 0" using free by (simp add: rd_def)
  ultimately show "run D s0 (insert (fnext s) Z) N ?s"
    using r unfolding run_def rd by (auto simp: less_Suc_eq)
qed

lemma swp_create_file:
  assumes r: "run D s0 Z N s" and R: "\<And>a s'. run D s0 (insert a Z) N s' \<Longrightarrow> R (a, s') (a, settle D s')"
  shows "both (create_file p fl fd s) (create_file p fl fd (settle D s)) R"
proof -
  have fresh: "(settle D (s\<lparr>smem := m, fnext := Suc (fnext s)\<rparr>))\<lparr>fheap := (settle_heap D (fheap s))(fnext s \<mapsto> f)\<rparr> =
      settle D (s\<lparr>smem := m, fnext := Suc (fnext s), fheap := (fheap s)(fnext s \<mapsto> f)\<rparr>)"
    "run D s0 (insert (fnext s) Z) N (s\<lparr>smem := m, fnext := Suc (fnext s), fheap := (fheap s)(fnext s \<mapsto> f)\<rparr>)"
    if f: "n_readers f = 0" for m f
  proof -
    have "no_readers f = f" using f by (cases f) simp
    then show "(settle D (s\<lparr>smem := m, fnext := Suc (fnext s)\<rparr>))\<lparr>fheap := (settle_heap D (fheap s))(fnext s \<mapsto> f)\<rparr> =
      settle D (s\<lparr>smem := m, fnext := Suc (fnext s), fheap := (fheap s)(fnext s \<mapsto> f)\<rparr>)"
      using settle_heap_upd(1) [OF run_fresh(2) [OF r f], of _ f] by (simp add: settle_def)
    have "s\<lparr>smem := m, fnext := Suc (fnext s), fheap := (fheap s)(fnext s \<mapsto> f)\<rparr> =
      s\<lparr>fnext := Suc (fnext s), fheap := (fheap s)(fnext s \<mapsto> f)\<rparr>\<lparr>smem := m\<rparr>" by simp
    then show "run D s0 (insert (fnext s) Z) N (s\<lparr>smem := m, fnext := Suc (fnext s), fheap := (fheap s)(fnext s \<mapsto> f)\<rparr>)"
      using run_fresh(1) [OF r f] by (simp only: run_upd)
  qed
  show ?thesis
    unfolding create_file_def Let_def settle_fields settle_upd
    apply (rule both_bind, rule wp_same, rename_tac m)
    apply (case_tac "hashtbl_init 4 default_hashtbl_hash m", simp only: prod.case)
    apply (rule both_bind, rule wp_same, rename_tac r, case_tac r, simp add: fresh(1) split del: if_split)
    apply (rule both_bind, rule wp_writer_lock, rule fresh(2), simp)
    apply (rule both_bind, rule swp_clock, assumption, simp)
    apply (rule both_bind, rule swp_upd_file, assumption, simp_all)
    apply (rule both_bind, rule swp_clock, assumption, simp)
    apply (rule both_bind, rule swp_upd_file, assumption, simp_all add: R)
    done
qed

lemma wp_make_place:
  assumes t: "run D s0 Z True t"
    and g: "\<And>e Z' t'. Z \<subseteq> Z' \<Longrightarrow> run D s0 Z' True t' \<Longrightarrow> set_option e \<subseteq> Z' \<Longrightarrow> R (e, t') (e, settle D t')"
  shows "both (if c then expell_single_file t else Ok (None, t))
    (if c then expell_single_file (settle D t) else Ok (None, settle D t)) R"
proof (cases c)
  case True
  show ?thesis unfolding if_P [OF True] by (rule swp_expell_single [OF t]) (rule g)
next
  case False
  then show ?thesis using g [OF subset_refl t, of None] by simp
qed

lemma swp_open_create:
  assumes r: "run D s0 Z True s" and R: "\<And>r Z' s'. run D s0 Z' False s' \<Longrightarrow> R (r, s') (r, settle D s')"
  shows "both (open_create fd p fl s) (open_create fd p fl (settle D s)) R"
proof -
  let ?fin = "\<lambda>a e s. rbind (upd_file a (\<lambda>f. f\<lparr>can_be_expelled := True\<rparr>) s) (\<lambda>s.
        rbind (hashmap_insert (files s) p a (smem s)) (\<lambda>(_, mp, m).
        rbind (file_writer_unlock a (s\<lparr>files := mp, smem := m, curr_state := count_file (curr_state s)\<rparr>)) (\<lambda>s.
        rbind (file_delete e s) (\<lambda>s. Ok (SA_SUCCESS, s)))))"
  have fin: "both (?fin a e t) (?fin a e (settle D t)) R"
    if t: "run D s0 Z' True t" and a: "a \<in> Z'" and e: "set_option e \<subseteq> Z'" for Z' a e t
  proof (rule both_bind, rule swp_upd_file [OF t a])
    fix t1 assume t1: "run D s0 Z' True t1"
    have w: "run D s0 Z' False (t1\<lparr>files := mp, smem := m, curr_state := st\<rparr>)" for mp m st
      using run_weaken [OF t1] by simp
    show "both
     (rbind (hashmap_insert (files t1) p a (smem t1)) (\<lambda>(_, mp, m).
        rbind (file_writer_unlock a (t1\<lparr>files := mp, smem := m, curr_state := count_file (curr_state t1)\<rparr>)) (\<lambda>s.
        rbind (file_delete e s) (\<lambda>s. Ok (SA_SUCCESS, s)))))
     (rbind (hashmap_insert (files (settle D t1)) p a (smem (settle D t1))) (\<lambda>(_, mp, m).
        rbind (file_writer_unlock a (settle D t1\<lparr>files := mp, smem := m, curr_state := count_file (curr_state (settle D t1))\<rparr>)) (\<lambda>s.
        rbind (file_delete e s) (\<lambda>s. Ok (SA_SUCCESS, s))))) R"
      unfolding settle_upd settle_fields case_prod_unfold
      by (rule both_bind, rule wp_same, rule both_bind, rule wp_writer_unlock [OF w a], rule both_bind,
          rule swp_file_delete, assumption) (use e R in auto)
  qed simp_all
  show ?thesis
    unfolding open_create_def settle_fields
    by (rule both_bind, rule wp_same, rule both_if, simp add: R [OF run_weaken [OF r]],
        rule both_bind, rule swp_create_file [OF r], simp only: prod.case settle_fields, rule both_bind,
        rule wp_make_place, assumption, simp only: prod.case, rule fin) auto
qed

lemma swp_file_parts:
  assumes r: "run D s0 Z N s" and a: "a \<in> Z" and R: "\<And>s'. run D s0 Z N s' \<Longrightarrow> R s' (settle D s')"
  shows "both (add_opener fd a s) (add_opener fd a (settle D s)) R"
    "both (touch a s) (touch a (settle D s)) R"
    "both (remove_opener fd a s) (remove_opener fd a (settle D s)) R"
    "both (release_lock fd a s) (release_lock fd a (settle D s)) R"
proof -
  show "both (touch a s) (touch a (settle D s)) R"
    unfolding touch_def by (rule both_bind, rule swp_clock [OF r], simp only: prod.case, rule swp_upd_file, assumption, rule a) (simp_all add: R)
  show "both (remove_opener fd a s) (remove_opener fd a (settle D s)) R"
    unfolding remove_opener_def case_prod_unfold
    by (rule both_bind, rule wp_deref, simp only: no_readers_sel, rule both_bind, rule wp_same, rule swp_upd_file [OF r a]) (simp_all add: R)
  show "both (release_lock fd a s) (release_lock fd a (settle D s)) R"
    unfolding release_lock_def
    by (rule both_bind, rule wp_deref, simp only: no_readers_sel, rule both_if, rule swp_upd_file [OF r a]) (simp_all add: R r)
  show "both (add_opener fd a s) (add_opener fd a (settle D s)) R"
    unfolding add_opener_def case_prod_unfold settle_upd
    by (rule both_bind, rule wp_opened_by, rule both_if, simp add: R r, rule both_bind, rule wp_deref,
        simp only: no_readers_sel settle_fields, rule both_bind, rule wp_same, rule swp_upd_file [OF _ a])
      (use r R in simp_all)
qed

lemma wp_lookup: "(\<And>r. lookup_file p s = Ok r \<Longrightarrow> R r r) \<Longrightarrow> both (lookup_file p s) (lookup_file p (settle D s)) R"
  by (simp add: lookup_file_def both_def)

text \<open>A handler that locks the file it finds.\<close>

lemma wp_locked:
  assumes r: "run D s0 Z N s" and none: "both n n' R"
    and some: "\<And>a s'. lookup_file p s = Ok (Some a) \<Longrightarrow> files s' = files s \<Longrightarrow> run D s0 (insert a Z) N s' \<Longrightarrow>
      both (k a s') (k a (settle D s')) R"
  shows "both (rbind (lookup_file p s) (\<lambda>r. case r of None \<Rightarrow> n | Some a \<Rightarrow> rbind (file_writer_lock a s) (k a)))
    (rbind (lookup_file p (settle D s)) (\<lambda>r. case r of None \<Rightarrow> n' | Some a \<Rightarrow> rbind (file_writer_lock a (settle D s)) (k a))) R"
proof (rule both_bind, rule wp_lookup)
  fix l assume l: "lookup_file p s = Ok l"
  show "both (case l of None \<Rightarrow> n | Some a \<Rightarrow> rbind (file_writer_lock a s) (k a))
      (case l of None \<Rightarrow> n' | Some a \<Rightarrow> rbind (file_writer_lock a (settle D s)) (k a)) R"
  proof (cases l)
    case (Some a)
    have fs: "files s' = files s" if "file_writer_lock a s = Ok s'" for s'
      using that by (auto simp: file_writer_lock_def rbind_eq_Ok split: if_splits dest: upd_file_files)
    have "both (rbind (file_writer_lock a s) (k a)) (rbind (file_writer_lock a (settle D s)) (k a)) R"
    proof (rule both_run)
      fix x y assume xy: "file_writer_lock a s = Ok x" "file_writer_lock a (settle D s) = Ok y"
      have "run D s0 (insert a Z) N x \<and> y = settle D x" by (rule bothD [OF wp_writer_lock [OF r] xy]) simp
      then show "both (k a x) (k a y) R" using some [OF l [unfolded Some] fs [OF xy(1)]] by simp
    qed
    then show ?thesis unfolding Some by simp
  qed (use none in simp)
qed

text \<open>Giving the lock back and returning.\<close>

lemma wp_unlock_return:
  assumes "run D s0 Z N s" "a \<in> Z" "\<And>s'. run D s0 Z N s' \<Longrightarrow> R (g s') (g (settle D s'))"
  shows "both (rbind (file_writer_unlock a s) (\<lambda>s. Ok (g s))) (rbind (file_writer_unlock a (settle D s)) (\<lambda>s. Ok (g s))) R"
  by (rule both_bind, rule wp_writer_unlock [OF assms(1,2)]) (simp add: assms(3))

lemmas core_wp = wp_unlock_return both_if swp_file_parts swp_upd_file both_bind wp_deref wp_opened_by wp_same

lemma wp_open_existing:
  assumes r: "run D s0 Z N s" and R: "\<And>r Z' s'. run D s0 Z' False s' \<Longrightarrow> R (r, s') (r, settle D s')"
  shows "both (open_existing fd p fl s) (open_existing fd p fl (settle D s)) R"
  unfolding open_existing_def
  by (rule wp_locked [OF r], simp add: R [OF run_weaken [OF r]])
    ((rule core_wp | assumption | rule insertI1 | rule refl | (rule R, erule run_weaken) | simp only: no_readers_sel prod.case | simp)+)

lemma wp_close_core:
  assumes r: "run D s0 Z N s" and R: "\<And>r Z' s'. run D s0 Z' False s' \<Longrightarrow> R (r, s') (r, settle D s')"
  shows "both (close_core fd p s) (close_core fd p (settle D s)) R"
  unfolding close_core_def
  by (rule wp_locked [OF r], simp add: R [OF run_weaken [OF r]])
    ((rule core_wp | assumption | rule insertI1 | rule refl | (rule R, erule run_weaken) | simp only: no_readers_sel prod.case | simp)+)

text \<open>Removing a file: what the map gives back is the file that was found and locked.\<close>

lemma lookup_remove:
  assumes "named s" "lookup_file p s = Ok (Some a)" "hashmap_remove (files s) p = Ok (r, mp)"
  shows "r = Inr (Some (p, a))"
proof -
  obtain m where m: "files s = Some m" "file_map_ok m" using assms(1) by (rule namedE)
  then have "map_of (entries m) p = Some a"
    using assms(2) by (auto simp: lookup_file_def fm_get split: option.splits if_splits)
  from fm_remove [OF m(2) this] assms(3) m(1) show ?thesis by auto
qed

lemma wp_drop_file:
  assumes s: "named s" and l: "lookup_file p s = Ok (Some a)" "files t = files s" and t: "run D s0 Z N t" "a \<in> Z"
    and R: "\<And>r Z' s'. run D s0 Z' False s' \<Longrightarrow> R (r, s') (r, settle D s')"
  shows "both (rbind (hashmap_remove (files t) p) (\<lambda>(r, mp).
        rbind (file_delete (case r of Inr (Some (_, b)) \<Rightarrow> Some b | _ \<Rightarrow> Some a) (t\<lparr>files := mp\<rparr>)) (\<lambda>s. Ok (SA_SUCCESS, s))))
      (rbind (hashmap_remove (files t) p) (\<lambda>(r, mp).
        rbind (file_delete (case r of Inr (Some (_, b)) \<Rightarrow> Some b | _ \<Rightarrow> Some a) (settle D (t\<lparr>files := mp\<rparr>))) (\<lambda>s. Ok (SA_SUCCESS, s)))) R"
proof (rule both_bind, rule both_same)
  fix x assume x: "hashmap_remove (files t) p = Ok x"
  obtain q mp where q: "x = (q, mp)" by force
  have p: "q = Inr (Some (p, a))" using lookup_remove [OF s l(1)] x l(2) q by simp
  have w: "run D s0 Z False (t\<lparr>files := mp\<rparr>)" using run_weaken [OF t(1)] by simp
  show "both (case x of (r, mp) \<Rightarrow>
        rbind (file_delete (case r of Inr (Some (_, b)) \<Rightarrow> Some b | _ \<Rightarrow> Some a) (t\<lparr>files := mp\<rparr>)) (\<lambda>s. Ok (SA_SUCCESS, s)))
      (case x of (r, mp) \<Rightarrow>
        rbind (file_delete (case r of Inr (Some (_, b)) \<Rightarrow> Some b | _ \<Rightarrow> Some a) (settle D (t\<lparr>files := mp\<rparr>))) (\<lambda>s. Ok (SA_SUCCESS, s))) R"
    unfolding q p prod.case sum.case option.case
    by (rule both_bind, rule swp_file_delete [OF w]) (use R t(2) in auto)
qed

lemma wp_remove_core:
  assumes r: "run D s0 Z True s" and R: "\<And>r Z' s'. run D s0 Z' False s' \<Longrightarrow> R (r, s') (r, settle D s')"
  shows "both (remove_core fd p s) (remove_core fd p (settle D s)) R"
proof -
  have nm: "named s" using r by (simp add: run_def)
  show ?thesis unfolding remove_core_def Let_def
    by (rule wp_locked [OF r], simp add: R [OF run_weaken [OF r]])
      ((simp only: no_readers_sel prod.case settle_fields settle_upd | rule wp_drop_file [OF nm] core_wp | assumption |
        rule insertI1 | rule refl | (rule R, assumption) | (rule R, erule run_weaken) | simp)+)
qed

text \<open>The end of a write: what is sent back are files without readers.\<close>

definition zeros :: "nat list option \<Rightarrow> nat set" where
  "zeros es = (case es of None \<Rightarrow> {} | Some es \<Rightarrow> set es)"

lemma zeros_simps [simp]: "zeros None = {}" "zeros (Some es) = set es"
  by (simp_all add: zeros_def)

lemma wp_finish_write:
  assumes t: "run D s0 Z True t" "a \<in> Z"
    and g: "\<And>f. path_name (g f) = path_name f" "\<And>f. n_readers (g f) = n_readers f" "\<And>f. g (no_readers f) = no_readers (g f)"
    and R: "\<And>r es s'. run D s0 (zeros es) False s' \<Longrightarrow> R (r, es, s') (r, es, settle D s')"
  shows "both
    (rbind (upd_file a g t) (\<lambda>s. rbind (touch a s) (\<lambda>s. rbind (charge_space a n [] s) (\<lambda>(es, s).
       rbind (file_writer_unlock a s) (\<lambda>s. Ok (SA_SUCCESS, Some es, s))))))
    (rbind (upd_file a g (settle D t)) (\<lambda>s. rbind (touch a s) (\<lambda>s. rbind (charge_space a n [] s) (\<lambda>(es, s).
       rbind (file_writer_unlock a s) (\<lambda>s. Ok (SA_SUCCESS, Some es, s)))))) R"
proof (rule both_bind, rule swp_upd_file [OF t g], rule both_bind, rule swp_file_parts(2) [OF _ t(2)], assumption,
    rule both_bind, rule wp_charge_space [OF _ t(2)], assumption, simp only: prod.case)
  fix es Z' s' assume s': "Z \<subseteq> Z'" "run D s0 Z' True s'" "set es \<subseteq> Z'"
  have "R (SA_SUCCESS, Some es, t) (SA_SUCCESS, Some es, settle D t)" if "run D s0 Z' True t" for t
    using R [of "Some es"] run_shrink [OF that s'(3)] by simp
  then show "both (rbind (file_writer_unlock a s') (\<lambda>s. Ok (SA_SUCCESS, Some es, s)))
      (rbind (file_writer_unlock a (settle D s')) (\<lambda>s. Ok (SA_SUCCESS, Some es, s))) R"
    using s'(1) t(2) by (intro wp_unlock_return [OF s'(2)]) auto
qed

lemma file_bytes_readers: "file_bytes (no_readers f) = file_bytes f"
  by (simp add: file_bytes_def split: option.split)

lemma file_bytes_same: "(\<And>b. R b b) \<Longrightarrow> both (file_bytes f) (file_bytes f) R"
  by (simp add: both_def)

lemma swp_writes:
  assumes r: "run D s0 Z True s" and R: "\<And>r es s'. run D s0 (zeros es) False s' \<Longrightarrow> R (r, es, s') (r, es, settle D s')"
  shows "both (write_core fd p sz b s) (write_core fd p sz b (settle D s)) R"
    "both (append_core fd p sz b s) (append_core fd p sz b (settle D s)) R"
proof -
  have e: "R (r, None, s') (r, None, settle D s')" if "run D s0 Z' N s'" for r s' Z' N
    using R [of None] run_shrink [OF that, of "{}"] by simp
  have fin: "both
      (case malloc (smem t) of (False, m) \<Rightarrow> rbind (file_writer_unlock a (t\<lparr>smem := m\<rparr>)) (\<lambda>s. Ok (SA_ERROR, None, s))
       | (True, m) \<Rightarrow> rbind (upd_file a (\<lambda>f. f\<lparr>fsize := sz, contents := Some b\<rparr>) (t\<lparr>smem := m\<rparr>)) (\<lambda>s. rbind (touch a s) (\<lambda>s.
           rbind (charge_space a sz [] s) (\<lambda>(es, s). rbind (file_writer_unlock a s) (\<lambda>s. Ok (SA_SUCCESS, Some es, s))))))
      (case malloc (smem t) of (False, m) \<Rightarrow> rbind (file_writer_unlock a (settle D (t\<lparr>smem := m\<rparr>))) (\<lambda>s. Ok (SA_ERROR, None, s))
       | (True, m) \<Rightarrow> rbind (upd_file a (\<lambda>f. f\<lparr>fsize := sz, contents := Some b\<rparr>) (settle D (t\<lparr>smem := m\<rparr>))) (\<lambda>s. rbind (touch a s) (\<lambda>s.
           rbind (charge_space a sz [] s) (\<lambda>(es, s). rbind (file_writer_unlock a s) (\<lambda>s. Ok (SA_SUCCESS, Some es, s)))))) R"
    if t: "run D s0 (insert a Z) True t" for a t
  proof -
    obtain ok m where m: "malloc (smem t) = (ok, m)" by force
    have t': "run D s0 (insert a Z) True (t\<lparr>smem := m\<rparr>)" using t by simp
    show ?thesis
    proof (cases ok)
      case True
      then have ok: "ok = True" by simp
      show ?thesis unfolding m ok prod.case bool.case by (rule wp_finish_write [OF t' insertI1]) (simp_all add: R)
    next
      case False
      show ?thesis unfolding m prod.case using False by (simp, intro wp_unlock_return [OF t' insertI1], elim e)
    qed
  qed
  show "both (write_core fd p sz b s) (write_core fd p sz b (settle D s)) R"
    unfolding write_core_def
    by (rule wp_locked [OF r], simp add: e [OF r])
      ((simp only: no_readers_sel prod.case settle_fields settle_upd | rule fin core_wp | assumption | rule insertI1 | rule refl | erule e)+)
  show "both (append_core fd p sz b s) (append_core fd p sz b (settle D s)) R"
    unfolding append_core_def
    by (rule wp_locked [OF r], simp add: e [OF r])
      ((simp only: no_readers_sel prod.case settle_fields settle_upd file_bytes_readers run_upd |
        rule wp_finish_write file_bytes_same core_wp | assumption | rule insertI1 | rule refl | erule e)+, simp_all add: R)
qed

lemma both_close_client_files:
  assumes "run D s0 Z N s"
  shows "both (close_client_files fd as s) (close_client_files fd as (settle D s)) (\<lambda>s' y. y = settle D s' \<and> run D s0 {} False s')"
  using assms
proof (induction as arbitrary: s Z)
  case Nil
  then show ?case by (simp add: run_shrink)
next
  case (Cons a as)
  show ?case unfolding close_client_files.simps
    by (rule both_bind, rule wp_writer_lock [OF Cons.prems])
      ((rule wp_writer_unlock core_wp Cons.IH | assumption | rule insertI1)+)
qed

lemma wp_close_client:
  assumes r: "run D s0 Z True s" and R: "\<And>s'. run D s0 {} False s' \<Longrightarrow> R s' (settle D s')"
  shows "both (close_client fd s) (close_client fd (settle D s)) R"
proof -
  have "run D s0 Z True (s\<lparr>smem := m, curr_state := st\<rparr>)" for m st using r by simp
  note files = both_mono [OF both_close_client_files [OF this]]
  show ?thesis unfolding close_client_def settle_fields settle_upd
    by (rule both_if, simp add: R [OF run_shrink [OF r]], rule both_bind, rule wp_same, rule both_bind, rule both_same,
        simp only: case_prod_unfold, rule files) (auto intro: R)
qed

section \<open>The handlers that read\<close>

text \<open>What a reply looks at in a file, which a reader lock protects: not the time of last use, which other readers set.\<close>

definition view :: "server \<Rightarrow> nat \<Rightarrow> (path \<times> byte list option \<times> u64) option" where
  "view s a = map_option (\<lambda>f. (path_name f, contents f, fsize f)) (fheap s a)"

text \<open>
  A handler that reads leaves the files \<open>A\<close> with one reader more and changes nothing else that can be
  seen; \<open>q\<close> is where it gets from the settled state.
\<close>

definition reading :: "nat set \<Rightarrow> nat set \<Rightarrow> server \<Rightarrow> server \<Rightarrow> server \<Rightarrow> bool" where
  "reading D A s s' q \<longleftrightarrow> settle {} q = settle D s' \<and> view s' = view s \<and> (\<forall>b. b \<notin> D \<longrightarrow> view q b = view s b) \<and>
     (\<forall>b \<in> D. fheap s' b = fheap s b) \<and> fnext s' = fnext s \<and>
     (\<forall>b. rd s' b = rd s b + (if b \<in> A then 1 else 0)) \<and> (\<forall>b. rd q b = (if b \<in> A then 1 else 0))"

lemma settle_settle: "settle {} (settle D s) = settle D s"
  by (auto simp: settle_def settle_heap_def fun_eq_iff option.map_comp comp_def)

lemma settled_rd [simp]: "rd (settle D s) b = 0"
  by (simp add: rd_def settle_heap_def split: option.split)

lemma settled_view: "b \<notin> D \<Longrightarrow> view (settle D s) b = view s b"
  by (simp add: view_def settle_heap_def option.map_comp comp_def)

lemma view_clock [simp]: "view (s\<lparr>clock := ts\<rparr>) = view s"
  by (simp add: view_def fun_eq_iff)

lemma reading_none: "reading D {} s s (settle D s)"
  by (simp add: reading_def settle_settle settled_view)

text \<open>One more reader of the files \<open>A\<close>, last used at the time \<open>t\<close> if that is set.\<close>

definition bump :: "nat set \<Rightarrow> (file_t \<Rightarrow> file_t) \<Rightarrow> server \<Rightarrow> server" where
  "bump A g s = s\<lparr>fheap := (\<lambda>b. if b \<in> A then map_option (\<lambda>f. g (f\<lparr>n_readers := n_readers f + 1\<rparr>)) (fheap s b) else fheap s b)\<rparr>"

lemma reading_bump:
  assumes A: "A \<inter> D = {}" "\<And>a. a \<in> A \<Longrightarrow> fheap s a \<noteq> None"
    and g: "\<And>f. path_name (g f) = path_name f" "\<And>f. contents (g f) = contents f" "\<And>f. fsize (g f) = fsize f"
      "\<And>f. n_readers (g f) = n_readers f" "\<And>f n. g (f\<lparr>n_readers := n\<rparr>) = (g f)\<lparr>n_readers := n\<rparr>"
  shows "reading D A s (bump A g s) (bump A g (settle D s))"
proof -
  have "settle_heap {} (fheap (bump A g (settle D s))) b = settle_heap D (fheap (bump A g s)) b" for b
    using A(1) g(5) by (cases "fheap s b") (auto simp: bump_def settle_heap_def)
  then have "settle {} (bump A g (settle D s)) = settle D (bump A g s)"
    by (simp add: settle_def bump_def fun_eq_iff)
  moreover have "view (bump A g s) = view s" "\<And>b. b \<notin> D \<Longrightarrow> view (bump A g (settle D s)) b = view s b"
    using A(1) g(1-3) by (auto simp: view_def bump_def settle_heap_def fun_eq_iff option.map_comp comp_def)
  moreover have "rd (bump A g s) b = rd s b + (if b \<in> A then 1 else 0)" for b
    using A(2) [of b] g(4) by (auto simp: rd_def bump_def)
  moreover have "rd (bump A g (settle D s)) b = (if b \<in> A then 1 else 0)" for b
    using A(1) A(2) [of b] g(4) by (cases "fheap s b") (auto simp: rd_def bump_def settle_heap_def)
  ultimately show ?thesis using A(1) by (auto simp: reading_def bump_def)
qed

lemma reader_lock_run: "file_reader_lock a s = Ok t \<longleftrightarrow>
  (\<exists>f. fheap s a = Some f \<and> n_writers f = 0 \<and> t = put a (f\<lparr>n_readers := n_readers f + 1\<rparr>) s)"
  by (auto simp: file_reader_lock_def upd_file_def deref_def put_def word_gt_0 split: option.splits)

lemma bump_single: "fheap s a = Some f \<Longrightarrow> bump {a} g s = put a (g (f\<lparr>n_readers := n_readers f + 1\<rparr>)) s"
  by (auto simp: bump_def put_def fun_eq_iff)

lemma read_core_both:
  assumes "read_core fd p s = Ok (k, s')" "read_core fd p (settle D s) = Ok (k', q)"
  shows "k' = k \<and> reading D (case k of Inl _ \<Rightarrow> {} | Inr a \<Rightarrow> {a}) s s' q"
proof -
  obtain l where l: "lookup_file p s = Ok l" using assms(1) by (auto simp: read_core_def rbind_eq_Ok)
  have l': "lookup_file p (settle D s) = Ok l" using l by (simp add: lookup_file_def)
  show ?thesis
  proof (cases l)
    case None
    then show ?thesis using assms l l' reading_none by (auto simp: read_core_def)
  next
    case (Some a)
    obtain f t where f: "fheap s a = Some f" "n_writers f = 0" "t = put a (f\<lparr>n_readers := n_readers f + 1\<rparr>) s" "file_reader_lock a s = Ok t"
      using assms(1) l Some by (auto simp: read_core_def rbind_eq_Ok reader_lock_run)
    obtain u where u: "a \<notin> D" "u = put a ((no_readers f)\<lparr>n_readers := 1\<rparr>) (settle D s)" "file_reader_lock a (settle D s) = Ok u"
      using assms(2) l' Some f(1) by (auto simp: read_core_def rbind_eq_Ok reader_lock_run settle_heap_def split: if_splits)
    obtain o' where op: "hashtbl_contains (fd_open f) fd = Ok o'"
      using assms(1) l Some f by (auto simp: read_core_def rbind_eq_Ok)
    show ?thesis
    proof (cases o')
      case False
      have "f\<lparr>n_readers := n_readers f\<rparr> = f" by simp
      then have "s' = s" "k = Inl SA_NO_OPEN" using assms(1) l Some f op False by (auto simp: read_core_def put_same)
      moreover have "q = settle D s" "k' = Inl SA_NO_OPEN"
        using assms(2) l' Some f u op False put_same [of "settle D s" a "no_readers f"]
        by (auto simp: read_core_def settle_heap_def)
      ultimately show ?thesis using reading_none by simp
    next
      case True
      obtain now ts where clk: "clock s = now # ts"
        using assms(1) l Some f op True by (cases "clock s") (auto simp: read_core_def touch_def clock_gettime_def)
      let ?g = "\<lambda>f. f\<lparr>last_use := now\<rparr>"
      have "s' = bump {a} ?g (s\<lparr>clock := ts\<rparr>)" "k = Inr a"
        using assms(1) l Some f op True clk by (simp_all add: read_core_def touch_put bump_single)
      moreover have "q = bump {a} ?g (settle D (s\<lparr>clock := ts\<rparr>))" "k' = Inr a"
        using assms(2) l' Some f(1) u op True clk by (simp_all add: read_core_def touch_put bump_single settle_heap_def)
      moreover have "reading D {a} (s\<lparr>clock := ts\<rparr>) (bump {a} ?g (s\<lparr>clock := ts\<rparr>)) (bump {a} ?g (settle D (s\<lparr>clock := ts\<rparr>)))"
        by (rule reading_bump) (use f(1) u(1) in auto)
      ultimately show ?thesis by (simp add: reading_def view_def)
    qed
  qed
qed

lemma read_lock_all_run:
  assumes "read_lock_all as lst s = Ok (ok, l, s')" "distinct as" "smem s = Ample"
  shows "ok \<and> l = lst @ as \<and> s' = bump (set as) (\<lambda>f. f) s \<and> (\<forall>a \<in> set as. fheap s a \<noteq> None)"
  using assms
proof (induction as arbitrary: lst s)
  case Nil
  then show ?case by (simp add: bump_def)
next
  case (Cons a as)
  obtain f where f: "fheap s a = Some f" "file_reader_lock a s = Ok (put a (f\<lparr>n_readers := n_readers f + 1\<rparr>) s)"
    using Cons.prems(1) by (auto simp: rbind_eq_Ok reader_lock_run)
  let ?t = "put a (f\<lparr>n_readers := n_readers f + 1\<rparr>) s"
  have "read_lock_all as (lst @ [a]) ?t = Ok (ok, l, s')"
    using Cons.prems(1,3) f by (simp add: smem_same)
  from Cons.IH [OF this] Cons.prems(2,3) have
    IH: "ok" "l = lst @ a # as" "s' = bump (set as) (\<lambda>f. f) ?t" "\<forall>b \<in> set as. fheap ?t b \<noteq> None" by auto
  have "s' = bump (set (a # as)) (\<lambda>f. f) s"
    using IH(3) f(1) Cons.prems(2) by (auto simp: bump_def put_def fun_eq_iff)
  then show ?case using IH f(1) Cons.prems(2) by (auto split: if_splits)
qed

lemma read_n_core_run:
  assumes m: "files s = Some m" "int (length (lists m)) = nlist m" "distinct (map snd (entries m))" and mem: "smem s = Ample"
    and run: "read_n_core N s = Ok (k, s')"
    and n: "n = nat (if N \<le> 0 then to_int32 (uint (st_files (curr_state s))) else N)"
  shows "k = Inr (map snd (take n (entries m))) \<and> s' = bump (snd ` set (take n (entries m))) (\<lambda>f. f) s \<and>
    (\<forall>a \<in> snd ` set (take n (entries m)). fheap s a \<noteq> None)"
proof -
  let ?es = "take n (entries m)"
  have it: "iter_upto n hash_iter_init None (files s) = Ok (?es, if n = 0 then None else Some (Inr (n \<le> length (entries m))))"
    using iter_upto_spec [OF m(2) iter_init_ok(1), of n None] m(1) by (simp add: iter_init_ok)
  obtain ok lst t where t: "read_lock_all (map snd ?es) [] s = Ok (ok, lst, t)"
    using run mem it by (auto simp: read_n_core_def Let_def n [symmetric] safe_malloc_def malloc_bytes_def smem_same rbind_eq_Ok)
  have "distinct (map snd ?es)" using m(3) by (simp add: take_map [symmetric] distinct_take)
  note l = read_lock_all_run [OF t this mem]
  have "k = Inr lst \<and> s' = t"
    using run mem it t l
    by (auto simp: read_n_core_def Let_def n [symmetric] safe_malloc_def malloc_bytes_def smem_same split: if_splits)
  then show ?thesis using l by simp
qed

lemma read_n_core_both:
  assumes inv: "server_inv (settle D s)"
    and run: "read_n_core N s = Ok (k, s')" "read_n_core N (settle D s) = Ok (k', q)"
  shows "\<exists>as. distinct as \<and> k' = Inr as \<and> k = Inr as \<and> reading D (set as) s s' q"
proof -
  have mem: "smem s = Ample" using inv by (auto simp: server_inv_def store_ok_def)
  obtain m where m: "files s = Some m" using server_inv_store [OF inv] by (elim store_okE) simp
  note e = dest_entries [OF inv, unfolded settle_fields, OF m]
  let ?n = "nat (if N \<le> 0 then to_int32 (uint (st_files (curr_state s))) else N)"
  let ?as = "map snd (take ?n (entries m))"
  note r = read_n_core_run [OF m e(5,3) mem run(1) refl]
  note r' = read_n_core_run [of "settle D s", unfolded settle_fields, OF m e(5,3) mem run(2) refl]
  have "reading D (set ?as) s (bump (set ?as) (\<lambda>f. f) s) (bump (set ?as) (\<lambda>f. f) (settle D s))"
    by (rule reading_bump) (use r r' in \<open>auto simp: settle_heap_def split: if_splits\<close>)
  moreover have "distinct ?as" using e(3) by (simp add: take_map [symmetric] distinct_take)
  ultimately show ?thesis using r r' by (intro exI [of _ ?as]) simp
qed

end
