(* ===== verification/Overlap.thy ===== *)
theory Overlap
  imports Cores
begin

text \<open>
  Requests that overlap. A worker works on the store under \<open>files_mtx\<close>, one worker at a time, and then
  answers its client without the mutex: it sends files that it holds a reader lock on, or files that it took
  out of the store and destroys afterwards. The replies of several workers and the requests of others run at
  the same time. The theory cuts the handlers where they give back the mutex, interleaves the parts, and
  shows that the whole behaves as if each request were served in one step, when it holds the mutex. A worker
  that waits for a lock keeps the mutex, and the replies that go on meanwhile look at no file that it changes:
  its part is a step, taken when it can go through.
\<close>

section \<open>A handler in two parts\<close>

text \<open>What a handler has to do after it gave back the mutex.\<close>

datatype after = Done int | Reply_file nat | Reply_files "nat list" | Reply_expelled "nat list"

fun request_core :: "request \<Rightarrow> int \<Rightarrow> server \<Rightarrow> (after \<times> server) res" where
  "request_core (Req_open p fl) fd s =
     rbind (if is_flag_set fl O_CREATE then open_create fd p fl s else open_existing fd p fl s) (\<lambda>(r, s). Ok (Done r, s))"
| "request_core (Req_close p) fd s = rbind (close_core fd p s) (\<lambda>(r, s). Ok (Done r, s))"
| "request_core (Req_remove p) fd s = rbind (remove_core fd p s) (\<lambda>(r, s). Ok (Done r, s))"
| "request_core (Req_write p bs) fd s =
     rbind (write_core fd p (word_of_nat (length bs)) bs s) (\<lambda>(r, es, s).
       Ok (case es of None \<Rightarrow> Done r | Some es \<Rightarrow> Reply_expelled es, s))"
| "request_core (Req_append p bs) fd s =
     rbind (append_core fd p (word_of_nat (length bs)) bs s) (\<lambda>(r, es, s).
       Ok (case es of None \<Rightarrow> Done r | Some es \<Rightarrow> Reply_expelled es, s))"
| "request_core (Req_read p) fd s =
     rbind (read_core fd p s) (\<lambda>(r, s). Ok (case r of Inl e \<Rightarrow> Done e | Inr a \<Rightarrow> Reply_file a, s))"
| "request_core (Req_read_n N) fd s =
     rbind (read_n_core N s) (\<lambda>(r, s). Ok (case r of Inl e \<Rightarrow> Done e | Inr as \<Rightarrow> Reply_files as, s))"

fun reply :: "after \<Rightarrow> conn \<Rightarrow> server \<Rightarrow> (int \<times> conn \<times> server) res" where
  "reply (Done r) c s = Ok (r, c, s)"
| "reply (Reply_file a) c s = read_reply a c s"
| "reply (Reply_files as) c s = read_n_reply as c s"
| "reply (Reply_expelled as) c s = send_expelled as c s"

text \<open>The result for the client and the one for the main thread.\<close>

definition told :: "int \<Rightarrow> conn \<Rightarrow> worker_code_t \<times> conn" where
  "told r c = (case conn_writen (enc_int r) c of (l, c) \<Rightarrow> (if l = -1 then MW_FATAL_ERROR else result_code r, c))"

lemma handler_parts:
  assumes ok: "request_ok r" and rx: "rx c = request_args r @ rest" and mem: "smem s = Ample"
    and h: "handler (op_value (request_op r)) = Some h"
  shows "h fd c s = rbind (request_core r fd s) (\<lambda>(k, s). reply k (c\<lparr>rx := rest\<rparr>) s)"
proof (cases r)
  case (Req_open p fl)
  then show ?thesis using open_file_run [of p c fl rest s fd] assms handler_op [of r]
    by (auto simp: rbind_assoc case_prod_unfold)
next
  case (Req_close p)
  then show ?thesis using with_path_ok [of p c rest s] assms handler_op [of r]
    by (auto simp: close_file_def rbind_assoc case_prod_unfold)
next
  case (Req_remove p)
  then show ?thesis using with_path_ok [of p c rest s] assms handler_op [of r]
    by (auto simp: remove_file_def rbind_assoc case_prod_unfold)
next
  case (Req_write p bs)
  then show ?thesis using write_file_run [of p bs c rest s fd] assms handler_op [of r]
    by (auto simp: payload_ok_def rbind_assoc case_prod_unfold split: option.splits intro!: rbind_cong)
next
  case (Req_append p bs)
  then show ?thesis using append_to_file_run [of p bs c rest s fd] assms handler_op [of r]
    by (auto simp: payload_ok_def rbind_assoc case_prod_unfold split: option.splits intro!: rbind_cong)
next
  case (Req_read p)
  then show ?thesis using with_path_ok [of p c rest s] assms handler_op [of r]
    by (auto simp: read_file_def rbind_assoc case_prod_unfold split: sum.splits intro!: rbind_cong)
next
  case (Req_read_n N)
  have "conn_readn 4 c = Ok (4, enc_int N, c\<lparr>rx := rest\<rparr>)"
    using conn_readn_prefix [of c "enc_int N" rest 4] rx Req_read_n by simp
  moreover have "dec_int (enc_int N) = N" using ok Req_read_n by (intro dec_enc_int) simp_all
  ultimately show ?thesis using Req_read_n assms handler_op [of r]
    by (auto simp: read_n_files_def rbind_assoc case_prod_unfold split: sum.splits intro!: rbind_cong)
qed

lemma serve_parts:
  assumes ok: "request_ok r" and rx: "rx c = request_msg r @ rest" and mem: "smem s = Ample"
  shows "serve_request fd c s = rbind (request_core r fd s) (\<lambda>(k, s). rbind (reply k (c\<lparr>rx := rest\<rparr>) s) (\<lambda>(res, c, s).
    case told res c of (code, c) \<Rightarrow> Ok (code, c, s)))"
proof -
  have r: "conn_readn 4 c = Ok (4, enc_int (op_value (request_op r)), c\<lparr>rx := request_args r @ rest\<rparr>)"
    using conn_readn_prefix [of c "enc_int (op_value (request_op r))" "request_args r @ rest" 4] rx
    by (simp add: request_msg_def)
  obtain h where h: "handler (op_value (request_op r)) = Some h" using handler_op [of r] by blast
  have "rx (c\<lparr>rx := request_args r @ rest\<rparr>) = request_args r @ rest" by simp
  from handler_parts [OF ok this mem h] show ?thesis
    by (auto simp: serve_request_def r dec_op h rbind_assoc told_def case_prod_unfold intro!: rbind_cong)
qed

section \<open>Replies step by step\<close>

text \<open>
  What a reply sends, in order, and what it gives back at its end. \<open>read_file\<close> gives nothing back when the client
  cannot be written to, the other two do.
\<close>

datatype msg = Code int | File nat bool
datatype hold = Unlock nat | Destroy nat

datatype task =
    Free
  | Sending "msg list" "hold list" "hold list" conn
  | Releasing "hold list" int conn
  | Finished worker_code_t conn

definition list_plan :: "nat list \<Rightarrow> msg list" where
  "list_plan as = Code SA_SUCCESS # map (\<lambda>a. File a True) as @ [Code 0]"

fun begin_reply :: "after \<Rightarrow> conn \<Rightarrow> task" where
  "begin_reply (Done r) c = Releasing [] r c"
| "begin_reply (Reply_file a) c = Sending [Code SA_SUCCESS, File a False] [] [Unlock a] c"
| "begin_reply (Reply_files as) c = Sending (list_plan as) (map Unlock as) (map Unlock as) c"
| "begin_reply (Reply_expelled as) c = Sending (list_plan as) (map Destroy as) (map Destroy as) c"

fun send_msg :: "msg \<Rightarrow> conn \<Rightarrow> server \<Rightarrow> (int \<times> conn) res" where
  "send_msg (Code n) c s = Ok (conn_writen (enc_int n) c)"
| "send_msg (File a send_path) c s = rbind (deref a s) (\<lambda>f. send_single_file (Some f) send_path c)"

fun give_back :: "hold \<Rightarrow> server \<Rightarrow> server res" where
  "give_back (Unlock a) s = file_reader_unlock a s"
| "give_back (Destroy a) s = file_delete (Some a) s"

fun task_step :: "task \<Rightarrow> server \<Rightarrow> (task \<times> server) res" where
  "task_step Free s = Ok (Free, s)"
| "task_step (Sending [] fl ok c) s = Ok (Releasing ok SA_SUCCESS c, s)"
| "task_step (Sending (m # ms) fl ok c) s =
     rbind (send_msg m c s) (\<lambda>(l, c).
       Ok (if l = -1 then Releasing fl SA_ERROR c else Sending ms fl ok c, s))"
| "task_step (Releasing [] r c) s = (case told r c of (code, c) \<Rightarrow> Ok (Finished code c, s))"
| "task_step (Releasing (x # xs) r c) s = rbind (give_back x s) (\<lambda>s. Ok (Releasing xs r c, s))"
| "task_step (Finished code c) s = Ok (Finished code c, s)"

text \<open>The same in one go.\<close>

fun send_all :: "msg list \<Rightarrow> conn \<Rightarrow> server \<Rightarrow> (int \<times> conn) res" where
  "send_all [] c s = Ok (0, c)"
| "send_all (m # ms) c s = rbind (send_msg m c s) (\<lambda>(l, c). if l = -1 then Ok (-1, c) else send_all ms c s)"

fun release_all :: "hold list \<Rightarrow> server \<Rightarrow> server res" where
  "release_all [] s = Ok s"
| "release_all (x # xs) s = rbind (give_back x s) (release_all xs)"

fun finish :: "task \<Rightarrow> server \<Rightarrow> (int \<times> conn \<times> server) res" where
  "finish (Sending ms fl ok c) s =
     rbind (send_all ms c s) (\<lambda>(l, c).
       rbind (release_all (if l = -1 then fl else ok) s) (\<lambda>s. Ok (if l = -1 then SA_ERROR else SA_SUCCESS, c, s)))"
| "finish (Releasing xs r c) s = rbind (release_all xs s) (\<lambda>s. Ok (r, c, s))"
| "finish _ s = Stuck"

text \<open>The steps are those of the replies in the source.\<close>

lemma send_all_append:
  "send_all (ms @ ns) c s = rbind (send_all ms c s) (\<lambda>(l, c). if l = -1 then Ok (-1, c) else send_all ns c s)"
  by (induction ms arbitrary: c) (auto simp: rbind_assoc case_prod_unfold intro!: rbind_cong)

lemma send_files_loop_all: "send_files_loop as sp s c = send_all (map (\<lambda>a. File a sp) as) c s"
  by (induction as arbitrary: c) (auto simp: rbind_assoc case_prod_unfold intro!: rbind_cong)

lemma send_list_all: "send_list_of_files (Some as) True s c = send_all (map (\<lambda>a. File a True) as @ [Code 0]) c s"
  by (auto simp: send_list_of_files_def send_files_loop_all send_all_append case_prod_unfold intro!: rbind_cong)

lemma list_plan_all:
  "send_all (list_plan as) c s = (case conn_writen (enc_int SA_SUCCESS) c of (l, c) \<Rightarrow>
     if l = -1 then Ok (-1, c) else send_list_of_files (Some as) True s c)"
  by (simp add: list_plan_def send_list_all split: prod.split)

lemma release_all_map:
  "release_all (map Unlock as) s = reader_unlock_all as s" "release_all (map Destroy as) s = delete_files as s"
  by (induction as arbitrary: s) (auto intro!: rbind_cong)

lemma reply_finish: "reply k c s = finish (begin_reply k c) s"
proof (cases k)
  case (Reply_file a)
  then show ?thesis
    by (auto simp: read_reply_def rbind_assoc case_prod_unfold intro!: rbind_cong)
next
  case (Reply_files as)
  then show ?thesis
    by (auto simp: read_n_reply_def list_plan_all release_all_map rbind_assoc case_prod_unfold intro!: rbind_cong)
next
  case (Reply_expelled as)
  then show ?thesis
    by (auto simp: send_expelled_def list_plan_all release_all_map rbind_assoc case_prod_unfold intro!: rbind_cong)
qed simp

text \<open>What a client is going to be told by a reply that goes on from a state of the store.\<close>

fun said :: "task \<Rightarrow> server \<Rightarrow> (worker_code_t \<times> conn) res" where
  "said Free s = Stuck"
| "said (Sending ms fl ok c) s =
     rbind (send_all ms c s) (\<lambda>(l, c). Ok (told (if l = -1 then SA_ERROR else SA_SUCCESS) c))"
| "said (Releasing xs r c) s = Ok (told r c)"
| "said (Finished code c) s = Ok (code, c)"

lemma said_step: "task_step t s = Ok (t', s') \<Longrightarrow> said t' s = said t s"
  by (induction t s rule: task_step.induct) (auto simp: rbind_eq_Ok split: prod.splits if_splits)

section \<open>What a reply holds and looks at\<close>

fun pending :: "task \<Rightarrow> hold list" where
  "pending (Sending ms fl ok c) = ok"
| "pending (Releasing xs r c) = xs"
| "pending _ = []"

definition locks :: "task \<Rightarrow> nat set" where
  "locks t = {a. Unlock a \<in> set (pending t)}"

definition dying :: "task \<Rightarrow> nat set" where
  "dying t = {a. Destroy a \<in> set (pending t)}"

definition looks :: "msg list \<Rightarrow> nat set" where
  "looks ms = {a. \<exists>sp. File a sp \<in> set ms}"

lemma looks_simps [simp]:
  "looks [] = {}" "looks (Code n # ms) = looks ms" "looks (File a sp # ms) = insert a (looks ms)"
  "looks (list_plan as) = set as"
  by (auto simp: looks_def list_plan_def)

lemma pending_simps [simp]:
  "locks (Releasing [] r c) = {}" "locks (Sending ms fl [Unlock a] c) = {a}"
  "locks (Sending ms fl (map Unlock as) c) = set as" "locks (Sending ms fl (map Destroy as) c) = {}"
  "dying (Releasing [] r c) = {}" "dying (Sending ms fl [Unlock a] c) = {}"
  "dying (Sending ms fl (map Unlock as) c) = {}" "dying (Sending ms fl (map Destroy as) c) = set as"
  by (auto simp: locks_def dying_def)

lemma send_single_view:
  assumes "path_name f = path_name g" "contents f = contents g" "fsize f = fsize g"
  shows "send_single_file (Some f) sp c = send_single_file (Some g) sp c"
proof -
  have "file_bytes f = file_bytes g" unfolding file_bytes_def assms ..
  then show ?thesis unfolding send_single_file_def option.case assms by (rule ssubst) simp
qed

lemma send_msg_view:
  assumes "\<And>a sp. m = File a sp \<Longrightarrow> view s' a = view s a"
  shows "send_msg m c s' = send_msg m c s"
proof (cases m)
  case (File a sp)
  with assms have v: "view s' a = view s a" by blast
  show ?thesis
  proof (cases "fheap s a")
    case None
    with v File show ?thesis by (simp add: view_def deref_def)
  next
    case (Some f)
    with v obtain g where "fheap s' a = Some g" "path_name g = path_name f" "contents g = contents f" "fsize g = fsize f"
      by (auto simp: view_def)
    with Some File show ?thesis using send_single_view [of g f] by (simp add: deref_def)
  qed
qed simp

lemma send_all_view: "(\<And>a. a \<in> looks ms \<Longrightarrow> view s' a = view s a) \<Longrightarrow> send_all ms c s' = send_all ms c s"
proof (induction ms arbitrary: c)
  case (Cons m ms)
  have "send_msg m c s' = send_msg m c s" for c
    by (rule send_msg_view) (use Cons.prems in \<open>auto simp: looks_def\<close>)
  moreover have "send_all ms c s' = send_all ms c s" for c
    by (rule Cons.IH) (use Cons.prems in \<open>auto simp: looks_def\<close>)
  ultimately show ?case by (auto intro!: rbind_cong)
qed simp

lemma said_view:
  assumes "\<And>ms fl ok c a. t = Sending ms fl ok c \<Longrightarrow> a \<in> looks ms \<Longrightarrow> view s' a = view s a"
  shows "said t s' = said t s"
proof (cases t)
  case (Sending ms fl ok c)
  then show ?thesis using send_all_view [of ms s' s c] assms by simp
qed simp_all

lemma same_no_readers:
  assumes "no_readers f = no_readers g"
  shows "path_name f = path_name g \<and> contents f = contents g \<and> fsize f = fsize g"
  using arg_cong [OF assms, of path_name] arg_cong [OF assms, of contents] arg_cong [OF assms, of fsize] by simp

text \<open>A reply that runs on the settled state runs in the same way on the whole one.\<close>

lemma settled_same_view:
  assumes "settle {} q = settle D s" "fheap q b \<noteq> None"
  shows "view s b = view q b \<and> b \<notin> D \<and> fheap s b \<noteq> None"
proof -
  have "settle_heap {} (fheap q) b = settle_heap D (fheap s) b"
    using arg_cong [OF assms(1), of fheap] by simp
  then show ?thesis using assms(2) by (cases "fheap s b") (auto simp: settle_heap_def view_def dest: same_no_readers split: if_splits)
qed

lemma send_all_settled:
  assumes "send_all ms c q = Ok x" "settle {} q = settle D s"
  shows "send_all ms c s = Ok x"
  using assms(1)
proof (induction ms arbitrary: c)
  case (Cons m ms)
  obtain l c1 where m: "send_msg m c q = Ok (l, c1)" using Cons.prems by (auto simp: rbind_eq_Ok)
  have "view s a = view q a" if "m = File a sp" for a sp
    using m that settled_same_view [OF assms(2), of a] by (auto simp: deref_def split: option.splits)
  then have "send_msg m c s = Ok (l, c1)" using m send_msg_view [of m s q] by simp
  then show ?case using Cons.prems Cons.IH [of c1] m by (auto split: if_splits)
qed simp

section \<open>The first part of a request\<close>

text \<open>
  What the first part of a request did to the store: on the files of others nothing that they could see,
  one more reader on the files it locked, and the same as on the settled state.
\<close>

definition core_effect :: "nat set \<Rightarrow> server \<Rightarrow> server \<Rightarrow> server \<Rightarrow> nat set \<Rightarrow> nat set \<Rightarrow> bool" where
  "core_effect D s s' q L E \<longleftrightarrow> settle {} q = settle D s' \<and> (\<forall>b \<in> D. fheap s' b = fheap s b) \<and>
     (\<forall>b. rd s b \<noteq> 0 \<longrightarrow> view s' b = view s b) \<and> (\<forall>b. rd s' b = rd s b + (if b \<in> L then 1 else 0)) \<and>
     (\<forall>b. rd q b = (if b \<in> L then 1 else 0)) \<and> (\<forall>b. fnext s' \<le> b \<longrightarrow> fheap s' b = None) \<and> (\<forall>e \<in> E. rd s' e = 0)"

lemma effect_run:
  assumes "run D s Z N s'" "E \<subseteq> Z"
  shows "core_effect D s s' (settle D s') {} E"
proof -
  have "rd s' b = rd s b" for b
    using assms(1) by (cases "rd s b = 0") (auto simp: run_def rd_def)
  then show ?thesis using assms by (auto simp: core_effect_def run_def settle_settle view_def)
qed

lemma effect_reading:
  assumes "reading D L s s' q" "\<And>b. fnext s \<le> b \<Longrightarrow> fheap s b = None"
  shows "core_effect D s s' q L {}"
proof -
  have v: "view s' = view s" "fnext s' = fnext s" using assms(1) by (auto simp: reading_def)
  have "fheap s' b = None" if "fnext s' \<le> b" for b
    using fun_cong [OF v(1), of b] assms(2) [of b] that v(2) by (simp add: view_def)
  with assms(1) show ?thesis by (auto simp: core_effect_def reading_def)
qed

lemma run_start:
  assumes ok: "store_ok (settle D s)" and fresh: "\<And>b. fnext s \<le> b \<Longrightarrow> fheap s b = None"
    and D: "\<And>d. d \<in> D \<Longrightarrow> fheap s d \<noteq> None"
  shows "run D s {} True s"
proof -
  obtain m where m: "files s = Some m" "file_map_ok m"
    "\<And>k a. (k, a) \<in> set (entries m) \<Longrightarrow> \<exists>f. fheap (settle D s) a = Some f \<and> file_ok k f"
    using ok by (elim store_okE) auto
  have "map_option path_name (fheap s a) = Some k" if "(k, a) \<in> set (entries m)" for k a
    using m(3) [OF that] by (auto simp: settle_heap_def file_ok_def split: if_splits)
  then have "named s" using m(1,2) by (auto simp: named_def)
  moreover have "d < fnext s" if "d \<in> D" for d using D [OF that] fresh [of d] by (meson not_le)
  ultimately show ?thesis using fresh by (simp add: run_def)
qed

lemma plain_effect:
  assumes "both m m' (\<lambda>(r, s') y. y = (r, settle D s') \<and> run D s {} False s')"
    "rbind m (\<lambda>(r, s). Ok (Done r, s)) = Ok (k, s')" "rbind m' (\<lambda>(r, s). Ok (Done r, s)) = Ok (k', q)"
  shows "k' = k \<and> core_effect D s s' q (locks (begin_reply k c)) (dying (begin_reply k c)) \<and> (\<forall>as. k \<noteq> Reply_files as)"
proof -
  obtain r t where m: "m = Ok (r, t)" "k = Done r" "s' = t" using assms(2) by (auto simp: rbind_eq_Ok)
  obtain r' t' where m': "m' = Ok (r', t')" "k' = Done r'" "q = t'" using assms(3) by (auto simp: rbind_eq_Ok)
  have "(r', t') = (r, settle D t)" "run D s {} False t" using bothD [OF assms(1) m(1) m'(1)] by auto
  with m m' show ?thesis using effect_run [of D s "{}" False t "{}"] by simp
qed

lemma write_effect:
  assumes "both m m' (\<lambda>(r, es, s') y. y = (r, es, settle D s') \<and> run D s (zeros es) False s')"
    "rbind m (\<lambda>(r, es, s). Ok (case es of None \<Rightarrow> Done r | Some es \<Rightarrow> Reply_expelled es, s)) = Ok (k, s')"
    "rbind m' (\<lambda>(r, es, s). Ok (case es of None \<Rightarrow> Done r | Some es \<Rightarrow> Reply_expelled es, s)) = Ok (k', q)"
  shows "k' = k \<and> core_effect D s s' q (locks (begin_reply k c)) (dying (begin_reply k c)) \<and> (\<forall>as. k \<noteq> Reply_files as)"
proof -
  obtain r es t where m: "m = Ok (r, es, t)" "k = (case es of None \<Rightarrow> Done r | Some es \<Rightarrow> Reply_expelled es)" "s' = t"
    using assms(2) by (auto simp: rbind_eq_Ok)
  obtain r' es' t' where m': "m' = Ok (r', es', t')" "k' = (case es' of None \<Rightarrow> Done r' | Some es \<Rightarrow> Reply_expelled es)" "q = t'"
    using assms(3) by (auto simp: rbind_eq_Ok)
  have "(r', es', t') = (r, es, settle D t)" "run D s (zeros es) False t" using bothD [OF assms(1) m(1) m'(1)] by auto
  with m m' show ?thesis using effect_run [of D s "zeros es" False t "zeros es"] by (cases es) auto
qed

lemma request_effect:
  assumes inv: "server_inv (settle D s)" and fresh: "\<And>b. fnext s \<le> b \<Longrightarrow> fheap s b = None"
    and D: "\<And>d. d \<in> D \<Longrightarrow> fheap s d \<noteq> None"
    and run: "request_core r fd s = Ok (k, s')" "request_core r fd (settle D s) = Ok (k', q)"
  shows "k' = k \<and> core_effect D s s' q (locks (begin_reply k c)) (dying (begin_reply k c)) \<and>
    (\<forall>as. k = Reply_files as \<longrightarrow> distinct as)"
proof -
  have st: "run D s {} True s" by (rule run_start [OF server_inv_store [OF inv] fresh D])
  show ?thesis
  proof (cases r)
    case (Req_open p fl)
    have "both (if is_flag_set fl O_CREATE then open_create fd p fl s else open_existing fd p fl s)
        (if is_flag_set fl O_CREATE then open_create fd p fl (settle D s) else open_existing fd p fl (settle D s))
        (\<lambda>(r, s') y. y = (r, settle D s') \<and> run D s {} False s')"
      by (rule both_if, rule swp_open_create [OF st], simp add: run_shrink, rule wp_open_existing [OF st], simp add: run_shrink)
    from plain_effect [OF this run [unfolded Req_open request_core.simps]] show ?thesis by blast
  next
    case (Req_close p)
    have "both (close_core fd p s) (close_core fd p (settle D s)) (\<lambda>(r, s') y. y = (r, settle D s') \<and> run D s {} False s')"
      by (rule wp_close_core [OF st]) (simp add: run_shrink)
    from plain_effect [OF this run [unfolded Req_close request_core.simps]] show ?thesis by blast
  next
    case (Req_remove p)
    have "both (remove_core fd p s) (remove_core fd p (settle D s)) (\<lambda>(r, s') y. y = (r, settle D s') \<and> run D s {} False s')"
      by (rule wp_remove_core [OF st]) (simp add: run_shrink)
    from plain_effect [OF this run [unfolded Req_remove request_core.simps]] show ?thesis by blast
  next
    case (Req_write p bs)
    have "both (write_core fd p (word_of_nat (length bs)) bs s) (write_core fd p (word_of_nat (length bs)) bs (settle D s))
        (\<lambda>(r, es, s') y. y = (r, es, settle D s') \<and> run D s (zeros es) False s')"
      by (rule swp_writes(1) [OF st]) simp
    from write_effect [OF this run [unfolded Req_write request_core.simps]] show ?thesis by blast
  next
    case (Req_append p bs)
    have "both (append_core fd p (word_of_nat (length bs)) bs s) (append_core fd p (word_of_nat (length bs)) bs (settle D s))
        (\<lambda>(r, es, s') y. y = (r, es, settle D s') \<and> run D s (zeros es) False s')"
      by (rule swp_writes(2) [OF st]) simp
    from write_effect [OF this run [unfolded Req_append request_core.simps]] show ?thesis by blast
  next
    case (Req_read p)
    obtain x y where x: "read_core fd p s = Ok (x, s')" "read_core fd p (settle D s) = Ok (y, q)"
      "k = (case x of Inl e \<Rightarrow> Done e | Inr a \<Rightarrow> Reply_file a)" "k' = (case y of Inl e \<Rightarrow> Done e | Inr a \<Rightarrow> Reply_file a)"
      using run Req_read by (auto simp: rbind_eq_Ok)
    from read_core_both [OF x(1,2)] x(3,4) effect_reading [OF _ fresh] show ?thesis by (cases x) auto
  next
    case (Req_read_n N)
    obtain x y where x: "read_n_core N s = Ok (x, s')" "read_n_core N (settle D s) = Ok (y, q)"
      "k = (case x of Inl e \<Rightarrow> Done e | Inr a \<Rightarrow> Reply_files a)" "k' = (case y of Inl e \<Rightarrow> Done e | Inr a \<Rightarrow> Reply_files a)"
      using run Req_read_n by (auto simp: rbind_eq_Ok)
    from read_n_core_both [OF inv x(1,2)] x(3,4) effect_reading [OF _ fresh] show ?thesis by auto
  qed
qed

section \<open>The second part\<close>

text \<open>A reply under way: it can go on to its end, the files it looks at are held, and each is given back once.\<close>

fun fine :: "task \<Rightarrow> server \<Rightarrow> bool" where
  "fine (Sending ms fl ok c) s \<longleftrightarrow>
     (\<exists>l c'. send_all ms c s = Ok (l, c') \<and> (l = -1 \<longrightarrow> fl = ok)) \<and> distinct ok \<and>
     looks ms \<subseteq> {a. Unlock a \<in> set ok} \<union> {a. Destroy a \<in> set ok}"
| "fine (Releasing xs r c) s \<longleftrightarrow> distinct xs"
| "fine _ s \<longleftrightarrow> True"

lemma settled_id: "(\<And>b. rd q b = 0) \<Longrightarrow> settle {} q = q"
proof -
  assume rd: "\<And>b. rd q b = 0"
  have "map_option no_readers (fheap q b) = fheap q b" for b
  proof (cases "fheap q b")
    case (Some f)
    then have "n_readers f = 0" using rd [of b] by (simp add: rd_def)
    then show ?thesis using Some by (cases f) simp
  qed simp
  then have "settle_heap {} (fheap q) = fheap q" by (simp add: settle_heap_def fun_eq_iff)
  then show ?thesis by (cases q) (simp add: settle_def)
qed

lemma unlock_run:
  assumes "file_reader_unlock a s = Ok s'"
  shows "settle D s' = settle D s" "rd s' = (rd s)(a := rd s a - 1)" "view s' = view s" "fnext s' = fnext s"
    "b \<noteq> a \<Longrightarrow> fheap s' b = fheap s b" "fheap s a \<noteq> None" "fheap s' b = None \<longleftrightarrow> fheap s b = None"
proof -
  obtain f where f: "fheap s a = Some f" "s' = put a (f\<lparr>n_readers := n_readers f - 1\<rparr>) s"
    using assms by (auto simp: file_reader_unlock_def upd_file_def deref_def put_def split: option.splits)
  show "settle D s' = settle D s"
    using f by (simp add: settle_def put_def settle_heap_def fun_eq_iff)
  show "rd s' = (rd s)(a := rd s a - 1)" "view s' = view s" "fnext s' = fnext s" "fheap s a \<noteq> None"
    "b \<noteq> a \<Longrightarrow> fheap s' b = fheap s b" "fheap s' b = None \<longleftrightarrow> fheap s b = None"
    using f by (auto simp: rd_def view_def fun_eq_iff)
qed

lemma unlock_all_run:
  assumes "reader_unlock_all as q = Ok q'" "distinct as"
  shows "settle {} q' = settle {} q \<and> (\<forall>b. rd q' b = (if b \<in> set as then rd q b - 1 else rd q b))"
  using assms
proof (induction as arbitrary: q)
  case (Cons a as)
  then obtain t where t: "file_reader_unlock a q = Ok t" "reader_unlock_all as t = Ok q'" by (auto simp: rbind_eq_Ok)
  from Cons.IH [OF t(2)] Cons.prems(2) unlock_run(1,2) [OF t(1)] show ?case by auto
qed simp

lemma delete_files_run:
  assumes "delete_files as q = Ok q'"
  shows "distinct as \<and> (\<forall>a \<in> set as. fheap q a \<noteq> None) \<and> q' = q\<lparr>fheap := (\<lambda>b. if b \<in> set as then None else fheap q b)\<rparr>"
  using assms
proof (induction as arbitrary: q)
  case (Cons a as)
  let ?t = "q\<lparr>fheap := (fheap q)(a := None)\<rparr>"
  have t: "fheap q a \<noteq> None" "delete_files as ?t = Ok q'"
    using Cons.prems by (auto simp: file_delete_def deref_def rbind_eq_Ok split: option.splits)
  from Cons.IH [OF t(2)] have "distinct as" "\<forall>b \<in> set as. fheap ?t b \<noteq> None"
    "q' = ?t\<lparr>fheap := (\<lambda>b. if b \<in> set as then None else fheap ?t b)\<rparr>" by auto
  then show ?case using t(1) by (auto simp: fun_eq_iff split: if_splits)
qed simp

lemma finish_settled:
  assumes eff: "core_effect D s s' q (locks t) (dying t)" and t: "t = begin_reply k c"
    and d: "\<And>as. k = Reply_files as \<Longrightarrow> distinct as" and ok: "\<And>a. k = Reply_file a \<Longrightarrow> res \<noteq> SA_ERROR"
    and fin: "finish t q = Ok (res, c', q')"
  shows "q' = settle (D \<union> dying t) s' \<and> said t s' = Ok (told res c') \<and> fine t s' \<and> dying t \<inter> D = {} \<and>
    (\<forall>a \<in> dying t. fheap s' a \<noteq> None)"
proof -
  have st: "settle {} q = settle D s'" and rd: "\<And>b. rd q b = (if b \<in> locks t then 1 else 0)"
    using eff by (auto simp: core_effect_def)
  have sent: "said (Sending ms fl xs c) s' = Ok (told (if l = -1 then SA_ERROR else SA_SUCCESS) c2)" "send_all ms c s' = Ok (l, c2)"
    if "send_all ms c q = Ok (l, c2)" for ms fl xs l c2
    using send_all_settled [OF that st] by simp_all
  have un: "q' = settle D s'" if "reader_unlock_all as q = Ok q'" "distinct as" "locks t = set as" for as
    using unlock_all_run [OF that(1,2)] rd that(3) settled_id [of q'] st by simp
  show ?thesis
  proof (cases k)
    case (Done r)
    then have "q' = q" "res = r" "c' = c" using fin t by auto
    then show ?thesis using Done t st rd settled_id [of q] by simp
  next
    case (Reply_file a)
    obtain l where l: "send_all [Code SA_SUCCESS, File a False] c q = Ok (l, c')" "l \<noteq> -1" "res = SA_SUCCESS"
      "reader_unlock_all [a] q = Ok q'"
      using fin t Reply_file ok by (auto simp: rbind_eq_Ok simp del: send_all.simps split: if_splits)
    show ?thesis using sent [OF l(1)] un [OF l(4)] l(2,3) t Reply_file by (simp del: send_all.simps)
  next
    case (Reply_files as)
    obtain l where l: "send_all (list_plan as) c q = Ok (l, c')" "res = (if l = -1 then SA_ERROR else SA_SUCCESS)"
      "reader_unlock_all as q = Ok q'"
      using fin t Reply_files by (auto simp: rbind_eq_Ok release_all_map)
    have "looks (list_plan as) = set as" by simp
    then show ?thesis using sent [OF l(1)] un [OF l(3)] l(2) t Reply_files d
      by (auto simp: distinct_map inj_on_def)
  next
    case (Reply_expelled as)
    obtain l where l: "send_all (list_plan as) c q = Ok (l, c')" "res = (if l = -1 then SA_ERROR else SA_SUCCESS)"
      "delete_files as q = Ok q'"
      using fin t Reply_expelled by (auto simp: rbind_eq_Ok release_all_map)
    have q: "q = settle D s'" using settled_id [of q] rd st t Reply_expelled by simp
    note del = delete_files_run [OF l(3)]
    have "q' = settle (D \<union> set as) s'"
      using del q by (auto simp: settle_def settle_heap_def fun_eq_iff)
    moreover have "set as \<inter> D = {}" "\<forall>a \<in> set as. fheap s' a \<noteq> None"
      using del q by (auto simp: settle_heap_def split: if_splits)
    ultimately show ?thesis using sent [OF l(1)] l(2) t Reply_expelled del
      by (auto simp: distinct_map inj_on_def)
  qed
qed

lemma read_no_error:
  assumes inv: "server_inv q" and p: "valid_path p" and rx: "rx c = path_msg p @ rest" and clk: "clock q = t1 # ts"
    and room: "12 + unat (cfg_max_space (config q)) \<le> room c" and run: "read_file fd c q = Ok (res, c', q')"
  shows "res \<noteq> SA_ERROR"
proof -
  have r: "4 + length (data_msg (file_data f)) \<le> room c" if "stored q p = Some f" for f
    using inv_size_le [OF inv that] room by (simp add: data_msg_def)
  from read_file_ok [OF inv p rx clk r, of fd] run show ?thesis by (auto split: option.splits if_splits)
qed

lemma reply_file_only: "request_core r fd s = Ok (Reply_file a, s') \<Longrightarrow> \<exists>p. r = Req_read p"
proof -
  have "(case x of Inl e \<Rightarrow> Done e | Inr as \<Rightarrow> Reply_files as) \<noteq> Reply_file a" for x by (cases x) simp_all
  moreover have "(case es of None \<Rightarrow> Done e | Some as \<Rightarrow> Reply_expelled as) \<noteq> Reply_file a" for e es by (cases es) simp_all
  ultimately show "request_core r fd s = Ok (Reply_file a, s') \<Longrightarrow> \<exists>p. r = Req_read p"
    by (cases r) (auto simp: rbind_eq_Ok)
qed

lemma core_step:
  assumes inv: "server_inv (settle D s)" and fresh: "\<And>b. fnext s \<le> b \<Longrightarrow> fheap s b = None"
    and D: "\<And>d. d \<in> D \<Longrightarrow> fheap s d \<noteq> None"
    and req: "client_fd fd" "request_ok r" "rx c = request_msg r @ rest" "clock s = t1 # t2 # ts" "can_reply r c s"
    and run: "request_core r fd s = Ok (k, s')" and t: "t = begin_reply k (c\<lparr>rx := rest\<rparr>)"
  shows "\<exists>code c' q. serve_request fd c (settle D s) = Ok (code, c', settle (D \<union> dying t) s') \<and>
    server_inv (settle (D \<union> dying t) s') \<and> said t s' = Ok (code, c') \<and> fine t s' \<and> dying t \<inter> D = {} \<and>
    (\<forall>a \<in> dying t. fheap s' a \<noteq> None) \<and> core_effect D s s' q (locks t) (dying t)"
proof -
  let ?q = "settle D s"
  have mem: "smem ?q = Ample" using inv by (auto simp: server_inv_def store_ok_def)
  have "can_reply r c ?q" using req(5) by (cases r) simp_all
  from serve_ok [OF inv req(1-3) _ this] req(4) obtain code c' q' where
    q': "serve_request fd c ?q = Ok (code, c', q')" "server_inv q'" by auto
  from q'(1) obtain k' q1 res c2 where
    q1: "request_core r fd ?q = Ok (k', q1)" "reply k' (c\<lparr>rx := rest\<rparr>) q1 = Ok (res, c2, q')" "told res c2 = (code, c')"
    unfolding serve_parts [OF req(2,3) mem] by (auto simp: rbind_eq_Ok case_prod_unfold prod_eq_iff)
  from request_effect [OF inv fresh D run q1(1), of "c\<lparr>rx := rest\<rparr>"]
  have eff: "k' = k" "core_effect D s s' q1 (locks t) (dying t)" and d: "\<And>as. k = Reply_files as \<Longrightarrow> distinct as"
    unfolding t by auto
  have ok: "res \<noteq> SA_ERROR" if k: "k = Reply_file a" for a
  proof -
    obtain p where p: "r = Req_read p" using run k reply_file_only by blast
    have "rx (c\<lparr>rx := request_args r @ rest\<rparr>) = request_args r @ rest" by simp
    from handler_parts [OF req(2) this mem handler_op] q1
    have "read_file fd (c\<lparr>rx := request_args r @ rest\<rparr>) ?q = Ok (res, c2, q')" using p by simp
    from read_no_error [OF inv _ _ _ _ this] req p show ?thesis by simp
  qed
  have "finish t q1 = Ok (res, c2, q')" using q1(2) eff(1) reply_finish t by simp
  from finish_settled [OF eff(2) t d ok this] q'(1,2) q1(3) eff(2) show ?thesis by (intro exI) auto
qed

section \<open>The system\<close>

text \<open>
  \<open>n\<close> workers and the main thread, which takes leave of clients. A worker without a reply under way may
  take any request that satisfies \<open>can_start\<close>: the connection \<open>c\<close> is that of the client at this moment, the clock gives
  the times \<open>ts\<close>, and of \<open>can_reply\<close> there are two conditions: the client of a \<open>READ_FILE\<close> can take the largest file, and all
  files are not asked of an empty store.
\<close>

definition at_rest :: "task \<Rightarrow> bool" where
  "at_rest t \<longleftrightarrow> (case t of Free \<Rightarrow> True | Finished code c \<Rightarrow> True | _ \<Rightarrow> False)"

definition can_start :: "int \<Rightarrow> conn \<Rightarrow> request \<Rightarrow> byte list \<Rightarrow> timespec list \<Rightarrow> server \<Rightarrow> bool" where
  "can_start fd c r rest ts s \<longleftrightarrow>
     client_fd fd \<and> request_ok r \<and> rx c = request_msg r @ rest \<and> 2 \<le> length ts \<and> can_reply r c s"

inductive overlap :: "nat \<Rightarrow> server \<Rightarrow> server \<Rightarrow> (nat \<Rightarrow> task) \<Rightarrow> bool" for n s0 where
  overlap_init: "overlap n s0 s0 (\<lambda>_. Free)"
| overlap_core: "overlap n s0 s W \<Longrightarrow> i < n \<Longrightarrow> at_rest (W i) \<Longrightarrow> can_start fd c r rest ts s \<Longrightarrow>
    request_core r fd (s\<lparr>clock := ts\<rparr>) = Ok (k, s') \<Longrightarrow> overlap n s0 s' (W(i := begin_reply k (c\<lparr>rx := rest\<rparr>)))"
| overlap_reply: "overlap n s0 s W \<Longrightarrow> i < n \<Longrightarrow> task_step (W i) s = Ok (t, s') \<Longrightarrow> overlap n s0 s' (W(i := t))"
| overlap_leave: "overlap n s0 s W \<Longrightarrow> client_fd fd \<Longrightarrow> close_client fd s = Ok s' \<Longrightarrow> overlap n s0 s' W"

text \<open>The same with every request in one step: \<open>P\<close> is what each worker told its client last.\<close>

inductive one_step :: "nat \<Rightarrow> server \<Rightarrow> server \<Rightarrow> (nat \<Rightarrow> (worker_code_t \<times> conn) option) \<Rightarrow> bool" for n s0 where
  one_step_init: "one_step n s0 s0 (\<lambda>_. None)"
| one_step_serve: "one_step n s0 q P \<Longrightarrow> i < n \<Longrightarrow> can_start fd c r rest ts q \<Longrightarrow>
    serve_request fd c (q\<lparr>clock := ts\<rparr>) = Ok (code, c', q') \<Longrightarrow> one_step n s0 q' (P(i \<mapsto> (code, c')))"
| one_step_leave: "one_step n s0 q P \<Longrightarrow> client_fd fd \<Longrightarrow> close_client fd q = Ok q' \<Longrightarrow> one_step n s0 q' P"

definition all_dying :: "nat \<Rightarrow> (nat \<Rightarrow> task) \<Rightarrow> nat set" where
  "all_dying n W = (\<Union>i < n. dying (W i))"

definition holders :: "nat \<Rightarrow> (nat \<Rightarrow> task) \<Rightarrow> nat \<Rightarrow> nat set" where
  "holders n W b = {i. i < n \<and> b \<in> locks (W i)}"

definition overlap_inv :: "nat \<Rightarrow> server \<Rightarrow> (nat \<Rightarrow> task) \<Rightarrow> bool" where
  "overlap_inv n s W \<longleftrightarrow>
     server_inv (settle (all_dying n W) s) \<and> (\<forall>i < n. fine (W i) s) \<and>
     (\<forall>i < n. \<forall>j < n. i \<noteq> j \<longrightarrow> dying (W i) \<inter> dying (W j) = {}) \<and>
     (\<forall>a \<in> all_dying n W. fheap s a \<noteq> None \<and> rd s a = 0) \<and>
     (\<forall>b. rd s b = of_nat (card (holders n W b))) \<and> (\<forall>b. fnext s \<le> b \<longrightarrow> fheap s b = None)"

subsection \<open>The invariant\<close>

lemma dying_held: "overlap_inv n s W \<Longrightarrow> a \<in> all_dying n W \<Longrightarrow> fheap s a \<noteq> None \<and> rd s a = 0"
  unfolding overlap_inv_def by blast

lemma rest_pending: "at_rest t \<Longrightarrow> locks t = {}" "at_rest t \<Longrightarrow> dying t = {}"
  by (auto simp: at_rest_def locks_def dying_def split: task.splits)

lemma fine_view:
  assumes "fine t s" "\<And>a. a \<in> locks t \<union> dying t \<Longrightarrow> view s' a = view s a"
  shows "fine t s' \<and> said t s' = said t s"
proof (cases t)
  case (Sending ms fl ok c)
  then have "looks ms \<subseteq> locks t \<union> dying t" using assms(1) by (simp add: locks_def dying_def)
  then have "send_all ms c s' = send_all ms c s" using assms(2) by (intro send_all_view) auto
  then show ?thesis using assms(1) Sending by simp
qed (use assms(1) in auto)

lemma card_holders:
  assumes "n < 2 ^ 32"
  shows "(of_nat (card (holders n W b)) :: u32) \<noteq> 0 \<longleftrightarrow> (\<exists>i < n. b \<in> locks (W i))"
proof -
  have sub: "holders n W b \<subseteq> {..<n}" by (auto simp: holders_def)
  then have fin: "finite (holders n W b)" by (rule finite_subset) simp
  have "card (holders n W b) \<le> n" using card_mono [OF _ sub] by simp
  then have "unat (of_nat (card (holders n W b)) :: u32) = card (holders n W b)"
    using assms by (simp add: unsigned_of_nat take_bit_nat_eq_self)
  then have "(of_nat (card (holders n W b)) :: u32) \<noteq> 0 \<longleftrightarrow> card (holders n W b) \<noteq> 0" by (metis unat_eq_zero)
  then show ?thesis using fin by (auto simp: holders_def card_eq_0_iff)
qed

lemma holders_add:
  assumes "i < n" "locks (W i) = {}"
  shows "card (holders n (W(i := t)) b) = card (holders n W b) + (if b \<in> locks t then 1 else 0)"
proof -
  have "holders n (W(i := t)) b = (if b \<in> locks t then insert i (holders n W b) else holders n W b)" "i \<notin> holders n W b"
    using assms by (auto simp: holders_def split: if_splits)
  moreover have "finite (holders n W b)" by (rule finite_subset [of _ "{..<n}"]) (auto simp: holders_def)
  ultimately show ?thesis by simp
qed

lemma all_dying_upd: "i < n \<Longrightarrow> all_dying n (W(i := t)) = dying t \<union> (\<Union>j \<in> {..<n} - {i}. dying (W j))"
  by (auto simp: all_dying_def split: if_splits)

lemma effect_others:
  assumes inv: "overlap_inv n s W" and n: "n < 2 ^ 32" and eff: "core_effect (all_dying n W) s s' q L E" and j: "j < n"
  shows "fine (W j) s' \<and> said (W j) s' = said (W j) s"
proof (rule fine_view)
  show "fine (W j) s" using inv j by (simp add: overlap_inv_def)
  fix a assume a: "a \<in> locks (W j) \<union> dying (W j)"
  show "view s' a = view s a"
  proof (cases "a \<in> dying (W j)")
    case True
    then have "a \<in> all_dying n W" using j by (auto simp: all_dying_def)
    then show ?thesis using eff by (simp add: core_effect_def view_def)
  next
    case False
    then have "rd s a \<noteq> 0" using inv a j card_holders [OF n, of W a] by (auto simp: overlap_inv_def)
    then show ?thesis using eff by (simp add: core_effect_def)
  qed
qed

lemma core_keeps_inv:
  assumes inv: "overlap_inv n s W" and n: "n < 2 ^ 32" and i: "i < n" "at_rest (W i)"
    and eff: "core_effect (all_dying n W) s s' q (locks t) (dying t)"
    and t: "server_inv (settle (all_dying n W \<union> dying t) s')" "fine t s'" "dying t \<inter> all_dying n W = {}"
      "\<And>a. a \<in> dying t \<Longrightarrow> fheap s' a \<noteq> None"
  shows "overlap_inv n s' (W(i := t))" "all_dying n (W(i := t)) = all_dying n W \<union> dying t"
proof -
  have rest: "locks (W i) = {}" "dying (W i) = {}" using rest_pending [OF i(2)] by auto
  show D: "all_dying n (W(i := t)) = all_dying n W \<union> dying t"
    unfolding all_dying_upd [OF i(1)] using rest(2) by (auto simp: all_dying_def)
  have "\<forall>j < n. fine ((W(i := t)) j) s'" using effect_others [OF inv n eff] t(2) by simp
  moreover have "dying ((W(i := t)) j) \<inter> dying ((W(i := t)) l) = {}" if "j < n" "l < n" "j \<noteq> l" for j l
  proof -
    have "dying t \<inter> dying (W m) = {}" if "m < n" for m using t(3) that by (auto simp: all_dying_def)
    then show ?thesis using inv that by (auto simp: overlap_inv_def)
  qed
  moreover have "fheap s' a \<noteq> None \<and> rd s' a = 0" if "a \<in> all_dying n W \<union> dying t" for a
  proof (cases "a \<in> all_dying n W")
    case True
    then have "fheap s' a = fheap s a" using eff by (simp add: core_effect_def)
    then have "rd s' a = rd s a" "fheap s' a = fheap s a" by (simp_all add: rd_def)
    moreover have "fheap s a \<noteq> None \<and> rd s a = 0" by (rule dying_held [OF inv True])
    ultimately show ?thesis by simp
  next
    case False
    then show ?thesis using that eff t(4) by (auto simp: core_effect_def)
  qed
  moreover have "rd s' b = of_nat (card (holders n (W(i := t)) b))" for b
    using eff inv holders_add [of i n W t b, OF i(1) rest(1)] by (simp add: core_effect_def overlap_inv_def)
  ultimately show "overlap_inv n s' (W(i := t))"
    using t(1) eff unfolding overlap_inv_def D by (simp add: core_effect_def)
qed

lemma quiet_task_step:
  assumes "fine t s" "task_step t s = Ok (t', s')" "\<nexists>x xs r c. t = Releasing (x # xs) r c"
  shows "s' = s \<and> pending t' = pending t \<and> fine t' s"
proof (cases t)
  case (Sending ms fl ok c)
  show ?thesis
  proof (cases ms)
    case (Cons m ms')
    obtain l c1 where m: "send_msg m c s = Ok (l, c1)" using assms(2) Sending Cons by (auto simp: rbind_eq_Ok)
    have "looks ms' \<subseteq> looks ms" unfolding Cons by (auto simp: looks_def)
    then show ?thesis using assms(1,2) Sending Cons m by (auto split: if_splits)
  qed (use assms Sending in auto)
next
  case (Releasing xs r c)
  then show ?thesis using assms by (cases xs) (auto split: prod.splits)
qed (use assms in auto)

lemma pending_eq: "pending t' = pending t \<Longrightarrow> locks t' = locks t \<and> dying t' = dying t"
  by (simp add: locks_def dying_def)

lemma same_pending_inv:
  assumes inv: "overlap_inv n s W" and t: "pending t = pending (W i)" "fine t s"
  shows "overlap_inv n s (W(i := t)) \<and> all_dying n (W(i := t)) = all_dying n W"
proof -
  have lk: "locks ((W(i := t)) j) = locks (W j)" "dying ((W(i := t)) j) = dying (W j)" for j
    using pending_eq [OF t(1)] by auto
  then have D: "all_dying n (W(i := t)) = all_dying n W" "holders n (W(i := t)) = holders n W"
    by (simp_all add: all_dying_def holders_def fun_eq_iff del: fun_upd_apply)
  have "\<forall>j < n. fine ((W(i := t)) j) s" using inv t(2) by (simp add: overlap_inv_def)
  then show ?thesis using inv unfolding overlap_inv_def D lk by blast
qed

lemma unlock_keeps_inv:
  assumes inv: "overlap_inv n s W" and n: "n < 2 ^ 32" and i: "i < n" "W i = Releasing (Unlock a # xs) r c"
    and u: "file_reader_unlock a s = Ok s'"
  shows "overlap_inv n s' (W(i := Releasing xs r c)) \<and> all_dying n (W(i := Releasing xs r c)) = all_dying n W"
proof -
  let ?W = "W(i := Releasing xs r c)"
  note un = unlock_run [OF u]
  have "fine (W i) s" using inv i(1) by (simp add: overlap_inv_def)
  then have xs: "distinct xs" "Unlock a \<notin> set xs" using i(2) by auto
  have dy: "dying (?W j) = dying (W j)" for j using i(2) by (simp add: dying_def)
  then have D: "all_dying n ?W = all_dying n W" by (simp add: all_dying_def)
  have a: "i \<in> holders n W a" using i by (simp add: holders_def locks_def)
  have "locks (W i) = insert a (locks (?W i))" "a \<notin> locks (?W i)" using i(2) xs by (auto simp: locks_def)
  then have h: "holders n ?W b = (if b = a then holders n W b - {i} else holders n W b)" for b
    by (auto simp: holders_def split: if_splits)
  have fin: "finite (holders n W a)" by (rule finite_subset [of _ "{..<n}"]) (auto simp: holders_def)
  have "card (holders n W a) = Suc (card (holders n W a - {i}))" using card_Suc_Diff1 [OF fin a] by simp
  then have rd: "rd s' b = of_nat (card (holders n ?W b))" for b
    using inv un(2) by (auto simp: overlap_inv_def h)
  have "rd s a \<noteq> 0" using inv card_holders [OF n, of W a] i by (force simp: overlap_inv_def locks_def)
  then have dead: "fheap s' b \<noteq> None \<and> rd s' b = 0" if "b \<in> all_dying n W" for b
    using dying_held [OF inv that] un(2,7) by (cases "b = a") auto
  have "fine (?W j) s'" if "j < n" for j
    using fine_view [of "W j" s s'] inv that un(3) xs(1) by (simp add: overlap_inv_def)
  then have "overlap_inv n s' ?W"
    using inv rd dead un(1,4,7) unfolding overlap_inv_def D dy by auto
  then show ?thesis using D by blast
qed

lemma destroy_keeps_inv:
  assumes inv: "overlap_inv n s W" and n: "n < 2 ^ 32" and i: "i < n" "W i = Releasing (Destroy a # xs) r c"
  defines "s' \<equiv> s\<lparr>fheap := (fheap s)(a := None)\<rparr>"
  shows "overlap_inv n s' (W(i := Releasing xs r c)) \<and>
    settle (all_dying n (W(i := Releasing xs r c))) s' = settle (all_dying n W) s \<and>
    (\<forall>j < n. j \<noteq> i \<longrightarrow> said (W j) s' = said (W j) s)"
proof -
  let ?W = "W(i := Releasing xs r c)"
  have "fine (W i) s" using inv i(1) by (simp add: overlap_inv_def)
  then have xs: "distinct xs" "Destroy a \<notin> set xs" using i(2) by auto
  have dy: "dying (W i) = insert a (dying (?W i))" "a \<notin> dying (?W i)" using i(2) xs by (auto simp: dying_def)
  have lk: "locks (?W j) = locks (W j)" for j using i(2) by (simp add: locks_def)
  then have H: "holders n ?W = holders n W" by (simp add: holders_def fun_eq_iff)
  have disj: "dying (W j) \<inter> dying (W l) = {}" if "j < n" "l < n" "j \<noteq> l" for j l
    using inv that by (simp add: overlap_inv_def)
  have aj: "a \<notin> dying (?W j)" if "j < n" for j
    using disj [OF that i(1)] dy by (cases "j = i") auto
  have sub: "dying (?W j) \<subseteq> dying (W j)" for j using dy by auto
  have "all_dying n W = insert a (all_dying n ?W)"
    using all_dying_upd [OF i(1), of W "W i"] all_dying_upd [OF i(1), of W "Releasing xs r c"] dy(1) by simp
  moreover have "a \<notin> all_dying n ?W" unfolding all_dying_def using aj by blast
  ultimately have D: "all_dying n W = insert a (all_dying n ?W)" "a \<notin> all_dying n ?W" by blast+
  have ra: "rd s a = 0" using dying_held [OF inv] D(1) by blast
  then have rd: "rd s' = rd s" by (auto simp: s'_def rd_def fun_eq_iff)
  have st: "settle (all_dying n ?W) s' = settle (all_dying n W) s"
    using D by (auto simp: s'_def settle_def settle_heap_def fun_eq_iff)
  have oth: "fine (W j) s' \<and> said (W j) s' = said (W j) s" if "j < n" "j \<noteq> i" for j
  proof (rule fine_view)
    show "fine (W j) s" using inv that by (simp add: overlap_inv_def)
    fix b assume b: "b \<in> locks (W j) \<union> dying (W j)"
    have "a \<notin> dying (W j)" using aj [OF that(1)] that by simp
    moreover have "a \<notin> locks (W j)"
      using inv ra that card_holders [OF n, of W a] by (auto simp: overlap_inv_def)
    ultimately have "b \<noteq> a" using b by auto
    then show "view s' b = view s b" by (simp add: s'_def view_def)
  qed
  have "fine (?W j) s'" if "j < n" for j using oth that xs(1) by simp
  moreover have "dying (?W j) \<inter> dying (?W l) = {}" if "j < n" "l < n" "j \<noteq> l" for j l
    using disj [OF that] sub by blast
  moreover have "fheap s' b \<noteq> None \<and> rd s' b = 0" if "b \<in> all_dying n ?W" for b
    using dying_held [OF inv, of b] that D unfolding rd by (auto simp: s'_def)
  ultimately have "overlap_inv n s' ?W"
    using inv unfolding overlap_inv_def st rd H by (simp_all only: s'_def) auto
  then show ?thesis using st oth by blast
qed

lemma reply_keeps_inv:
  assumes inv: "overlap_inv n s W" and n: "n < 2 ^ 32" and i: "i < n" and step: "task_step (W i) s = Ok (t, s')"
  shows "overlap_inv n s' (W(i := t)) \<and> settle (all_dying n (W(i := t))) s' = settle (all_dying n W) s \<and>
    (\<forall>j < n. said ((W(i := t)) j) s' = said (W j) s)"
proof (cases "\<exists>x xs r c. W i = Releasing (x # xs) r c")
  case False
  have "fine (W i) s" using inv i by (simp add: overlap_inv_def)
  from quiet_task_step [OF this step] False have q: "s' = s" "pending t = pending (W i)" "fine t s" by auto
  from same_pending_inv [OF inv q(2,3)] q(1) said_step [OF step] show ?thesis by simp
next
  case True
  then obtain x xs r c where w: "W i = Releasing (x # xs) r c" by blast
  show ?thesis
  proof (cases x)
    case (Unlock a)
    have u: "file_reader_unlock a s = Ok s'" "t = Releasing xs r c" using step w Unlock by (auto simp: rbind_eq_Ok)
    have "said (W j) s' = said (W j) s" for j
      by (rule said_view) (simp add: unlock_run(3) [OF u(1)])
    with unlock_keeps_inv [OF inv n i w [unfolded Unlock] u(1)] unlock_run(1) [OF u(1)] u(2) w show ?thesis by simp
  next
    case (Destroy a)
    have "t = Releasing xs r c" "s' = s\<lparr>fheap := (fheap s)(a := None)\<rparr>"
      using step w Destroy by (auto simp: rbind_eq_Ok file_delete_def)
    with destroy_keeps_inv [OF inv n i w [unfolded Destroy]] w show ?thesis by auto
  qed
qed

lemma leave_keeps_inv:
  assumes inv: "overlap_inv n s W" and n: "n < 2 ^ 32" and fd: "client_fd fd" and run: "close_client fd s = Ok s'"
  shows "overlap_inv n s' W \<and> close_client fd (settle (all_dying n W) s) = Ok (settle (all_dying n W) s') \<and>
    (\<forall>j < n. said (W j) s' = said (W j) s)"
proof -
  let ?D = "all_dying n W"
  have si: "server_inv (settle ?D s)" and fresh: "\<And>b. fnext s \<le> b \<Longrightarrow> fheap s b = None"
    using inv by (auto simp: overlap_inv_def)
  have "run ?D s {} True s"
    by (rule run_start [OF server_inv_store [OF si] fresh]) (use dying_held [OF inv] in auto)
  from both_mono [OF wp_close_client [OF this]] have
    b: "both (close_client fd s) (close_client fd (settle ?D s)) (\<lambda>s' y. y = settle ?D s' \<and> run ?D s {} False s')"
    by (auto intro: wp_close_client [OF \<open>run ?D s {} True s\<close>])
  obtain q where q: "close_client fd (settle ?D s) = Ok q" "server_inv q" using close_client_ok [OF si fd] by blast
  from bothD [OF b run q(1)] have q': "q = settle ?D s'" "run ?D s {} False s'" by auto
  have eff: "core_effect ?D s s' q {} {}" using effect_run [OF q'(2)] q'(1) by simp
  note oth = effect_others [OF inv n eff]
  have "fheap s' a \<noteq> None \<and> rd s' a = 0" if "a \<in> ?D" for a
  proof -
    have "fheap s' a = fheap s a" using eff that by (simp add: core_effect_def)
    then show ?thesis using dying_held [OF inv that] by (simp add: rd_def)
  qed
  then have "overlap_inv n s' W"
    using inv q(2) oth eff unfolding overlap_inv_def q'(1) core_effect_def by simp
  with q q' oth show ?thesis by simp
qed

lemma can_start_settle:
  assumes "can_start fd c r rest ts s"
  obtains t1 t2 ts' where "client_fd fd" "request_ok r" "rx c = request_msg r @ rest" "ts = t1 # t2 # ts'"
    "can_reply r c s" "can_start fd c r rest ts (settle D s)"
proof -
  have "can_reply r c (settle D s) = can_reply r c s" by (cases r) simp_all
  then show ?thesis using assms that by (auto simp: can_start_def numeral_2_eq_2 Suc_le_length_iff)
qed

lemma start_keeps_inv:
  assumes inv: "overlap_inv n s W" and n: "n < 2 ^ 32" and i: "i < n" "at_rest (W i)" and st: "can_start fd c r rest ts s"
    and run: "request_core r fd (s\<lparr>clock := ts\<rparr>) = Ok (k, s')" and t: "t = begin_reply k (c\<lparr>rx := rest\<rparr>)"
  shows "\<exists>code c'. overlap_inv n s' (W(i := t)) \<and> said t s' = Ok (code, c') \<and> (\<forall>j < n. j \<noteq> i \<longrightarrow> said (W j) s' = said (W j) s) \<and>
    serve_request fd c ((settle (all_dying n W) s)\<lparr>clock := ts\<rparr>) = Ok (code, c', settle (all_dying n (W(i := t))) s')"
proof -
  let ?s = "s\<lparr>clock := ts\<rparr>" and ?D = "all_dying n W"
  obtain t1 t2 ts' where st': "client_fd fd" "request_ok r" "rx c = request_msg r @ rest" "ts = t1 # t2 # ts'" "can_reply r c s"
    using can_start_settle [OF st] by metis
  have same: "fine t0 ?s = fine t0 s" "said t0 ?s = said t0 s" for t0
    using fine_view [of t0 s ?s] fine_view [of t0 ?s s] said_view [of t0 ?s s] by auto
  have fields: "server_inv (settle ?D ?s) = server_inv (settle ?D s)" "fheap ?s = fheap s" "fnext ?s = fnext s"
    using set_clock(1) [where s = "settle ?D s" and ts = ts] by simp_all
  have inv': "overlap_inv n ?s W" using inv unfolding overlap_inv_def fields same same_upd .
  have si: "server_inv (settle ?D ?s)" and fresh: "\<And>b. fnext ?s \<le> b \<Longrightarrow> fheap ?s b = None"
    using inv' by (auto simp: overlap_inv_def)
  have D: "fheap ?s d \<noteq> None" if "d \<in> ?D" for d using dying_held [OF inv' that] by blast
  from core_step [OF si fresh D st'(1-3) _ _ run t] st'(4,5) obtain code c' q where
    core: "serve_request fd c (settle ?D ?s) = Ok (code, c', settle (?D \<union> dying t) s')"
      "server_inv (settle (?D \<union> dying t) s')" "said t s' = Ok (code, c')" "fine t s'" "dying t \<inter> ?D = {}"
      "\<And>a. a \<in> dying t \<Longrightarrow> fheap s' a \<noteq> None" "core_effect ?D ?s s' q (locks t) (dying t)" by auto
  note keep = core_keeps_inv [OF inv' n i core(7,2,4,5,6)]
  show ?thesis
    using keep core(1,3) effect_others [OF inv' n core(7)] same(2) by (intro exI [of _ code] exI [of _ c']) simp
qed

text \<open>The simulation: every state of the overlapping requests settles to one of the requests in one step.\<close>

lemma overlap_sim:
  assumes "overlap n s0 s W" "n < 2 ^ 32" "server_inv s0" "\<And>b. rd s0 b = 0" "\<And>b. fnext s0 \<le> b \<Longrightarrow> fheap s0 b = None"
  shows "\<exists>P. one_step n s0 (settle (all_dying n W) s) P \<and> overlap_inv n s W \<and>
    (\<forall>i < n. case P i of None \<Rightarrow> W i = Free | Some x \<Rightarrow> said (W i) s = Ok x)"
  using assms(1)
proof (induction rule: overlap.induct)
  case overlap_init
  have D: "all_dying n (\<lambda>_. Free) = {}" "holders n (\<lambda>_. Free) b = {}" for b
    by (simp_all add: all_dying_def dying_def holders_def locks_def)
  have "settle {} s0 = s0" by (rule settled_id) (rule assms(4))
  then show ?case using one_step_init [of n s0] assms
    by (intro exI [of _ "\<lambda>_. None"]) (simp add: D overlap_inv_def dying_def)
next
  case (overlap_core s W i fd c r rest ts k s')
  then obtain P where P: "one_step n s0 (settle (all_dying n W) s) P" "overlap_inv n s W"
    "\<forall>i < n. case P i of None \<Rightarrow> W i = Free | Some x \<Rightarrow> said (W i) s = Ok x" by blast
  let ?t = "begin_reply k (c\<lparr>rx := rest\<rparr>)"
  from start_keeps_inv [OF P(2) assms(2) overlap_core.hyps(2-5) refl] obtain code c' where
    s: "overlap_inv n s' (W(i := ?t))" "said ?t s' = Ok (code, c')" "\<forall>j < n. j \<noteq> i \<longrightarrow> said (W j) s' = said (W j) s"
      "serve_request fd c ((settle (all_dying n W) s)\<lparr>clock := ts\<rparr>) = Ok (code, c', settle (all_dying n (W(i := ?t))) s')"
    by blast
  have "can_start fd c r rest ts (settle (all_dying n W) s)" by (rule can_start_settle [OF overlap_core.hyps(4)])
  note q = one_step_serve [OF P(1) overlap_core.hyps(2) this s(4)]
  have "\<forall>j < n. case (P(i \<mapsto> (code, c'))) j of None \<Rightarrow> (W(i := ?t)) j = Free | Some x \<Rightarrow> said ((W(i := ?t)) j) s' = Ok x"
    using s(2,3) P(3) by (auto split: option.splits)
  with q s(1) show ?case by blast
next
  case (overlap_reply s W i t s')
  then obtain P where P: "one_step n s0 (settle (all_dying n W) s) P" "overlap_inv n s W"
    "\<forall>i < n. case P i of None \<Rightarrow> W i = Free | Some x \<Rightarrow> said (W i) s = Ok x" by blast
  note k = reply_keeps_inv [OF P(2) assms(2) overlap_reply.hyps(2,3)]
  have "t = Free" if "P i = None" using P(3) overlap_reply.hyps(2,3) that by auto
  then have "\<forall>j < n. case P j of None \<Rightarrow> (W(i := t)) j = Free | Some x \<Rightarrow> said ((W(i := t)) j) s' = Ok x"
    using k P(3) by (auto split: option.splits)
  then show ?case using k P(1) by (intro exI [of _ P]) (simp del: fun_upd_apply)
next
  case (overlap_leave s W fd s')
  then obtain P where P: "one_step n s0 (settle (all_dying n W) s) P" "overlap_inv n s W"
    "\<forall>i < n. case P i of None \<Rightarrow> W i = Free | Some x \<Rightarrow> said (W i) s = Ok x" by blast
  note k = leave_keeps_inv [OF P(2) assms(2) overlap_leave.hyps(2,3)]
  from one_step_leave [OF P(1) overlap_leave.hyps(2)] k P show ?case
    by (intro exI [of _ P]) (auto split: option.splits)
qed

subsection \<open>Properties\<close>

text \<open>How many steps a reply has left at most.\<close>

fun left :: "task \<Rightarrow> nat" where
  "left (Sending ms fl ok c) = length ms + length fl + length ok + 2"
| "left (Releasing xs r c) = length xs + 1"
| "left _ = 0"

lemma reply_goes_on:
  assumes inv: "overlap_inv n s W" and n: "n < 2 ^ 32" and i: "i < n" "\<not> at_rest (W i)"
  shows "\<exists>t s'. task_step (W i) s = Ok (t, s') \<and> left t < left (W i)"
proof -
  have f: "fine (W i) s" using inv i(1) by (simp add: overlap_inv_def)
  show ?thesis
  proof (cases "W i")
    case (Sending ms fl ok c)
    show ?thesis
    proof (cases ms)
      case (Cons m ms')
      then obtain l c1 where "send_msg m c s = Ok (l, c1)" using f Sending by (auto simp: rbind_eq_Ok)
      then show ?thesis using Sending Cons by simp
    qed (use Sending in simp)
  next
    case (Releasing xs r c)
    show ?thesis
    proof (cases xs)
      case Nil
      then show ?thesis using Releasing by (simp split: prod.splits)
    next
      case (Cons x xs')
      have "\<exists>s'. give_back x s = Ok s'"
      proof (cases x)
        case (Unlock a)
        then have "a \<in> locks (W i)" using Releasing Cons by (simp add: locks_def)
        then have "rd s a \<noteq> 0" using inv card_holders [OF n, of W a] i(1) by (auto simp: overlap_inv_def)
        then have "fheap s a \<noteq> None" by (cases "fheap s a") (simp_all add: rd_def)
        then show ?thesis using Unlock by (auto simp: file_reader_unlock_def upd_file_def deref_def)
      next
        case (Destroy a)
        then have "a \<in> dying (W i)" using Releasing Cons by (simp add: dying_def)
        then have "a \<in> all_dying n W" using i(1) unfolding all_dying_def by blast
        then obtain f where "fheap s a = Some f" using dying_held [OF inv, of a] by auto
        then show ?thesis using Destroy by (simp add: file_delete_def deref_def)
      qed
      then show ?thesis using Releasing Cons by auto
    qed
  qed (use i(2) in \<open>simp_all add: at_rest_def\<close>)
qed

lemma rest_settled:
  assumes inv: "overlap_inv n s W" and rest: "\<And>i. i < n \<Longrightarrow> pending (W i) = []"
  shows "settle (all_dying n W) s = s"
proof -
  have "all_dying n W = {}" "holders n W b = {}" for b
    using rest by (auto simp: all_dying_def holders_def locks_def dying_def)
  then show ?thesis using inv settled_id [of s] by (simp add: overlap_inv_def)
qed

lemma rest_pending_nil: "at_rest t \<Longrightarrow> pending t = []"
  by (cases t) (simp_all add: at_rest_def)

lemma core_runs:
  assumes inv: "overlap_inv n s W" and rest: "\<And>i. i < n \<Longrightarrow> pending (W i) = []" and st: "can_start fd c r rest' ts s"
  shows "\<exists>k s'. request_core r fd (s\<lparr>clock := ts\<rparr>) = Ok (k, s')"
proof -
  have "settle (all_dying n W) s = s" by (rule rest_settled [OF inv rest])
  then have inv': "server_inv (s\<lparr>clock := ts\<rparr>)" using inv by (simp add: overlap_inv_def)
  obtain t1 t2 ts2 where st': "client_fd fd" "request_ok r" "rx c = request_msg r @ rest'" "ts = t1 # t2 # ts2" "can_reply r c s"
    using can_start_settle [OF st] by metis
  have mem: "smem (s\<lparr>clock := ts\<rparr>) = Ample" using inv' by (auto simp: server_inv_def store_ok_def)
  from serve_ok [OF inv' st'(1-3)] st'(4,5) obtain x where "serve_request fd c (s\<lparr>clock := ts\<rparr>) = Ok x" by auto
  then show ?thesis unfolding serve_parts [OF st'(2,3) mem] by (auto simp: rbind_eq_Ok)
qed

lemma init_quiet:
  assumes "server_init cfg ts Ample = Some s0"
  shows "rd s0 b = 0" "fheap s0 b = None"
  using assms by (auto simp: server_init_def rd_def split: prod.splits sum.splits)

lemma started_sim:
  assumes "overlap n s0 s W" "n < 2 ^ 32" "server_init cfg ts Ample = Some s0" "config_ok cfg"
  obtains P where "one_step n s0 (settle (all_dying n W) s) P" "overlap_inv n s W"
    "\<And>i. i < n \<Longrightarrow> case P i of None \<Rightarrow> W i = Free | Some x \<Rightarrow> said (W i) s = Ok x"
  using overlap_sim [OF assms(1,2) server_init_inv(1) [OF assms(3,4)] init_quiet [OF assms(3)]] by blast

text \<open>C2: requests that overlap behave as if each were served in one step. Whatever the workers interleave,
  replies that run without the mutex and clients that leave included, there is a run of the requests in single
  steps that leads to the store without the replies under way, and that told every client what his worker
  tells him, to the last byte; when no reply holds anything the stores are the same.\<close>

theorem overlap_linear:
  assumes "overlap n s0 s W" "n < 2 ^ 32" "server_init cfg ts Ample = Some s0" "config_ok cfg"
  shows "\<exists>P. one_step n s0 (settle (all_dying n W) s) P \<and>
    (\<forall>i < n. \<forall>code c. W i = Finished code c \<longrightarrow> P i = Some (code, c)) \<and>
    ((\<forall>i < n. pending (W i) = []) \<longrightarrow> settle (all_dying n W) s = s)"
proof -
  obtain P where P: "one_step n s0 (settle (all_dying n W) s) P" "overlap_inv n s W"
    "\<And>i. i < n \<Longrightarrow> case P i of None \<Rightarrow> W i = Free | Some x \<Rightarrow> said (W i) s = Ok x"
    using started_sim [OF assms] by blast
  have "P i = Some (code, c)" if "i < n" "W i = Finished code c" for i code c
    using P(3) [OF that(1)] that(2) by (auto split: option.splits)
  then show ?thesis using P(1) rest_settled [OF P(2)] by blast
qed

text \<open>C18: no reply is ever stuck or reads, unlocks or destroys a file that is gone: whatever the others do in
  between, every step of it succeeds, and it ends after the steps it has left; and when no reply
  holds a file every request that can start goes through, so no lock stays behind that it would wait for. The
  requests, here and in the runs that lead to this state, are the well-formed ones with two exceptions
  (\<open>can_start\<close>): a \<open>READ_FILE\<close> of a client whose connection may break within the reply, which leaves a lock
  (C37), and a \<open>READ_N_FILES\<close> for all the files of an empty store, which is undefined behaviour.\<close>

theorem overlap_live:
  assumes "overlap n s0 s W" "n < 2 ^ 32" "server_init cfg ts Ample = Some s0" "config_ok cfg"
    and "can_start fd c r rest ts' s"
  shows "(\<forall>i < n. \<not> at_rest (W i) \<longrightarrow> (\<exists>t s'. task_step (W i) s = Ok (t, s') \<and> left t < left (W i))) \<and>
    ((\<forall>i < n. pending (W i) = []) \<longrightarrow> (\<exists>k s'. request_core r fd (s\<lparr>clock := ts'\<rparr>) = Ok (k, s')))"
proof -
  obtain P where P: "overlap_inv n s W" using started_sim [OF assms(1-4)] by blast
  show ?thesis using reply_goes_on [OF P assms(2)] core_runs [OF P _ assms(5)] by blast
qed

text \<open>Two workers with their replies under way at the same time.\<close>

definition demo_open :: "path \<Rightarrow> conn" where
  "demo_open p = demo_conn (request_msg (Req_open p 3) @ [])"

lemma demo_can_start:
  assumes "valid_path p"
  shows "can_start 4 (demo_open p) (Req_open p 3) [] [Timespec 1 0, Timespec 2 0] s"
  using assms by (simp add: can_start_def demo_open_def client_fd_def demo_conn_def)

lemma open_done: "request_core (Req_open p fl) fd s = Ok (k, s') \<Longrightarrow> \<exists>r. k = Done r"
  by (auto simp: rbind_eq_Ok)

lemma two_replies:
  "\<exists>s0 s W. server_init demo_config [] Ample = Some s0 \<and> overlap 2 s0 s W \<and> config s = demo_config \<and>
     (\<forall>i < 2. \<not> at_rest (W i) \<and> pending (W i) = [])"
proof -
  have cfg: "config_ok demo_config" by (simp add: config_ok_def demo_config_def)
  have two: "(2 :: nat) < 2 ^ 32" by simp
  obtain s0 where s0: "server_init demo_config [] Ample = Some s0" using server_init_starts by blast
  have start: "overlap 2 s0 s0 (\<lambda>_. Free)" by (rule overlap_init)
  note inv0 = server_init_inv [OF s0 cfg]
  have go: "\<exists>r s'. overlap 2 s0 s' (W(i := Releasing [] r ((demo_open p)\<lparr>rx := []\<rparr>))) \<and> config s' = demo_config"
    if o: "overlap 2 s0 s W" "i < 2" "at_rest (W i)" "\<And>j. j < 2 \<Longrightarrow> pending (W j) = []" "valid_path p" "config s = demo_config" for s W i p
  proof -
    obtain P where P: "overlap_inv 2 s W" using started_sim [OF o(1) two s0 cfg] by blast
    note st = demo_can_start [OF o(5)]
    obtain k s' where c: "request_core (Req_open p 3) 4 (s\<lparr>clock := [Timespec 1 0, Timespec 2 0]\<rparr>) = Ok (k, s')"
      using core_runs [OF P o(4) st] by blast
    obtain r where k: "k = Done r" using open_done [OF c] by blast
    have "post (request_core (Req_open p 3) 4 (s\<lparr>clock := [Timespec 1 0, Timespec 2 0]\<rparr>)) (\<lambda>(k, s'). static s' = static s)"
      by (auto intro!: keeps_wp post_if)
    from postD [OF this c] o(6) have "config s' = demo_config" by (simp add: static_def)
    then show ?thesis using overlap_core [OF o(1-3) st c] k by auto
  qed
  obtain r s1 W1 where s1: "overlap 2 s0 s1 W1" "config s1 = demo_config"
    and W1: "W1 = (\<lambda>_. Free)(0 := Releasing [] r ((demo_open [97])\<lparr>rx := []\<rparr>))"
    using go [OF start, of 0 "[97]"] demo_path(1) inv0(2) by (auto simp: at_rest_def)
  have "pending (W1 j) = []" for j by (simp add: W1)
  then obtain r' s2 where "overlap 2 s0 s2 (W1(1 := Releasing [] r' ((demo_open [99])\<lparr>rx := []\<rparr>)))" "config s2 = demo_config"
    using go [OF s1(1) _ _ _ demo_path(2) s1(2), of 1] W1 by (auto simp: at_rest_def)
  moreover have "\<not> at_rest ((W1(1 := Releasing [] r' ((demo_open [99])\<lparr>rx := []\<rparr>))) i) \<and>
      pending ((W1(1 := Releasing [] r' ((demo_open [99])\<lparr>rx := []\<rparr>))) i) = []" if "i < 2" for i r'
    using that unfolding W1 by (auto simp: at_rest_def less_2_cases_iff)
  ultimately show ?thesis using s0 by blast
qed

lemma overlap_linear_witness:
  "\<exists>s0 s W P. server_init demo_config [] Ample = Some s0 \<and> overlap 2 s0 s W \<and> (\<forall>i < 2. \<not> at_rest (W i)) \<and>
     one_step 2 s0 s P"
proof -
  have cfg: "config_ok demo_config" by (simp add: config_ok_def demo_config_def)
  obtain s0 s W where o: "server_init demo_config [] Ample = Some s0" "overlap 2 s0 s W"
    "\<forall>i < 2. \<not> at_rest (W i) \<and> pending (W i) = []" using two_replies by blast
  from overlap_linear [OF o(2) _ o(1) cfg] o(3) have "\<exists>P. one_step 2 s0 s P" by auto
  with o show ?thesis by blast
qed

text \<open>A worker that sends a file and holds its lock, while the other one tells its client the result.\<close>

lemma reply_with_file:
  "\<exists>s0 s W a. server_init demo_config [] Ample = Some s0 \<and> overlap 2 s0 s W \<and> (\<forall>i < 2. \<not> at_rest (W i)) \<and> a \<in> locks (W 1)"
proof -
  have cfg: "config_ok demo_config" by (simp add: config_ok_def demo_config_def)
  obtain s0 where s0: "server_init demo_config [] Ample = Some s0" using server_init_starts by blast
  note inv0 = server_init_inv [OF s0 cfg]
  let ?ts = "[Timespec 1 0, Timespec 2 0]" and ?W0 = "\<lambda>_ :: nat. Free"
  have start: "overlap 2 s0 s0 ?W0" by (rule overlap_init)
  have empty: "stored (s0\<lparr>clock := ?ts\<rparr>) [97] = None"
    using inv0(3) abs_store_at [of "s0\<lparr>clock := ?ts\<rparr>" "[97]"] by (simp split: option.splits)
  have inv: "server_inv (s0\<lparr>clock := ?ts\<rparr>)" "client_fd 4" using inv0(1) by (simp_all add: client_fd_def)
  have fl: "is_flag_set 3 O_CREATE" by (simp add: is_flag_set_bit bit_iff_odd)
  from open_create_ok [OF inv demo_path(1), of "Timespec 1 0" "Timespec 2 0" "[]" 3] empty obtain r s1 where
    o: "open_create 4 [97] 3 (s0\<lparr>clock := ?ts\<rparr>) = Ok (r, s1)" and s1: "server_inv s1" "stored s1 [97] \<noteq> None" by auto
  let ?c0 = "(demo_open [97])\<lparr>rx := []\<rparr>" and ?W1 = "(\<lambda>_ :: nat. Free)(0 := Releasing [] r ((demo_open [97])\<lparr>rx := []\<rparr>))"
  have "request_core (Req_open [97] 3) 4 (s0\<lparr>clock := ?ts\<rparr>) = Ok (Done r, s1)" using o fl by simp
  from overlap_core [OF start _ _ demo_can_start [OF demo_path(1)] this, of 0]
  have one: "overlap 2 s0 s1 ?W1" by (simp add: at_rest_def)
  let ?s1 = "s1\<lparr>clock := ?ts\<rparr>" and ?c1 = "demo_conn (request_msg (Req_read_n 1) @ [])"
  have inv1: "server_inv ?s1" "0 < wanted 1 ?s1" using s1(1) by (simp_all add: wanted_def)
  obtain m where m: "files s1 = Some m" "file_map_ok m" "unat (st_files (curr_state s1)) = length (entries m)"
    using server_inv_store [OF s1(1)] by (elim store_okE)
  obtain a where "addr_of s1 [97] = Some a" using s1(2) by (auto elim: stored_addr)
  then have "([97], a) \<in> set (entries m)" using addr_of_entries [OF m(1,2)] by simp
  then have "0 < unat (st_files (curr_state s1))" unfolding m(3) by auto
  then have "length (chosen 1 ?s1) = 1" using chosen_files(3) [OF inv1(1), of 1] by (simp add: wanted_def)
  then obtain v where v: "chosen 1 ?s1 = [v]" by (auto simp: length_Suc_conv)
  have core: "request_core (Req_read_n 1) 5 ?s1 = Ok (Reply_files [v_addr v], ?s1\<lparr>fheap := rlocked {v_addr v} (fheap ?s1)\<rparr>)"
    using read_n_core_ok [OF inv1] v by simp
  have "can_start 5 ?c1 (Req_read_n 1) [] ?ts s1" by (simp add: can_start_def client_fd_def)
  from overlap_core [OF one _ _ this core, of 1] have
    two: "overlap 2 s0 (?s1\<lparr>fheap := rlocked {v_addr v} (fheap ?s1)\<rparr>) (?W1(1 := begin_reply (Reply_files [v_addr v]) (?c1\<lparr>rx := []\<rparr>)))"
    by (simp add: at_rest_def)
  let ?W2 = "?W1(1 := begin_reply (Reply_files [v_addr v]) (?c1\<lparr>rx := []\<rparr>))"
  have "v_addr v \<in> locks (?W2 1)" by (simp add: locks_def)
  moreover have "\<forall>i < 2. \<not> at_rest (?W2 i)" by (auto simp: at_rest_def less_2_cases_iff)
  ultimately show ?thesis using s0 two by blast
qed

lemma overlap_live_witness:
  "(\<exists>s0 s W. overlap 2 s0 s W \<and> (\<forall>i < 2. \<exists>t s'. task_step (W i) s = Ok (t, s') \<and> left t < left (W i)) \<and>
     (\<exists>k s'. request_core (Req_open [97] 3) 4 (s\<lparr>clock := [Timespec 1 0, Timespec 2 0]\<rparr>) = Ok (k, s'))) \<and>
   (\<exists>s0 s W a. overlap 2 s0 s W \<and> a \<in> locks (W 1) \<and> (\<forall>i < 2. \<exists>t s'. task_step (W i) s = Ok (t, s') \<and> left t < left (W i)))"
proof -
  have cfg: "config_ok demo_config" by (simp add: config_ok_def demo_config_def)
  have two: "(2 :: nat) < 2 ^ 32" by simp
  note live = overlap_live [OF _ two _ cfg demo_can_start [OF demo_path(1)]]
  obtain s0 s W where o: "server_init demo_config [] Ample = Some s0" "overlap 2 s0 s W" "config s = demo_config"
    "\<forall>i < 2. \<not> at_rest (W i) \<and> pending (W i) = []" using two_replies by blast
  obtain s1 t V a where p: "server_init demo_config [] Ample = Some s1" "overlap 2 s1 t V" "\<forall>i < 2. \<not> at_rest (V i)" "a \<in> locks (V 1)"
    using reply_with_file by blast
  have "\<forall>i < 2. \<exists>t s'. task_step (W i) s = Ok (t, s') \<and> left t < left (W i)"
    "\<exists>k s'. request_core (Req_open [97] 3) 4 (s\<lparr>clock := [Timespec 1 0, Timespec 2 0]\<rparr>) = Ok (k, s')"
    using live [OF o(2,1)] o(4) by simp_all
  moreover have "\<forall>i < 2. \<exists>t' s'. task_step (V i) t = Ok (t', s') \<and> left t' < left (V i)"
    using live [OF p(2,1)] p(3) by simp
  ultimately show ?thesis using o(2) p(2,4) by blast
qed

end
