(* ===== verification/Main_Loop.thy ===== *)
theory Main_Loop
  imports Workers
begin

text \<open>
  The threads of the server (\<open>main\<close> in \<open>server.c\<close>, \<open>worker_thread\<close>, \<open>sig_handler_thread\<close>) as one
  transition system: the main thread and its \<open>select\<close> set, the table of connected clients, the request
  queue with its mutex and condition variable, the workers and the pipes through which they report.
  A step is one thread going on to its next synchronisation point; a request is served in one step. The
  queue is a plain list, which is what \<open>list.c\<close> implements (\<open>Node_List\<close>).
\<close>

section \<open>States\<close>

datatype server_mode_t = ACCEPT_CONN | REFUSE_CONN | CLOSE_SERVER

text \<open>
  The points of a worker: the test of its \<open>while\<close>, before locking the queue, holding its mutex before the
  test of the \<open>if\<close> and before \<open>pthread_cond_wait\<close>, waiting, woken up, holding the mutex after the \<open>if\<close>,
  serving a client. At \<open>W_ub\<close> the worker has popped from an empty queue: \<open>list_pop_front\<close> has failed, which is not tested,
  and \<open>fd_client\<close> was never set. The steps defined here end there, since C gives no meaning to what follows; in fact the
  worker goes on and serves the descriptor that happens to be in the variable (\<open>stale_step\<close> below). What is said of
  states with a worker at \<open>W_ub\<close> is said of the server up to that moment only.
\<close>

datatype worker_pc =
    W_top | W_lock | W_test | W_sleep | W_wait | W_woken | W_check | W_serve int | W_exit | W_ub

record worker_res_t =
  res_code :: worker_code_t
  res_client :: int

record loop =
  mode :: server_mode_t
  sig_waiting :: bool
  looping :: bool
  fdset :: "int set"
  conn_table :: "hashtbl option"
  queue :: "int list"
  queue_mtx :: "nat option"
  workers :: "worker_pc list"
  pipes :: "worker_res_t list list"
  store :: server

definition put_conn :: "u32 \<Rightarrow> server \<Rightarrow> server" where
  "put_conn n st = st\<lparr>curr_state := (curr_state st)\<lparr>st_conn := n,
     st_max_conn := (if n > st_max_conn (curr_state st) then n else st_max_conn (curr_state st))\<rparr>\<rparr>"

definition loop_init :: "int \<Rightarrow> nat \<Rightarrow> hashtbl option \<Rightarrow> server \<Rightarrow> loop" where
  "loop_init lfd n t st =
     \<lparr>mode = ACCEPT_CONN, sig_waiting = True, looping = True, fdset = {lfd}, conn_table = t, queue = [],
      queue_mtx = None, workers = replicate n W_top, pipes = replicate n [], store = st\<rparr>"

section \<open>The main thread\<close>

text \<open>\<open>pthread_cond_signal\<close> and \<open>pthread_cond_broadcast\<close> on \<open>request_queue_nonempty\<close>.\<close>

inductive wake_one :: "worker_pc list \<Rightarrow> worker_pc list \<Rightarrow> bool" where
  wake_none: "W_wait \<notin> set ws \<Longrightarrow> wake_one ws ws"
| wake_some: "i < length ws \<Longrightarrow> ws ! i = W_wait \<Longrightarrow> wake_one ws (ws[i := W_woken])"

definition wake_all :: "worker_pc list \<Rightarrow> worker_pc list" where
  "wake_all = map (\<lambda>w. if w = W_wait then W_woken else w)"

text \<open>A new connection, in the mode that accepts them.\<close>

definition accept_client :: "int \<Rightarrow> loop \<Rightarrow> loop res" where
  "accept_client fd s =
     rbind (hashtbl_insert (conn_table s) fd Ample) (\<lambda>(_, t, _).
       Ok (s\<lparr>fdset := insert fd (fdset s), conn_table := t,
             store := put_conn (st_conn (curr_state (store s)) + 1) (store s)\<rparr>))"

text \<open>A descriptor that is ready and is neither the signal pipe nor a pipe of a worker.\<close>

definition push_request :: "int \<Rightarrow> loop \<Rightarrow> loop" where
  "push_request fd s = s\<lparr>queue := queue s @ [fd], fdset := fdset s - {fd}\<rparr>"

text \<open>The result of a worker.\<close>

definition take_result :: "worker_res_t \<Rightarrow> loop \<Rightarrow> loop res" where
  "take_result r s =
     (if res_code r = MW_SUCCESS \<or> res_code r = MW_NON_FATAL_ERROR
      then Ok (s\<lparr>fdset := insert (res_client r) (fdset s)\<rparr>)
      else rbind (hashtbl_remove (conn_table s) (res_client r)) (\<lambda>(_, t).
           rbind (close_client (res_client r) (store s)) (\<lambda>st.
             Ok (s\<lparr>conn_table := t, store := st\<rparr>))))"

definition table_empty :: "loop \<Rightarrow> bool" where
  "table_empty s \<longleftrightarrow> (case conn_table s of None \<Rightarrow> False | Some t \<Rightarrow> nelem t = 0)"

text \<open>
  \<open>accept\<close> returns a descriptor that is not open, and \<open>FD_SET\<close> asks for one below \<open>FD_SETSIZE\<close>.
  The read end of the signal pipe is ready once its write end is closed.
\<close>

definition serving :: "worker_pc \<Rightarrow> int list" where
  "serving w = (case w of W_serve fd \<Rightarrow> [fd] | _ \<Rightarrow> [])"

definition open_fds :: "loop \<Rightarrow> int multiset" where
  "open_fds s = mset_set (fdset s) + mset (queue s) + mset (concat (map serving (workers s))) +
     mset (concat (map (map res_client) (pipes s)))"

inductive main_step :: "int \<Rightarrow> loop \<Rightarrow> loop \<Rightarrow> bool" for lfd where
  main_accept: "looping s \<Longrightarrow> lfd \<in> fdset s \<Longrightarrow> mode s = ACCEPT_CONN \<Longrightarrow> client_fd fd \<Longrightarrow> fd \<notin># open_fds s \<Longrightarrow>
    accept_client fd s = Ok s' \<Longrightarrow> main_step lfd s s'"
| main_request: "looping s \<Longrightarrow> fd \<in> fdset s \<Longrightarrow> \<not> (fd = lfd \<and> mode s = ACCEPT_CONN) \<Longrightarrow> queue_mtx s = None \<Longrightarrow>
    wake_one (workers s) ws \<Longrightarrow> main_step lfd s (push_request fd s\<lparr>workers := ws\<rparr>)"
| main_result: "looping s \<Longrightarrow> j < length (pipes s) \<Longrightarrow> pipes s ! j = r # rs \<Longrightarrow>
    take_result r (s\<lparr>pipes := (pipes s)[j := rs]\<rparr>) = Ok s' \<Longrightarrow> main_step lfd s s'"
| main_signal: "looping s \<Longrightarrow> \<not> sig_waiting s \<Longrightarrow> mode s = CLOSE_SERVER \<Longrightarrow>
    main_step lfd s (s\<lparr>workers := wake_all (workers s), looping := False\<rparr>)"
| main_last: "looping s \<Longrightarrow> mode s = REFUSE_CONN \<Longrightarrow> table_empty s \<Longrightarrow>
    main_step lfd s (s\<lparr>mode := CLOSE_SERVER, workers := wake_all (workers s), looping := False\<rparr>)"
| main_exit: "looping s \<Longrightarrow> mode s = CLOSE_SERVER \<Longrightarrow> main_step lfd s (s\<lparr>looping := False\<rparr>)"

section \<open>The signal handler and the workers\<close>

text \<open>The handler thread returns after its first signal.\<close>

datatype signal_t = SIGINT | SIGQUIT | SIGHUP

definition sig_mode :: "signal_t \<Rightarrow> server_mode_t" where
  "sig_mode sig = (case sig of SIGHUP \<Rightarrow> REFUSE_CONN | _ \<Rightarrow> CLOSE_SERVER)"

inductive sig_step :: "loop \<Rightarrow> loop \<Rightarrow> bool" where
  sig_caught: "sig_waiting s \<Longrightarrow> sig_step s (s\<lparr>mode := sig_mode sig, sig_waiting := False\<rparr>)"

definition w_goto :: "nat \<Rightarrow> worker_pc \<Rightarrow> loop \<Rightarrow> loop" where
  "w_goto i w s = s\<lparr>workers := (workers s)[i := w]\<rparr>"

definition w_at :: "loop \<Rightarrow> nat \<Rightarrow> worker_pc \<Rightarrow> bool" where
  "w_at s i w \<longleftrightarrow> i < length (workers s) \<and> workers s ! i = w"

inductive worker_step :: "nat \<Rightarrow> loop \<Rightarrow> loop \<Rightarrow> bool" where
  w_top: "w_at s i W_top \<Longrightarrow> worker_step i s (w_goto i (if mode s = CLOSE_SERVER then W_exit else W_lock) s)"
| w_lock: "w_at s i W_lock \<Longrightarrow> queue_mtx s = None \<Longrightarrow> worker_step i s (w_goto i W_test (s\<lparr>queue_mtx := Some i\<rparr>))"
| w_test: "w_at s i W_test \<Longrightarrow>
    worker_step i s (w_goto i (if mode s \<noteq> CLOSE_SERVER \<and> queue s = [] then W_sleep else W_check) s)"
| w_sleep: "w_at s i W_sleep \<Longrightarrow> worker_step i s (w_goto i W_wait (s\<lparr>queue_mtx := None\<rparr>))"
| w_woken: "w_at s i W_woken \<Longrightarrow> queue_mtx s = None \<Longrightarrow> worker_step i s (w_goto i W_check (s\<lparr>queue_mtx := Some i\<rparr>))"
| w_leave: "w_at s i W_check \<Longrightarrow> mode s = CLOSE_SERVER \<Longrightarrow> worker_step i s (w_goto i W_exit (s\<lparr>queue_mtx := None\<rparr>))"
| w_pop: "w_at s i W_check \<Longrightarrow> mode s \<noteq> CLOSE_SERVER \<Longrightarrow> queue s = fd # q \<Longrightarrow>
    worker_step i s (w_goto i (W_serve fd) (s\<lparr>queue := q, queue_mtx := None\<rparr>))"
| w_pop_empty: "w_at s i W_check \<Longrightarrow> mode s \<noteq> CLOSE_SERVER \<Longrightarrow> queue s = [] \<Longrightarrow>
    worker_step i s (w_goto i W_ub (s\<lparr>queue_mtx := None\<rparr>))"
| w_serve: "w_at s i (W_serve fd) \<Longrightarrow> serve_request fd c (store s) = Ok (code, c', st) \<Longrightarrow> i < length (pipes s) \<Longrightarrow>
    worker_step i s (w_goto i W_top (s\<lparr>store := st,
      pipes := (pipes s)[i := pipes s ! i @ [\<lparr>res_code = code, res_client = fd\<rparr>]]\<rparr>))"

text \<open>
  What the code does at \<open>W_ub\<close>: any value may be in \<open>fd_client\<close>, on the stack often the descriptor that the worker
  served before. The step is not one of the system below.
\<close>

inductive stale_step :: "loop \<Rightarrow> loop \<Rightarrow> bool" where
  stale: "w_at s i W_ub \<Longrightarrow> stale_step s (w_goto i (W_serve fd) s)"

text \<open>A wait may also end without a signal.\<close>

inductive w_spurious :: "loop \<Rightarrow> loop \<Rightarrow> bool" where
  w_spurious: "w_at s i W_wait \<Longrightarrow> w_spurious s (w_goto i W_woken s)"

inductive loop_step :: "int \<Rightarrow> loop \<Rightarrow> loop \<Rightarrow> bool" for lfd where
  ls_main: "main_step lfd s s' \<Longrightarrow> loop_step lfd s s'"
| ls_sig: "sig_step s s' \<Longrightarrow> loop_step lfd s s'"
| ls_worker: "worker_step i s s' \<Longrightarrow> loop_step lfd s s'"

text \<open>The clock goes on between the steps; \<open>sp\<close> says whether a wait may end without a signal.\<close>

inductive loop_reach :: "bool \<Rightarrow> int \<Rightarrow> nat \<Rightarrow> server_config_t \<Rightarrow> loop \<Rightarrow> bool" for sp lfd n cfg where
  loop_start: "server_init cfg ts Ample = Some st \<Longrightarrow>
    hashtbl_init HASH_N_LIST default_hashtbl_hash Ample = (Inr (), t, Ample) \<Longrightarrow>
    loop_reach sp lfd n cfg (loop_init lfd n t st)"
| loop_more: "loop_reach sp lfd n cfg s \<Longrightarrow> loop_step lfd s s' \<Longrightarrow> loop_reach sp lfd n cfg s'"
| loop_spurious: "sp \<Longrightarrow> loop_reach sp lfd n cfg s \<Longrightarrow> w_spurious s s' \<Longrightarrow> loop_reach sp lfd n cfg s'"
| loop_clock: "loop_reach sp lfd n cfg s \<Longrightarrow> loop_reach sp lfd n cfg (s\<lparr>store := (store s)\<lparr>clock := ts\<rparr>\<rparr>)"

section \<open>Where the clients are\<close>

text \<open>
  Every client of the table, and the listening socket as long as it is open, is in exactly one place:
  in the \<open>select\<close> set, in the queue, with one worker, or in the pipe of one worker. The counter of
  connections is the size of the table, but one less when the listening socket was treated as a client.
\<close>

definition loop_inv :: "int \<Rightarrow> loop \<Rightarrow> bool" where
  "loop_inv lfd s \<longleftrightarrow> finite (fdset s) \<and> length (pipes s) = length (workers s) \<and>
     (\<exists>t b. conn_table s = Some t \<and> fd_table_ok t \<and> (\<forall>fd \<in> set (entries t). client_fd fd) \<and>
        lfd \<notin> set (entries t) \<and>
        open_fds s = mset_set (set (entries t) \<union> (if b then {lfd} else {})) \<and>
        (mode s = ACCEPT_CONN \<longrightarrow> lfd \<in> fdset s) \<and>
        st_conn (curr_state (store s)) = word_of_nat (card (set (entries t))) - (if b then 0 else 1))"

lemma loop_invE:
  assumes "loop_inv lfd s"
  obtains t b where "finite (fdset s)" "length (pipes s) = length (workers s)" "conn_table s = Some t" "fd_table_ok t"
    "\<And>fd. fd \<in> set (entries t) \<Longrightarrow> client_fd fd" "lfd \<notin> set (entries t)"
    "open_fds s = mset_set (set (entries t) \<union> (if b then {lfd} else {}))" "mode s = ACCEPT_CONN \<Longrightarrow> lfd \<in> fdset s"
    "st_conn (curr_state (store s)) = word_of_nat (card (set (entries t))) - (if b then 0 else 1)"
  using assms unfolding loop_inv_def by blast

lemma loop_invI:
  assumes "finite (fdset s)" "length (pipes s) = length (workers s)" "conn_table s = Some t" "fd_table_ok t"
    "\<And>fd. fd \<in> set (entries t) \<Longrightarrow> client_fd fd" "lfd \<notin> set (entries t)"
    "open_fds s = mset_set (set (entries t) \<union> (if b then {lfd} else {}))" "mode s = ACCEPT_CONN \<Longrightarrow> lfd \<in> fdset s"
    "st_conn (curr_state (store s)) = word_of_nat (card (set (entries t))) - (if b then 0 else 1)"
  shows "loop_inv lfd s"
  using assms unfolding loop_inv_def by blast

lemma mset_concat_upd:
  assumes "i < length xs"
  shows "mset (concat (map f (xs[i := v]))) + mset (f (xs ! i)) = mset (concat (map f xs)) + mset (f v)"
proof -
  have "xs = take i xs @ xs ! i # drop (Suc i) xs" using assms by (rule id_take_nth_drop)
  then have "mset (concat (map f xs)) = mset (concat (map f (take i xs @ xs ! i # drop (Suc i) xs)))" by simp
  then show ?thesis using assms by (simp add: upd_conv_take_nth_drop)
qed

lemma mset_concat_same: "i < length xs \<Longrightarrow> f v = f (xs ! i) \<Longrightarrow> mset (concat (map f (xs[i := v]))) = mset (concat (map f xs))"
  using mset_concat_upd [of i xs f v] by simp

lemma serving_simps [simp]: "serving (W_serve fd) = [fd]" "serving W_top = []" "serving W_lock = []" "serving W_test = []"
  "serving W_sleep = []" "serving W_wait = []" "serving W_woken = []" "serving W_check = []" "serving W_exit = []" "serving W_ub = []"
  by (simp_all add: serving_def)

text \<open>Steps that move no descriptor.\<close>

lemma loop_inv_cong:
  assumes "loop_inv lfd s" "fdset s' = fdset s" "length (pipes s') = length (pipes s)" "length (workers s') = length (workers s)"
    "conn_table s' = conn_table s" "open_fds s' = open_fds s" "mode s' = ACCEPT_CONN \<Longrightarrow> mode s = ACCEPT_CONN"
    "st_conn (curr_state (store s')) = st_conn (curr_state (store s))"
  shows "loop_inv lfd s'"
  using assms unfolding loop_inv_def by (metis (no_types, opaque_lifting))

lemma open_fds_cong:
  assumes "fdset s' = fdset s" "mset (queue s') = mset (queue s)"
    "mset (concat (map serving (workers s'))) = mset (concat (map serving (workers s)))" "pipes s' = pipes s"
  shows "open_fds s' = open_fds s"
  using assms by (simp add: open_fds_def)

lemma goto_quiet:
  assumes "w_at s i w" "serving w = serving w'"
  shows "mset (concat (map serving ((workers s)[i := w']))) = mset (concat (map serving (workers s)))"
  using assms by (intro mset_concat_same) (auto simp: w_at_def)

lemma wake_all_serving: "concat (map serving (wake_all ws)) = concat (map serving ws)"
  by (induction ws) (auto simp: wake_all_def)

lemma wake_one_serving: "wake_one ws ws' \<Longrightarrow> mset (concat (map serving ws')) = mset (concat (map serving ws)) \<and> length ws' = length ws"
  by (induction rule: wake_one.induct) (auto intro!: mset_concat_same)

lemma quiet_step:
  assumes inv: "loop_inv lfd s" and at: "w_at s i w" "serving w = serving w'"
    and s': "fdset s' = fdset s" "queue s' = queue s" "pipes s' = pipes s" "conn_table s' = conn_table s" "mode s' = mode s"
      "store s' = store s" "workers s' = workers s"
  shows "loop_inv lfd (w_goto i w' s')"
  by (rule loop_inv_cong [OF inv]) (use s' goto_quiet [OF at] in \<open>auto simp: w_goto_def open_fds_def\<close>)

lemma close_client_conn:
  assumes "close_client fd st = Ok st'" "client_fd fd"
  shows "st_conn (curr_state st') = st_conn (curr_state st) - 1"
  using postD [OF post_close_client assms(1)] assms(2) by (simp add: client_fd_def)

lemma serve_conn:
  assumes "serve_request fd c st = Ok (code, c', st')"
  shows "st_conn (curr_state st') = st_conn (curr_state st)"
  using postD [OF serve_post assms] by (simp add: static_def)

text \<open>A descriptor changes its place.\<close>

lemma tokens_distinct: "loop_inv lfd s \<Longrightarrow> count (open_fds s) fd \<le> 1"
  by (elim loop_invE) (auto simp: count_mset_set')

lemma request_inv:
  assumes inv: "loop_inv lfd s" and fd: "fd \<in> fdset s" "\<not> (fd = lfd \<and> mode s = ACCEPT_CONN)" and ws: "wake_one (workers s) ws"
  shows "loop_inv lfd (push_request fd s\<lparr>workers := ws\<rparr>)"
proof -
  have "open_fds (push_request fd s\<lparr>workers := ws\<rparr>) = open_fds s"
    using inv fd(1) wake_one_serving [OF ws] by (simp add: open_fds_def push_request_def loop_inv_def mset_set.remove)
  then show ?thesis
    using inv fd(2) wake_one_serving [OF ws]
    by (elim loop_invE, intro loop_invI [where s = "push_request fd s\<lparr>workers := ws\<rparr>"])
      (auto simp: push_request_def)
qed

lemma pop_tokens:
  assumes "w_at s i W_check" "queue s = fd # q"
  shows "open_fds (w_goto i (W_serve fd) (s\<lparr>queue := q, queue_mtx := m\<rparr>)) = open_fds s"
proof -
  have i: "i < length (workers s)" "serving (workers s ! i) = []" using assms(1) by (auto simp: w_at_def)
  from mset_concat_upd [OF i(1), of serving "W_serve fd"] i(2) assms(2) show ?thesis
    by (simp add: open_fds_def w_goto_def)
qed

lemma serve_tokens:
  assumes at: "w_at s i (W_serve fd)" and i: "i < length (pipes s)"
  shows "open_fds (w_goto i W_top (s\<lparr>store := st, pipes := (pipes s)[i := pipes s ! i @ [\<lparr>res_code = code, res_client = fd\<rparr>]]\<rparr>)) =
    open_fds s"
proof -
  have w: "i < length (workers s)" "serving (workers s ! i) = [fd]" using at by (auto simp: w_at_def)
  from mset_concat_upd [OF w(1), of serving W_top] w(2)
    mset_concat_upd [OF i, of "map res_client" "pipes s ! i @ [\<lparr>res_code = code, res_client = fd\<rparr>]"]
  show ?thesis by (simp add: open_fds_def w_goto_def)
qed

lemma pipe_tokens:
  assumes "j < length (pipes s)" "pipes s ! j = r # rs"
  shows "open_fds s = add_mset (res_client r) (open_fds (s\<lparr>pipes := (pipes s)[j := rs]\<rparr>))"
  using mset_concat_upd [OF assms(1), of "map res_client" rs] assms(2) by (simp add: open_fds_def)

lemma mset_set_take:
  assumes "finite A" "add_mset x M = mset_set A"
  shows "x \<in> A" "M = mset_set (A - {x})"
proof -
  have "x \<in># mset_set A" using assms(2) [symmetric] by simp
  then show x: "x \<in> A" using assms(1) by simp
  show "M = mset_set (A - {x})" using mset_set.remove [OF assms(1) x] assms(2) by simp
qed

lemma fds_tokens: "finite (fdset s) \<Longrightarrow> fd \<in> fdset s \<Longrightarrow> fd \<in># open_fds s"
  by (simp add: open_fds_def)

lemma open_fds_insert: "finite (fdset s) \<Longrightarrow> fd \<notin> fdset s \<Longrightarrow> open_fds (s\<lparr>fdset := insert fd (fdset s)\<rparr>) = add_mset fd (open_fds s)"
  by (simp add: open_fds_def)

lemma conn_less: "word_of_nat (Suc n) - d - 1 = word_of_nat n - (d :: u32)"
  by simp

lemma result_inv:
  assumes inv: "loop_inv lfd s" and lfd: "client_fd lfd"
    and j: "j < length (pipes s)" "pipes s ! j = r # rs"
    and run: "take_result r (s\<lparr>pipes := (pipes s)[j := rs]\<rparr>) = Ok s'"
  shows "loop_inv lfd s'"
proof -
  let ?s = "s\<lparr>pipes := (pipes s)[j := rs]\<rparr>" and ?fd = "res_client r"
  obtain t b where i: "finite (fdset s)" "length (pipes s) = length (workers s)" "conn_table s = Some t" "fd_table_ok t"
    "\<And>fd. fd \<in> set (entries t) \<Longrightarrow> client_fd fd" "lfd \<notin> set (entries t)"
    "open_fds s = mset_set (set (entries t) \<union> (if b then {lfd} else {}))" "mode s = ACCEPT_CONN \<Longrightarrow> lfd \<in> fdset s"
    "st_conn (curr_state (store s)) = word_of_nat (card (set (entries t))) - (if b then 0 else 1)"
    using inv by (elim loop_invE) blast
  let ?all = "set (entries t) \<union> (if b then {lfd} else {})"
  have tok: "add_mset ?fd (open_fds ?s) = mset_set ?all" using pipe_tokens [OF j] i(7) by simp
  have fin: "finite ?all" by simp
  note fd = mset_set_take [OF fin tok]
  have out: "?fd \<notin> fdset s" using fds_tokens [of ?s ?fd] fd(2) i(1) by auto
  show ?thesis
  proof (cases "res_code r = MW_SUCCESS \<or> res_code r = MW_NON_FATAL_ERROR")
    case True
    then have s': "s' = ?s\<lparr>fdset := insert ?fd (fdset ?s)\<rparr>" using run by (simp add: take_result_def)
    have "open_fds s' = open_fds s"
      unfolding s' using open_fds_insert [of ?s ?fd] i(1) out tok i(7) by simp
    then show ?thesis
      by (rule loop_invI [where t = t and b = b, rotated 6, OF trans [OF _ i(7)]]) (use i in \<open>simp_all add: s'\<close>)
  next
    case False
    have cfd: "client_fd ?fd" using fd(1) i(5) lfd by (auto split: if_splits)
    from fd_remove [OF i(4) cfd] obtain x t' where t': "hashtbl_remove (Some t) ?fd = Ok (x, Some t')" "fd_table_ok t'"
      "set (entries t') = set (entries t) - {?fd}" by blast
    then obtain st where st: "close_client ?fd (store s) = Ok st" "s' = ?s\<lparr>conn_table := Some t', store := st\<rparr>"
      using run False i(3) by (auto simp: take_result_def rbind_eq_Ok)
    define b' where "b' = (b \<and> ?fd \<noteq> lfd)"
    have all: "?all - {?fd} = set (entries t') \<union> (if b' then {lfd} else {})" using t'(3) i(6) by (auto simp: b'_def)
    have o: "open_fds s' = open_fds ?s" by (simp add: st(2) open_fds_def)
    have conn: "st_conn (curr_state st) = word_of_nat (card (set (entries t'))) - (if b' then 0 else 1)"
    proof (cases "?fd = lfd")
      case True
      then have "b" "set (entries t') = set (entries t)" using fd(1) i(6) t'(3) by (auto split: if_splits)
      with True show ?thesis using close_client_conn [OF st(1) cfd] i(9) by (simp add: b'_def)
    next
      case False
      then have e: "?fd \<in> set (entries t)" using fd(1) by (auto split: if_splits)
      then have c: "card (set (entries t)) = Suc (card (set (entries t')))" using card.remove [OF _ e] t'(3) by simp
      have "b' = b" using False by (simp add: b'_def)
      show ?thesis unfolding close_client_conn [OF st(1) cfd] i(9) c \<open>b' = b\<close> by (rule conn_less)
    qed
    show ?thesis
    proof (rule loop_invI)
      show "conn_table s' = Some t'" by (simp add: st(2))
      show "open_fds s' = mset_set (set (entries t') \<union> (if b' then {lfd} else {}))" unfolding o fd(2) all ..
      show "st_conn (curr_state (store s')) = word_of_nat (card (set (entries t'))) - (if b' then 0 else 1)"
        using conn by (simp add: st(2))
      show "client_fd x" if "x \<in> set (entries t')" for x using that t'(3) i(5) by simp
      show "lfd \<notin> set (entries t')" using t'(3) i(6) by simp
      show "mode s' = ACCEPT_CONN \<Longrightarrow> lfd \<in> fdset s'" using i(8) by (simp add: st(2))
      show "finite (fdset s')" "length (pipes s') = length (workers s')" using i(1,2) by (simp_all add: st(2))
      show "fd_table_ok t'" by (rule t'(2))
    qed
  qed
qed

lemma inv_member:
  assumes "loop_inv lfd s" "conn_table s = Some t" "fd \<in> set (entries t)"
  shows "fd \<in># open_fds s"
  using assms by (elim loop_invE) auto

lemma accept_inv:
  assumes inv: "loop_inv lfd s" and acc: "lfd \<in> fdset s" and fd: "client_fd fd" "fd \<notin># open_fds s"
    and run: "accept_client fd s = Ok s'"
  shows "loop_inv lfd s'"
proof -
  obtain t b where i: "finite (fdset s)" "length (pipes s) = length (workers s)" "conn_table s = Some t" "fd_table_ok t"
    "\<And>fd. fd \<in> set (entries t) \<Longrightarrow> client_fd fd" "lfd \<notin> set (entries t)"
    "open_fds s = mset_set (set (entries t) \<union> (if b then {lfd} else {}))"
    "st_conn (curr_state (store s)) = word_of_nat (card (set (entries t))) - (if b then 0 else 1)"
    using inv by (elim loop_invE) blast
  have "lfd \<in># open_fds s" using fds_tokens [OF i(1) acc] .
  then have b: "b" using i(6,7) by (auto split: if_splits)
  have new: "fd \<notin> set (entries t)" "fd \<noteq> lfd" using fd(2) inv_member [OF inv i(3)] \<open>lfd \<in># open_fds s\<close> by auto
  from fd_insert [OF i(4) fd(1) new(1)] obtain t' where t': "hashtbl_insert (Some t) fd Ample = Ok (Inr (), Some t', Ample)"
    "fd_table_ok t'" "set (entries t') = insert fd (set (entries t))" by blast
  then have s': "s' = s\<lparr>fdset := insert fd (fdset s), conn_table := Some t',
      store := put_conn (st_conn (curr_state (store s)) + 1) (store s)\<rparr>"
    using run i(3) by (simp add: accept_client_def)
  have o: "open_fds s' = open_fds (s\<lparr>fdset := insert fd (fdset s)\<rparr>)" by (simp add: s' open_fds_def)
  have out: "fd \<notin> fdset s" using fds_tokens [OF i(1)] fd(2) by blast
  show ?thesis
  proof (rule loop_invI [where t = t' and b = True])
    show "conn_table s' = Some t'" by (simp add: s')
    show "open_fds s' = mset_set (set (entries t') \<union> (if True then {lfd} else {}))"
      unfolding o open_fds_insert [OF i(1) out] i(7) t'(3) using b new by (simp add: insert_commute [of lfd])
    show "st_conn (curr_state (store s')) = word_of_nat (card (set (entries t'))) - (if True then 0 else 1)"
      using b new(1) i(8) t'(3) by (simp add: s' put_conn_def)
    show "client_fd x" if "x \<in> set (entries t')" for x using that t'(3) i(5) fd(1) by auto
    show "lfd \<notin> set (entries t')" using t'(3) i(6) new(2) by simp
    show "finite (fdset s')" "length (pipes s') = length (workers s')" "mode s' = ACCEPT_CONN \<Longrightarrow> lfd \<in> fdset s'"
      using i(1,2) acc by (simp_all add: s')
    show "fd_table_ok t'" by (rule t'(2))
  qed
qed

lemma main_step_inv:
  assumes "main_step lfd s s'" "loop_inv lfd s" "client_fd lfd"
  shows "loop_inv lfd s'"
  using assms(1)
proof cases
  case (main_accept fd)
  then show ?thesis using accept_inv [OF assms(2)] by blast
next
  case (main_request fd ws)
  then show ?thesis using request_inv [OF assms(2)] by blast
next
  case (main_result j r rs)
  then show ?thesis using result_inv [OF assms(2,3)] by blast
next
  case main_signal
  then show ?thesis
    by (intro loop_inv_cong [OF assms(2)]) (auto simp: wake_all_serving open_fds_def, simp_all add: wake_all_def)
next
  case main_last
  then show ?thesis
    by (intro loop_inv_cong [OF assms(2)]) (auto simp: wake_all_serving open_fds_def, simp_all add: wake_all_def)
next
  case main_exit
  then show ?thesis by (intro loop_inv_cong [OF assms(2)]) (auto simp: open_fds_def)
qed

lemma worker_step_inv: "worker_step i s s' \<Longrightarrow> loop_inv lfd s \<Longrightarrow> loop_inv lfd s'"
proof (induction rule: worker_step.induct)
  case (w_pop s i fd q)
  have f: "open_fds (w_goto i (W_serve fd) (s\<lparr>queue := q, queue_mtx := None\<rparr>)) = open_fds s"
    using pop_tokens [OF w_pop(1,3)] .
  show ?case by (rule loop_inv_cong [OF w_pop(4) _ _ _ _ f]) (simp_all add: w_goto_def)
next
  case (w_serve s i fd c code c' st)
  let ?s = "w_goto i W_top (s\<lparr>store := st, pipes := (pipes s)[i := pipes s ! i @ [\<lparr>res_code = code, res_client = fd\<rparr>]]\<rparr>)"
  have f: "open_fds ?s = open_fds s" by (rule serve_tokens [OF w_serve(1,3)])
  show ?case
    by (rule loop_inv_cong [OF w_serve(4) _ _ _ _ f]) (simp_all add: w_goto_def serve_conn [OF w_serve(2)])
qed (auto intro: quiet_step)

lemma loop_step_inv: "loop_step lfd s s' \<Longrightarrow> loop_inv lfd s \<Longrightarrow> client_fd lfd \<Longrightarrow> loop_inv lfd s'"
proof (induction rule: loop_step.induct)
  case (ls_sig s s')
  then show ?case
    by (cases rule: sig_step.cases) (auto simp: sig_mode_def open_fds_def split: signal_t.splits intro!: loop_inv_cong [OF ls_sig(2)])
qed (simp_all add: main_step_inv worker_step_inv)

lemma init_table:
  "\<exists>t. hashtbl_init HASH_N_LIST default_hashtbl_hash Ample = (Inr (), Some t, Ample) \<and> entries t = [] \<and> fd_table_ok t"
proof -
  obtain t where "hashtbl_init 8 default_hashtbl_hash Ample = (Inr (), Some t, Ample)" "tbl_wf t"
    "items t = {#}" "nlist t = 8" using hashtbl_init_Ample [of 8] by auto
  then show ?thesis by (simp add: HASH_N_LIST_def fd_table_ok_def items_def)
qed

lemma init_conn: "server_init cfg ts Ample = Some st \<Longrightarrow> st_conn (curr_state st) = 0"
  by (auto simp: server_init_def split: prod.splits sum.splits)

lemma loop_start_inv:
  assumes "server_init cfg ts Ample = Some st" "hashtbl_init HASH_N_LIST default_hashtbl_hash Ample = (Inr (), t, Ample)"
  shows "loop_inv lfd (loop_init lfd n t st)"
proof -
  obtain t0 where "t = Some t0" "entries t0 = []" "fd_table_ok t0" using init_table assms(2) by auto
  then show ?thesis
    using init_conn [OF assms(1)] by (intro loop_invI [where t = t0 and b = True])
      (auto simp: loop_init_def open_fds_def map_replicate_const concat_eq_Nil_conv)
qed

lemma loop_reach_inv: "loop_reach sp lfd n cfg s \<Longrightarrow> client_fd lfd \<Longrightarrow> loop_inv lfd s"
proof (induction rule: loop_reach.induct)
  case (loop_spurious s s')
  from loop_spurious(3) obtain i where "w_at s i W_wait" "s' = w_goto i W_woken s" by (cases rule: w_spurious.cases)
  then show ?case using quiet_step [of lfd s i W_wait W_woken s] loop_spurious by simp
next
  case (loop_clock s ts)
  let ?s = "s\<lparr>store := (store s)\<lparr>clock := ts\<rparr>\<rparr>"
  have o: "open_fds ?s = open_fds s" by (rule open_fds_cong) simp_all
  show ?case by (rule loop_inv_cong [OF loop_clock.IH [OF loop_clock.prems] _ _ _ _ o]) simp_all
qed (simp_all add: loop_start_inv loop_step_inv)

lemma count_concat_ge:
  assumes "i < length xs" "j < length xs" "i \<noteq> j" "x \<in> set (f (xs ! i))" "x \<in> set (f (xs ! j))"
  shows "2 \<le> count (mset (concat (map f xs))) x"
proof -
  have c: "count (mset (concat (map f xs))) x = (\<Sum>k<length xs. count (mset (f (xs ! k))) x)"
    by (induction xs) (simp_all add: sum.lessThan_Suc_shift del: sum.lessThan_Suc)
  have "(\<Sum>k\<in>{i, j}. count (mset (f (xs ! k))) x) \<le> (\<Sum>k<length xs. count (mset (f (xs ! k))) x)"
    using assms(1,2) by (intro sum_mono2) auto
  moreover have "(\<Sum>k\<in>{i, j}. count (mset (f (xs ! k))) x) = count (mset (f (xs ! i))) x + count (mset (f (xs ! j))) x"
    using assms(3) by simp
  moreover have "1 \<le> count (mset (f (xs ! i))) x" "1 \<le> count (mset (f (xs ! j))) x"
    using assms(4,5) by (simp_all add: Suc_le_eq count_greater_zero_iff)
  ultimately show ?thesis unfolding c by linarith
qed

lemma served_once:
  assumes "loop_inv lfd s" "w_at s i (W_serve fd)" "w_at s j (W_serve fd)"
  shows "i = j"
proof (rule ccontr)
  assume "i \<noteq> j"
  with assms(2,3) have "2 \<le> count (mset (concat (map serving (workers s)))) fd"
    by (intro count_concat_ge [of i _ j]) (auto simp: w_at_def)
  then show False using tokens_distinct [OF assms(1), of fd] by (simp add: open_fds_def)
qed

section \<open>Runs\<close>

text \<open>A run of the server with two workers: worker 0 waits, a client connects and sends a request, worker 1
  takes it before worker 0 is back.\<close>

lemma reach_worker: "loop_reach sp lfd n cfg s \<Longrightarrow> worker_step i s s' \<Longrightarrow> loop_reach sp lfd n cfg s'"
  by (blast intro: loop_more ls_worker)

lemma reach_main: "loop_reach sp lfd n cfg s \<Longrightarrow> main_step lfd s s' \<Longrightarrow> loop_reach sp lfd n cfg s'"
  by (blast intro: loop_more ls_main)

definition ws_set :: "worker_pc list \<Rightarrow> nat option \<Rightarrow> loop \<Rightarrow> loop" where
  "ws_set ws m s = s\<lparr>workers := ws, queue_mtx := m\<rparr>"

lemma ws_set_simps [simp]:
  "workers (ws_set ws m s) = ws" "queue_mtx (ws_set ws m s) = m" "queue (ws_set ws m s) = queue s"
  "mode (ws_set ws m s) = mode s" "w_at (ws_set ws m s) i w = (i < length ws \<and> ws ! i = w)"
  "w_goto i w (ws_set ws m s) = ws_set (ws[i := w]) m s"
  "(ws_set ws m s)\<lparr>queue_mtx := m'\<rparr> = ws_set ws m' s"
  "looping (ws_set ws m s) = looping s" "fdset (ws_set ws m s) = fdset s" "store (ws_set ws m s) = store s"
  "sig_waiting (ws_set ws m s) = sig_waiting s" "pipes (ws_set ws m s) = pipes s"
  "open_fds (ws_set ws m s\<lparr>workers := ws'\<rparr>) = open_fds (s\<lparr>workers := ws'\<rparr>)"
  by (simp_all add: ws_set_def w_at_def w_goto_def open_fds_def)

text \<open>A worker that finds the queue empty goes to sleep.\<close>

lemma worker_sleeps:
  assumes r: "loop_reach sp lfd n cfg (ws_set ws None s)" and w: "i < length ws" "ws ! i = W_top"
    and s: "mode s \<noteq> CLOSE_SERVER" "queue s = []"
  shows "loop_reach sp lfd n cfg (ws_set (ws[i := W_wait]) None s)"
proof -
  have "loop_reach sp lfd n cfg (ws_set (ws[i := W_lock]) None s)"
    using reach_worker [OF r w_top [of _ i]] w s(1) by simp
  from reach_worker [OF this w_lock [of _ i]] have "loop_reach sp lfd n cfg (ws_set (ws[i := W_test]) (Some i) s)"
    using w by simp
  from reach_worker [OF this w_test [of _ i]] have "loop_reach sp lfd n cfg (ws_set (ws[i := W_sleep]) (Some i) s)"
    using w s by simp
  from reach_worker [OF this w_sleep [of _ i]] show ?thesis using w by simp
qed

lemma init_ws: "loop_init lfd n t st = ws_set (replicate n W_top) None (loop_init lfd n t st)"
  by (simp add: loop_init_def ws_set_def)

lemma loop_starts:
  "\<exists>t st. loop_reach sp lfd n cfg (loop_init lfd n (Some t) st) \<and> server_init cfg [] Ample = Some st \<and>
     entries t = [] \<and> fd_table_ok t"
  using init_table server_init_starts [of cfg "[]"] by (blast intro: loop_start)

lemma accept_ok:
  assumes inv: "loop_inv lfd s" and fd: "client_fd fd" "fd \<notin># open_fds s"
  shows "\<exists>t st. accept_client fd s = Ok (s\<lparr>fdset := insert fd (fdset s), conn_table := t, store := st\<rparr>)"
proof -
  obtain t where t: "conn_table s = Some t" "fd_table_ok t" using inv by (elim loop_invE)
  then have "fd \<notin> set (entries t)" using inv_member [OF inv t(1)] fd(2) by blast
  from fd_insert [OF t(2) fd(1) this] obtain t' where "hashtbl_insert (Some t) fd Ample = Ok (Inr (), Some t', Ample)"
    by blast
  then have "accept_client fd s = Ok (s\<lparr>fdset := insert fd (fdset s), conn_table := Some t',
      store := put_conn (st_conn (curr_state (store s)) + 1) (store s)\<rparr>)"
    using t(1) by (simp add: accept_client_def)
  then show ?thesis by blast
qed

lemma ws_set_fields [simp]:
  "(ws_set ws m s)\<lparr>fdset := F, conn_table := t, store := st\<rparr> = ws_set ws m (s\<lparr>fdset := F, conn_table := t, store := st\<rparr>)"
  "push_request fd (ws_set ws m s)\<lparr>workers := ws'\<rparr> = ws_set ws' m (push_request fd s)"
  "(ws_set ws m s)\<lparr>queue := q, queue_mtx := m'\<rparr> = ws_set ws m' (s\<lparr>queue := q\<rparr>)"
  "(ws_set ws m s)\<lparr>store := st, pipes := ps\<rparr> = ws_set ws m (s\<lparr>store := st, pipes := ps\<rparr>)"
  "(ws_set ws m s)\<lparr>pipes := ps\<rparr> = ws_set ws m (s\<lparr>pipes := ps\<rparr>)"
  "(ws_set ws m s)\<lparr>conn_table := t, store := st\<rparr> = ws_set ws m (s\<lparr>conn_table := t, store := st\<rparr>)"
  "conn_table (ws_set ws m s) = conn_table s"
  by (simp_all add: ws_set_def push_request_def)

lemma woken_for_request:
  assumes lfd: "client_fd lfd" and fd: "client_fd fd" "fd \<noteq> lfd"
  shows "\<exists>s. loop_reach sp lfd 2 cfg (ws_set [W_woken, W_top] None s) \<and> queue s = [fd] \<and> mode s = ACCEPT_CONN"
proof -
  obtain t st where r0: "loop_reach sp lfd 2 cfg (loop_init lfd 2 (Some t) st)" using loop_starts by blast
  let ?i = "loop_init lfd 2 (Some t) st"
  have init: "loop_reach sp lfd 2 cfg (ws_set (replicate 2 W_top) None ?i)" using r0 by (subst init_ws [symmetric])
  have "loop_reach sp lfd 2 cfg (ws_set [W_wait, W_top] None ?i)"
    using worker_sleeps [of sp lfd 2 cfg "replicate 2 W_top" ?i 0] init
    by (simp add: loop_init_def numeral_2_eq_2)
  note r1 = this
  let ?s = "ws_set [W_wait, W_top] None ?i"
  have f: "lfd \<in> fdset ?i" "mode ?i = ACCEPT_CONN" "queue ?i = []" "looping ?i" "fdset ?i = {lfd}" by (simp_all add: loop_init_def)
  have new: "fd \<notin># open_fds ?s" using fd(2) by (simp add: open_fds_def ws_set_def loop_init_def)
  obtain t' st' where acc: "accept_client fd ?s = Ok (?s\<lparr>fdset := insert fd (fdset ?s), conn_table := t', store := st'\<rparr>)"
    using accept_ok [OF loop_reach_inv [OF r1 lfd] fd(1) new] by blast
  let ?j = "?i\<lparr>fdset := insert fd {lfd}, conn_table := t', store := st'\<rparr>"
  have r2: "loop_reach sp lfd 2 cfg (ws_set [W_wait, W_top] None ?j)"
    using reach_main [OF r1 main_accept [OF _ _ _ fd(1) new acc]] f by simp
  have "main_step lfd (ws_set [W_wait, W_top] None ?j) (ws_set [W_woken, W_top] None (push_request fd ?j))"
    using main_request [of "ws_set [W_wait, W_top] None ?j" fd lfd "[W_woken, W_top]"] wake_some [of 0 "[W_wait, W_top]"]
      fd(2) f(4) by simp
  from reach_main [OF r2 this] show ?thesis
    using f(2,3) by (intro exI [of _ "push_request fd ?j"]) (simp add: push_request_def)
qed

text \<open>After \<open>SIGHUP\<close> a connection attempt puts the listening socket into the queue.\<close>

lemma listening_queued:
  "\<exists>s t st. loop_reach sp lfd 1 cfg (ws_set [W_top] None s) \<and> queue s = [lfd] \<and> mode s = REFUSE_CONN \<and> looping s \<and>
     fdset s = {} \<and> pipes s = [[]] \<and> conn_table s = Some t \<and> entries t = [] \<and> fd_table_ok t \<and>
     store s = st \<and> server_init cfg [] Ample = Some st"
proof -
  obtain t st where r0: "loop_reach sp lfd 1 cfg (loop_init lfd 1 (Some t) st)" "server_init cfg [] Ample = Some st"
    "entries t = []" "fd_table_ok t"
    using loop_starts by blast
  let ?R = "(loop_init lfd 1 (Some t) st)\<lparr>mode := REFUSE_CONN, sig_waiting := False\<rparr>"
  have "loop_reach sp lfd 1 cfg ?R"
    using loop_more [OF r0(1) ls_sig [OF sig_caught [of _ SIGHUP]]] by (simp add: sig_mode_def loop_init_def)
  moreover have "?R = ws_set [W_top] None ?R" by (simp add: ws_set_def loop_init_def)
  ultimately have "loop_reach sp lfd 1 cfg (ws_set [W_top] None ?R)" by simp
  from reach_main [OF this main_request [of _ lfd _ "[W_top]"]]
  have "loop_reach sp lfd 1 cfg (ws_set [W_top] None (push_request lfd ?R))"
    using wake_none [of "[W_top]"] by (simp add: loop_init_def)
  then show ?thesis
    using r0(2-4) by (intro exI [of _ "push_request lfd ?R"]) (simp add: push_request_def loop_init_def)
qed

text \<open>A worker takes the first descriptor of the queue and serves it.\<close>

lemma worker_takes:
  assumes r: "loop_reach sp lfd 1 cfg (ws_set [W_top] None s)" and s: "mode s \<noteq> CLOSE_SERVER" "queue s = fd # q" "pipes s = [[]]"
    and serve: "serve_request fd c (store s) = Ok (code, c', st)"
  shows "loop_reach sp lfd 1 cfg (ws_set [W_top] None
    (s\<lparr>queue := q, store := st, pipes := [[\<lparr>res_code = code, res_client = fd\<rparr>]]\<rparr>))"
proof -
  from reach_worker [OF r w_top [of _ 0]] have "loop_reach sp lfd 1 cfg (ws_set [W_lock] None s)" using s by simp
  from reach_worker [OF this w_lock [of _ 0]] have "loop_reach sp lfd 1 cfg (ws_set [W_test] (Some 0) s)" by simp
  from reach_worker [OF this w_test [of _ 0]] have "loop_reach sp lfd 1 cfg (ws_set [W_check] (Some 0) s)" using s by simp
  from reach_worker [OF this w_pop [of _ 0 fd q]]
  have "loop_reach sp lfd 1 cfg (ws_set [W_serve fd] None (s\<lparr>queue := q\<rparr>))" using s by simp
  from reach_worker [OF this w_serve [of _ 0 fd c code c' st]] show ?thesis using s(3) serve by simp
qed

section \<open>Properties\<close>

text \<open>No client is lost and none is served twice, under every interleaving of the main thread, the signal
  handler and the workers: a connected client is in exactly one of the \<open>select\<close> set, the request queue, the hands
  of one worker and the pipe of one worker; nobody else is anywhere; while connections are accepted
  the counter of connections is the number of clients.\<close>

theorem clients_conserved:
  assumes "loop_reach sp lfd n cfg s" "client_fd lfd"
  shows "\<exists>t. conn_table s = Some t \<and>
    (\<forall>fd. fd \<noteq> lfd \<longrightarrow> count (open_fds s) fd = (if fd \<in> set (entries t) then 1 else 0)) \<and>
    (\<forall>i j fd. w_at s i (W_serve fd) \<and> w_at s j (W_serve fd) \<longrightarrow> i = j) \<and>
    (mode s = ACCEPT_CONN \<longrightarrow> st_conn (curr_state (store s)) = word_of_nat (length (entries t)))"
proof -
  have inv: "loop_inv lfd s" using loop_reach_inv [OF assms] .
  then obtain t b where i: "finite (fdset s)" "conn_table s = Some t" "fd_table_ok t" "lfd \<notin> set (entries t)"
    "open_fds s = mset_set (set (entries t) \<union> (if b then {lfd} else {}))" "mode s = ACCEPT_CONN \<Longrightarrow> lfd \<in> fdset s"
    "st_conn (curr_state (store s)) = word_of_nat (card (set (entries t))) - (if b then 0 else 1)"
    by (elim loop_invE) blast
  have d: "card (set (entries t)) = length (entries t)" using i(3) by (simp add: fd_table_ok_def distinct_card)
  have "b" if "mode s = ACCEPT_CONN"
    using fds_tokens [OF i(1) i(6) [OF that]] i(4,5) by (auto split: if_splits)
  moreover have "count (open_fds s) fd = (if fd \<in> set (entries t) then 1 else 0)" if "fd \<noteq> lfd" for fd
    unfolding i(5) using that by (auto simp: count_mset_set')
  ultimately show ?thesis using i(2,7) d served_once [OF inv] by auto
qed

lemma clients_conserved_witness:
  "\<exists>s t. loop_reach True 3 2 demo_config s \<and> conn_table s = Some t \<and> queue s = [5] \<and>
     st_conn (curr_state (store s)) = word_of_nat (length (entries t)) \<and> 5 \<in> set (entries t)"
proof -
  have fds: "client_fd 3" "client_fd 5" by (simp_all add: client_fd_def)
  from woken_for_request [OF this] obtain s where
    s: "loop_reach True 3 2 demo_config (ws_set [W_woken, W_top] None s)" "queue s = [5]" "mode s = ACCEPT_CONN" by auto
  from clients_conserved [OF s(1) fds(1)] obtain t where
    t: "conn_table (ws_set [W_woken, W_top] None s) = Some t"
      "\<And>fd. fd \<noteq> 3 \<Longrightarrow> count (open_fds (ws_set [W_woken, W_top] None s)) fd = (if fd \<in> set (entries t) then 1 else 0)"
      "st_conn (curr_state (store s)) = word_of_nat (length (entries t))"
    using s(3) by auto
  have "5 \<in># open_fds (ws_set [W_woken, W_top] None s)" using s(2) by (simp add: open_fds_def)
  then have "5 \<in> set (entries t)" using t(2) [of 5] by (auto simp flip: count_greater_zero_iff split: if_splits)
  with s t show ?thesis by (intro exI [of _ "ws_set [W_woken, W_top] None s"] exI [of _ t]) simp
qed

lemma stolen_run:
  assumes "client_fd lfd" "client_fd fd" "fd \<noteq> lfd"
  shows "\<exists>s. loop_reach False lfd 2 cfg s \<and> mode s = ACCEPT_CONN \<and> w_at s 0 W_ub \<and> w_at s 1 (W_serve fd)"
proof -
  obtain s where s: "loop_reach False lfd 2 cfg (ws_set [W_woken, W_top] None s)" "queue s = [fd]" "mode s = ACCEPT_CONN"
    using woken_for_request [OF assms] by blast
  from reach_worker [OF s(1) w_top [of _ 1]] have "loop_reach False lfd 2 cfg (ws_set [W_woken, W_lock] None s)"
    using s(3) by simp
  from reach_worker [OF this w_lock [of _ 1]] have "loop_reach False lfd 2 cfg (ws_set [W_woken, W_test] (Some 1) s)" by simp
  from reach_worker [OF this w_test [of _ 1]] have "loop_reach False lfd 2 cfg (ws_set [W_woken, W_check] (Some 1) s)"
    using s(2) by simp
  from reach_worker [OF this w_pop [of _ 1 fd "[]"]]
  have "loop_reach False lfd 2 cfg (ws_set [W_woken, W_serve fd] None (s\<lparr>queue := []\<rparr>))" using s(2,3) by simp
  from reach_worker [OF this w_woken [of _ 0]]
  have "loop_reach False lfd 2 cfg (ws_set [W_check, W_serve fd] (Some 0) (s\<lparr>queue := []\<rparr>))" by simp
  from reach_worker [OF this w_pop_empty [of _ 0]]
  have "loop_reach False lfd 2 cfg (ws_set [W_ub, W_serve fd] None (s\<lparr>queue := []\<rparr>))" using s(3) by simp
  then show ?thesis using s(3) by (intro exI [of _ "ws_set [W_ub, W_serve fd] None (s\<lparr>queue := []\<rparr>)"]) simp
qed

text \<open>When the value left in the variable is the descriptor of the other worker's client, both serve it.\<close>

lemma stale_client_served_twice:
  assumes "client_fd lfd" "client_fd fd" "fd \<noteq> lfd"
  shows "\<exists>s s'. loop_reach False lfd 2 cfg s \<and> stale_step s s' \<and> w_at s' 0 (W_serve fd) \<and> w_at s' 1 (W_serve fd) \<and>
    count (open_fds s') fd = Suc (count (open_fds s) fd)"
proof -
  obtain s where s: "loop_reach False lfd 2 cfg s" "w_at s 0 W_ub" "w_at s 1 (W_serve fd)"
    using stolen_run [OF assms] by blast
  have "i < length (workers s)" "serving (workers s ! 0) = []" if "i = 0" for i using that s(2) by (auto simp: w_at_def)
  then have "mset (concat (map serving ((workers s)[0 := W_serve fd]))) = add_mset fd (mset (concat (map serving (workers s))))"
    using mset_concat_upd [of 0 "workers s" serving "W_serve fd"] by simp
  then have "count (open_fds (w_goto 0 (W_serve fd) s)) fd = Suc (count (open_fds s) fd)"
    by (simp add: open_fds_def w_goto_def)
  moreover have "w_at (w_goto 0 (W_serve fd) s) 0 (W_serve fd)" "w_at (w_goto 0 (W_serve fd) s) 1 (W_serve fd)"
    using s(2,3) by (auto simp: w_at_def w_goto_def nth_list_update)
  ultimately show ?thesis using s(1) stale [OF s(2), of fd] by blast
qed

text \<open>C22: with two workers, a worker that was woken up for a request may find the queue empty, because another
  one took the request first: the condition is tested by an \<open>if\<close>, not again after \<open>pthread_cond_wait\<close>. It
  then goes on with an uninitialised descriptor. No spurious wake-up is needed.\<close>

theorem stolen_request:
  assumes "client_fd lfd" "client_fd fd" "fd \<noteq> lfd"
  shows "\<exists>s. loop_reach False lfd 2 cfg s \<and> mode s = ACCEPT_CONN \<and> w_at s 0 W_ub \<and> w_at s 1 (W_serve fd)"
  by (rule stolen_run [OF assms])

lemma stolen_request_witness: "\<exists>s. loop_reach False 3 2 demo_config s \<and> w_at s 0 W_ub"
  using stolen_request [of 3 5 demo_config] by (auto simp: client_fd_def)

text \<open>C23: a signal to close the server can leave it hanging: when the handler sets the mode just before the
  main thread tests it, the loop ends without a broadcast, and a worker that sleeps on the condition
  variable is never woken up. The main thread then waits for it in \<open>pthread_join\<close>: no step is left.\<close>

theorem shutdown_hangs:
  "\<exists>s. loop_reach False lfd 1 cfg s \<and> \<not> looping s \<and> w_at s 0 W_wait \<and> (\<forall>s'. \<not> loop_step lfd s s')"
proof -
  obtain t st where r0: "loop_reach False lfd 1 cfg (loop_init lfd 1 (Some t) st)" using loop_starts by blast
  let ?i = "loop_init lfd 1 (Some t) st"
  have f: "mode ?i = ACCEPT_CONN" "queue ?i = []" "looping ?i" "sig_waiting ?i" by (simp_all add: loop_init_def)
  have r1: "loop_reach False lfd 1 cfg (ws_set [W_wait] None ?i)"
    using worker_sleeps [of False lfd 1 cfg "[W_top]" ?i 0] r0 init_ws [of lfd 1 "Some t" st] f by simp
  let ?j = "(ws_set [W_wait] None ?i)\<lparr>mode := CLOSE_SERVER, sig_waiting := False\<rparr>"
  have r2: "loop_reach False lfd 1 cfg ?j"
    using loop_more [OF r1 ls_sig [OF sig_caught [of _ SIGINT]]] f by (simp add: sig_mode_def)
  let ?s = "?j\<lparr>looping := False\<rparr>"
  have r3: "loop_reach False lfd 1 cfg ?s" using reach_main [OF r2 main_exit] f by simp
  have at: "w_at ?s i w \<longleftrightarrow> i = 0 \<and> w = W_wait" for i w by (auto simp: w_at_def)
  have "\<not> main_step lfd ?s s'" for s' by (auto elim: main_step.cases)
  moreover have "\<not> sig_step ?s s'" for s' by (auto elim: sig_step.cases)
  moreover have "\<not> worker_step i ?s s'" for i s'
    by (auto simp: w_at_def elim!: worker_step.cases)
  ultimately have "\<not> loop_step lfd ?s s'" for s' by (auto elim: loop_step.cases)
  then show ?thesis using r3 at [of 0 W_wait] by (intro exI [of _ ?s]) simp
qed

text \<open>After \<open>SIGHUP\<close> a connection attempt is taken for a request of the listening socket, because the branch of
  new connections asks for the accepting mode. The worker cannot read from it, the listening socket is
  closed as if it was a client, and the counter of connections goes below the number of clients, here
  from 0 to \<open>UINT_MAX\<close>.\<close>

theorem refused_connection_miscounted:
  assumes lfd: "client_fd lfd" and cfg: "config_ok cfg"
  shows "\<exists>s t. loop_reach False lfd 1 cfg s \<and> mode s = REFUSE_CONN \<and> conn_table s = Some t \<and> entries t = [] \<and>
    lfd \<notin># open_fds s \<and> st_conn (curr_state (store s)) = 2 ^ 32 - 1"
proof -
  obtain s t st where s: "loop_reach False lfd 1 cfg (ws_set [W_top] None s)" "queue s = [lfd]" "mode s = REFUSE_CONN"
    "looping s" "fdset s = {}" "pipes s = [[]]" "conn_table s = Some t" "entries t = []" "fd_table_ok t" "store s = st"
    "server_init cfg [] Ample = Some st" using listening_queued by blast
  from close_client_ok [OF server_init_inv(1) [OF s(11) cfg] lfd] obtain st' where
    st': "close_client lfd st = Ok st'" "st_conn (curr_state st') = st_conn (curr_state st) - 1" by blast
  from fd_remove [OF s(9) lfd] obtain x t' where t': "hashtbl_remove (Some t) lfd = Ok (x, Some t')" "entries t' = []"
    using s(8) by auto
  let ?c = "\<lparr>rx = [], rx_end = Rx_fail, sent = [], room = 0\<rparr>" and ?r = "\<lparr>res_code = MW_FATAL_ERROR, res_client = lfd\<rparr>"
  have "serve_request lfd ?c (store s) = Ok (MW_FATAL_ERROR, ?c, st)"
    by (simp add: serve_request_def conn_readn_def s(10))
  from worker_takes [OF s(1) _ s(2,6) this] s(3)
  have r: "loop_reach False lfd 1 cfg (ws_set [W_top] None (s\<lparr>queue := [], store := st, pipes := [[?r]]\<rparr>))" by simp
  let ?Q = "s\<lparr>queue := [], pipes := [[]], conn_table := Some t', store := st'\<rparr>"
  have "take_result ?r (ws_set [W_top] None (s\<lparr>queue := [], store := st, pipes := [[]]\<rparr>)) = Ok (ws_set [W_top] None ?Q)"
    using s(7) t'(1) st'(1) by (simp add: take_result_def)
  with reach_main [OF r main_result [of _ 0 ?r "[]"]] s(4) have "loop_reach False lfd 1 cfg (ws_set [W_top] None ?Q)"
    by simp
  moreover have "st_conn (curr_state st') = 2 ^ 32 - 1" using st'(2) init_conn [OF s(11)] by simp
  ultimately show ?thesis using s(3,5) t'(2)
    by (intro exI [of _ "ws_set [W_top] None ?Q"] exI [of _ t']) (simp add: open_fds_def)
qed

lemma refused_connection_miscounted_witness:
  "\<exists>s. loop_reach False 3 1 demo_config s \<and> st_conn (curr_state (store s)) = 2 ^ 32 - 1"
  using refused_connection_miscounted [of 3 demo_config]
  by (auto simp: client_fd_def config_ok_def demo_config_def)

end
