(* ===== verification/Whole_Server.thy ===== *)
theory Whole_Server
  imports Transition Overlap Main_Loop
begin

text \<open>
  The server as a whole: the main thread, the signal handler and the workers of \<open>Main_Loop\<close>, with requests
  served in the two parts of \<open>Overlap\<close>, whose replies run message by message beside everything else. It
  refines the system in which a request is one step, so that what \<open>Main_Loop\<close> and \<open>Workers\<close> show of that system
  holds of the server: no client is lost, and the store stays well formed.
\<close>

section \<open>The system\<close>

text \<open>
  A client that has closed its connection, breaks a request off, or sends an operation that no handler serves: the
  worker reports it and the store does not change.
\<close>

definition no_request :: "int \<Rightarrow> conn \<Rightarrow> worker_code_t \<Rightarrow> conn \<Rightarrow> bool" where
  "no_request fd c code c' \<longleftrightarrow> (\<forall>q. smem q = Ample \<longrightarrow> serve_request fd c q = Ok (code, c', q))"

lemma closed_no_request:
  assumes "length (rx c) < 4"
  shows "rx_end c = Rx_eof \<Longrightarrow> no_request fd c MW_CLOSE (c\<lparr>rx := []\<rparr>)"
    "rx_end c = Rx_fail \<Longrightarrow> no_request fd c MW_FATAL_ERROR (c\<lparr>rx := []\<rparr>)"
  using assms by (simp_all add: no_request_def serve_request_def conn_readn_def)

text \<open>A worker writes its result to its pipe and goes back to the top of its loop.\<close>

definition served :: "nat \<Rightarrow> int \<Rightarrow> worker_code_t \<Rightarrow> loop \<Rightarrow> loop" where
  "served i fd code s =
     w_goto i W_top (s\<lparr>pipes := (pipes s)[i := pipes s ! i @ [\<lparr>res_code = code, res_client = fd\<rparr>]]\<rparr>)"

text \<open>
  The state is that of the loop with a task for each worker. A worker that has taken a descriptor from the queue
  reads the request and runs its first part, holding \<open>files_mtx\<close>; it steps through its reply; and it
  reports. All other steps are those of \<open>Main_Loop\<close>, on the store as it is at that moment.
\<close>

inductive whole_step :: "bool \<Rightarrow> int \<Rightarrow> loop \<times> (nat \<Rightarrow> task) \<Rightarrow> loop \<times> (nat \<Rightarrow> task) \<Rightarrow> bool" for sp lfd where
  ws_main: "main_step lfd s s' \<Longrightarrow> whole_step sp lfd (s, W) (s', W)"
| ws_sig: "sig_step s s' \<Longrightarrow> whole_step sp lfd (s, W) (s', W)"
| ws_worker: "worker_step i s s' \<Longrightarrow> (\<And>fd. \<not> w_at s i (W_serve fd)) \<Longrightarrow> whole_step sp lfd (s, W) (s', W)"
| ws_spurious: "sp \<Longrightarrow> w_spurious s s' \<Longrightarrow> whole_step sp lfd (s, W) (s', W)"
| ws_core: "w_at s i (W_serve fd) \<Longrightarrow> W i = Free \<Longrightarrow> can_start fd c r rest ts (store s) \<Longrightarrow>
    request_core r fd ((store s)\<lparr>clock := ts\<rparr>) = Ok (k, st) \<Longrightarrow>
    whole_step sp lfd (s, W) (s\<lparr>store := st\<rparr>, W(i := begin_reply k (c\<lparr>rx := rest\<rparr>)))"
| ws_void: "w_at s i (W_serve fd) \<Longrightarrow> W i = Free \<Longrightarrow> no_request fd c code c' \<Longrightarrow>
    whole_step sp lfd (s, W) (s, W(i := Finished code c'))"
| ws_reply: "w_at s i (W_serve fd) \<Longrightarrow> task_step (W i) (store s) = Ok (t, st) \<Longrightarrow>
    whole_step sp lfd (s, W) (s\<lparr>store := st\<rparr>, W(i := t))"
| ws_done: "w_at s i (W_serve fd) \<Longrightarrow> W i = Finished code c \<Longrightarrow> i < length (pipes s) \<Longrightarrow>
    whole_step sp lfd (s, W) (served i fd code s, W(i := Free))"

definition start_of :: "int \<Rightarrow> nat \<Rightarrow> server_config_t \<Rightarrow> loop \<Rightarrow> bool" where
  "start_of lfd n cfg s \<longleftrightarrow> (\<exists>ts t st. server_init cfg ts Ample = Some st \<and>
     hashtbl_init HASH_N_LIST default_hashtbl_hash Ample = (Inr (), t, Ample) \<and> s = loop_init lfd n t st)"

definition whole_init :: "int \<Rightarrow> nat \<Rightarrow> server_config_t \<Rightarrow> loop \<times> (nat \<Rightarrow> task) \<Rightarrow> bool" where
  "whole_init lfd n cfg x \<longleftrightarrow> start_of lfd n cfg (fst x) \<and> snd x = (\<lambda>_. Free)"

text \<open>The same with every request in one step; the requests of the clients are well formed, or none.\<close>

inductive orderly_step :: "bool \<Rightarrow> int \<Rightarrow> loop \<Rightarrow> loop \<Rightarrow> bool" for sp lfd where
  or_main: "main_step lfd s s' \<Longrightarrow> orderly_step sp lfd s s'"
| or_sig: "sig_step s s' \<Longrightarrow> orderly_step sp lfd s s'"
| or_worker: "worker_step i s s' \<Longrightarrow> (\<And>fd. \<not> w_at s i (W_serve fd)) \<Longrightarrow> orderly_step sp lfd s s'"
| or_spurious: "sp \<Longrightarrow> w_spurious s s' \<Longrightarrow> orderly_step sp lfd s s'"
| or_serve: "w_at s i (W_serve fd) \<Longrightarrow> i < length (pipes s) \<Longrightarrow> can_start fd c r rest ts (store s) \<Longrightarrow>
    serve_request fd c ((store s)\<lparr>clock := ts\<rparr>) = Ok (code, c', st) \<Longrightarrow>
    orderly_step sp lfd s (served i fd code (s\<lparr>store := st\<rparr>))"
| or_void: "w_at s i (W_serve fd) \<Longrightarrow> i < length (pipes s) \<Longrightarrow> no_request fd c code c' \<Longrightarrow>
    orderly_step sp lfd s (served i fd code s)"

abbreviation whole :: "bool \<Rightarrow> int \<Rightarrow> nat \<Rightarrow> server_config_t \<Rightarrow> loop \<times> (nat \<Rightarrow> task) \<Rightarrow> bool" where
  "whole sp lfd n cfg \<equiv> reachable (whole_init lfd n cfg) (whole_step sp lfd)"

abbreviation orderly :: "bool \<Rightarrow> int \<Rightarrow> nat \<Rightarrow> server_config_t \<Rightarrow> loop \<Rightarrow> bool" where
  "orderly sp lfd n cfg \<equiv> reachable (start_of lfd n cfg) (orderly_step sp lfd)"

section \<open>Requests in one step\<close>

text \<open>The orderly system is the one of \<open>Main_Loop\<close>, and its store is well formed.\<close>

lemma put_conn_fields [simp]:
  "files (put_conn n st) = files st" "fheap (put_conn n st) = fheap st" "fnext (put_conn n st) = fnext st"
  "config (put_conn n st) = config st" "smem (put_conn n st) = smem st" "clock (put_conn n st) = clock st"
  by (simp_all add: put_conn_def)

lemma put_conn_inv [simp]: "server_inv (put_conn n st) = server_inv st"
  by (simp add: put_conn_def server_inv_def store_ok_def limits_ok_def idle_def watermarks_ok_def cong: option.case_cong)

lemma served_serve:
  assumes "w_at s i (W_serve fd)" "i < length (pipes s)" "serve_request fd c (store s) = Ok (code, c', st)"
  shows "worker_step i s (served i fd code (s\<lparr>store := st\<rparr>))"
  using w_serve [OF assms(1,3,2)] by (simp add: served_def)

lemma result_client_fd:
  assumes inv: "loop_inv lfd s" and lfd: "client_fd lfd" and j: "j < length (pipes s)" "pipes s ! j = r # rs"
  shows "client_fd (res_client r)"
proof -
  have "res_client r \<in># open_fds s" using pipe_tokens [OF j] by simp
  then show ?thesis using inv lfd by (elim loop_invE) (auto split: if_splits)
qed

lemma main_step_store:
  assumes inv: "loop_inv lfd s" and lfd: "client_fd lfd" and step: "main_step lfd s s'"
  obtains "store s' = store s"
  | n where "store s' = put_conn n (store s)"
  | fd where "client_fd fd" "close_client fd (store s) = Ok (store s')"
  using step
proof cases
  case (main_accept fd)
  then show thesis using that(2) by (auto simp: accept_client_def rbind_eq_Ok)
next
  case (main_result j r rs)
  then show thesis
    using that(1,3) result_client_fd [OF inv lfd main_result(2,3)] by (auto simp: take_result_def rbind_eq_Ok split: if_splits)
qed (use that(1) in \<open>auto simp: push_request_def\<close>)

lemma worker_step_store: "worker_step i s s' \<Longrightarrow> (\<And>fd. \<not> w_at s i (W_serve fd)) \<Longrightarrow> store s' = store s"
  by (cases rule: worker_step.cases) (auto simp: w_goto_def)

lemma close_client_config:
  assumes "close_client fd st = Ok st'"
  shows "config st' = config st"
  using postD [OF post_close_client assms] by simp

lemma serve_inv:
  assumes "server_inv st" "can_start fd c r rest ts st" "serve_request fd c (st\<lparr>clock := ts\<rparr>) = Ok (code, c', st')"
  shows "server_inv st' \<and> config st' = config st"
proof -
  obtain t1 t2 ts' where s: "client_fd fd" "request_ok r" "rx c = request_msg r @ rest" "ts = t1 # t2 # ts'" "can_reply r c st"
    using can_start_settle [OF assms(2)] by metis
  from serve_ok [of "st\<lparr>clock := ts\<rparr>" fd r c rest t1 t2 ts'] s assms(1,3) show ?thesis by auto
qed

lemma orderly_reached:
  assumes "orderly sp lfd n cfg s" "config_ok cfg" "client_fd lfd"
  shows "loop_reach True lfd n cfg s \<and> server_inv (store s) \<and> config (store s) = cfg"
  using assms(1)
proof (induction rule: reachable_induct)
  case (start s)
  then obtain ts t st where s: "server_init cfg ts Ample = Some st"
    "hashtbl_init HASH_N_LIST default_hashtbl_hash Ample = (Inr (), t, Ample)" "s = loop_init lfd n t st"
    by (auto simp: start_of_def)
  with server_init_inv [OF s(1) assms(2)] loop_start [OF s(1,2)] show ?case by (simp add: loop_init_def)
next
  case (step s s')
  then have r: "loop_reach True lfd n cfg s" "server_inv (store s)" "config (store s) = cfg" by auto
  note inv = loop_reach_inv [OF r(1) assms(3)]
  from step.hyps(2) show ?case
  proof (cases rule: orderly_step.cases)
    case or_main
    from main_step_store [OF inv assms(3) this] have "server_inv (store s') \<and> config (store s') = cfg"
    proof cases
      case (3 fd)
      with close_client_ok [OF r(2)] r(3) close_client_config show ?thesis by force
    qed (use r in simp_all)
    then show ?thesis using loop_more [OF r(1) ls_main [OF or_main]] by blast
  next
    case or_sig
    then have "store s' = store s" by (cases rule: sig_step.cases) simp
    then show ?thesis using loop_more [OF r(1) ls_sig [OF or_sig]] r by simp
  next
    case (or_worker i)
    then show ?thesis using loop_more [OF r(1) ls_worker [OF or_worker(1)]] worker_step_store [OF or_worker] r by simp
  next
    case or_spurious
    then have "store s' = store s" by (auto elim!: w_spurious.cases simp: w_goto_def)
    then show ?thesis using loop_spurious [OF TrueI r(1) or_spurious(2)] r by simp
  next
    case (or_serve i fd c r' rest ts code c' st)
    let ?s = "s\<lparr>store := (store s)\<lparr>clock := ts\<rparr>\<rparr>"
    have "worker_step i ?s (served i fd code (?s\<lparr>store := st\<rparr>))"
      by (rule served_serve) (use or_serve in \<open>simp_all add: w_at_def\<close>)
    moreover have "served i fd code (?s\<lparr>store := st\<rparr>) = s'" using or_serve(1) by simp
    ultimately have "loop_reach True lfd n cfg s'" using loop_more [OF loop_clock [OF r(1)] ls_worker] by metis
    moreover have "store s' = st" using or_serve(1) by (simp add: served_def w_goto_def)
    ultimately show ?thesis using serve_inv [OF r(2) or_serve(4,5)] r(3) by simp
  next
    case (or_void i fd c code c')
    have "smem (store s) = Ample" using r(2) by (auto simp: server_inv_def store_ok_def)
    then have "serve_request fd c (store s) = Ok (code, c', store s)" using or_void(4) by (simp add: no_request_def)
    from served_serve [OF or_void(2,3) this] have "worker_step i s s'" using or_void(1) by simp
    moreover have "store s' = store s" using or_void(1) by (simp add: served_def w_goto_def)
    ultimately show ?thesis using loop_more [OF r(1) ls_worker] r by metis
  qed
qed

section \<open>What a state of the server stands for\<close>

text \<open>
  In the state with requests in one step, a worker that is serving has already reported: its result waits in its
  pipe, behind those that are there, and the store is settled. \<open>started\<close> says how worker \<open>i\<close> stands in both.
\<close>

definition stands :: "loop \<Rightarrow> (nat \<Rightarrow> task) \<Rightarrow> loop \<Rightarrow> nat \<Rightarrow> bool" where
  "stands s W a i \<longleftrightarrow>
     (if W i = Free then workers a ! i = workers s ! i \<and> pipes a ! i = pipes s ! i
      else workers a ! i = W_top \<and> (\<exists>fd code c. workers s ! i = W_serve fd \<and> said (W i) (store s) = Ok (code, c) \<and>
        pipes a ! i = pipes s ! i @ [\<lparr>res_code = code, res_client = fd\<rparr>]))"

definition covers :: "nat \<Rightarrow> loop \<Rightarrow> loop \<times> (nat \<Rightarrow> task) \<Rightarrow> bool" where
  "covers n a x \<longleftrightarrow> (case x of (s, W) \<Rightarrow>
     mode a = mode s \<and> sig_waiting a = sig_waiting s \<and> looping a = looping s \<and> fdset a = fdset s \<and>
     conn_table a = conn_table s \<and> queue a = queue s \<and> queue_mtx a = queue_mtx s \<and>
     store a = settle (all_dying n W) (store s) \<and> overlap_inv n (store s) W \<and>
     length (workers s) = n \<and> length (pipes s) = n \<and> length (workers a) = n \<and> length (pipes a) = n \<and>
     (\<forall>i < n. stands s W a i))"

lemma coversE:
  assumes "covers n a (s, W)"
  obtains "mode a = mode s" "sig_waiting a = sig_waiting s" "looping a = looping s" "fdset a = fdset s"
    "conn_table a = conn_table s" "queue a = queue s" "queue_mtx a = queue_mtx s"
    "store a = settle (all_dying n W) (store s)" "overlap_inv n (store s) W"
    "length (workers s) = n" "length (pipes s) = n" "length (workers a) = n" "length (pipes a) = n"
    "\<And>i. i < n \<Longrightarrow> stands s W a i"
  using assms unfolding covers_def by auto

text \<open>A change of the two states that no worker under way takes part in.\<close>

lemma covers_move:
  assumes c: "covers n a (s, W)"
    and m: "mode a' = mode s'" "sig_waiting a' = sig_waiting s'" "looping a' = looping s'" "fdset a' = fdset s'"
      "conn_table a' = conn_table s'" "queue a' = queue s'" "queue_mtx a' = queue_mtx s'"
    and st: "store a' = settle (all_dying n W) (store s')" "overlap_inv n (store s') W"
      "\<And>j. j < n \<Longrightarrow> said (W j) (store s') = said (W j) (store s)"
    and len: "length (workers s') = n" "length (pipes s') = n" "length (workers a') = n" "length (pipes a') = n"
    and free: "\<And>j. j < n \<Longrightarrow> W j = Free \<Longrightarrow> workers a' ! j = workers s' ! j \<and> pipes a' ! j = pipes s' ! j"
    and busy: "\<And>j fd. j < n \<Longrightarrow> W j \<noteq> Free \<Longrightarrow> workers s ! j = W_serve fd \<Longrightarrow> workers a ! j = W_top \<Longrightarrow>
      workers s' ! j = W_serve fd \<and> workers a' ! j = W_top \<and>
      (\<forall>x. pipes a ! j = pipes s ! j @ [x] \<longrightarrow> pipes a' ! j = pipes s' ! j @ [x])"
  shows "covers n a' (s', W)"
proof -
  have "stands s' W a' j" if j: "j < n" for j
  proof (cases "W j = Free")
    case True
    then show ?thesis using free [OF j] by (simp add: stands_def)
  next
    case False
    have "stands s W a j" using c j by (elim coversE)
    with False obtain fd code x where "workers a ! j = W_top" "workers s ! j = W_serve fd"
      "said (W j) (store s) = Ok (code, x)" "pipes a ! j = pipes s ! j @ [\<lparr>res_code = code, res_client = fd\<rparr>]"
      by (auto simp: stands_def)
    with busy [OF j False this(2,1)] False st(3) [OF j] show ?thesis by (auto simp: stands_def)
  qed
  with assms show ?thesis unfolding covers_def by simp
qed

lemma covers_serving: "covers n a (s, W) \<Longrightarrow> i < n \<Longrightarrow> W i \<noteq> Free \<Longrightarrow> \<exists>fd. workers s ! i = W_serve fd \<and> workers a ! i = W_top"
  by (elim coversE) (fastforce simp: stands_def)

lemma covers_free:
  assumes "covers n a (s, W)" "i < n" "\<And>fd. workers s ! i \<noteq> W_serve fd"
  shows "W i = Free" "workers a ! i = workers s ! i" "pipes a ! i = pipes s ! i"
proof -
  show "W i = Free" using covers_serving [OF assms(1,2)] assms(3) by auto
  moreover have "stands s W a i" using assms(1,2) by (elim coversE)
  ultimately show "workers a ! i = workers s ! i" "pipes a ! i = pipes s ! i" by (simp_all add: stands_def)
qed

text \<open>The descriptors are the same: one that is being served in the one is in a pipe of the other.\<close>

lemma concat_mset_sum: "mset (concat (map f xs)) = (\<Sum>i < length xs. mset (f (xs ! i)))"
  by (induction xs) (simp_all add: sum.lessThan_Suc_shift del: sum.lessThan_Suc)

lemma covers_tokens:
  assumes c: "covers n a (s, W)"
  shows "open_fds a = open_fds s"
proof -
  let ?t = "\<lambda>x i. mset (serving (workers x ! i)) + mset (map res_client (pipes x ! i))"
  have "?t a i = ?t s i" if "i < n" for i
  proof -
    have "stands s W a i" using c that by (elim coversE)
    then show ?thesis by (auto simp: stands_def split: if_splits)
  qed
  then have eq: "(\<Sum>i < n. ?t a i) = (\<Sum>i < n. ?t s i)" by (intro sum.cong) auto
  have sum: "mset (concat (map serving (workers x))) + mset (concat (map (map res_client) (pipes x))) = (\<Sum>i < n. ?t x i)"
    if "length (workers x) = n" "length (pipes x) = n" for x
    using that by (simp only: concat_mset_sum sum.distrib)
  have len: "length (workers a) = n" "length (pipes a) = n" "length (workers s) = n" "length (pipes s) = n"
    and same: "fdset a = fdset s" "queue a = queue s" using c by (auto elim: coversE)
  show ?thesis unfolding open_fds_def add.assoc sum [OF len(1,2)] sum [OF len(3,4)] eq same ..
qed

section \<open>The simulation\<close>

text \<open>The main thread.\<close>

lemma overlap_inv_conn [simp]: "overlap_inv n (put_conn m st) W = overlap_inv n st W"
proof -
  have "settle D (put_conn m st) = put_conn m (settle D st)" for D by (simp add: put_conn_def settle_def)
  moreover have "fine t (put_conn m st) = fine t st" for t
    using fine_view [of t st "put_conn m st"] fine_view [of t "put_conn m st" st] by (auto simp: view_def)
  moreover have "rd (put_conn m st) = rd st" by (rule rd_cong) simp
  ultimately show ?thesis by (simp add: overlap_inv_def)
qed

lemma settle_put_conn: "settle D (put_conn m st) = put_conn m (settle D st)"
  by (simp add: put_conn_def settle_def)

lemma said_put_conn [simp]: "said t (put_conn m st) = said t st"
  by (rule said_view) (simp add: view_def)

lemma sim_accept:
  assumes c: "covers n a (s, W)" and run: "accept_client fd s = Ok s'"
  shows "\<exists>a'. accept_client fd a = Ok a' \<and> covers n a' (s', W)"
proof -
  obtain x t m where t: "hashtbl_insert (conn_table s) fd Ample = Ok (x, t, m)"
    "s' = s\<lparr>fdset := insert fd (fdset s), conn_table := t, store := put_conn (st_conn (curr_state (store s)) + 1) (store s)\<rparr>"
    using run by (auto simp: accept_client_def rbind_eq_Ok)
  let ?a = "a\<lparr>fdset := insert fd (fdset a), conn_table := t, store := put_conn (st_conn (curr_state (store a)) + 1) (store a)\<rparr>"
  have "accept_client fd a = Ok ?a" using c t(1) by (elim coversE) (simp add: accept_client_def)
  moreover have "covers n ?a (s', W)"
    by (rule covers_move [OF c]) (use c in \<open>auto elim!: coversE simp: t(2) settle_put_conn stands_def split: if_splits\<close>)
  ultimately show ?thesis by blast
qed

lemma same_waiting:
  assumes "covers n a (s, W)" "i < n"
  shows "workers a ! i = W_wait \<longleftrightarrow> workers s ! i = W_wait"
  using covers_serving [OF assms] covers_free [OF assms]
  by (cases "W i = Free") (use assms in \<open>auto elim!: coversE simp: stands_def\<close>)

lemma sim_wake_one:
  assumes c: "covers n a (s, W)" and w: "wake_one (workers s) ws"
  shows "\<exists>wa. wake_one (workers a) wa \<and> length wa = n \<and> length ws = n \<and>
    (\<forall>j < n. wa ! j = (if ws ! j \<noteq> workers s ! j then ws ! j else workers a ! j)) \<and>
    (\<forall>j < n. ws ! j \<noteq> workers s ! j \<longrightarrow> workers s ! j = W_wait)"
proof -
  have len: "length (workers s) = n" "length (workers a) = n" using c by (auto elim: coversE)
  show ?thesis using w
  proof cases
    case wake_none
    then have "W_wait \<notin> set (workers a)" using same_waiting [OF c] len by (auto simp: in_set_conv_nth)
    then show ?thesis using wake_none len by (auto intro: wake_one.wake_none)
  next
    case (wake_some i)
    then have "workers a ! i = W_wait" using same_waiting [OF c] len by simp
    then show ?thesis using wake_some len
      by (intro exI [of _ "(workers a)[i := W_woken]"]) (auto intro: wake_one.wake_some simp: nth_list_update)
  qed
qed

lemma sim_request:
  assumes c: "covers n a (s, W)" and w: "wake_one (workers s) ws"
  shows "\<exists>wa. wake_one (workers a) wa \<and> covers n (push_request fd a\<lparr>workers := wa\<rparr>) (push_request fd s\<lparr>workers := ws\<rparr>, W)"
proof -
  from sim_wake_one [OF assms] obtain wa where wa: "wake_one (workers a) wa" "length wa = n" "length ws = n"
    "\<And>j. j < n \<Longrightarrow> wa ! j = (if ws ! j \<noteq> workers s ! j then ws ! j else workers a ! j)"
    "\<And>j. j < n \<Longrightarrow> ws ! j \<noteq> workers s ! j \<Longrightarrow> workers s ! j = W_wait" by blast
  have "covers n (push_request fd a\<lparr>workers := wa\<rparr>) (push_request fd s\<lparr>workers := ws\<rparr>, W)"
  proof (rule covers_move [OF c])
    fix j assume j: "j < n" "W j = Free"
    have "stands s W a j" using c j(1) by (elim coversE)
    then show "workers (push_request fd a\<lparr>workers := wa\<rparr>) ! j = workers (push_request fd s\<lparr>workers := ws\<rparr>) ! j \<and>
        pipes (push_request fd a\<lparr>workers := wa\<rparr>) ! j = pipes (push_request fd s\<lparr>workers := ws\<rparr>) ! j"
      using j wa(4) by (simp add: push_request_def stands_def)
  next
    fix j fd' assume j: "j < n" "workers s ! j = W_serve fd'" "workers a ! j = W_top"
    then have "ws ! j = workers s ! j" using wa(5) by fastforce
    then show "workers (push_request fd s\<lparr>workers := ws\<rparr>) ! j = W_serve fd' \<and> workers (push_request fd a\<lparr>workers := wa\<rparr>) ! j = W_top \<and>
        (\<forall>x. pipes a ! j = pipes s ! j @ [x] \<longrightarrow>
          pipes (push_request fd a\<lparr>workers := wa\<rparr>) ! j = pipes (push_request fd s\<lparr>workers := ws\<rparr>) ! j @ [x])"
      using j wa(4) by (simp add: push_request_def)
  qed (use c wa(2,3) in \<open>auto elim!: coversE simp: push_request_def\<close>)
  with wa(1) show ?thesis by blast
qed

lemma sim_result:
  assumes c: "covers n a (s, W)" and n: "n < 2 ^ 32" and fd: "client_fd (res_client r)"
    and j: "j < length (pipes s)" "pipes s ! j = r # rs"
    and run: "take_result r (s\<lparr>pipes := (pipes s)[j := rs]\<rparr>) = Ok s'"
  shows "\<exists>a' ra. j < length (pipes a) \<and> pipes a ! j = r # ra \<and> take_result r (a\<lparr>pipes := (pipes a)[j := ra]\<rparr>) = Ok a' \<and>
    covers n a' (s', W)"
proof -
  have jn: "j < n" and len: "length (pipes s) = n" "length (pipes a) = n" using c j(1) by (auto elim: coversE)
  have "stands s W a j" using c jn by (elim coversE)
  then have p: "pipes a ! j = r # rs \<and> W j = Free \<or> (\<exists>x. pipes a ! j = r # rs @ [x]) \<and> W j \<noteq> Free"
    unfolding stands_def j(2) by (cases "W j = Free") auto
  define ra where "ra = tl (pipes a ! j)"
  have ra: "pipes a ! j = r # ra" "W j = Free \<Longrightarrow> ra = rs" using p by (auto simp: ra_def)
  have ra': "ra = rs @ [x]" if "pipes a ! j = pipes s ! j @ [x]" for x using that j(2) by (simp add: ra_def)
  let ?s = "s\<lparr>pipes := (pipes s)[j := rs]\<rparr>" and ?a = "a\<lparr>pipes := (pipes a)[j := ra]\<rparr>"
  have st: "stands s W a i" if "i < n" for i using c that by (elim coversE)
  have move: "covers n (?a\<lparr>fdset := F, conn_table := t, store := settle (all_dying n W) q\<rparr>) (?s\<lparr>fdset := F, conn_table := t, store := q\<rparr>, W)"
    if q: "overlap_inv n q W" "\<And>i. i < n \<Longrightarrow> said (W i) q = said (W i) (store s)" for F t q
  proof (rule covers_move [OF c])
    fix i assume i: "i < n" "W i = Free"
    then show "workers (?a\<lparr>fdset := F, conn_table := t, store := settle (all_dying n W) q\<rparr>) ! i =
          workers (?s\<lparr>fdset := F, conn_table := t, store := q\<rparr>) ! i \<and>
        pipes (?a\<lparr>fdset := F, conn_table := t, store := settle (all_dying n W) q\<rparr>) ! i =
          pipes (?s\<lparr>fdset := F, conn_table := t, store := q\<rparr>) ! i"
      using st [OF i(1)] ra(2) len jn by (cases "i = j") (auto simp: stands_def)
  next
    fix i fd' assume i: "i < n" "workers s ! i = W_serve fd'" "workers a ! i = W_top"
    then show "workers (?s\<lparr>fdset := F, conn_table := t, store := q\<rparr>) ! i = W_serve fd' \<and>
        workers (?a\<lparr>fdset := F, conn_table := t, store := settle (all_dying n W) q\<rparr>) ! i = W_top \<and>
        (\<forall>x. pipes a ! i = pipes s ! i @ [x] \<longrightarrow> pipes (?a\<lparr>fdset := F, conn_table := t, store := settle (all_dying n W) q\<rparr>) ! i =
          pipes (?s\<lparr>fdset := F, conn_table := t, store := q\<rparr>) ! i @ [x])"
      using ra' len jn by (cases "i = j") auto
  qed (use c in \<open>elim coversE, simp add: q\<close>)+
  have same: "fdset a = fdset s" "conn_table a = conn_table s" "store a = settle (all_dying n W) (store s)" "overlap_inv n (store s) W"
    using c by (auto elim: coversE)
  show ?thesis
  proof (cases "res_code r = MW_SUCCESS \<or> res_code r = MW_NON_FATAL_ERROR")
    case True
    then have "s' = ?s\<lparr>fdset := insert (res_client r) (fdset s), conn_table := conn_table s, store := store s\<rparr>"
      using run by (cases s) (auto simp: take_result_def)
    moreover have "take_result r ?a = Ok (?a\<lparr>fdset := insert (res_client r) (fdset s), conn_table := conn_table s,
        store := settle (all_dying n W) (store s)\<rparr>)"
      using True same by (cases a) (auto simp: take_result_def)
    moreover have "covers n (?a\<lparr>fdset := insert (res_client r) (fdset s), conn_table := conn_table s,
        store := settle (all_dying n W) (store s)\<rparr>) (?s\<lparr>fdset := insert (res_client r) (fdset s),
        conn_table := conn_table s, store := store s\<rparr>, W)"
      by (rule move [OF same(4)]) simp
    ultimately show ?thesis using ra(1) jn len by simp
  next
    case False
    then obtain x t q where q: "hashtbl_remove (conn_table s) (res_client r) = Ok (x, t)"
      "close_client (res_client r) (store s) = Ok q" "s' = ?s\<lparr>fdset := fdset s, conn_table := t, store := q\<rparr>"
      using run by (auto simp: take_result_def rbind_eq_Ok)
    note l = leave_keeps_inv [OF same(4) n fd q(2)]
    have "take_result r ?a = Ok (?a\<lparr>fdset := fdset s, conn_table := t, store := settle (all_dying n W) q\<rparr>)"
      using False same q(1) l by (simp add: take_result_def)
    moreover have "covers n (?a\<lparr>fdset := fdset s, conn_table := t, store := settle (all_dying n W) q\<rparr>) (s', W)"
      unfolding q(3) by (rule move) (use l in simp_all)
    ultimately show ?thesis using ra(1) jn len by simp
  qed
qed

lemma sim_wake_all:
  assumes c: "covers n a (s, W)"
  shows "covers n (a\<lparr>mode := m, workers := wake_all (workers a), looping := False\<rparr>)
    (s\<lparr>mode := m, workers := wake_all (workers s), looping := False\<rparr>, W)"
proof (rule covers_move [OF c])
  have st: "stands s W a j" if "j < n" for j using c that by (elim coversE)
  have len: "length (workers s) = n" "length (workers a) = n" using c by (auto elim: coversE)
  show "workers (a\<lparr>mode := m, workers := wake_all (workers a), looping := False\<rparr>) ! j =
        workers (s\<lparr>mode := m, workers := wake_all (workers s), looping := False\<rparr>) ! j \<and>
      pipes (a\<lparr>mode := m, workers := wake_all (workers a), looping := False\<rparr>) ! j =
        pipes (s\<lparr>mode := m, workers := wake_all (workers s), looping := False\<rparr>) ! j" if "j < n" "W j = Free" for j
    using st [OF that(1)] that len by (simp add: stands_def wake_all_def)
  show "workers (s\<lparr>mode := m, workers := wake_all (workers s), looping := False\<rparr>) ! j = W_serve fd \<and>
      workers (a\<lparr>mode := m, workers := wake_all (workers a), looping := False\<rparr>) ! j = W_top \<and>
      (\<forall>x. pipes a ! j = pipes s ! j @ [x] \<longrightarrow> pipes (a\<lparr>mode := m, workers := wake_all (workers a), looping := False\<rparr>) ! j =
        pipes (s\<lparr>mode := m, workers := wake_all (workers s), looping := False\<rparr>) ! j @ [x])"
    if "j < n" "workers s ! j = W_serve fd" "workers a ! j = W_top" for j fd
    using that len by (simp add: wake_all_def)
qed (use c in \<open>elim coversE, simp add: wake_all_def\<close>)+

lemma covers_quiet:
  assumes c: "covers n a (s, W)"
  shows "covers n (a\<lparr>looping := False\<rparr>) (s\<lparr>looping := False\<rparr>, W)"
    "covers n (a\<lparr>mode := m, sig_waiting := False\<rparr>) (s\<lparr>mode := m, sig_waiting := False\<rparr>, W)"
  by (rule covers_move [OF c]; use c in \<open>auto elim!: coversE simp: stands_def split: if_splits\<close>)+

lemma sim_main:
  assumes c: "covers n a (s, W)" and n: "n < 2 ^ 32" and inv: "loop_inv lfd a" and lfd: "client_fd lfd"
    and step: "main_step lfd s s'"
  shows "\<exists>a'. main_step lfd a a' \<and> covers n a' (s', W)"
proof -
  have same: "mode a = mode s" "sig_waiting a = sig_waiting s" "looping a = looping s" "fdset a = fdset s"
    "conn_table a = conn_table s" "queue_mtx a = queue_mtx s" using c by (auto elim: coversE)
  from step show ?thesis
  proof cases
    case (main_accept fd)
    from sim_accept [OF c main_accept(6)] obtain a' where "accept_client fd a = Ok a'" "covers n a' (s', W)" by blast
    moreover from this(1) have "main_step lfd a a'"
      using main_step.main_accept [of a lfd fd a'] main_accept(1-5) same covers_tokens [OF c] by simp
    ultimately show ?thesis by blast
  next
    case (main_request fd ws)
    from sim_request [OF c main_request(6)] obtain wa where
      "wake_one (workers a) wa" "covers n (push_request fd a\<lparr>workers := wa\<rparr>) (s', W)" unfolding main_request(1) by blast
    moreover from this(1) have "main_step lfd a (push_request fd a\<lparr>workers := wa\<rparr>)"
      using main_step.main_request [of a fd lfd wa] main_request(2-5) same by simp
    ultimately show ?thesis by blast
  next
    case (main_result j r rs)
    from c obtain len: "length (pipes s) = n" "length (pipes a) = n" "stands s W a j"
      using main_result(2) by (auto elim: coversE)
    have "res_client r \<in># open_fds a" using pipe_tokens [OF main_result(2,3)] covers_tokens [OF c] by simp
    then have "client_fd (res_client r)" using inv lfd by (elim loop_invE) (auto split: if_splits)
    from sim_result [OF c n this main_result(2-4)] show ?thesis
      using main_result(1) same main_step.main_result [of a] by metis
  next
    case main_signal
    then show ?thesis using main_step.main_signal [of a lfd] sim_wake_all [OF c, of "mode s"] same
      by (cases a; cases s) auto
  next
    case main_last
    have "table_empty a = table_empty s" using same by (simp add: table_empty_def)
    then show ?thesis using main_last main_step.main_last [of a lfd] sim_wake_all [OF c, of CLOSE_SERVER] same by auto
  next
    case main_exit
    then show ?thesis using main_step.main_exit [of a lfd] covers_quiet(1) [OF c] same by auto
  qed
qed

text \<open>A worker that is not serving.\<close>

lemma covers_goto:
  assumes c: "covers n a (s, W)" and i: "i < n" "\<And>fd. workers s ! i \<noteq> W_serve fd"
  shows "covers n (w_goto i w (a\<lparr>queue := q, queue_mtx := x\<rparr>)) (w_goto i w (s\<lparr>queue := q, queue_mtx := x\<rparr>), W)"
proof (rule covers_move [OF c])
  note free = covers_free [OF c i]
  have st: "stands s W a j" if "j < n" for j using c that by (elim coversE)
  have len: "length (workers s) = n" "length (workers a) = n" using c by (auto elim: coversE)
  show "workers (w_goto i w (a\<lparr>queue := q, queue_mtx := x\<rparr>)) ! j = workers (w_goto i w (s\<lparr>queue := q, queue_mtx := x\<rparr>)) ! j \<and>
      pipes (w_goto i w (a\<lparr>queue := q, queue_mtx := x\<rparr>)) ! j = pipes (w_goto i w (s\<lparr>queue := q, queue_mtx := x\<rparr>)) ! j"
    if "j < n" "W j = Free" for j
    using st [OF that(1)] that len by (cases "j = i") (auto simp: stands_def w_goto_def)
  show "workers (w_goto i w (s\<lparr>queue := q, queue_mtx := x\<rparr>)) ! j = W_serve fd \<and>
      workers (w_goto i w (a\<lparr>queue := q, queue_mtx := x\<rparr>)) ! j = W_top \<and>
      (\<forall>y. pipes a ! j = pipes s ! j @ [y] \<longrightarrow> pipes (w_goto i w (a\<lparr>queue := q, queue_mtx := x\<rparr>)) ! j =
        pipes (w_goto i w (s\<lparr>queue := q, queue_mtx := x\<rparr>)) ! j @ [y])"
    if "j < n" "W j \<noteq> Free" "workers s ! j = W_serve fd" "workers a ! j = W_top" for j fd
    using that free(1) len by (cases "j = i") (auto simp: w_goto_def)
qed (use c in \<open>elim coversE, simp add: w_goto_def\<close>)+

lemma sim_worker:
  assumes c: "covers n a (s, W)" and step: "worker_step i s s'" and out: "\<And>fd. \<not> w_at s i (W_serve fd)"
  shows "\<exists>a'. worker_step i a a' \<and> covers n a' (s', W)"
proof -
  have same: "mode a = mode s" "queue a = queue s" "queue_mtx a = queue_mtx s" using c by (auto elim: coversE)
  have len: "length (workers s) = n" "length (workers a) = n" using c by (auto elim: coversE)
  have i: "i < n" using step len by cases (auto simp: w_at_def)
  have no: "workers s ! i \<noteq> W_serve fd" for fd using out [of fd] i len by (simp add: w_at_def)
  have at: "w_at a i w = w_at s i w" for w using covers_free(2) [OF c i no] len by (simp add: w_at_def)
  note go = covers_goto [OF c i no]
  have upd: "x\<lparr>queue := queue x, queue_mtx := m\<rparr> = x\<lparr>queue_mtx := m\<rparr>" "x\<lparr>queue := q, queue_mtx := queue_mtx x\<rparr> = x\<lparr>queue := q\<rparr>"
    "x\<lparr>queue := queue x, queue_mtx := queue_mtx x\<rparr> = x" for x :: loop and q m by (cases x, simp)+
  have ex: "\<exists>a'. worker_step i a a' \<and> covers n a' (w_goto i w (s\<lparr>queue := q, queue_mtx := m\<rparr>), W)"
    if "worker_step i a (w_goto i w (a\<lparr>queue := q, queue_mtx := m\<rparr>))" for w q m using go that by blast
  from step show ?thesis
  proof cases
    case w_top
    then show ?thesis using ex [where q = "queue s" and m = "queue_mtx s"] worker_step.w_top [of a i] same at upd by metis
  next
    case w_lock
    then show ?thesis using ex [where q = "queue s" and m = "Some i"] worker_step.w_lock [of a i] same at upd by metis
  next
    case w_test
    then show ?thesis using ex [where q = "queue s" and m = "queue_mtx s"] worker_step.w_test [of a i] same at upd by metis
  next
    case w_sleep
    then show ?thesis using ex [where q = "queue s" and m = None] worker_step.w_sleep [of a i] same at upd by metis
  next
    case w_woken
    then show ?thesis using ex [where q = "queue s" and m = "Some i"] worker_step.w_woken [of a i] same at upd by metis
  next
    case w_leave
    then show ?thesis using ex [where q = "queue s" and m = None] worker_step.w_leave [of a i] same at upd by metis
  next
    case (w_pop fd q)
    then show ?thesis using ex [where q = q and m = None] worker_step.w_pop [of a i fd q] same at upd by metis
  next
    case w_pop_empty
    then show ?thesis using ex [where q = "queue s" and m = None] worker_step.w_pop_empty [of a i] same at upd by metis
  qed (use out in blast)
qed

text \<open>A worker takes up a request, answers it and reports.\<close>

lemma covers_start:
  assumes c: "covers n a (s, W)" and i: "i < n" "W i = Free" "workers s ! i = W_serve fd"
    and t: "overlap_inv n q (W(i := t))" "t \<noteq> Free" "said t q = Ok (code, c')"
      "\<And>j. j < n \<Longrightarrow> j \<noteq> i \<Longrightarrow> said (W j) q = said (W j) (store s)"
  shows "covers n (served i fd code (a\<lparr>store := settle (all_dying n (W(i := t))) q\<rparr>)) (s\<lparr>store := q\<rparr>, W(i := t))"
proof -
  let ?a = "served i fd code (a\<lparr>store := settle (all_dying n (W(i := t))) q\<rparr>)"
  have st: "stands s W a j" if "j < n" for j using c that by (elim coversE)
  have len: "length (workers a) = n" "length (pipes a) = n" using c by (auto elim: coversE)
  have "stands (s\<lparr>store := q\<rparr>) (W(i := t)) ?a j" if j: "j < n" for j
    using st [OF j] i t(2-4) len j by (cases "j = i") (auto simp: stands_def served_def w_goto_def)
  then show ?thesis using c t(1) by (simp add: covers_def served_def w_goto_def del: fun_upd_apply)
qed

lemma begin_not_free: "begin_reply k c \<noteq> Free"
  by (cases k) simp_all

lemma sim_core:
  assumes c: "covers n a (s, W)" and n: "n < 2 ^ 32" and i: "w_at s i (W_serve fd)" "W i = Free"
    and st: "can_start fd c r rest ts (store s)" and run: "request_core r fd ((store s)\<lparr>clock := ts\<rparr>) = Ok (k, q)"
  shows "\<exists>a'. orderly_step sp lfd a a' \<and> covers n a' (s\<lparr>store := q\<rparr>, W(i := begin_reply k (c\<lparr>rx := rest\<rparr>)))"
proof -
  let ?t = "begin_reply k (c\<lparr>rx := rest\<rparr>)"
  have len: "length (workers s) = n" "length (pipes a) = n" "length (workers a) = n" "overlap_inv n (store s) W"
    "store a = settle (all_dying n W) (store s)" using c by (auto elim: coversE)
  have at: "i < n" "workers s ! i = W_serve fd" using i(1) len by (auto simp: w_at_def)
  have "at_rest (W i)" using i(2) by (simp add: at_rest_def)
  from start_keeps_inv [OF len(4) n at(1) this st run refl] obtain code c' where
    k: "overlap_inv n q (W(i := ?t))" "said ?t q = Ok (code, c')" "\<And>j. j < n \<Longrightarrow> j \<noteq> i \<Longrightarrow> said (W j) q = said (W j) (store s)"
      "serve_request fd c ((store a)\<lparr>clock := ts\<rparr>) = Ok (code, c', settle (all_dying n (W(i := ?t))) q)"
    unfolding len(5) by blast
  have "stands s W a i" using c at(1) by (elim coversE)
  then have "w_at a i (W_serve fd)" using at i(2) len by (simp add: stands_def w_at_def)
  moreover have "can_start fd c r rest ts (store a)" unfolding len(5) using can_start_settle [OF st] by metis
  ultimately have "orderly_step sp lfd a (served i fd code (a\<lparr>store := settle (all_dying n (W(i := ?t))) q\<rparr>))"
    using or_serve k(4) at(1) len(2) by metis
  with covers_start [OF c at(1) i(2) at(2) k(1) begin_not_free k(2,3)] show ?thesis by blast
qed

lemma sim_void:
  assumes c: "covers n a (s, W)" and i: "w_at s i (W_serve fd)" "W i = Free" and no: "no_request fd c code c'"
  shows "\<exists>a'. orderly_step sp lfd a a' \<and> covers n a' (s, W(i := Finished code c'))"
proof -
  let ?t = "Finished code c'"
  have len: "length (workers s) = n" "length (pipes a) = n" "length (workers a) = n" "overlap_inv n (store s) W"
    "store a = settle (all_dying n W) (store s)" using c by (auto elim: coversE)
  have at: "i < n" "workers s ! i = W_serve fd" using i(1) len by (auto simp: w_at_def)
  from same_pending_inv [OF len(4), of ?t i] i(2) have
    k: "overlap_inv n (store s) (W(i := ?t))" "all_dying n (W(i := ?t)) = all_dying n W" by simp_all
  have "stands s W a i" using c at(1) by (elim coversE)
  then have "w_at a i (W_serve fd)" using at i(2) len by (simp add: stands_def w_at_def)
  with or_void no at(1) len(2) have "orderly_step sp lfd a (served i fd code a)" by metis
  moreover have "a\<lparr>store := settle (all_dying n (W(i := ?t))) (store s)\<rparr> = a" "s\<lparr>store := store s\<rparr> = s"
    using k(2) len(5) by (cases a, simp) (cases s, simp)
  ultimately show ?thesis using covers_start [OF c at(1) i(2) at(2) k(1)] by fastforce
qed

lemma task_not_free: "task_step t s = Ok (t', s') \<Longrightarrow> t \<noteq> Free \<Longrightarrow> t' \<noteq> Free"
  by (induction t s rule: task_step.induct) (auto simp: rbind_eq_Ok split: prod.splits if_splits)

lemma sim_reply:
  assumes c: "covers n a (s, W)" and n: "n < 2 ^ 32" and i: "w_at s i (W_serve fd)"
    and run: "task_step (W i) (store s) = Ok (t, q)"
  shows "covers n a (s\<lparr>store := q\<rparr>, W(i := t))"
proof (cases "W i = Free")
  case True
  then have "W(i := t) = W" "s\<lparr>store := q\<rparr> = s" using run by (auto simp: fun_upd_idem)
  then show ?thesis using c by simp
next
  case False
  have len: "length (workers s) = n" "overlap_inv n (store s) W" using c by (auto elim: coversE)
  have at: "i < n" using i len by (auto simp: w_at_def)
  note k = reply_keeps_inv [OF len(2) n at run]
  have "stands (s\<lparr>store := q\<rparr>) (W(i := t)) a j" if j: "j < n" for j
  proof -
    have "stands s W a j" using c j by (elim coversE)
    moreover have "said ((W(i := t)) j) q = said (W j) (store s)" using k j by blast
    moreover have "(W(i := t)) j = Free \<longleftrightarrow> W j = Free" using task_not_free [OF run False] False by simp
    ultimately show ?thesis by (auto simp add: stands_def simp del: fun_upd_apply split: if_splits)
  qed
  then show ?thesis using c k by (simp add: covers_def del: fun_upd_apply)
qed

lemma sim_done:
  assumes c: "covers n a (s, W)" and i: "w_at s i (W_serve fd)" "W i = Finished code c'"
  shows "covers n a (served i fd code s, W(i := Free))"
proof -
  have len: "length (workers s) = n" "length (pipes s) = n" "overlap_inv n (store s) W" using c by (auto elim: coversE)
  have at: "i < n" "workers s ! i = W_serve fd" using i(1) len by (auto simp: w_at_def)
  from same_pending_inv [OF len(3), of Free i] i(2) have
    k: "overlap_inv n (store s) (W(i := Free))" "all_dying n (W(i := Free)) = all_dying n W" by simp_all
  have "stands (served i fd code s) (W(i := Free)) a j" if j: "j < n" for j
  proof -
    have "stands s W a j" using c j by (elim coversE)
    then show ?thesis using i(2) at len j by (cases "j = i") (auto simp: stands_def served_def w_goto_def)
  qed
  then show ?thesis using c k by (simp add: covers_def served_def w_goto_def del: fun_upd_apply)
qed

text \<open>At the start.\<close>

lemma start_covers:
  assumes "start_of lfd n cfg s" "config_ok cfg"
  shows "covers n s (s, \<lambda>_. Free)"
proof -
  obtain ts t st where s: "server_init cfg ts Ample = Some st" "s = loop_init lfd n t st"
    using assms(1) by (auto simp: start_of_def)
  have D: "all_dying n (\<lambda>_. Free) = {}" "holders n (\<lambda>_. Free) b = {}" for b
    by (simp_all add: all_dying_def dying_def holders_def locks_def)
  have "settle {} st = st" by (rule settled_id) (rule init_quiet [OF s(1)])
  moreover from this have "overlap_inv n st (\<lambda>_. Free)"
    using server_init_inv(1) [OF s(1) assms(2)] init_quiet [OF s(1)] by (simp add: overlap_inv_def D dying_def)
  ultimately show ?thesis by (simp add: covers_def s(2) loop_init_def stands_def D)
qed

lemma sim_whole:
  assumes c: "covers n a x" and n: "n < 2 ^ 32" and inv: "loop_inv lfd a" and lfd: "client_fd lfd"
    and step: "whole_step sp lfd x x'"
  shows "covers n a x' \<or> (\<exists>a'. orderly_step sp lfd a a' \<and> covers n a' x')"
  using step
proof (cases rule: whole_step.cases)
  case (ws_main s s' W)
  from sim_main [OF c [unfolded ws_main(1)] n inv lfd ws_main(3)] show ?thesis unfolding ws_main(2) by (blast intro: or_main)
next
  case (ws_sig s s' W)
  then obtain sig where s': "sig_waiting s" "s' = s\<lparr>mode := sig_mode sig, sig_waiting := False\<rparr>" by (auto elim: sig_step.cases)
  have "sig_waiting a" using c ws_sig(1) s'(1) by (auto elim: coversE)
  from or_sig [OF sig_caught [OF this, of sig]] covers_quiet(2) [OF c [unfolded ws_sig(1)], of "sig_mode sig"]
  show ?thesis unfolding ws_sig(2) s'(2) by blast
next
  case (ws_worker i s s' W)
  from sim_worker [OF c [unfolded ws_worker(1)] ws_worker(3,4)] obtain a' where
    a': "worker_step i a a'" "covers n a' (s', W)" by blast
  have "\<not> w_at a i (W_serve fd)" for fd
  proof -
    have len: "length (workers s) = n" "length (workers a) = n" "\<And>j. j < n \<Longrightarrow> stands s W a j"
      using c ws_worker(1) by (auto elim: coversE)
    have "workers a ! i = workers s ! i \<or> workers a ! i = W_top" if "i < n" using len(3) [OF that] by (auto simp: stands_def split: if_splits)
    then show ?thesis using ws_worker(4) [of fd] len by (auto simp: w_at_def)
  qed
  from or_worker [OF a'(1) this] a'(2) show ?thesis unfolding ws_worker(2) by blast
next
  case (ws_spurious s s' W)
  then obtain i where s': "w_at s i W_wait" "s' = w_goto i W_woken s" by (auto elim: w_spurious.cases)
  have i: "i < n" "workers s ! i \<noteq> W_serve fd" for fd using c ws_spurious(1) s'(1) by (auto simp: w_at_def elim: coversE)
  note c' = c [unfolded ws_spurious(1)]
  have same: "queue a = queue s" "queue_mtx a = queue_mtx s" "length (workers a) = n" using c' by (auto elim: coversE)
  have "w_at a i W_wait" using same_waiting [OF c' i(1)] s'(1) same i(1) by (simp add: w_at_def)
  with or_spurious [OF ws_spurious(3) w_spurious] have "orderly_step sp lfd a (w_goto i W_woken a)" by blast
  moreover have "covers n (w_goto i W_woken a) (s', W)"
    using covers_goto [OF c' i, where w = W_woken and q = "queue s" and x = "queue_mtx s"] same s'(2) by (cases a; cases s) simp
  ultimately show ?thesis unfolding ws_spurious(2) by blast
next
  case (ws_core s i fd W c' r rest ts k st)
  from sim_core [OF c [unfolded ws_core(1)] n ws_core(3-6)] show ?thesis unfolding ws_core(2) by blast
next
  case (ws_void s i fd W c' code c'')
  from sim_void [OF c [unfolded ws_void(1)] ws_void(3-5)] show ?thesis unfolding ws_void(2) by blast
next
  case (ws_reply s i fd W t st)
  from sim_reply [OF c [unfolded ws_reply(1)] n ws_reply(3,4)] show ?thesis unfolding ws_reply(2) by blast
next
  case (ws_done s i fd W code c')
  from sim_done [OF c [unfolded ws_done(1)] ws_done(3,4)] show ?thesis unfolding ws_done(2) by blast
qed

text \<open>The assumptions on the start are part of the relation: as many workers as their type counts, a configuration
  that was accepted and an open listening socket.\<close>

definition sound_start :: "int \<Rightarrow> nat \<Rightarrow> server_config_t \<Rightarrow> bool" where
  "sound_start lfd n cfg \<longleftrightarrow> n < 2 ^ 32 \<and> config_ok cfg \<and> client_fd lfd"

interpretation ws: simulation "\<lambda>x. sound_start lfd n cfg \<and> whole_init lfd n cfg x" "whole_step sp lfd"
  "start_of lfd n cfg" "orderly_step sp lfd" "\<lambda>a x. sound_start lfd n cfg \<and> covers n a x"
  for sp lfd n cfg
proof unfold_locales
  fix x assume x: "sound_start lfd n cfg \<and> whole_init lfd n cfg x"
  then have "covers n (fst x) x" using start_covers [of lfd n cfg "fst x"]
    by (cases x) (auto simp: whole_init_def sound_start_def)
  then show "\<exists>a. start_of lfd n cfg a \<and> sound_start lfd n cfg \<and> covers n a x" using x by (auto simp: whole_init_def)
next
  fix a x x' assume a: "orderly sp lfd n cfg a" "sound_start lfd n cfg \<and> covers n a x" "whole_step sp lfd x x'"
  then have s: "n < 2 ^ 32" "config_ok cfg" "client_fd lfd" by (auto simp: sound_start_def)
  have "loop_inv lfd a" using orderly_reached [OF a(1) s(2,3)] s(3) loop_reach_inv by blast
  with sim_whole [OF _ s(1) _ s(3) a(3)] a(2)
  show "sound_start lfd n cfg \<and> covers n a x' \<or> (\<exists>a'. orderly_step sp lfd a a' \<and> sound_start lfd n cfg \<and> covers n a' x')" by blast
qed

lemma whole_covered:
  assumes "whole sp lfd n cfg (s, W)" "n < 2 ^ 32" "config_ok cfg" "client_fd lfd"
  obtains a where "orderly sp lfd n cfg a" "covers n a (s, W)" "loop_reach True lfd n cfg a" "server_inv (store a)"
    "config (store a) = cfg"
proof -
  have "sound_start lfd n cfg" using assms(2-4) by (simp add: sound_start_def)
  then have "reachable (\<lambda>x. sound_start lfd n cfg \<and> whole_init lfd n cfg x) (whole_step sp lfd) (s, W)" using assms(1) by simp
  from ws.reached [OF this] obtain a where "orderly sp lfd n cfg a" "covers n a (s, W)" by blast
  with orderly_reached [OF this(1) assms(3,4)] that show thesis by blast
qed

lemma covers_quiet_same:
  assumes "covers n a (s, W)" "\<And>i. i < n \<Longrightarrow> W i = Free"
  shows "a = s"
proof -
  from assms(1) have c: "mode a = mode s" "sig_waiting a = sig_waiting s" "looping a = looping s" "fdset a = fdset s"
    "conn_table a = conn_table s" "queue a = queue s" "queue_mtx a = queue_mtx s" "store a = settle (all_dying n W) (store s)"
    "overlap_inv n (store s) W" "length (workers s) = n" "length (pipes s) = n" "length (workers a) = n" "length (pipes a) = n"
    "\<And>i. i < n \<Longrightarrow> stands s W a i" by (auto elim: coversE)
  have "settle (all_dying n W) (store s) = store s" by (rule rest_settled [OF c(9)]) (simp add: assms(2))
  moreover have "workers a = workers s" "pipes a = pipes s"
    using c(10-14) assms(2) by (auto intro!: nth_equalityI simp: stands_def)
  ultimately show ?thesis using c(1-8) by (cases a; cases s) simp
qed

text \<open>The invariants of the threads and of the store.\<close>

lemma whole_loop_inv:
  assumes "whole sp lfd n cfg (s, W)" "n < 2 ^ 32" "config_ok cfg" "client_fd lfd"
  shows "loop_inv lfd s" "server_inv (settle (all_dying n W) (store s))"
proof -
  obtain a where a: "covers n a (s, W)" "loop_reach True lfd n cfg a" "server_inv (store a)" using whole_covered [OF assms] .
  have same: "mode a = mode s" "fdset a = fdset s" "conn_table a = conn_table s" "store a = settle (all_dying n W) (store s)"
    "length (workers s) = length (workers a)" "length (pipes s) = length (pipes a)" using a(1) by (auto elim: coversE)
  show "loop_inv lfd s"
    by (rule loop_inv_cong [OF loop_reach_inv [OF a(2) assms(4)]]) (use same covers_tokens [OF a(1)] in simp_all)
  show "server_inv (settle (all_dying n W) (store s))" using a(3) same(4) by simp
qed

section \<open>A run\<close>

text \<open>A client connects, and the worker takes its request from the queue.\<close>

lemma whole_main:
  assumes "whole sp lfd n cfg (s, W)" "main_step lfd s s'"
  shows "whole sp lfd n cfg (s', W)"
  by (rule reachable_step [OF assms(1) ws_main [OF assms(2)]])

lemma whole_worker:
  assumes "whole sp lfd n cfg (s, W)" "worker_step i s s'" "\<And>fd. \<not> w_at s i (W_serve fd)"
  shows "whole sp lfd n cfg (s', W)"
  by (rule reachable_step [OF assms(1) ws_worker [OF assms(2,3)]])

lemma whole_takes:
  assumes lfd: "client_fd lfd" and fd: "client_fd fd" "fd \<noteq> lfd"
  shows "\<exists>s. whole sp lfd 1 cfg (ws_set [W_serve fd] None s, \<lambda>_. Free) \<and> queue s = [] \<and> mode s = ACCEPT_CONN \<and> pipes s = [[]]"
proof -
  obtain t st where st: "server_init cfg [] Ample = Some st" "entries t = []" "fd_table_ok t"
    "hashtbl_init HASH_N_LIST default_hashtbl_hash Ample = (Inr (), Some t, Ample)"
    using init_table server_init_starts [of cfg "[]"] by blast
  let ?s0 = "loop_init lfd 1 (Some t) st"
  have "start_of lfd 1 cfg ?s0" using st by (auto simp: start_of_def)
  then have r0: "whole sp lfd 1 cfg (?s0, \<lambda>_. Free)" by (intro reachable_start) (simp add: whole_init_def)
  have "loop_inv lfd ?s0" by (rule loop_start_inv [OF st(1,4)])
  moreover have new: "fd \<notin># open_fds ?s0" using fd(2) by (simp add: open_fds_def loop_init_def)
  ultimately obtain t' st' where acc: "accept_client fd ?s0 = Ok (?s0\<lparr>fdset := insert fd (fdset ?s0), conn_table := t', store := st'\<rparr>)"
    using accept_ok fd(1) by blast
  let ?s1 = "?s0\<lparr>fdset := insert fd (fdset ?s0), conn_table := t', store := st'\<rparr>"
  have r1: "whole sp lfd 1 cfg (?s1, \<lambda>_. Free)"
    by (rule whole_main [OF r0], rule main_accept [OF _ _ _ fd(1) new acc]) (simp_all add: loop_init_def)
  let ?s2 = "push_request fd ?s1"
  have "main_step lfd ?s1 (?s2\<lparr>workers := [W_top]\<rparr>)"
    by (rule main_request) (use fd(2) wake_none [of "[W_top]"] in \<open>simp_all add: loop_init_def\<close>)
  moreover have "?s2\<lparr>workers := [W_top]\<rparr> = ws_set [W_top] None ?s2" by (simp add: ws_set_def push_request_def loop_init_def)
  ultimately have r2: "whole sp lfd 1 cfg (ws_set [W_top] None ?s2, \<lambda>_. Free)" using whole_main [OF r1] by metis
  have f: "mode ?s2 = ACCEPT_CONN" "queue ?s2 = [fd]" "pipes ?s2 = [[]]" by (simp_all add: push_request_def loop_init_def)
  have "whole sp lfd 1 cfg (ws_set [W_lock] None ?s2, \<lambda>_. Free)"
    using whole_worker [OF r2 w_top [of _ 0]] f(1) by simp
  from whole_worker [OF this w_lock [of _ 0]] have "whole sp lfd 1 cfg (ws_set [W_test] (Some 0) ?s2, \<lambda>_. Free)" by simp
  from whole_worker [OF this w_test [of _ 0]] have "whole sp lfd 1 cfg (ws_set [W_check] (Some 0) ?s2, \<lambda>_. Free)" using f by simp
  from whole_worker [OF this w_pop [of _ 0 fd "[]"]]
  have "whole sp lfd 1 cfg (ws_set [W_serve fd] None (?s2\<lparr>queue := []\<rparr>), \<lambda>_. Free)" using f by simp
  then show ?thesis using f by (intro exI [of _ "?s2\<lparr>queue := []\<rparr>"]) simp
qed

section \<open>Properties\<close>

text \<open>C3: the server as a whole refines the server that serves each request in one step. In every state that its main
  thread, its signal handler and its workers can reach, with replies of several workers under way, there is a state
  of the simpler system with the same connections, queue and mode, in which each request under way has been
  served, its result waits in the pipe of its worker, and the store is the one without the replies; when no
  request is under way it is the same state.\<close>

theorem whole_server_refines:
  assumes "whole sp lfd n cfg (s, W)" "n < 2 ^ 32" "config_ok cfg" "client_fd lfd"
  shows "\<exists>a. orderly sp lfd n cfg a \<and> loop_reach True lfd n cfg a \<and> covers n a (s, W) \<and> ((\<forall>i < n. W i = Free) \<longrightarrow> a = s)"
proof -
  obtain a where a: "orderly sp lfd n cfg a" "covers n a (s, W)" "loop_reach True lfd n cfg a" using whole_covered [OF assms] .
  then show ?thesis using covers_quiet_same [OF a(2)] by blast
qed

lemma demo_core:
  "\<exists>s st W. whole True 3 1 demo_config (s, \<lambda>_. Free) \<and> whole True 3 1 demo_config (s\<lparr>store := st\<rparr>, W) \<and>
     W 0 \<noteq> Free \<and> w_at s 0 (W_serve 5) \<and> pipes s = [[]] \<and> workers s = [W_serve 5]"
proof -
  have fd: "client_fd 3" "client_fd 5" by (simp_all add: client_fd_def)
  have cfg: "config_ok demo_config" by (simp add: config_ok_def demo_config_def)
  obtain s0 where s0: "whole True 3 1 demo_config (ws_set [W_serve 5] None s0, \<lambda>_. Free)" "pipes s0 = [[]]"
    using whole_takes [OF fd, where sp = True and cfg = demo_config] by auto
  define s where "s = ws_set [W_serve 5] None s0"
  have s: "whole True 3 1 demo_config (s, \<lambda>_. Free)" "w_at s 0 (W_serve 5)" "pipes s = [[]]" "workers s = [W_serve 5]"
    using s0 by (simp_all add: s_def)
  obtain a where a: "covers 1 a (s, \<lambda>_. Free)" "server_inv (store a)" "config (store a) = demo_config"
    using whole_covered [OF s(1) _ cfg fd(1)] by auto
  have inv: "overlap_inv 1 (store s) (\<lambda>_. Free)" using a(1) by (elim coversE)
  have "store a = store s" using covers_quiet_same [OF a(1)] by simp
  then have st: "can_start 5 (demo_conn (request_msg (Req_open [97] 3))) (Req_open [97] 3) [] [Timespec 1 0, Timespec 2 0] (store s)"
    using a(3) demo_path(1) fd(2) by (simp add: can_start_def)
  from core_runs [OF inv _ this] obtain k st where
    "request_core (Req_open [97] 3) 5 ((store s)\<lparr>clock := [Timespec 1 0, Timespec 2 0]\<rparr>) = Ok (k, st)" by auto
  note c = ws_core [OF s(2) refl st this, of True 3]
  from reachable_step [OF s(1) this] show ?thesis
    using s begin_not_free by (intro exI [of _ s] exI conjI) (assumption | simp)+
qed

lemma whole_server_refines_witness:
  "\<exists>s W a fd code. whole True 3 1 demo_config (s, W) \<and> W 0 \<noteq> Free \<and> pipes s = [[]] \<and> covers 1 a (s, W) \<and>
     loop_reach True 3 1 demo_config a \<and> pipes a ! 0 = [\<lparr>res_code = code, res_client = fd\<rparr>]"
proof -
  have cfg: "config_ok demo_config" "client_fd 3" by (simp_all add: config_ok_def demo_config_def client_fd_def)
  obtain s st W where s: "whole True 3 1 demo_config (s\<lparr>store := st\<rparr>, W)" "W 0 \<noteq> Free" "pipes s = [[]]"
    using demo_core by blast
  from whole_server_refines [OF s(1) _ cfg] obtain a where
    a: "covers 1 a (s\<lparr>store := st\<rparr>, W)" "loop_reach True 3 1 demo_config a" by auto
  have "stands (s\<lparr>store := st\<rparr>) W a 0" using a(1) by (elim coversE) simp
  then obtain fd code where "pipes a ! 0 = [\<lparr>res_code = code, res_client = fd\<rparr>]" using s(2,3) by (auto simp: stands_def)
  then show ?thesis using s a by (intro exI [of _ "s\<lparr>store := st\<rparr>"] exI [of _ W] exI [of _ a]) simp
qed

text \<open>A worker that has popped from an empty queue takes no further step.\<close>

lemma ub_stays:
  assumes "whole_step sp lfd (s, W) (s', W')" "w_at s j W_ub"
  shows "w_at s' j W_ub"
proof -
  have wk: "w_at t j W_ub" if "worker_step i s t" for i t
    using that assms(2) by cases (auto simp: w_at_def w_goto_def nth_list_update)
  have wake: "wake_one (workers s) ws \<Longrightarrow> j < length ws \<and> ws ! j = W_ub" for ws
    using assms(2) by (auto elim!: wake_one.cases simp: w_at_def nth_list_update)
  have all: "j < length (wake_all (workers s)) \<and> wake_all (workers s) ! j = W_ub"
    using assms(2) by (simp add: wake_all_def w_at_def)
  have mn: "w_at t j W_ub" if "main_step lfd s t" for t
    using that
  proof cases
    case (main_result k r rs)
    then show ?thesis using assms(2) by (auto simp: take_result_def rbind_eq_Ok w_at_def split: if_splits)
  qed (use assms(2) wake all in \<open>auto simp: accept_client_def push_request_def rbind_eq_Ok w_at_def\<close>)
  from assms(1) show ?thesis
    by cases (use wk mn assms(2) in \<open>auto elim!: sig_step.cases w_spurious.cases simp: served_def w_at_def w_goto_def nth_list_update\<close>)
qed

text \<open>C4: the server as a whole is safe, whatever the interleaving, as long as no worker has popped from an empty queue
  (no worker is at \<open>W_ub\<close>, which is never left, \<open>ub_stays\<close>; C22 shows that it can get there, and that the server then serves an
  indeterminate descriptor is \<open>stale_client_served_twice\<close>). Every connected client is in exactly one of the \<open>select\<close>
  set, the queue, the hands of one worker and one pipe, and no two workers serve the same client; the store without the
  replies under way is well formed, and the numbers of files and bytes are within the limits of the configuration. The
  clients send well-formed requests, break off or close; the two exceptions of C1 (\<open>can_start\<close>) are left out: a
  client of \<open>READ_FILE\<close> whose connection may break within the reply, and all files asked of an empty store.\<close>

theorem whole_server_safe:
  assumes "whole sp lfd n cfg (s, W)" "n < 2 ^ 32" "config_ok cfg" "client_fd lfd" "W_ub \<notin> set (workers s)"
  shows "server_inv (settle (all_dying n W) (store s)) \<and>
    st_files (curr_state (store s)) \<le> cfg_max_files cfg \<and> st_space (curr_state (store s)) \<le> cfg_max_space cfg \<and>
    (\<exists>t. conn_table s = Some t \<and> (\<forall>fd. fd \<noteq> lfd \<longrightarrow> count (open_fds s) fd = (if fd \<in> set (entries t) then 1 else 0))) \<and>
    (\<forall>i j fd. w_at s i (W_serve fd) \<and> w_at s j (W_serve fd) \<longrightarrow> i = j)"
proof -
  obtain a where a: "covers n a (s, W)" "loop_reach True lfd n cfg a" "server_inv (store a)" "config (store a) = cfg"
    using whole_covered [OF assms(1-4)] .
  have st: "store a = settle (all_dying n W) (store s)" "conn_table a = conn_table s" using a(1) by (auto elim: coversE)
  have inv: "loop_inv lfd a" by (rule loop_reach_inv [OF a(2) assms(4)])
  then have tok: "count (open_fds s) fd \<le> 1" for fd using tokens_distinct [of lfd a fd] covers_tokens [OF a(1)] by simp
  obtain t b where t: "conn_table a = Some t" "lfd \<notin> set (entries t)" "open_fds a = mset_set (set (entries t) \<union> (if b then {lfd} else {}))"
    using inv by (elim loop_invE) blast
  have "count (open_fds s) fd = (if fd \<in> set (entries t) then 1 else 0)" if "fd \<noteq> lfd" for fd
    unfolding covers_tokens [OF a(1), symmetric] t(3) using that by (auto simp: count_mset_set')
  moreover have "i = j" if "w_at s i (W_serve fd)" "w_at s j (W_serve fd)" for i j fd
  proof (rule ccontr)
    assume "i \<noteq> j"
    with that have "2 \<le> count (mset (concat (map serving (workers s)))) fd"
      by (intro count_concat_ge [of i _ j]) (auto simp: w_at_def)
    then show False using tok [of fd] by (simp add: open_fds_def)
  qed
  moreover have "st_files (curr_state (store s)) \<le> cfg_max_files cfg" "st_space (curr_state (store s)) \<le> cfg_max_space cfg"
    using a(3,4) st(1) by (auto simp: server_inv_def limits_ok_def word_le_nat_alt)
  ultimately show ?thesis using a(3) st t(1) by (intro conjI exI [of _ t]) auto
qed

lemma whole_server_safe_witness:
  "\<exists>s W t. whole True 3 1 demo_config (s, W) \<and> W 0 \<noteq> Free \<and> conn_table s = Some t \<and> 5 \<in> set (entries t)"
proof -
  have cfg: "config_ok demo_config" "client_fd 3" by (simp_all add: config_ok_def demo_config_def client_fd_def)
  obtain s st W where s: "whole True 3 1 demo_config (s\<lparr>store := st\<rparr>, W)" "W 0 \<noteq> Free" "w_at s 0 (W_serve 5)" "workers s = [W_serve 5]"
    using demo_core by blast
  from whole_server_safe [OF s(1) _ cfg] s(4) obtain t where
    t: "conn_table s = Some t" "count (open_fds (s\<lparr>store := st\<rparr>)) 5 = (if 5 \<in> set (entries t) then 1 else 0)" by auto
  have "0 < count (mset (concat (map serving (workers s)))) 5"
    using s(3) by (force simp: w_at_def in_set_conv_nth)
  then have "5 \<in> set (entries t)" using t(2) by (auto simp: open_fds_def split: if_splits)
  then show ?thesis using s(1,2) t(1) by (intro exI [of _ "s\<lparr>store := st\<rparr>"] exI [of _ W]) simp
qed

end
