(* ===== verification/Progress.thy ===== *)
theory Progress
  imports Whole_Server
begin

text \<open>
  No request is lost: the workers together can always go on until the queue is empty, every request that was taken is
  answered, and every client that was served is reported to the main thread. The exceptions are the workers that
  \<open>pthread_cond_wait\<close> without a loop has led astray (\<open>W_ub\<close>), the closing of the server, and a request for all the files of
  an empty store (\<open>asks_empty\<close>).
\<close>

section \<open>The mutex and the condition variable\<close>

text \<open>
  A worker that is about to wait has seen an empty queue and holds the mutex, so the queue is still empty; and not all
  workers are asleep while there are requests.
\<close>

definition in_section :: "worker_pc \<Rightarrow> bool" where
  "in_section w \<longleftrightarrow> w \<in> {W_test, W_sleep, W_check}"

definition awake :: "loop \<Rightarrow> bool" where
  "awake s \<longleftrightarrow> (\<exists>w \<in> set (workers s). w \<noteq> W_wait)"

definition sync_inv :: "nat \<Rightarrow> loop \<Rightarrow> bool" where
  "sync_inv n s \<longleftrightarrow> length (workers s) = n \<and>
     (\<forall>i < n. in_section (workers s ! i) \<longleftrightarrow> queue_mtx s = Some i) \<and> (\<forall>i. queue_mtx s = Some i \<longrightarrow> i < n) \<and>
     (\<forall>i < n. workers s ! i = W_sleep \<longrightarrow> queue s = []) \<and> (queue s \<noteq> [] \<longrightarrow> awake s)"

lemma sync_inv_cong:
  "workers s' = workers s \<Longrightarrow> queue_mtx s' = queue_mtx s \<Longrightarrow> queue s' = queue s \<Longrightarrow> sync_inv n s' = sync_inv n s"
  by (simp add: sync_inv_def awake_def)

lemma awakeI: "i < length (workers s) \<Longrightarrow> workers s ! i \<noteq> W_wait \<Longrightarrow> awake s"
  unfolding awake_def by (rule bexI [OF _ nth_mem])

lemma awake_goto: "i < length (workers s) \<Longrightarrow> w \<noteq> W_wait \<Longrightarrow> awake (w_goto i w s)"
  by (rule awakeI [of i]) (simp_all add: w_goto_def)

text \<open>A worker that moves outside the section, takes the mutex or gives it back.\<close>

lemma sync_quiet:
  assumes "sync_inv n s" "i < n" "\<not> in_section (workers s ! i)" "\<not> in_section w" "w \<noteq> W_wait"
  shows "sync_inv n (w_goto i w s)"
  using assms awake_goto [of i s w] by (auto simp: sync_inv_def w_goto_def nth_list_update in_section_def)

lemma sync_take:
  assumes "sync_inv n s" "i < n" "queue_mtx s = None" "w = W_test \<or> w = W_check"
  shows "sync_inv n (w_goto i w (s\<lparr>queue_mtx := Some i\<rparr>))"
  using assms awake_goto [of i "s\<lparr>queue_mtx := Some i\<rparr>" w]
  by (auto simp: sync_inv_def w_goto_def nth_list_update in_section_def)

lemma sync_give:
  assumes "sync_inv n s" "i < n" "in_section (workers s ! i)" "\<not> in_section w" "q \<noteq> [] \<longrightarrow> w \<noteq> W_wait"
  shows "sync_inv n (w_goto i w (s\<lparr>queue := q, queue_mtx := None\<rparr>))"
  using assms awake_goto [of i "s\<lparr>queue := q, queue_mtx := None\<rparr>" w]
  by (auto simp: sync_inv_def w_goto_def nth_list_update in_section_def)

lemma sync_stay:
  assumes "sync_inv n s" "i < n" "in_section (workers s ! i)" "in_section w" "w = W_sleep \<longrightarrow> queue s = []"
  shows "sync_inv n (w_goto i w s)"
  using assms awake_goto [of i s w]
  by (auto simp: sync_inv_def w_goto_def nth_list_update in_section_def)

lemma sync_wake:
  assumes inv: "sync_inv n s" and len: "length ws = n"
    and same: "\<And>i. i < n \<Longrightarrow> ws ! i = workers s ! i \<or> workers s ! i = W_wait \<and> ws ! i = W_woken"
  shows "sync_inv n (s\<lparr>workers := ws\<rparr>)"
proof -
  have "in_section (ws ! i) \<longleftrightarrow> in_section (workers s ! i)" "ws ! i = W_sleep \<longleftrightarrow> workers s ! i = W_sleep" if "i < n" for i
    using same [OF that] by (auto simp: in_section_def)
  moreover have "awake (s\<lparr>workers := ws\<rparr>)" if a: "awake s"
  proof -
    obtain i where i: "i < n" "workers s ! i \<noteq> W_wait" using a inv by (auto simp: awake_def sync_inv_def in_set_conv_nth)
    then show ?thesis using same [OF i(1)] len by (intro awakeI [of i]) auto
  qed
  ultimately show ?thesis using inv len by (simp add: sync_inv_def)
qed

lemma wake_one_each: "wake_one ws ws' \<Longrightarrow> i < length ws \<Longrightarrow> ws' ! i = ws ! i \<or> ws ! i = W_wait \<and> ws' ! i = W_woken"
  by (erule wake_one.cases) (auto simp: nth_list_update)

lemma wake_one_awake:
  assumes "wake_one ws ws'" "ws \<noteq> []"
  shows "\<exists>w \<in> set ws'. w \<noteq> W_wait"
  using assms(1)
proof cases
  case wake_none
  then show ?thesis using assms(2) by (cases ws) auto
next
  case (wake_some i)
  then show ?thesis by (intro bexI [of _ W_woken]) (simp_all add: set_update_memI)
qed

lemma sync_main:
  assumes inv: "sync_inv n s" and n: "0 < n" and step: "main_step lfd s s'"
  shows "sync_inv n s'"
  using step
proof cases
  case (main_accept fd)
  then have "workers s' = workers s" "queue_mtx s' = queue_mtx s" "queue s' = queue s"
    by (auto simp: accept_client_def rbind_eq_Ok)
  then show ?thesis using inv sync_inv_cong by blast
next
  case (main_request fd ws)
  have len: "length (workers s) = n" using inv by (simp add: sync_inv_def)
  then have ws: "length ws = n" using wake_one_serving [OF main_request(6)] by simp
  have "sync_inv n (s\<lparr>workers := ws\<rparr>)" by (rule sync_wake [OF inv ws]) (use wake_one_each [OF main_request(6)] len in simp)
  moreover have "\<exists>w \<in> set ws. w \<noteq> W_wait" using wake_one_awake [OF main_request(6)] len n by auto
  ultimately show ?thesis using main_request(1,5) inv
    by (auto simp: sync_inv_def awake_def push_request_def in_section_def)
next
  case (main_result j r rs)
  then have "workers s' = workers s" "queue_mtx s' = queue_mtx s" "queue s' = queue s"
    by (auto simp: take_result_def rbind_eq_Ok split: if_splits)
  then show ?thesis using inv sync_inv_cong by blast
next
  case main_signal
  have "sync_inv n (s\<lparr>workers := wake_all (workers s)\<rparr>)"
    by (rule sync_wake [OF inv]) (use inv in \<open>auto simp: sync_inv_def wake_all_def\<close>)
  then show ?thesis unfolding main_signal(1) by (simp add: sync_inv_def awake_def)
next
  case main_last
  have "sync_inv n (s\<lparr>workers := wake_all (workers s)\<rparr>)"
    by (rule sync_wake [OF inv]) (use inv in \<open>auto simp: sync_inv_def wake_all_def\<close>)
  then show ?thesis unfolding main_last(1) by (simp add: sync_inv_def awake_def)
next
  case main_exit
  then show ?thesis using inv by (simp add: sync_inv_def awake_def)
qed

lemma sync_worker:
  assumes inv: "sync_inv n s" and step: "worker_step i s s'"
  shows "sync_inv n s'"
proof -
  have i: "i < n" if "w_at s i w" for w using that inv by (simp add: w_at_def sync_inv_def)
  have q: "s\<lparr>queue := queue s, queue_mtx := x\<rparr> = s\<lparr>queue_mtx := x\<rparr>" for x by simp
  note at = w_at_def in_section_def
  from step show ?thesis
  proof cases
    case w_top
    then show ?thesis using sync_quiet [OF inv i] by (simp add: at)
  next
    case w_lock
    then show ?thesis using sync_take [OF inv i] by simp
  next
    case w_test
    then show ?thesis using sync_stay [OF inv i] by (simp add: at)
  next
    case w_sleep
    have e: "queue s \<noteq> [] \<longrightarrow> W_wait \<noteq> W_wait" using inv i w_sleep(2) by (auto simp: sync_inv_def w_at_def)
    from w_sleep(2) sync_give [OF inv i [OF w_sleep(2)] _ _ e] show ?thesis unfolding w_sleep(1) by (simp add: at)
  next
    case w_woken
    then show ?thesis using sync_take [OF inv i] by simp
  next
    case w_leave
    then show ?thesis using sync_give [OF inv i, of W_check W_exit "queue s"] by (simp add: at)
  next
    case (w_pop fd q)
    then show ?thesis using sync_give [OF inv i, of W_check "W_serve fd" q] by (simp add: at)
  next
    case w_pop_empty
    from w_pop_empty(2) sync_give [OF inv i, of W_check W_ub "queue s"] show ?thesis unfolding w_pop_empty(1) by (simp add: at)
  next
    case (w_serve fd c code c' st)
    have "sync_inv n (w_goto i W_top s)" using sync_quiet [OF inv i, of "W_serve fd" W_top] w_serve(2) by (simp add: at)
    then show ?thesis unfolding w_serve(1) by (simp add: sync_inv_def awake_def w_goto_def)
  qed
qed

lemma sync_whole:
  assumes "whole sp lfd n cfg (s, W)" "0 < n"
  shows "sync_inv n s"
proof -
  have "sync_inv n (fst x)" if "whole sp lfd n cfg x" for x
    using that
  proof (induction rule: reachable_induct)
    case (start x)
    then obtain t st where "fst x = loop_init lfd n t st" by (auto simp: whole_init_def start_of_def)
    then show ?case by (simp add: sync_inv_def loop_init_def in_section_def)
  next
    case (step x y)
    from step.hyps(2) step.IH show ?case
    proof cases
      case (ws_main s s' W)
      then show ?thesis using sync_main [OF _ assms(2)] step.IH by simp
    next
      case (ws_sig s s' W)
      then show ?thesis using step.IH by (auto elim!: sig_step.cases simp: sync_inv_def awake_def)
    next
      case (ws_worker i s s' W)
      then show ?thesis using sync_worker step.IH by simp
    next
      case (ws_spurious s s' W)
      then obtain i where "w_at s i W_wait" "s' = w_goto i W_woken s" by (auto elim: w_spurious.cases)
      then show ?thesis using ws_spurious step.IH sync_quiet [of n s i W_woken] by (simp add: w_at_def sync_inv_def in_section_def)
    next
      case (ws_done s i fd W code c)
      then show ?thesis using step.IH sync_quiet [of n s i W_top]
        by (simp add: w_at_def sync_inv_def in_section_def served_def awake_def w_goto_def)
    qed (simp_all add: sync_inv_def awake_def)
  qed
  from this [OF assms(1)] show ?thesis by simp
qed

section \<open>The workers alone\<close>

text \<open>
  What each client whose descriptor is queued or served has sent: a well-formed request with what comes after it, or nothing
  that is served (\<open>None\<close>). The client of a \<open>READ_FILE\<close> takes the largest file, since a reply that breaks off leaves a lock
  behind; any other reply may break.
\<close>

type_synonym asking = "int \<Rightarrow> (conn \<times> request \<times> byte list) option"

definition asks_well :: "server_config_t \<Rightarrow> asking \<Rightarrow> bool" where
  "asks_well cfg asks \<longleftrightarrow> (\<forall>fd c r rest. asks fd = Some (c, r, rest) \<longrightarrow>
     request_ok r \<and> rx c = request_msg r @ rest \<and> (\<forall>p. r = Req_read p \<longrightarrow> 12 + unat (cfg_max_space cfg) \<le> room c))"

text \<open>
  A worker is about to ask an empty store for all its files, where \<open>read_n_files\<close> tests an uninitialised variable
  (\<open>read_n_files_empty_store\<close>): no step is defined.
\<close>

definition asks_empty :: "asking \<Rightarrow> loop \<Rightarrow> (nat \<Rightarrow> task) \<Rightarrow> bool" where
  "asks_empty asks s W \<longleftrightarrow> (\<exists>i fd c N rest. w_at s i (W_serve fd) \<and> W i = Free \<and> asks fd = Some (c, Req_read_n N, rest) \<and>
     N \<le> 0 \<and> unat (st_files (curr_state (store s))) = 0)"

text \<open>The steps of the workers, with what the clients have sent; the steps of \<open>whole_step\<close> that no other thread makes.\<close>

inductive work_step :: "asking \<Rightarrow> loop \<times> (nat \<Rightarrow> task) \<Rightarrow> loop \<times> (nat \<Rightarrow> task) \<Rightarrow> bool" for asks where
  wk_loop: "worker_step i s s' \<Longrightarrow> (\<And>fd. \<not> w_at s i (W_serve fd)) \<Longrightarrow> work_step asks (s, W) (s', W)"
| wk_core: "w_at s i (W_serve fd) \<Longrightarrow> W i = Free \<Longrightarrow> asks fd = Some (c, r, rest) \<Longrightarrow> can_start fd c r rest ts (store s) \<Longrightarrow>
    request_core r fd ((store s)\<lparr>clock := ts\<rparr>) = Ok (k, st) \<Longrightarrow>
    work_step asks (s, W) (s\<lparr>store := st\<rparr>, W(i := begin_reply k (c\<lparr>rx := rest\<rparr>)))"
| wk_void: "w_at s i (W_serve fd) \<Longrightarrow> W i = Free \<Longrightarrow> asks fd = None \<Longrightarrow> no_request fd c code c' \<Longrightarrow>
    work_step asks (s, W) (s, W(i := Finished code c'))"
| wk_reply: "w_at s i (W_serve fd) \<Longrightarrow> \<not> at_rest (W i) \<Longrightarrow> task_step (W i) (store s) = Ok (t, st) \<Longrightarrow>
    work_step asks (s, W) (s\<lparr>store := st\<rparr>, W(i := t))"
| wk_done: "w_at s i (W_serve fd) \<Longrightarrow> W i = Finished code c \<Longrightarrow> i < length (pipes s) \<Longrightarrow>
    work_step asks (s, W) (served i fd code s, W(i := Free))"

lemma work_whole: "work_step asks x y \<Longrightarrow> whole_step sp lfd x y"
  by (erule work_step.cases) (auto intro: whole_step.intros)

lemma work_reach:
  assumes "(work_step asks)\<^sup>*\<^sup>* x y" "whole sp lfd n cfg x"
  shows "whole sp lfd n cfg y"
  using assms by (induction rule: rtranclp_induct) (blast intro: reachable_step work_whole)+

subsection \<open>They come to an end\<close>

text \<open>How far a worker is from waiting: what it has left in its loop, and the queue counts for what is left of a request.\<close>

fun distance :: "worker_pc \<Rightarrow> bool \<Rightarrow> nat" where
  "distance W_top b = 4"
| "distance W_lock b = 3"
| "distance W_test b = 2"
| "distance W_woken b = 2"
| "distance W_sleep b = 1"
| "distance W_check b = 1"
| "distance (W_serve fd) b = (if b then 6 else 5)"
| "distance w b = 0"

definition workload :: "nat \<Rightarrow> loop \<times> (nat \<Rightarrow> task) \<Rightarrow> nat" where
  "workload n x = 6 * length (queue (fst x)) + (\<Sum>i < n. distance (workers (fst x) ! i) (snd x i = Free))"

definition replies_left :: "nat \<Rightarrow> loop \<times> (nat \<Rightarrow> task) \<Rightarrow> nat" where
  "replies_left n x = (\<Sum>i < n. left (snd x i))"

lemma sum_change:
  fixes f g :: "nat \<Rightarrow> nat"
  assumes "i < n" "\<And>j. j < n \<Longrightarrow> j \<noteq> i \<Longrightarrow> g j = f j"
  shows "(\<Sum>j < n. g j) + f i = (\<Sum>j < n. f j) + g i"
proof -
  have "(\<Sum>j \<in> {..<n} - {i}. g j) = (\<Sum>j \<in> {..<n} - {i}. f j)" by (rule sum.cong) (use assms(2) in auto)
  then show ?thesis using assms(1) by (simp add: sum.remove [of "{..<n}" i])
qed

lemma workload_goto:
  assumes "i < n" "length (workers s) = n" "W i = Free" "length q * 6 + distance w True < length (queue s) * 6 + distance (workers s ! i) True"
  shows "workload n (w_goto i w (s\<lparr>queue := q, queue_mtx := x\<rparr>), W) < workload n (s, W)"
  using sum_change [of i n "\<lambda>j. distance (workers (w_goto i w (s\<lparr>queue := q, queue_mtx := x\<rparr>)) ! j) (W j = Free)"
    "\<lambda>j. distance (workers s ! j) (W j = Free)"] assms
  by (simp add: workload_def w_goto_def)

lemma workload_task:
  assumes "i < n" "length (workers s) = n" "workers s ! i = W_serve fd" "W i = Free" "t \<noteq> Free" "workers s' = workers s" "queue s' = queue s"
  shows "workload n (s', W(i := t)) < workload n (s, W)"
  using sum_change [of i n "\<lambda>j. distance (workers s ! j) ((W(i := t)) j = Free)" "\<lambda>j. distance (workers s ! j) (W j = Free)"] assms
  by (simp add: workload_def del: fun_upd_apply) (simp add: fun_upd_apply)

text \<open>Every step of the workers leaves less to do.\<close>

lemma work_less:
  assumes step: "work_step asks (s, W) (s', W')" and r: "whole sp lfd n cfg (s, W)" and sound: "n < 2 ^ 32" "config_ok cfg" "client_fd lfd"
  shows "((s', W'), (s, W)) \<in> measures [workload n, replies_left n]"
proof -
  obtain a where c: "covers n a (s, W)" using whole_covered [OF r sound] by blast
  have len: "length (workers s) = n" and o: "overlap_inv n (store s) W" using c by (auto elim: coversE)
  have i: "i < n" if "w_at s i w" for i w using that len by (simp add: w_at_def)
  from step show ?thesis
  proof cases
    case (wk_loop i)
    have at: "i < n" "\<And>fd. workers s ! i \<noteq> W_serve fd" using wk_loop(3) worker_step.cases [OF wk_loop(2)] i len
      by (auto simp: w_at_def)
    have free: "W i = Free" by (rule covers_free(1) [OF c at])
    have less: "workload n (w_goto i w (s\<lparr>queue := q, queue_mtx := x\<rparr>), W) < workload n (s, W)"
      if "length q * 6 + distance w True < length (queue s) * 6 + distance (workers s ! i) True" for w q x
      using workload_goto [where W = W and i = i] at(1) len free that by blast
    have "workload n (s', W) < workload n (s, W)"
      using wk_loop(2)
    proof cases
      case w_top
      then show ?thesis using less [of "queue s" _ "queue_mtx s"] by (simp add: w_at_def)
    next
      case w_lock
      then show ?thesis using less [of "queue s" W_test "Some i"] by (simp add: w_at_def)
    next
      case w_test
      then show ?thesis using less [of "queue s" _ "queue_mtx s"] by (simp add: w_at_def)
    next
      case w_sleep
      then show ?thesis using less [of "queue s" W_wait None] by (simp add: w_at_def)
    next
      case w_woken
      then show ?thesis using less [of "queue s" W_check "Some i"] by (simp add: w_at_def)
    next
      case w_leave
      then show ?thesis using less [of "queue s" W_exit None] by (simp add: w_at_def)
    next
      case (w_pop fd q)
      then show ?thesis using less [of q "W_serve fd" None] by (simp add: w_at_def)
    next
      case w_pop_empty
      from w_pop_empty(2) less [of "queue s" W_ub None] show ?thesis unfolding w_pop_empty(1) by (simp add: w_at_def)
    next
      case w_serve
      then show ?thesis using at(2) by (simp add: w_at_def)
    qed
    then show ?thesis using wk_loop(1) by simp
  next
    case (wk_core i fd c' r rest ts k st)
    then have "workload n (s\<lparr>store := st\<rparr>, W(i := begin_reply k (c'\<lparr>rx := rest\<rparr>))) < workload n (s, W)"
      using begin_not_free i by (intro workload_task [OF _ len]) (auto simp: w_at_def)
    then show ?thesis using wk_core(1,2) by simp
  next
    case (wk_void i fd c0 code c')
    then have "workload n (s, W(i := Finished code c')) < workload n (s, W)"
      using i by (intro workload_task [OF _ len]) (auto simp: w_at_def)
    then show ?thesis using wk_void(1,2) by simp
  next
    case (wk_reply i fd t st)
    have at: "i < n" using i wk_reply(3) .
    have "left t < left (W i)" using reply_goes_on [OF o sound(1) at wk_reply(4)] wk_reply(5) by auto
    moreover have "W i \<noteq> Free" using wk_reply(4) by (auto simp: at_rest_def)
    then have "t \<noteq> Free" using task_not_free [OF wk_reply(5)] by simp
    ultimately show ?thesis
      using \<open>W i \<noteq> Free\<close> sum_change [OF at, of "\<lambda>j. left ((W(i := t)) j)" "\<lambda>j. left (W j)"]
        sum_change [OF at, of "\<lambda>j. distance (workers s ! j) ((W(i := t)) j = Free)" "\<lambda>j. distance (workers s ! j) (W j = Free)"]
      unfolding wk_reply(1,2) by (simp add: workload_def replies_left_def)
  next
    case (wk_done i fd code c')
    have at: "i < n" using i wk_done(3) .
    have "workload n (served i fd code s, W(i := Free)) < workload n (s, W)"
      using sum_change [OF at, of "\<lambda>j. distance (workers (served i fd code s) ! j) ((W(i := Free)) j = Free)"
          "\<lambda>j. distance (workers s ! j) (W j = Free)"] wk_done(3,4) len
      by (simp add: workload_def served_def w_goto_def w_at_def)
    then show ?thesis using wk_done(1,2) by simp
  qed
qed

subsection \<open>They stop only when there is nothing to do\<close>

lemma serving_client:
  assumes inv: "loop_inv lfd s" and lfd: "client_fd lfd" and at: "w_at s i (W_serve fd)"
  shows "client_fd fd"
proof -
  have "W_serve fd \<in> set (workers s)" using at by (metis nth_mem w_at_def)
  then have "fd \<in># open_fds s" by (auto simp: open_fds_def intro: rev_bexI)
  then show ?thesis using inv lfd by (elim loop_invE) (auto split: if_splits)
qed

text \<open>A worker that holds the mutex never waits.\<close>

lemma section_goes_on:
  assumes "in_section (workers s ! j)" "j < length (workers s)"
  shows "\<exists>s'. worker_step j s s'"
proof -
  consider "w_at s j W_test" | "w_at s j W_sleep" | "w_at s j W_check" using assms by (auto simp: in_section_def w_at_def)
  then show ?thesis
  proof cases
    case 3
    then show ?thesis using w_leave w_pop w_pop_empty by (cases "mode s = CLOSE_SERVER"; cases "queue s") blast+
  qed (blast intro: w_test w_sleep)+
qed

lemma work_stops:
  assumes r: "whole sp lfd n cfg (s, W)" and sound: "n < 2 ^ 32" "config_ok cfg" "client_fd lfd" "0 < n"
    and asks: "asks_well cfg asks" "\<not> asks_empty asks s W" and stop: "\<nexists>y. work_step asks (s, W) y" and i: "i < n"
  shows "workers s ! i = W_wait \<or> workers s ! i = W_ub \<or> workers s ! i = W_exit"
proof -
  obtain a where c: "covers n a (s, W)" "server_inv (store a)" "config (store a) = cfg" using whole_covered [OF r sound(1-3)] by blast
  have len: "length (workers s) = n" "length (pipes s) = n" and o: "overlap_inv n (store s) W" using c by (auto elim: coversE)
  have sync: "sync_inv n s" by (rule sync_whole [OF r sound(4)])
  have inv: "loop_inv lfd s" using whole_loop_inv(1) [OF r sound(1-3)] .
  have loop: False if "worker_step j s s'" "j < n" "\<And>fd. workers s ! j \<noteq> W_serve fd" for j s'
    using stop wk_loop [OF that(1)] that(3) by (auto simp: w_at_def)
  have out: "\<not> in_section (workers s ! j)" if j: "j < n" for j
  proof
    assume sec: "in_section (workers s ! j)"
    with section_goes_on [of s j] j len obtain s' where "worker_step j s s'" by auto
    then show False using loop [of j] j sec by (auto simp: in_section_def)
  qed
  then have mtx: "queue_mtx s = None" using sync by (cases "queue_mtx s") (auto simp: sync_inv_def)
  show ?thesis
  proof (cases "workers s ! i")
    case (W_serve fd)
    have at: "w_at s i (W_serve fd)" using W_serve i len by (simp add: w_at_def)
    have rest: "at_rest (W j)" if j: "j < n" for j
    proof (rule ccontr)
      assume b: "\<not> at_rest (W j)"
      then have "W j \<noteq> Free" by (auto simp: at_rest_def)
      then obtain fd' where "w_at s j (W_serve fd')" using covers_serving [OF c(1) j] len j by (auto simp: w_at_def)
      then show False using stop wk_reply [of s j fd' W] reply_goes_on [OF o sound(1) j b] b by blast
    qed
    have "W i \<noteq> Finished code x" for code x using stop wk_done [OF at, of W code x] i len by auto
    then have "W i = Free" using rest [OF i] by (auto simp: at_rest_def split: task.splits)
    note free = at this
    show ?thesis
    proof (cases "asks fd")
      case None
      have "no_request fd ((demo_conn [])\<lparr>rx_end := Rx_eof\<rparr>) MW_CLOSE ((demo_conn [])\<lparr>rx_end := Rx_eof, rx := []\<rparr>)"
        using closed_no_request(1) [of "(demo_conn [])\<lparr>rx_end := Rx_eof\<rparr>"] by (simp add: demo_conn_def)
      from wk_void [of s i fd W asks, OF free None this] show ?thesis using stop by blast
    next
      case (Some x)
      obtain c r rest where x: "x = (c, r, rest)" by (cases x)
      have fd: "client_fd fd" using serving_client [OF inv sound(3) at] .
      have "config (store s) = cfg" using c by (auto elim: coversE)
      then have st: "can_start fd c r rest [Timespec 0 0, Timespec 0 0] (store s)"
        using asks Some x fd free by (cases r) (fastforce simp: asks_well_def asks_empty_def can_start_def)+
      have "pending (W j) = []" if "j < n" for j using rest [OF that] by (auto simp: at_rest_def split: task.splits)
      then obtain k q where "request_core r fd ((store s)\<lparr>clock := [Timespec 0 0, Timespec 0 0]\<rparr>) = Ok (k, q)"
        using core_runs [OF o _ st] by blast
      then show ?thesis using stop wk_core [of s i fd W asks, OF free _ st] Some x by blast
    qed
  next
    case W_top
    then show ?thesis using loop [OF w_top, of i] i len by (simp add: w_at_def)
  next
    case W_lock
    then show ?thesis using loop [OF w_lock, of i] i len mtx by (simp add: w_at_def)
  next
    case W_woken
    then show ?thesis using loop [OF w_woken, of i] i len mtx by (simp add: w_at_def)
  qed (use out [OF i] in \<open>simp_all add: in_section_def\<close>)
qed

subsection \<open>Nobody is forgotten\<close>

text \<open>The clients that were queued or served, and the results that wait in the pipes.\<close>

definition unanswered :: "loop \<Rightarrow> int multiset" where
  "unanswered s = mset (queue s) + mset (concat (map serving (workers s)))"

definition reported :: "loop \<Rightarrow> int multiset" where
  "reported s = mset (concat (map (map res_client) (pipes s)))"

lemma goto_tokens:
  assumes "w_at s i w" "serving w = serving w'"
  shows "open_fds (w_goto i w' (s\<lparr>queue_mtx := m\<rparr>)) = open_fds s" "open_fds (w_goto i w' s) = open_fds s"
  using goto_quiet [OF assms] by (simp_all add: open_fds_def w_goto_def)

lemma worker_tokens:
  assumes "worker_step i s s'"
  shows "open_fds s' = open_fds s \<and> fdset s' = fdset s"
proof -
  have "fdset s' = fdset s" using assms by cases (simp_all add: w_goto_def)
  moreover have "open_fds s' = open_fds s"
    using assms
  proof cases
    case (w_pop fd q)
    then show ?thesis using pop_tokens [OF w_pop(2,4)] by simp
  next
    case (w_serve fd c code c' st)
    then show ?thesis using serve_tokens [OF w_serve(2,4)] by simp
  qed (simp_all add: goto_tokens)
  ultimately show ?thesis by simp
qed

lemma work_tokens:
  assumes "work_step asks (s, W) (s', W')"
  shows "unanswered s' + reported s' = unanswered s + reported s"
proof -
  have "open_fds s' = open_fds s \<and> fdset s' = fdset s"
    using assms
  proof cases
    case (wk_loop i)
    then show ?thesis using worker_tokens by blast
  next
    case (wk_done i fd code c)
    then show ?thesis using serve_tokens [OF wk_done(3,5), where st = "store s"] by (simp add: served_def w_goto_def)
  qed (simp_all add: open_fds_def)
  then have o: "open_fds s' = open_fds s" "fdset s' = fdset s" by simp_all
  have "open_fds x = mset_set (fdset x) + (unanswered x + reported x)" for x
    by (simp add: open_fds_def unanswered_def reported_def add.assoc)
  with o show ?thesis by simp
qed

lemma work_kept:
  assumes "(work_step asks)\<^sup>*\<^sup>* (s, W) (s', W')"
  shows "unanswered s' + reported s' = unanswered s + reported s"
proof -
  have "unanswered (fst y) + reported (fst y) = unanswered (fst x) + reported (fst x)" if "(work_step asks)\<^sup>*\<^sup>* x y" for x y
    using that
  proof (induction rule: rtranclp_induct)
    case (step y z)
    then show ?case using work_tokens [of asks "fst y" "snd y" "fst z" "snd z"] by simp
  qed simp
  from this [OF assms] show ?thesis by simp
qed

lemma work_ends:
  assumes "whole sp lfd n cfg (s, W)" "n < 2 ^ 32" "config_ok cfg" "client_fd lfd"
  shows "\<nexists>f. f 0 = (s, W) \<and> (\<forall>k. work_step asks (f k) (f (Suc k)))"
proof
  assume "\<exists>f. f 0 = (s, W) \<and> (\<forall>k. work_step asks (f k) (f (Suc k)))"
  then obtain f where f: "f 0 = (s, W)" "\<And>k. work_step asks (f k) (f (Suc k))" by blast
  have r: "whole sp lfd n cfg (f k)" for k
    by (induction k) (use f assms(1) in \<open>auto intro: reachable_step work_whole\<close>)
  have "(f (Suc k), f k) \<in> measures [workload n, replies_left n]" for k
    using work_less [where sp = sp, OF _ _ assms(2-4), of asks "fst (f k)" "snd (f k)" "fst (f (Suc k))" "snd (f (Suc k))"] f(2) r by simp
  then show False using wf_measures wf_iff_no_infinite_down_chain by blast
qed

text \<open>C5: no request is lost. From every state that the server can reach, when the clients that are queued or served
  have sent any well-formed request or have closed, the workers come to an end whatever their order; and then the queue is
  empty, every worker waits, and the result of every client that was queued or served is in a pipe to the main thread.
  Three things are excepted: a worker that has left when the server closes (\<open>W_exit\<close>), one that was woken up for a request
  that another one took (\<open>W_ub\<close>), and one that is to send all the files of an empty store (\<open>asks_empty\<close>). The request may
  be any of the protocol, \<open>READ_N_FILES\<close> for -1 files, which is what the option -R without a number sends, included; only
  the client of a \<open>READ_FILE\<close> must be able to take the largest file (\<open>asks_well\<close>).\<close>

theorem requests_answered:
  assumes "whole sp lfd n cfg (s, W)" "0 < n" "n < 2 ^ 32" "config_ok cfg" "client_fd lfd" "asks_well cfg asks"
  shows "(\<nexists>f. f 0 = (s, W) \<and> (\<forall>k. work_step asks (f k) (f (Suc k)))) \<and>
    (\<forall>s' W'. (work_step asks)\<^sup>*\<^sup>* (s, W) (s', W') \<and> (\<nexists>y. work_step asks (s', W') y) \<and>
       W_ub \<notin> set (workers s') \<and> W_exit \<notin> set (workers s') \<and> \<not> asks_empty asks s' W' \<longrightarrow>
       queue s' = [] \<and> (\<forall>w \<in> set (workers s'). w = W_wait) \<and> reported s' = reported s + unanswered s)"
proof (intro conjI allI impI)
  show "\<nexists>f. f 0 = (s, W) \<and> (\<forall>k. work_step asks (f k) (f (Suc k)))"
    using work_ends [OF assms(1,3-5)] .
next
  fix s' W'
  assume y: "(work_step asks)\<^sup>*\<^sup>* (s, W) (s', W') \<and> (\<nexists>y. work_step asks (s', W') y) \<and> W_ub \<notin> set (workers s') \<and> W_exit \<notin> set (workers s') \<and>
    \<not> asks_empty asks s' W'"
  then have r: "whole sp lfd n cfg (s', W')" using work_reach assms(1) by blast
  have sync: "sync_inv n s'" by (rule sync_whole [OF r assms(2)])
  have wait: "\<forall>w \<in> set (workers s'). w = W_wait"
    using work_stops [OF r assms(3-5,2,6)] y sync by (auto simp: sync_inv_def in_set_conv_nth)
  then show "\<forall>w \<in> set (workers s'). w = W_wait" .
  from wait sync show q: "queue s' = []" by (auto simp: sync_inv_def awake_def)
  have "unanswered s' + reported s' = unanswered s + reported s" using work_kept y by blast
  moreover have "concat (map serving (workers s')) = []" using wait by (auto simp: serving_def)
  ultimately show "reported s' = reported s + unanswered s" using q by (simp add: unanswered_def add.commute)
qed

text \<open>Applied to a worker that has taken the request of a client that turns out to have closed.\<close>

lemma demo_work:
  assumes "queue s = []" "mode s = ACCEPT_CONN" "pipes s = [[]]"
  shows "\<exists>s' W'. (work_step (\<lambda>_. None))\<^sup>*\<^sup>* (ws_set [W_serve 5] None s, \<lambda>_. Free) (ws_set [W_wait] None s', W')"
proof -
  let ?go = "work_step (\<lambda>_. None)" and ?c = "(demo_conn [])\<lparr>rx_end := Rx_eof\<rparr>"
  let ?W = "(\<lambda>_. Free)(0 := Finished MW_CLOSE ?c)"
  define s1 where "s1 = s\<lparr>pipes := [[\<lparr>res_code = MW_CLOSE, res_client = 5\<rparr>]]\<rparr>"
  have f: "queue s1 = []" "mode s1 = ACCEPT_CONN" using assms by (simp_all add: s1_def)
  have "no_request 5 ?c MW_CLOSE ?c" using closed_no_request(1) [of ?c 5] by (simp add: demo_conn_def)
  then have v: "?go (ws_set [W_serve 5] None s, \<lambda>_. Free) (ws_set [W_serve 5] None s, ?W)"
    by (intro wk_void) simp_all
  have "?go (ws_set [W_serve 5] None s, ?W) (served 0 5 MW_CLOSE (ws_set [W_serve 5] None s), ?W(0 := Free))"
    by (intro wk_done) (use assms(3) in \<open>simp_all add: ws_set_def w_at_def\<close>)
  moreover have "served 0 5 MW_CLOSE (ws_set [W_serve 5] None s) = ws_set [W_top] None s1"
    using assms(3) by (simp add: served_def s1_def w_goto_def ws_set_def)
  ultimately have d: "?go (ws_set [W_serve 5] None s, ?W) (ws_set [W_top] None s1, \<lambda>_. Free)"
    by (simp add: fun_upd_idem)
  have l: "?go (s, \<lambda>_. Free) (s', \<lambda>_. Free)" if "worker_step 0 s s'" "\<And>fd. \<not> w_at s 0 (W_serve fd)" for s s'
    using wk_loop that .
  have "?go (ws_set [W_top] None s1, \<lambda>_. Free) (ws_set [W_lock] None s1, \<lambda>_. Free)"
    using l [OF w_top, of "ws_set [W_top] None s1"] f by simp
  moreover have "?go (ws_set [W_lock] None s1, \<lambda>_. Free) (ws_set [W_test] (Some 0) s1, \<lambda>_. Free)"
    using l [OF w_lock, of "ws_set [W_lock] None s1"] by simp
  moreover have "?go (ws_set [W_test] (Some 0) s1, \<lambda>_. Free) (ws_set [W_sleep] (Some 0) s1, \<lambda>_. Free)"
    using l [OF w_test, of "ws_set [W_test] (Some 0) s1"] f by simp
  moreover have "?go (ws_set [W_sleep] (Some 0) s1, \<lambda>_. Free) (ws_set [W_wait] None s1, \<lambda>_. Free)"
    using l [OF w_sleep, of "ws_set [W_sleep] (Some 0) s1"] by simp
  ultimately show ?thesis using v d by (intro exI) (blast intro: converse_rtranclp_into_rtranclp)
qed

lemma requests_answered_witness:
  "\<exists>s s' W'. whole True 3 1 demo_config (s, \<lambda>_. Free) \<and> w_at s 0 (W_serve 5) \<and>
     (work_step (\<lambda>_. None))\<^sup>*\<^sup>* (s, \<lambda>_. Free) (s', W') \<and> reported s' = {#5#} \<and>
     (\<nexists>f. f 0 = (s, \<lambda>_. Free) \<and> (\<forall>k. work_step (\<lambda>_. None) (f k) (f (Suc k))))"
proof -
  have cfg: "config_ok demo_config" "client_fd 3" "client_fd 5" by (simp_all add: config_ok_def demo_config_def client_fd_def)
  obtain s0 where s0: "whole True 3 1 demo_config (ws_set [W_serve 5] None s0, \<lambda>_. Free)" "queue s0 = []" "mode s0 = ACCEPT_CONN"
    "pipes s0 = [[]]"
    using whole_takes [OF cfg(2,3), where sp = True and cfg = demo_config] by auto
  obtain s' W' where run: "(work_step (\<lambda>_. None))\<^sup>*\<^sup>* (ws_set [W_serve 5] None s0, \<lambda>_. Free) (ws_set [W_wait] None s', W')"
    using demo_work [OF s0(2-4)] by blast
  have stop: "\<nexists>y. work_step (\<lambda>_. None) (ws_set [W_wait] None s', W') y"
    by (auto elim!: work_step.cases worker_step.cases)
  have asks: "asks_well demo_config (\<lambda>_. None)" by (simp add: asks_well_def)
  have all: "(\<nexists>f. f 0 = (ws_set [W_serve 5] None s0, \<lambda>_. Free) \<and> (\<forall>k. work_step (\<lambda>_. None) (f k) (f (Suc k))))"
    "(work_step (\<lambda>_. None))\<^sup>*\<^sup>* (ws_set [W_serve 5] None s0, \<lambda>_. Free) (x, X) \<Longrightarrow> (\<nexists>y. work_step (\<lambda>_. None) (x, X) y) \<Longrightarrow>
      W_ub \<notin> set (workers x) \<Longrightarrow> W_exit \<notin> set (workers x) \<Longrightarrow> \<not> asks_empty (\<lambda>_. None) x X \<Longrightarrow>
      reported x = reported (ws_set [W_serve 5] None s0) + unanswered (ws_set [W_serve 5] None s0)" for x X
    using requests_answered [OF s0(1) _ _ cfg(1,2) asks] by simp_all blast+
  have "reported (ws_set [W_wait] None s') = reported (ws_set [W_serve 5] None s0) + unanswered (ws_set [W_serve 5] None s0)"
    by (rule all(2) [OF run stop]) (simp_all add: asks_empty_def)
  also have "\<dots> = {#5#}" using s0(2,4) by (simp add: reported_def unanswered_def ws_set_def)
  finally show ?thesis using s0(1) run all(1)
    by (intro exI [of _ "ws_set [W_serve 5] None s0"] exI [of _ "ws_set [W_wait] None s'"] exI [of _ W']) simp
qed

end
