(* ===== verification/Printf.thy ===== *)
theory Printf
  imports Util
begin

text \<open>
  What the program uses of \<open>printf\<close>: the directives \<open>%d\<close>, \<open>%ld\<close>, \<open>%u\<close>, \<open>%lu\<close>, \<open>%s\<close> and \<open>%c\<close> with a width and
  the flag \<open>0\<close>. A format is the string of the source; the output is a list of bytes. A missing argument, or one of
  another type than the directive asks for, is undefined behaviour.
\<close>

section \<open>Decimal numbers\<close>

fun decimal :: "nat \<Rightarrow> byte list" where
  "decimal n = (if n < 10 then [48 + word_of_nat n] else decimal (n div 10) @ [48 + word_of_nat (n mod 10)])"

declare decimal.simps [simp del]

lemma digit_byte:
  assumes "n < 10"
  shows "is_digit (48 + word_of_nat n)" "unat (48 + word_of_nat n - 48 :: byte) = n" "\<not> is_space (48 + word_of_nat n)"
    "48 + word_of_nat n \<noteq> (45 :: byte)" "48 + word_of_nat n \<noteq> (43 :: byte)" "unat (48 + word_of_nat n :: byte) = 48 + n"
proof -
  have u: "unat (48 + word_of_nat n :: byte) = 48 + n"
    using assms by (subst unat_add_no_wrap) (simp_all add: unat_of_nat take_bit_nat_eq_self)
  then show "unat (48 + word_of_nat n :: byte) = 48 + n" .
  show "unat (48 + word_of_nat n - 48 :: byte) = n" using assms by (simp add: unat_of_nat take_bit_nat_eq_self)
  show "is_digit (48 + word_of_nat n)" "\<not> is_space (48 + word_of_nat n)"
    using u assms by (simp_all add: is_digit_def is_space_def word_le_nat_alt word_unat_eq_iff)
  show "48 + word_of_nat n \<noteq> (45 :: byte)" "48 + word_of_nat n \<noteq> (43 :: byte)"
    using u by (simp_all add: word_unat_eq_iff)
qed

lemma digits_value_append: "digits_value v (cs @ [c]) = 10 * digits_value v cs + int (unat c - 48)"
  by (induction cs arbitrary: v) simp_all

lemma decimal_value: "digits_value 0 (decimal n) = int n"
proof (induction n rule: decimal.induct)
  case (1 n)
  moreover have "10 * int (n div 10) + int (n mod 10) = int n" by presburger
  ultimately show ?case
    by (cases "n < 10") (simp_all add: decimal.simps [of n] digits_value_append digit_byte(6))
qed

lemma decimal_digits: "decimal n \<noteq> []" "c \<in> set (decimal n) \<Longrightarrow> is_digit c"
  "\<not> is_space (hd (decimal n))" "hd (decimal n) \<noteq> 45" "hd (decimal n) \<noteq> 43"
proof -
  have "decimal n \<noteq> [] \<and> (\<forall>c \<in> set (decimal n). \<exists>m < 10. c = 48 + word_of_nat m)"
  proof (induction n rule: decimal.induct)
    case (1 n)
    moreover have "\<exists>m < 10. 48 + word_of_nat (n mod 10) = (48 + word_of_nat m :: byte)" by (intro exI [of _ "n mod 10"]) simp
    ultimately show ?case by (cases "n < 10") (auto simp: decimal.simps [of n])
  qed
  then have d: "decimal n \<noteq> []" "\<And>c. c \<in> set (decimal n) \<Longrightarrow> \<exists>m < 10. c = 48 + word_of_nat m" by auto
  then show "decimal n \<noteq> []" "c \<in> set (decimal n) \<Longrightarrow> is_digit c" using digit_byte(1) by auto
  from d obtain m where "m < 10" "hd (decimal n) = 48 + word_of_nat m" using hd_in_set by blast
  then show "\<not> is_space (hd (decimal n))" "hd (decimal n) \<noteq> 45" "hd (decimal n) \<noteq> 43"
    using digit_byte by simp_all
qed

section \<open>Formats\<close>

datatype c_arg = A_int int | A_long int | A_uint u32 | A_ulong u64 | A_str "byte list" | A_char byte

datatype piece = Lit byte | Directive bool nat bool char

definition bytes_of :: "string \<Rightarrow> byte list" where
  "bytes_of = map of_char"

text \<open>Inside a directive: whether the flag \<open>0\<close> was given, the width so far, and whether there was an \<open>l\<close>.\<close>

fun scan_format :: "(bool \<times> nat \<times> bool) option \<Rightarrow> string \<Rightarrow> piece list" where
  "scan_format st [] = []"
| "scan_format None (c # cs) =
     (if c = CHR ''%'' then scan_format (Some (False, 0, False)) cs else Lit (of_char c) # scan_format None cs)"
| "scan_format (Some (zero, width, l)) (c # cs) =
     (if c = CHR ''0'' \<and> width = 0 then scan_format (Some (True, width, l)) cs
      else if is_digit (of_char c)
      then scan_format (Some (zero, 10 * width + unat (of_char c - 48 :: byte), l)) cs
      else if c = CHR ''l'' then scan_format (Some (zero, width, True)) cs
      else Directive zero width l c # scan_format None cs)"

definition pad :: "byte \<Rightarrow> nat \<Rightarrow> byte list \<Rightarrow> byte list" where
  "pad c width bs = replicate (width - length bs) c @ bs"

definition print_int :: "bool \<Rightarrow> nat \<Rightarrow> int \<Rightarrow> byte list" where
  "print_int zero width i =
     (if 0 \<le> i then pad (if zero then 48 else 32) width (decimal (nat i))
      else if zero then 45 # pad 48 (width - 1) (decimal (nat (- i)))
      else pad 32 width (45 # decimal (nat (- i))))"

text \<open>
  A signed directive takes an unsigned argument whose value is in the range of both types, and the other way round.
\<close>

fun convert :: "bool \<Rightarrow> nat \<Rightarrow> bool \<Rightarrow> char \<Rightarrow> c_arg \<Rightarrow> byte list res" where
  "convert zero width l c (A_int i) =
     (if \<not> l \<and> (c = CHR ''d'' \<or> c = CHR ''u'' \<and> 0 \<le> i) then Ok (print_int zero width i) else UB)"
| "convert zero width l c (A_uint w) =
     (if \<not> l \<and> (c = CHR ''u'' \<or> c = CHR ''d'' \<and> unat w < 2 ^ 31) then Ok (print_int zero width (uint w)) else UB)"
| "convert zero width l c (A_long i) =
     (if l \<and> (c = CHR ''d'' \<or> c = CHR ''u'' \<and> 0 \<le> i) then Ok (print_int zero width i) else UB)"
| "convert zero width l c (A_ulong w) =
     (if l \<and> (c = CHR ''u'' \<or> c = CHR ''d'' \<and> unat w < 2 ^ 63) then Ok (print_int zero width (uint w)) else UB)"
| "convert zero width l c (A_str bs) = (if \<not> l \<and> \<not> zero \<and> c = CHR ''s'' then Ok (pad 32 width bs) else UB)"
| "convert zero width l c (A_char b) = (if \<not> l \<and> \<not> zero \<and> c = CHR ''c'' then Ok (pad 32 width [b]) else UB)"

text \<open>Arguments that are left over are ignored.\<close>

fun print_pieces :: "piece list \<Rightarrow> c_arg list \<Rightarrow> byte list res" where
  "print_pieces [] args = Ok []"
| "print_pieces (Lit b # ps) args = rbind (print_pieces ps args) (\<lambda>bs. Ok (b # bs))"
| "print_pieces (Directive zero width l c # ps) [] = UB"
| "print_pieces (Directive zero width l c # ps) (x # args) =
     rbind (convert zero width l c x) (\<lambda>bs. rbind (print_pieces ps args) (\<lambda>rest. Ok (bs @ rest)))"

definition sprintf :: "string \<Rightarrow> c_arg list \<Rightarrow> byte list res" where
  "sprintf fmt = print_pieces (scan_format None fmt)"

text \<open>\<open>snprintf\<close>: what is left of the output in a buffer of \<open>n\<close> bytes, without the NUL.\<close>

definition snprintf :: "nat \<Rightarrow> string \<Rightarrow> c_arg list \<Rightarrow> byte list res" where
  "snprintf n fmt args = rbind (sprintf fmt args) (\<lambda>bs. Ok (take (n - 1) bs))"

text \<open>\<open>_debug\<close>: what is printed to the standard error, with the result 0.\<close>

definition debug_print :: "string \<Rightarrow> c_arg list \<Rightarrow> (int \<times> byte list) res" where
  "debug_print fmt args = rbind (sprintf fmt args) (\<lambda>bs. Ok (0, bs))"

section \<open>Facts\<close>

lemma length_pad [simp]: "length (pad c width bs) = max width (length bs)"
  by (simp add: pad_def)

text \<open>The length of a number.\<close>

lemma length_decimal_le: "n < 10 ^ k \<Longrightarrow> 0 < k \<Longrightarrow> length (decimal n) \<le> k"
proof (induction k arbitrary: n)
  case (Suc k)
  show ?case
  proof (cases "n < 10")
    case True
    then show ?thesis by (simp add: decimal.simps [of n])
  next
    case False
    then have "0 < k" using Suc.prems(1) by (cases k) simp_all
    moreover have "n div 10 < 10 ^ k" using Suc.prems(1) by (simp add: less_mult_imp_div_less mult.commute)
    ultimately have "length (decimal (n div 10)) \<le> k" using Suc.IH by blast
    then show ?thesis using False by (simp add: decimal.simps [of n])
  qed
qed simp

lemma digits_value_zeros: "digits_value 0 (replicate n 48 @ bs) = digits_value 0 bs"
  by (induction n) simp_all

lemma padded_value: "digits_value 0 (pad 48 width (decimal n)) = int n"
  by (simp add: pad_def digits_value_zeros decimal_value)

lemma padded_digits: "c \<in> set (pad 48 width (decimal n)) \<Longrightarrow> is_digit c"
  using decimal_digits(2) by (auto simp: pad_def is_digit_def)

end
