(* ===== verification/Node_List.thy ===== *)
theory Node_List
  imports Prelude
begin

text \<open>
  \<open>util/node.c\<close> and \<open>util/list.c\<close>: the doubly-linked list, at the level of pointers.
  Nodes live in an explicit heap; a dereference of \<open>NULL\<close> or of a freed node is \<open>UB\<close>.
  The second half abstracts a linked list to a HOL list of (key, data) pairs and proves the
  operations correct against it; \<open>Hashtable\<close>, \<open>Hashmap\<close> and the request queue use the
  abstract lists.
\<close>

section \<open>Nodes, lists and the heap\<close>

type_synonym addr = nat

record ('k, 'd) node_t =
  key :: "'k option"
  data :: "'d option"
  prev :: "addr option"
  nxt :: "addr option"

record list_t =
  head :: "addr option"
  tail :: "addr option"
  nelem :: u32

text \<open>
  The heap of nodes: its cells, the next fresh address, the allocator, and the keys and data
  handed to \<open>free\<close> so far.
\<close>

record ('k, 'd) nheap =
  cells :: "addr \<Rightarrow> ('k, 'd) node_t option"
  brk :: addr
  nmem :: mem
  freed :: "('k + 'd) list"

definition load :: "addr option \<Rightarrow> ('k, 'd) nheap \<Rightarrow> ('k, 'd) node_t res" where
  "load p h = (case p of None \<Rightarrow> UB | Some a \<Rightarrow> (case cells h a of None \<Rightarrow> UB | Some n \<Rightarrow> Ok n))"

definition modify ::
  "addr option \<Rightarrow> (('k, 'd) node_t \<Rightarrow> ('k, 'd) node_t) \<Rightarrow> ('k, 'd) nheap \<Rightarrow> ('k, 'd) nheap res" where
  "modify p f h = rbind (load p h) (\<lambda>n. Ok (h\<lparr>cells := (cells h)(the p \<mapsto> f n)\<rparr>))"

definition free_cell :: "addr option \<Rightarrow> ('k, 'd) nheap \<Rightarrow> ('k, 'd) nheap res" where
  "free_cell p h = rbind (load p h) (\<lambda>_. Ok (h\<lparr>cells := (cells h)(the p := None)\<rparr>))"

section \<open>node.c\<close>

definition create_node ::
  "'k option \<Rightarrow> 'd option \<Rightarrow> ('k, 'd) nheap \<Rightarrow> addr option \<times> ('k, 'd) nheap" where
  "create_node k d h =
     (case malloc (nmem h) of
        (False, m) \<Rightarrow> (None, h\<lparr>nmem := m\<rparr>)
      | (True, m) \<Rightarrow>
          (Some (brk h),
           h\<lparr>nmem := m, brk := Suc (brk h),
             cells := (cells h)(brk h \<mapsto> \<lparr>key = k, data = d, prev = None, nxt = None\<rparr>)\<rparr>))"

definition free_key :: "('k, 'd) node_t \<Rightarrow> ('k, 'd) nheap \<Rightarrow> ('k, 'd) nheap" where
  "free_key n h = (case key n of None \<Rightarrow> h | Some k \<Rightarrow> h\<lparr>freed := freed h @ [Inl k]\<rparr>)"

definition free_data :: "('k, 'd) node_t \<Rightarrow> ('k, 'd) nheap \<Rightarrow> ('k, 'd) nheap" where
  "free_data n h = (case data n of None \<Rightarrow> h | Some d \<Rightarrow> h\<lparr>freed := freed h @ [Inr d]\<rparr>)"

definition free_node :: "addr option \<Rightarrow> ('k, 'd) nheap \<Rightarrow> ('k, 'd) nheap res" where
  "free_node p h =
     (if p = None then Ok h
      else rbind (load p h) (\<lambda>n. free_cell p (free_data n (free_key n h))))"

definition free_node_and_key :: "addr option \<Rightarrow> ('k, 'd) nheap \<Rightarrow> ('k, 'd) nheap res" where
  "free_node_and_key p h =
     (if p = None then Ok h else rbind (load p h) (\<lambda>n. free_cell p (free_key n h)))"

definition free_node_and_data :: "addr option \<Rightarrow> ('k, 'd) nheap \<Rightarrow> ('k, 'd) nheap res" where
  "free_node_and_data p h =
     (if p = None then Ok h else rbind (load p h) (\<lambda>n. free_cell p (free_data n h)))"

definition free_only_node :: "addr option \<Rightarrow> ('k, 'd) nheap \<Rightarrow> ('k, 'd) nheap res" where
  "free_only_node p h = (if p = None then Ok h else free_cell p h)"

section \<open>list.c\<close>

text \<open>
  A list pointer is an option (\<open>None\<close> is \<open>NULL\<close>). A result \<open>Inl e\<close> is the return value
  \<open>-1\<close> with \<open>errno = e\<close>, \<open>Inr\<close> is \<open>0\<close> with what the call stores through its arguments.
\<close>

definition empty_list :: "mem \<Rightarrow> (errno + list_t) \<times> mem" where
  "empty_list m =
     (case malloc m of
        (False, m) \<Rightarrow> (Inl ENOMEM, m)
      | (True, m) \<Rightarrow> (Inr \<lparr>head = None, tail = None, nelem = 0\<rparr>, m))"

fun list_delete_loop ::
  "nat \<Rightarrow> (addr option \<Rightarrow> ('k, 'd) nheap \<Rightarrow> ('k, 'd) nheap res) \<Rightarrow> addr option
     \<Rightarrow> ('k, 'd) nheap \<Rightarrow> ('k, 'd) nheap res" where
  "list_delete_loop 0 cleaner p h = Stuck"
| "list_delete_loop (Suc fuel) cleaner p h =
     (if p = None then Ok h
      else rbind (load p h) (\<lambda>n.
           rbind (cleaner p h) (\<lambda>h. list_delete_loop fuel cleaner (nxt n) h)))"

text \<open>
  The loop frees one allocated node per turn, and all addresses are below \<open>brk h\<close>, so
  \<open>Suc (brk h)\<close> turns are enough. A null cleaner stands for \<open>free_node\<close>.
\<close>

definition list_delete ::
  "list_t option \<Rightarrow> (addr option \<Rightarrow> ('k, 'd) nheap \<Rightarrow> ('k, 'd) nheap res) option
     \<Rightarrow> ('k, 'd) nheap \<Rightarrow> (list_t option \<times> ('k, 'd) nheap) res" where
  "list_delete l cleaner h =
     (case l of None \<Rightarrow> Ok (None, h)
      | Some l \<Rightarrow>
          rbind (list_delete_loop (Suc (brk h))
                   (case cleaner of None \<Rightarrow> free_node | Some c \<Rightarrow> c) (head l) h)
            (\<lambda>h. Ok (None, h)))"

definition list_push_front ::
  "list_t option \<Rightarrow> 'k option \<Rightarrow> 'd option \<Rightarrow> ('k, 'd) nheap
     \<Rightarrow> ((errno + unit) \<times> list_t option \<times> ('k, 'd) nheap) res" where
  "list_push_front lp k d h =
     (case lp of None \<Rightarrow> Ok (Inl EINVAL, None, h)
      | Some l \<Rightarrow>
         (case create_node k d h of
            (None, h) \<Rightarrow> Ok (Inl ENOMEM, Some l, h)
          | (Some a, h) \<Rightarrow>
              if nelem l = 0
              then Ok (Inr (), Some (l\<lparr>head := Some a, tail := Some a, nelem := nelem l + 1\<rparr>), h)
              else rbind (modify (Some a) (\<lambda>n. n\<lparr>nxt := head l\<rparr>) h) (\<lambda>h.
                   rbind (modify (head l) (\<lambda>n. n\<lparr>prev := Some a\<rparr>) h) (\<lambda>h.
                   Ok (Inr (), Some (l\<lparr>head := Some a, nelem := nelem l + 1\<rparr>), h)))))"

definition list_push_back ::
  "list_t option \<Rightarrow> 'k option \<Rightarrow> 'd option \<Rightarrow> ('k, 'd) nheap
     \<Rightarrow> ((errno + unit) \<times> list_t option \<times> ('k, 'd) nheap) res" where
  "list_push_back lp k d h =
     (case lp of None \<Rightarrow> Ok (Inl EINVAL, None, h)
      | Some l \<Rightarrow>
         (case create_node k d h of
            (None, h) \<Rightarrow> Ok (Inl ENOMEM, Some l, h)
          | (Some a, h) \<Rightarrow>
              if nelem l = 0
              then Ok (Inr (), Some (l\<lparr>head := Some a, tail := Some a, nelem := nelem l + 1\<rparr>), h)
              else rbind (modify (Some a) (\<lambda>n. n\<lparr>prev := tail l\<rparr>) h) (\<lambda>h.
                   rbind (modify (tail l) (\<lambda>n. n\<lparr>nxt := Some a\<rparr>) h) (\<lambda>h.
                   Ok (Inr (), Some (l\<lparr>tail := Some a, nelem := nelem l + 1\<rparr>), h)))))"

definition list_pop_front ::
  "list_t option \<Rightarrow> ('k, 'd) nheap
     \<Rightarrow> ((errno + 'k option \<times> 'd option) \<times> list_t option \<times> ('k, 'd) nheap) res" where
  "list_pop_front lp h =
     (case lp of None \<Rightarrow> Ok (Inl EINVAL, None, h)
      | Some l \<Rightarrow>
         if nelem l = 0 then Ok (Inl EINVAL, Some l, h)
         else rbind (load (head l) h) (\<lambda>node.
              rbind (free_cell (head l) h) (\<lambda>h.
              Ok (Inr (key node, data node),
                  Some (l\<lparr>nelem := nelem l - 1, head := nxt node,
                          tail := (if nelem l - 1 = 0 then None else tail l)\<rparr>), h))))"

definition list_pop_back ::
  "list_t option \<Rightarrow> ('k, 'd) nheap
     \<Rightarrow> ((errno + 'k option \<times> 'd option) \<times> list_t option \<times> ('k, 'd) nheap) res" where
  "list_pop_back lp h =
     (case lp of None \<Rightarrow> Ok (Inl EINVAL, None, h)
      | Some l \<Rightarrow>
         if nelem l = 0 then Ok (Inl EINVAL, Some l, h)
         else rbind (load (tail l) h) (\<lambda>node.
              rbind (free_cell (tail l) h) (\<lambda>h.
              Ok (Inr (key node, data node),
                  Some (l\<lparr>nelem := nelem l - 1, tail := prev node,
                          head := (if nelem l - 1 = 0 then None else head l)\<rparr>), h))))"

text \<open>
  The code that walks a list with \<open>curr = curr->next\<close> and calls a test on each node, and
  the removal of a found node, are the same in \<open>hashtbl_remove\<close> and \<open>hashmap_remove\<close>.
\<close>

fun list_search ::
  "nat \<Rightarrow> (('k, 'd) node_t \<Rightarrow> bool) \<Rightarrow> addr option \<Rightarrow> ('k, 'd) nheap \<Rightarrow> addr option res" where
  "list_search 0 P p h = Stuck"
| "list_search (Suc fuel) P p h =
     (if p = None then Ok None
      else rbind (load p h) (\<lambda>n. if P n then Ok p else list_search fuel P (nxt n) h))"

definition list_unlink ::
  "list_t \<Rightarrow> addr option \<Rightarrow> ('k, 'd) nheap \<Rightarrow> (list_t \<times> ('k, 'd) nheap) res" where
  "list_unlink l cur h =
     rbind (load cur h) (\<lambda>c.
     rbind (if prev c \<noteq> None
            then rbind (modify (prev c) (\<lambda>n. n\<lparr>nxt := nxt c\<rparr>) h) (\<lambda>h. Ok (l, h))
            else Ok (l\<lparr>head := nxt c\<rparr>, h)) (\<lambda>(l, h).
     rbind (if nxt c \<noteq> None
            then rbind (modify (nxt c) (\<lambda>n. n\<lparr>prev := prev c\<rparr>) h) (\<lambda>h. Ok (l, h))
            else Ok (l\<lparr>tail := prev c\<rparr>, h)) (\<lambda>(l, h).
     rbind (free_cell cur h) (\<lambda>h. Ok (l\<lparr>nelem := nelem l - 1\<rparr>, h)))))"

section \<open>Linked lists as HOL lists\<close>

text \<open>
  \<open>dls C p pr as q l\<close>: from \<open>p\<close> the \<open>next\<close> pointers visit the addresses \<open>as\<close> and reach
  \<open>q\<close>; the \<open>prev\<close> pointers go back, the first one to \<open>pr\<close>; \<open>l\<close> is the last node visited.
\<close>

fun dls ::
  "(addr \<Rightarrow> ('k, 'd) node_t option) \<Rightarrow> addr option \<Rightarrow> addr option \<Rightarrow> addr list
     \<Rightarrow> addr option \<Rightarrow> addr option \<Rightarrow> bool" where
  "dls C p pr [] q l \<longleftrightarrow> p = q \<and> l = pr"
| "dls C p pr (a # as) q l \<longleftrightarrow>
     p = Some a \<and> (\<exists>n. C a = Some n \<and> prev n = pr \<and> dls C (nxt n) (Some a) as q l)"

definition content :: "('k, 'd) node_t option \<Rightarrow> ('k option \<times> 'd option) option" where
  "content = map_option (\<lambda>n. (key n, data n))"

definition vals ::
  "(addr \<Rightarrow> ('k, 'd) node_t option) \<Rightarrow> addr list \<Rightarrow> ('k option \<times> 'd option) option list" where
  "vals C as = map (\<lambda>a. content (C a)) as"

definition heap_ok :: "('k, 'd) nheap \<Rightarrow> bool" where
  "heap_ok h \<longleftrightarrow> (\<forall>a. brk h \<le> a \<longrightarrow> cells h a = None)"

text \<open>
  \<open>linked h l as xs pr\<close>: the list \<open>l\<close> occupies the nodes \<open>as\<close> and holds \<open>xs\<close>; the \<open>prev\<close>
  pointer of its first node is \<open>pr\<close>.
\<close>

definition linked ::
  "('k, 'd) nheap \<Rightarrow> list_t \<Rightarrow> addr list \<Rightarrow> ('k option \<times> 'd option) list \<Rightarrow> addr option \<Rightarrow> bool" where
  "linked h l as xs pr \<longleftrightarrow>
     dls (cells h) (head l) pr as None (if as = [] then pr else tail l) \<and>
     (as = [] \<longrightarrow> tail l = None) \<and> distinct as \<and>
     nelem l = word_of_nat (length as) \<and> length as < 2 ^ 32 \<and>
     vals (cells h) as = map Some xs \<and> heap_ok h"

text \<open>
  \<open>list_rep\<close> leaves the first \<open>prev\<close> pointer open, which is all that pushing, popping at the
  front and walking forward need; \<open>list_wf\<close> also asks that it is \<open>NULL\<close>.
\<close>

definition list_rep :: "('k, 'd) nheap \<Rightarrow> list_t \<Rightarrow> ('k option \<times> 'd option) list \<Rightarrow> bool" where
  "list_rep h l xs \<longleftrightarrow> (\<exists>as pr. linked h l as xs pr)"

definition list_wf :: "('k, 'd) nheap \<Rightarrow> list_t \<Rightarrow> ('k option \<times> 'd option) list \<Rightarrow> bool" where
  "list_wf h l xs \<longleftrightarrow> (\<exists>as. linked h l as xs None)"

lemma list_wf_rep: "list_wf h l xs \<Longrightarrow> list_rep h l xs"
  unfolding list_wf_def list_rep_def by blast

lemma dls_append:
  "dls C p pr (as @ bs) q l \<longleftrightarrow> (\<exists>m k. dls C p pr as m k \<and> dls C m k bs q l)"
  by (induction as arbitrary: p pr) auto

lemma dls_frame: "u \<notin> set as \<Longrightarrow> dls (C(u := v)) p pr as q l = dls C p pr as q l"
  by (induction as arbitrary: p pr) auto

lemma dls_None: "dls C None pr as q l \<longleftrightarrow> as = [] \<and> q = None \<and> l = pr"
  by (cases as) auto

lemma dls_alloc: "dls C p pr as q l \<Longrightarrow> a \<in> set as \<Longrightarrow> C a \<noteq> None"
  by (induction as arbitrary: p pr) auto

lemma dls_last: "dls C p pr as q l \<Longrightarrow> as \<noteq> [] \<Longrightarrow> l = Some (last as)"
  by (induction as arbitrary: p pr) (auto simp: last_ConsL last_ConsR)

lemma content_Some [simp]: "content (Some n) = Some (key n, data n)" "content None = None"
  by (simp_all add: content_def)

lemma vals_simps [simp]:
  "vals C [] = []" "vals C (a # as) = content (C a) # vals C as"
  "vals C (as @ bs) = vals C as @ vals C bs"
  by (simp_all add: vals_def)

lemma vals_frame [simp]: "u \<notin> set as \<Longrightarrow> vals (C(u := v)) as = vals C as"
  by (auto simp: vals_def)

lemma vals_keep: "content v = content (C u) \<Longrightarrow> vals (C(u := v)) as = vals C as"
  by (auto simp: vals_def)

lemma length_vals [simp]: "length (vals C as) = length as"
  by (simp add: vals_def)

lemma word_len_inj: "n < 2 ^ 32 \<Longrightarrow> (word_of_nat n = (0 :: u32)) = (n = 0)"
  by (simp add: word_of_nat_eq_0_iff nat_dvd_not_less) (metis dvd_imp_le gr0I nat_neq_iff not_le dvd_0_right)

lemma linked_nelem_0: "linked h l as xs pr \<Longrightarrow> nelem l = 0 \<longleftrightarrow> as = []"
  by (simp add: linked_def word_len_inj)

lemma linked_length: "linked h l as xs pr \<Longrightarrow> length as = length xs"
  unfolding linked_def by (metis length_map length_vals)

lemma linked_fresh: "linked h l as xs pr \<Longrightarrow> brk h \<notin> set as"
  unfolding linked_def heap_ok_def by (metis dls_alloc order_refl)

lemma linked_split_last:
  assumes "linked h l (as @ [z]) xs pr"
  obtains m k n where "tail l = Some z" "cells h z = Some n" "prev n = k" "nxt n = None"
    "dls (cells h) (head l) pr as (Some z) k" "z \<notin> set as" "distinct as"
  using assms unfolding linked_def by (auto simp: dls_append split: if_splits)

lemma push_back_linked:
  assumes L: "linked h l as xs pr" and len: "Suc (length as) < 2 ^ 32"
    and M: "malloc (nmem h) = (True, m)"
  shows "\<exists>l' h'. list_push_back (Some l) k d h = Ok (Inr (), Some l', h') \<and>
           linked h' l' (as @ [brk h]) (xs @ [(k, d)]) (if as = [] then None else pr) \<and>
           nmem h' = m \<and> freed h' = freed h \<and> brk h' = Suc (brk h)"
proof (cases as rule: rev_cases)
  case Nil
  with L have "nelem l = 0" "xs = []" "heap_ok h"
    by (auto simp: linked_def)
  with Nil M show ?thesis
    by (simp add: list_push_back_def create_node_def linked_def heap_ok_def)
next
  case (snoc bs z)
  from L have fresh: "brk h \<notin> set as" by (rule linked_fresh)
  from L snoc obtain n where z: "tail l = Some z" "cells h z = Some n" "nxt n = None"
      "dls (cells h) (head l) pr bs (Some z) (prev n)" "z \<notin> set bs" "distinct bs"
    by (metis linked_split_last)
  from L snoc have ne: "nelem l \<noteq> 0" by (simp add: linked_nelem_0 [OF L])
  let ?b = "brk h"
  let ?new = "\<lparr>key = k, data = d, prev = Some z, nxt = None\<rparr>"
  let ?C = "(cells h)(?b \<mapsto> ?new, z \<mapsto> n\<lparr>nxt := Some ?b\<rparr>)"
  let ?h = "h\<lparr>nmem := m, brk := Suc ?b, cells := ?C\<rparr>"
  let ?l = "l\<lparr>tail := Some ?b, nelem := nelem l + 1\<rparr>"
  from fresh snoc have bz: "?b \<noteq> z" "?b \<notin> set bs" by auto
  have "list_push_back (Some l) k d h = Ok (Inr (), Some ?l, ?h)"
    using ne M z bz by (simp add: list_push_back_def create_node_def modify_def load_def)
  moreover have "linked ?h ?l (as @ [?b]) (xs @ [(k, d)]) pr"
  proof -
    have "dls ?C (head l) pr bs (Some z) (prev n)"
      using z(4,5) bz by (simp add: dls_frame)
    then have "dls ?C (head l) pr (as @ [?b]) None (Some ?b)"
      using snoc bz by (auto simp: dls_append)
    moreover have "vals ?C as = vals (cells h) as"
      using z bz snoc by (simp add: vals_keep)
    ultimately show ?thesis
      using L snoc fresh bz len z unfolding linked_def heap_ok_def by auto
  qed
  ultimately show ?thesis using snoc by auto
qed

lemma push_front_linked:
  assumes L: "linked h l as xs pr" and len: "Suc (length as) < 2 ^ 32"
    and M: "malloc (nmem h) = (True, m)"
  shows "\<exists>l' h'. list_push_front (Some l) k d h = Ok (Inr (), Some l', h') \<and>
           linked h' l' (brk h # as) ((k, d) # xs) None \<and>
           nmem h' = m \<and> freed h' = freed h \<and> brk h' = Suc (brk h)"
proof (cases as)
  case Nil
  with L have "nelem l = 0" "xs = []" "heap_ok h"
    by (auto simp: linked_def)
  with Nil M show ?thesis
    by (simp add: list_push_front_def create_node_def linked_def heap_ok_def)
next
  case (Cons z bs)
  from L have fresh: "brk h \<notin> set as" by (rule linked_fresh)
  from L Cons obtain n where z: "head l = Some z" "cells h z = Some n" "prev n = pr"
      "dls (cells h) (nxt n) (Some z) bs None (tail l)" "z \<notin> set bs" "distinct bs"
    by (auto simp: linked_def)
  from L Cons have ne: "nelem l \<noteq> 0" by (simp add: linked_nelem_0 [OF L])
  let ?b = "brk h"
  let ?new = "\<lparr>key = k, data = d, prev = None, nxt = Some z\<rparr>"
  let ?C = "(cells h)(?b \<mapsto> ?new, z \<mapsto> n\<lparr>prev := Some ?b\<rparr>)"
  let ?h = "h\<lparr>nmem := m, brk := Suc ?b, cells := ?C\<rparr>"
  let ?l = "l\<lparr>head := Some ?b, nelem := nelem l + 1\<rparr>"
  from fresh Cons have bz: "?b \<noteq> z" "?b \<notin> set bs" by auto
  have "list_push_front (Some l) k d h = Ok (Inr (), Some ?l, ?h)"
    using ne M z bz by (simp add: list_push_front_def create_node_def modify_def load_def)
  moreover have "linked ?h ?l (?b # as) ((k, d) # xs) None"
  proof -
    have "dls ?C (nxt n) (Some z) bs None (tail l)"
      using z(4,5) bz by (simp add: dls_frame)
    then have "dls ?C (Some ?b) None (?b # as) None (tail l)"
      using Cons bz by simp
    moreover have "vals ?C as = vals (cells h) as"
      using z bz Cons by (simp add: vals_keep)
    ultimately show ?thesis
      using L Cons fresh bz len z unfolding linked_def heap_ok_def by auto
  qed
  ultimately show ?thesis by auto
qed

lemma pop_front_linked:
  assumes L: "linked h l (a # as) ((k, d) # xs) pr"
  shows "\<exists>l' h'. list_pop_front (Some l) h = Ok (Inr (k, d), Some l', h') \<and>
           linked h' l' as xs (Some a) \<and> cells h' a = None \<and>
           nmem h' = nmem h \<and> freed h' = freed h \<and> brk h' = brk h"
proof -
  from L obtain n where n: "head l = Some a" "cells h a = Some n" "prev n = pr"
      "dls (cells h) (nxt n) (Some a) as None (tail l)" "a \<notin> set as" "distinct as"
      "key n = k" "data n = d"
    by (auto simp: linked_def)
  let ?C = "(cells h)(a := None)"
  let ?h = "h\<lparr>cells := ?C\<rparr>"
  let ?l = "l\<lparr>nelem := nelem l - 1, head := nxt n, tail := (if nelem l - 1 = 0 then None else tail l)\<rparr>"
  have len: "length as < 2 ^ 32" using L by (simp add: linked_def)
  have ne: "nelem l \<noteq> 0" by (simp add: linked_nelem_0 [OF L])
  have ne1: "nelem l - 1 = word_of_nat (length as)" using L by (simp add: linked_def)
  have "list_pop_front (Some l) h = Ok (Inr (k, d), Some ?l, ?h)"
    using ne n by (simp add: list_pop_front_def load_def free_cell_def)
  moreover have "linked ?h ?l as xs (Some a)"
  proof -
    have "dls ?C (nxt n) (Some a) as None (tail l)"
      using n by (simp add: dls_frame)
    moreover have "vals ?C as = vals (cells h) as"
      using n by simp
    ultimately show ?thesis
      using L n len word_len_inj [OF len] unfolding linked_def heap_ok_def ne1
      by (auto simp: ne1 dls_last)
  qed
  ultimately show ?thesis by auto
qed

section \<open>Removing a node in the middle\<close>

lemma dls_redirect_end:
  "dls C p pr (us @ [u]) q l \<Longrightarrow> u \<notin> set us \<Longrightarrow>
     dls (C(u \<mapsto> (the (C u))\<lparr>nxt := q'\<rparr>)) p pr (us @ [u]) q' l"
  by (auto simp: dls_append dls_frame)

lemma dls_redirect_start:
  "dls C p pr (v # vs) q l \<Longrightarrow> v \<notin> set vs \<Longrightarrow>
     dls (C(v \<mapsto> (the (C v))\<lparr>prev := pr'\<rparr>)) p pr' (v # vs) q l"
  by (auto simp: dls_frame)

lemma modify_Some: "cells h a = Some n \<Longrightarrow> modify (Some a) f h = Ok (h\<lparr>cells := (cells h)(a \<mapsto> f n)\<rparr>)"
  by (simp add: modify_def load_def)

lemma free_cell_Some: "cells h a = Some n \<Longrightarrow> free_cell (Some a) h = Ok (h\<lparr>cells := (cells h)(a := None)\<rparr>)"
  by (simp add: free_cell_def load_def)

text \<open>
  What \<open>list_unlink\<close> does to the cells: the left neighbour's \<open>next\<close> and the right
  neighbour's \<open>prev\<close> are redirected, then the node is freed.
\<close>

lemma unlink_dls:
  assumes D: "dls (cells h) (head l) None (as @ a # bs) None (tail l)"
    and dist: "distinct (as @ a # bs)"
  shows "\<exists>l' C'. list_unlink l (Some a) h = Ok (l', h\<lparr>cells := C'\<rparr>) \<and>
           dls C' (head l') None (as @ bs) None (tail l') \<and> nelem l' = nelem l - 1 \<and>
           (as @ bs = [] \<longrightarrow> tail l' = None) \<and>
           vals C' (as @ bs) = vals (cells h) (as @ bs) \<and>
           (\<forall>b. cells h b = None \<longrightarrow> C' b = None)"
proof -
  from D obtain n where n: "cells h a = Some n" "dls (cells h) (head l) None as (Some a) (prev n)"
      "dls (cells h) (nxt n) (Some a) bs None (tail l)"
    by (auto simp: dls_append)
  have ld: "load (Some a) h = Ok n" using n by (simp add: load_def)
  have goalI: ?thesis
    if "list_unlink l (Some a) h = Ok (l', h\<lparr>cells := C'\<rparr>)"
      "dls C' (head l') None (as @ bs) None (tail l')" "vals C' (as @ bs) = vals (cells h) (as @ bs)"
      "nelem l' = nelem l - 1" "as @ bs = [] \<longrightarrow> tail l' = None"
      "\<forall>b. cells h b = None \<longrightarrow> C' b = None" for l' C'
    using that by blast
  consider (both) us u v vs where "as = us @ [u]" "bs = v # vs"
    | (left) us u where "as = us @ [u]" "bs = []"
    | (right) v vs where "as = []" "bs = v # vs"
    | (alone) "as = []" "bs = []"
    by (cases as rule: rev_cases; cases bs) auto
  then show ?thesis
  proof cases
    case both
    from n both obtain nu nv where u: "cells h u = Some nu" "prev n = Some u" "nxt nu = Some a"
      and v: "cells h v = Some nv" "nxt n = Some v" "prev nv = Some a"
      by (auto simp: dls_append)
    let ?l = "l\<lparr>nelem := nelem l - 1\<rparr>"
    let ?C = "(cells h)(u \<mapsto> nu\<lparr>nxt := Some v\<rparr>, v \<mapsto> nv\<lparr>prev := Some u\<rparr>, a := None)"
    have ne: "u \<noteq> v" "u \<noteq> a" "v \<noteq> a" "u \<notin> set vs" "v \<notin> set us" "a \<notin> set us" "a \<notin> set vs"
        "u \<notin> set us" "v \<notin> set vs"
      using dist both by auto
    have "list_unlink l (Some a) h = Ok (?l, h\<lparr>cells := ?C\<rparr>)"
      using n u v ne by (simp add: list_unlink_def ld modify_Some free_cell_Some)
    moreover have "dls ?C (head ?l) None (as @ bs) None (tail ?l)"
      using n(2,3) both u v ne by (auto simp: dls_append dls_frame)
    moreover have "vals ?C (as @ bs) = vals (cells h) (as @ bs)"
      using both u v ne by (simp add: vals_keep)
    ultimately show ?thesis by (rule goalI) (use n u v both in auto)
  next
    case left
    from n left obtain nu where u: "cells h u = Some nu" "prev n = Some u" "nxt nu = Some a"
      and v: "nxt n = None"
      by (auto simp: dls_append)
    let ?l = "l\<lparr>tail := Some u, nelem := nelem l - 1\<rparr>"
    let ?C = "(cells h)(u \<mapsto> nu\<lparr>nxt := None\<rparr>, a := None)"
    have ne: "u \<noteq> a" "a \<notin> set us" "u \<notin> set us"
      using dist left by auto
    have "list_unlink l (Some a) h = Ok (?l, h\<lparr>cells := ?C\<rparr>)"
      using n u v ne by (simp add: list_unlink_def ld modify_Some free_cell_Some)
    moreover have "dls ?C (head ?l) None (as @ bs) None (tail ?l)"
      using n(2,3) left u v ne by (auto simp: dls_append dls_frame)
    moreover have "vals ?C (as @ bs) = vals (cells h) (as @ bs)"
      using left u v ne by (simp add: vals_keep)
    ultimately show ?thesis by (rule goalI) (use n u v left in auto)
  next
    case right
    from n right obtain nv where u: "prev n = None"
      and v: "cells h v = Some nv" "nxt n = Some v" "prev nv = Some a"
      by (auto simp: dls_append)
    let ?l = "l\<lparr>head := Some v, nelem := nelem l - 1\<rparr>"
    let ?C = "(cells h)(v \<mapsto> nv\<lparr>prev := None\<rparr>, a := None)"
    have ne: "v \<noteq> a" "a \<notin> set vs" "v \<notin> set vs"
      using dist right by auto
    have "list_unlink l (Some a) h = Ok (?l, h\<lparr>cells := ?C\<rparr>)"
      using n u v ne by (simp add: list_unlink_def ld modify_Some free_cell_Some)
    moreover have "dls ?C (head ?l) None (as @ bs) None (tail ?l)"
      using n(2,3) right u v ne by (auto simp: dls_append dls_frame)
    moreover have "vals ?C (as @ bs) = vals (cells h) (as @ bs)"
      using right u v ne by (simp add: vals_keep)
    ultimately show ?thesis by (rule goalI) (use n u v right in auto)
  next
    case alone
    with n have p: "prev n = None" "nxt n = None" by auto
    let ?l = "l\<lparr>head := None, tail := None, nelem := nelem l - 1\<rparr>"
    have "list_unlink l (Some a) h =
        Ok (?l, h\<lparr>cells := (cells h)(a := None)\<rparr>)"
      using n p by (simp add: list_unlink_def ld free_cell_Some)
    moreover have "dls ((cells h)(a := None)) (head ?l) None (as @ bs) None (tail ?l)"
      using alone by simp
    ultimately show ?thesis by (rule goalI) (use alone in auto)
  qed
qed

lemma unlink_linked:
  assumes L: "linked h l (as @ a # bs) (xs @ x # ys) None" and len: "length as = length xs"
  shows "\<exists>l' h'. list_unlink l (Some a) h = Ok (l', h') \<and> linked h' l' (as @ bs) (xs @ ys) None"
proof -
  from L have D: "dls (cells h) (head l) None (as @ a # bs) None (tail l)"
    and dist: "distinct (as @ a # bs)" and ok: "heap_ok h"
    and lt: "length (as @ a # bs) < 2 ^ 32" and ne: "nelem l = word_of_nat (length (as @ a # bs))"
    by (auto simp: linked_def)
  from unlink_dls [OF D dist] obtain l' C' where U: "list_unlink l (Some a) h = Ok (l', h\<lparr>cells := C'\<rparr>)"
      and D': "dls C' (head l') None (as @ bs) None (tail l')" "nelem l' = nelem l - 1"
        "as @ bs = [] \<longrightarrow> tail l' = None" "vals C' (as @ bs) = vals (cells h) (as @ bs)"
        "\<forall>b. cells h b = None \<longrightarrow> C' b = None"
    by blast
  have v: "vals (cells h) (as @ bs) = map Some (xs @ ys)"
    using L len unfolding linked_def by simp
  have "linked (h\<lparr>cells := C'\<rparr>) l' (as @ bs) (xs @ ys) None"
    using D' v dist ok lt ne unfolding linked_def heap_ok_def
    by (cases "as @ bs = []") (auto simp: dls_None)
  with U show ?thesis by blast
qed

text \<open>Walking forward finds the first node whose content satisfies the test.\<close>

lemma list_search_find:
  assumes "dls (cells h) p pr as None l" "vals (cells h) as = map Some xs" "length as < fuel"
    and P: "\<And>n. P n \<longleftrightarrow> Q (key n, data n)"
  shows "(find Q xs = None \<and> list_search fuel P p h = Ok None) \<or>
         (\<exists>us a vs ys x zs. as = us @ a # vs \<and> xs = ys @ x # zs \<and> length us = length ys \<and>
            find Q xs = Some x \<and> remove_first Q xs = ys @ zs \<and> list_search fuel P p h = Ok (Some a))"
  using assms(1-3)
proof (induction as arbitrary: p pr xs fuel)
  case Nil
  then show ?case by (cases fuel) auto
next
  case (Cons a as)
  then obtain n f y ys where n: "cells h a = Some n" "p = Some a" "fuel = Suc f" "xs = y # ys"
      "y = (key n, data n)"
      and rest: "dls (cells h) (nxt n) (Some a) as None l" "vals (cells h) as = map Some ys" "length as < f"
    by (cases fuel) auto
  have step: "list_search fuel P p h = (if Q y then Ok p else list_search f P (nxt n) h)"
    using n P by (simp add: load_def)
  show ?case
  proof (cases "Q y")
    case True
    then show ?thesis using n step by force
  next
    case False
    with step have eq: "list_search fuel P p h = list_search f P (nxt n) h" by simp
    from Cons.IH [OF rest] show ?thesis
    proof (elim disjE exE conjE)
      assume "find Q ys = None" "list_search f P (nxt n) h = Ok None"
      then show ?thesis using n False eq by simp
    next
      fix us b vs ys' x zs
      assume *: "as = us @ b # vs" "ys = ys' @ x # zs" "length us = length ys'" "find Q ys = Some x"
        "remove_first Q ys = ys' @ zs" "list_search f P (nxt n) h = Ok (Some b)"
      have "a # as = (a # us) @ b # vs" "xs = (y # ys') @ x # zs" using * n by auto
      moreover have "find Q xs = Some x" "remove_first Q xs = (y # ys') @ zs"
        using * n False by auto
      ultimately show ?thesis using * eq by (metis length_Cons)
    qed
  qed
qed

lemma linked_length_brk:
  assumes "linked h l as xs pr"
  shows "length as \<le> brk h"
proof -
  have "set as \<subseteq> {..<brk h}"
    using assms dls_alloc unfolding linked_def heap_ok_def by (metis lessThan_iff not_le subsetI)
  then have "card (set as) \<le> brk h" by (metis card_lessThan card_mono finite_lessThan)
  then show ?thesis using assms by (simp add: linked_def distinct_card)
qed

text \<open>The bucket scan of the hash tables: look for a node, unlink it if it is there.\<close>

lemma search_unlink_refines:
  assumes wf: "list_wf h l xs" and P: "\<And>n. P n \<longleftrightarrow> Q (key n, data n)"
  shows "\<exists>r. list_search (Suc (brk h)) P (head l) h = Ok r \<and>
     (case find Q xs of
        None \<Rightarrow> r = None
      | Some x \<Rightarrow> \<exists>a l' h'. r = Some a \<and> content (cells h a) = Some x \<and>
           list_unlink l (Some a) h = Ok (l', h') \<and> list_wf h' l' (remove_first Q xs))"
proof -
  from wf obtain as where L: "linked h l as xs None" by (auto simp: list_wf_def)
  then have d: "dls (cells h) (head l) None as None (if as = [] then None else tail l)"
      "vals (cells h) as = map Some xs" "length as < Suc (brk h)"
    using linked_length_brk [OF L] by (auto simp: linked_def)
  from list_search_find [OF d, of P Q, OF P] show ?thesis
  proof (elim disjE exE conjE)
    assume "find Q xs = None" "list_search (Suc (brk h)) P (head l) h = Ok None"
    then show ?thesis by simp
  next
    fix us a vs ys x zs
    assume *: "as = us @ a # vs" "xs = ys @ x # zs" "length us = length ys" "find Q xs = Some x"
      "remove_first Q xs = ys @ zs" "list_search (Suc (brk h)) P (head l) h = Ok (Some a)"
    from L * have "linked h l (us @ a # vs) (ys @ x # zs) None" by simp
    from unlink_linked [OF this *(3)] obtain l' h' where
      "list_unlink l (Some a) h = Ok (l', h')" "linked h' l' (us @ vs) (ys @ zs) None" by blast
    moreover have "content (cells h a) = Some x" using d(2) * by simp
    ultimately show ?thesis using * by (auto simp: list_wf_def)
  qed
qed

section \<open>Deleting a list\<close>

text \<open>What each node cleaner hands to \<open>free\<close> besides the node.\<close>

definition key_of :: "'k option \<times> 'd option \<Rightarrow> ('k + 'd) list" where
  "key_of x = (case fst x of None \<Rightarrow> [] | Some k \<Rightarrow> [Inl k])"

definition data_of :: "'k option \<times> 'd option \<Rightarrow> ('k + 'd) list" where
  "data_of x = (case snd x of None \<Rightarrow> [] | Some d \<Rightarrow> [Inr d])"

definition frees ::
  "(addr option \<Rightarrow> ('k, 'd) nheap \<Rightarrow> ('k, 'd) nheap res)
     \<Rightarrow> ('k option \<times> 'd option \<Rightarrow> ('k + 'd) list) \<Rightarrow> bool" where
  "frees c g \<longleftrightarrow> (\<forall>a n h. cells h a = Some n \<longrightarrow>
     c (Some a) h = Ok (h\<lparr>cells := (cells h)(a := None), freed := freed h @ g (key n, data n)\<rparr>))"

lemma cleaners_free:
  "frees free_node (\<lambda>x. key_of x @ data_of x)"
  "frees free_node_and_key key_of"
  "frees free_node_and_data data_of"
  "frees free_only_node (\<lambda>_. [])"
  by (auto simp: frees_def free_node_def free_node_and_key_def free_node_and_data_def
      free_only_node_def load_def free_cell_def free_key_def free_data_def key_of_def data_of_def
      split: option.splits)

lemma list_delete_loop_frees:
  assumes "frees c g" "dls (cells h) p pr as None l" "distinct as" "vals (cells h) as = map Some xs"
    "length as < fuel"
  shows "list_delete_loop fuel c p h =
            Ok (h\<lparr>cells := (\<lambda>b. if b \<in> set as then None else cells h b),
                  freed := freed h @ concat (map g xs)\<rparr>)"
  using assms(2-)
proof (induction as arbitrary: p pr xs fuel h)
  case Nil
  then show ?case by (cases fuel) auto
next
  case (Cons a as)
  then obtain n f ys where n: "cells h a = Some n" "p = Some a" "fuel = Suc f"
      "xs = (key n, data n) # ys" "a \<notin> set as" "distinct as" "length as < f"
      "dls (cells h) (nxt n) (Some a) as None l" "vals (cells h) as = map Some ys"
    by (cases fuel) auto
  let ?h = "h\<lparr>cells := (cells h)(a := None), freed := freed h @ g (key n, data n)\<rparr>"
  have step: "list_delete_loop fuel c p h = list_delete_loop f c (nxt n) ?h"
    using n assms(1) by (simp add: load_def frees_def)
  have "dls (cells ?h) (nxt n) (Some a) as None l" "vals (cells ?h) as = map Some ys"
    using n by (auto simp: dls_frame)
  note IH = Cons.IH [OF this(1) n(6) this(2) n(7)]
  have "(\<lambda>b. if b \<in> set as then None else cells ?h b) = (\<lambda>b. if b \<in> set (a # as) then None else cells h b)"
    by auto
  with step n IH show ?case by simp
qed

text \<open>
  Deleting a list ends, returns \<open>NULL\<close>, frees exactly its nodes and hands every key and datum
  to \<open>free\<close> once, in order, as its cleaner says.
\<close>

lemma list_delete_frees:
  assumes L: "linked h l as xs pr"
    and c: "frees (case cleaner of None \<Rightarrow> free_node | Some c \<Rightarrow> c) g"
  shows "list_delete (Some l) cleaner h =
            Ok (None, h\<lparr>cells := (\<lambda>b. if b \<in> set as then None else cells h b),
                        freed := freed h @ concat (map g xs)\<rparr>)"
proof -
  from L have d: "dls (cells h) (head l) pr as None (if as = [] then pr else tail l)"
      "distinct as" "vals (cells h) as = map Some xs" "length as < Suc (brk h)"
    using linked_length_brk [OF L] by (auto simp: linked_def)
  from list_delete_loop_frees [OF c d] show ?thesis
    by (simp add: list_delete_def)
qed

section \<open>The request-queue contract\<close>

text \<open>
  What the server's main thread and workers rely on: pushing at the back and popping at the
  front is a FIFO queue. \<open>rep q xs\<close> is the abstraction.
\<close>

locale fifo_queue =
  fixes rep :: "'q \<Rightarrow> 'a list \<Rightarrow> bool"
    and push :: "'a \<Rightarrow> 'q \<Rightarrow> ((errno + unit) \<times> 'q) res"
    and pop :: "'q \<Rightarrow> ((errno + 'a) \<times> 'q) res"
    and bound :: nat
  assumes push_rep: "rep q xs \<Longrightarrow> Suc (length xs) < bound \<Longrightarrow>
      \<exists>q'. push x q = Ok (Inr (), q') \<and> rep q' (xs @ [x])"
    and pop_rep: "rep q (x # xs) \<Longrightarrow> \<exists>q'. pop q = Ok (Inr x, q') \<and> rep q' xs"
    and pop_empty: "rep q [] \<Longrightarrow> \<exists>q'. pop q = Ok (Inl EINVAL, q') \<and> rep q' []"

datatype 'a qop = Push 'a | Pop

text \<open>Running a sequence of operations; the trace is what each \<open>Pop\<close> returned.\<close>

fun queue_run ::
  "('a \<Rightarrow> 'q \<Rightarrow> ((errno + unit) \<times> 'q) res) \<Rightarrow> ('q \<Rightarrow> ((errno + 'a) \<times> 'q) res)
     \<Rightarrow> 'a qop list \<Rightarrow> 'q \<Rightarrow> ((errno + 'a) list \<times> 'q) res" where
  "queue_run push pop [] q = Ok ([], q)"
| "queue_run push pop (Push x # ops) q =
     rbind (push x q) (\<lambda>(r, q). queue_run push pop ops q)"
| "queue_run push pop (Pop # ops) q =
     rbind (pop q) (\<lambda>(r, q). rbind (queue_run push pop ops q) (\<lambda>(rs, q). Ok (r # rs, q)))"

fun queue_spec :: "'a qop list \<Rightarrow> 'a list \<Rightarrow> (errno + 'a) list \<times> 'a list" where
  "queue_spec [] xs = ([], xs)"
| "queue_spec (Push x # ops) xs = queue_spec ops (xs @ [x])"
| "queue_spec (Pop # ops) [] = (case queue_spec ops [] of (rs, ys) \<Rightarrow> (Inl EINVAL # rs, ys))"
| "queue_spec (Pop # ops) (x # xs) = (case queue_spec ops xs of (rs, ys) \<Rightarrow> (Inr x # rs, ys))"

context fifo_queue
begin

lemma run_refines:
  "rep q xs \<Longrightarrow> length xs + length ops < bound \<Longrightarrow>
     \<exists>q'. queue_run push pop ops q = Ok (fst (queue_spec ops xs), q') \<and> rep q' (snd (queue_spec ops xs))"
proof (induction ops xs arbitrary: q rule: queue_spec.induct)
  case (1 xs)
  then show ?case by simp
next
  case (2 x ops xs)
  then obtain q1 where "push x q = Ok (Inr (), q1)" "rep q1 (xs @ [x])"
    using push_rep [of q xs x] by auto
  with 2 show ?case by simp
next
  case (3 ops)
  then obtain q1 where "pop q = Ok (Inl EINVAL, q1)" "rep q1 []"
    using pop_empty by blast
  with 3 show ?case by (fastforce split: prod.splits)
next
  case (4 ops x xs)
  then obtain q1 where "pop q = Ok (Inr x, q1)" "rep q1 xs"
    using pop_rep by blast
  with 4 show ?case by (fastforce split: prod.splits)
qed

end

text \<open>The queue of \<open>list.c\<close>: a list pointer and the heap, with memory available.\<close>

definition lq_rep :: "list_t option \<times> ('k, 'd) nheap \<Rightarrow> ('k option \<times> 'd option) list \<Rightarrow> bool" where
  "lq_rep q xs \<longleftrightarrow> (\<exists>l. fst q = Some l \<and> list_rep (snd q) l xs \<and> nmem (snd q) = Ample)"

definition lq_push ::
  "'k option \<times> 'd option \<Rightarrow> list_t option \<times> ('k, 'd) nheap
     \<Rightarrow> ((errno + unit) \<times> list_t option \<times> ('k, 'd) nheap) res" where
  "lq_push x q = list_push_back (fst q) (fst x) (snd x) (snd q)"

definition lq_pop ::
  "list_t option \<times> ('k, 'd) nheap
     \<Rightarrow> ((errno + 'k option \<times> 'd option) \<times> list_t option \<times> ('k, 'd) nheap) res" where
  "lq_pop q = list_pop_front (fst q) (snd q)"

interpretation lq: fifo_queue lq_rep lq_push lq_pop "2 ^ 32"
proof
  fix q :: "list_t option \<times> ('k, 'd) nheap" and xs x
  assume r: "lq_rep q xs" and len: "Suc (length xs) < 2 ^ 32"
  then obtain l as pr where q: "fst q = Some l" "linked (snd q) l as xs pr" "nmem (snd q) = Ample"
    by (auto simp: lq_rep_def list_rep_def)
  have "Suc (length as) < 2 ^ 32" using len linked_length [OF q(2)] by simp
  from push_back_linked [OF q(2) this, of Ample "fst x" "snd x"] q
  show "\<exists>q'. lq_push x q = Ok (Inr (), q') \<and> lq_rep q' (xs @ [x])"
    by (fastforce simp: lq_push_def lq_rep_def list_rep_def)
next
  fix q :: "list_t option \<times> ('k, 'd) nheap" and xs x
  assume "lq_rep q (x # xs)"
  then obtain l as pr where q: "fst q = Some l" "linked (snd q) l as (x # xs) pr" "nmem (snd q) = Ample"
    by (auto simp: lq_rep_def list_rep_def)
  then obtain a bs where "as = a # bs" by (metis length_0_conv linked_length list.exhaust list.distinct(1))
  with q pop_front_linked [of "snd q" l a bs "fst x" "snd x" xs pr]
  show "\<exists>q'. lq_pop q = Ok (Inr x, q') \<and> lq_rep q' xs"
    by (fastforce simp: lq_pop_def lq_rep_def list_rep_def)
next
  fix q :: "list_t option \<times> ('k, 'd) nheap"
  assume r: "lq_rep q []"
  then obtain l as pr where q: "fst q = Some l" "linked (snd q) l as [] pr"
    by (auto simp: lq_rep_def list_rep_def)
  then have "nelem l = 0" using linked_length [OF q(2)] by (simp add: linked_nelem_0)
  with q r show "\<exists>q'. lq_pop q = Ok (Inl EINVAL, q') \<and> lq_rep q' []"
    by (cases q) (auto simp: lq_pop_def list_pop_front_def)
qed

section \<open>Properties\<close>

text \<open>C38: the list behind the request queue is a FIFO queue. From the empty list, any sequence of
  \<open>list_push_back\<close> and \<open>list_pop_front\<close> runs without undefined behaviour, every pop returns what
  a queue returns (an error when it is empty), and the linked list ends up holding what the queue
  holds. The counter \<open>nelem\<close> is 32 bits wide, hence the bound on the number of operations.\<close>

theorem request_queue_fifo:
  assumes "heap_ok h" "nmem h = Ample" "length ops < 2 ^ 32"
  shows "\<exists>q. queue_run lq_push lq_pop ops (Some \<lparr>head = None, tail = None, nelem = 0\<rparr>, h) =
             Ok (fst (queue_spec ops []), q) \<and> lq_rep q (snd (queue_spec ops []))"
proof (rule lq.run_refines)
  have "linked h \<lparr>head = None, tail = None, nelem = 0\<rparr> [] [] None"
    using assms(1) by (simp add: linked_def)
  then show "lq_rep (Some \<lparr>head = None, tail = None, nelem = 0\<rparr>, h) []"
    using assms(2) by (auto simp: lq_rep_def list_rep_def)
qed (use assms in simp)

definition heap0 :: "(nat, nat) nheap" where
  "heap0 = \<lparr>cells = (\<lambda>_. None), brk = 0, nmem = Ample, freed = []\<rparr>"

lemma request_queue_fifo_witness:
  "\<exists>q. queue_run lq_push lq_pop [Push (None, Some 5), Push (None, Some 6), Pop, Pop, Pop]
     (Some \<lparr>head = None, tail = None, nelem = 0\<rparr>, heap0) =
   Ok ([Inr (None, Some 5), Inr (None, Some 6), Inl EINVAL], q) \<and> lq_rep q []"
  using request_queue_fifo [of heap0 "[Push (None, Some 5), Push (None, Some 6), Pop, Pop, Pop]"]
  by (simp add: heap0_def heap_ok_def)

text \<open>C39: deleting a list ends, returns \<open>NULL\<close>, frees exactly the nodes of the list, and hands to
  \<open>free\<close> what its cleaner is for: nothing, the keys, the data, or (the default) both, each once and
  in list order.\<close>

theorem list_delete_releases:
  assumes "linked h l as xs pr"
  defines "gone \<equiv> \<lambda>ys. h\<lparr>cells := (\<lambda>b. if b \<in> set as then None else cells h b), freed := freed h @ ys\<rparr>"
  shows "list_delete (Some l) None h = Ok (None, gone (concat (map (\<lambda>x. key_of x @ data_of x) xs))) \<and>
         list_delete (Some l) (Some free_only_node) h = Ok (None, gone []) \<and>
         list_delete (Some l) (Some free_node_and_key) h = Ok (None, gone (concat (map key_of xs))) \<and>
         list_delete (Some l) (Some free_node_and_data) h = Ok (None, gone (concat (map data_of xs)))"
proof (unfold gone_def, intro conjI)
  note del = list_delete_frees [OF assms(1)]
  show "list_delete (Some l) None h = Ok (None, h\<lparr>cells := (\<lambda>b. if b \<in> set as then None else cells h b),
      freed := freed h @ concat (map (\<lambda>x. key_of x @ data_of x) xs)\<rparr>)"
    by (rule del) (simp add: cleaners_free)
  have "list_delete (Some l) (Some free_only_node) h =
      Ok (None, h\<lparr>cells := (\<lambda>b. if b \<in> set as then None else cells h b),
        freed := freed h @ concat (map (\<lambda>_. []) xs)\<rparr>)"
    by (rule del) (simp add: cleaners_free)
  moreover have "freed h @ concat (map (\<lambda>_. []) xs) = freed h @ []" by simp
  ultimately show "list_delete (Some l) (Some free_only_node) h =
      Ok (None, h\<lparr>cells := (\<lambda>b. if b \<in> set as then None else cells h b), freed := freed h @ []\<rparr>)"
    by (simp only:)
qed (rule list_delete_frees [OF assms(1)], simp add: cleaners_free)+

definition heap1 :: "(nat, nat) nheap" where
  "heap1 = heap0\<lparr>cells := [0 \<mapsto> \<lparr>key = Some 7, data = Some 8, prev = None, nxt = Some 1\<rparr>,
                          1 \<mapsto> \<lparr>key = Some 9, data = None, prev = Some 0, nxt = None\<rparr>], brk := 2\<rparr>"

definition list1 :: list_t where
  "list1 = \<lparr>head = Some 0, tail = Some 1, nelem = 2\<rparr>"

lemma linked1: "linked heap1 list1 [0, 1] [(Some 7, Some 8), (Some 9, None)] None"
  by (simp add: linked_def heap1_def list1_def heap0_def heap_ok_def vals_def content_def)

lemma list_delete_releases_witness:
  "\<exists>h. list_delete (Some list1) None heap1 = Ok (None, h) \<and> freed h = [Inl 7, Inr 8, Inl 9] \<and>
       cells h 0 = None \<and> cells h 1 = None"
  using list_delete_releases [OF linked1]
  by (simp add: key_of_def data_of_def heap1_def heap0_def)

text \<open>C40: the walk over a bucket and the unlinking of the node it finds, as \<open>hashtbl_remove\<close> and
  \<open>hashmap_remove\<close> do them on pointers, remove exactly the first element that satisfies the test:
  the walk ends, it finds nothing when there is nothing, and otherwise the node is freed, its
  neighbours, the head, the tail and the counter are updated, and the list stays well formed.\<close>

theorem bucket_removal_refines:
  assumes "list_wf h l xs" "\<And>n. P n \<longleftrightarrow> Q (key n, data n)"
  shows "\<exists>r. list_search (Suc (brk h)) P (head l) h = Ok r \<and>
     (case find Q xs of
        None \<Rightarrow> r = None
      | Some x \<Rightarrow> \<exists>a l' h'. r = Some a \<and> content (cells h a) = Some x \<and>
           list_unlink l (Some a) h = Ok (l', h') \<and> list_wf h' l' (remove_first Q xs))"
  using assms by (rule search_unlink_refines)

lemma bucket_removal_refines_witness:
  "\<exists>r. list_search (Suc (brk heap1)) (\<lambda>n. key n = Some 9) (head list1) heap1 = Ok r \<and>
     (\<exists>a l' h'. r = Some a \<and> content (cells heap1 a) = Some (Some 9, None) \<and>
        list_unlink list1 (Some a) heap1 = Ok (l', h') \<and> list_wf h' l' [(Some 7, Some 8)])"
proof -
  have "list_wf heap1 list1 [(Some 7, Some 8), (Some 9, None)]"
    using linked1 by (auto simp: list_wf_def)
  from bucket_removal_refines [OF this, of "\<lambda>n. key n = Some 9" "\<lambda>x. fst x = Some 9"]
  show ?thesis by simp
qed

text \<open>\<open>list_pop_back\<close> moves the tail back but leaves the \<open>next\<close> pointer of the new last node on
  the freed one: after two pushes and one pop at the back, walking the list dereferences freed
  memory, although its counter says 1.\<close>

theorem list_pop_back_dangling:
  "rbind (list_push_back (Some \<lparr>head = None, tail = None, nelem = 0\<rparr>) (Some 1) None heap0) (\<lambda>(r, l, h).
   rbind (list_push_back l (Some 2) None h) (\<lambda>(r, l, h).
   rbind (list_pop_back l h) (\<lambda>(r, l, h).
     Ok (r, map_option nelem l, rbind (list_delete l None h) (\<lambda>_. Ok ()))))) =
   Ok (Inr (Some 2, None), Some 1, UB)"
  by (simp add: list_push_back_def list_pop_back_def create_node_def heap0_def modify_def load_def
      free_cell_def list_delete_def free_node_def free_key_def free_data_def)

end
