(* ===== verification/Select_Loop.thy ===== *)
theory Select_Loop
  imports Main_Loop
begin

text \<open>
  The loop of \<open>main\<close> in \<open>server.c\<close> as it is written: \<open>select\<close> on a copy of the set, the \<open>for\<close> over the
  descriptors up to \<open>fd_max\<close>, the cases of a descriptor that is ready, and \<open>update_max\<close>. The two actions of the
  signal handler, setting the mode and closing its pipe, are steps of their own, and so is every descriptor
  that the main thread looks at. The system refines the one of \<open>Main_Loop\<close>.
\<close>

section \<open>The main thread\<close>

text \<open>The descriptors that do not change: the listening socket and the read ends of the pipes.\<close>

record control =
  listen_fd :: int
  sig_fd :: int
  pipe_fds :: "int list"

datatype main_pc = M_while | M_select | M_for | M_after | M_done

text \<open>\<open>cur\<close> is the \<open>i\<close> of the \<open>for\<close>; \<open>sig_closed\<close> says that the write end of the signal pipe is closed.\<close>

record main_t =
  pc :: main_pc
  fd_max :: int
  tmpset :: "int set"
  cur :: int
  sig_closed :: bool

function update_max :: "int set \<Rightarrow> int \<Rightarrow> int" where
  "update_max S i = (if i < 0 then -1 else if i \<in> S then i else update_max S (i - 1))"
  by pat_completeness auto
termination by (relation "measure (\<lambda>(S, i). nat (i + 1))") auto

declare update_max.simps [simp del]

text \<open>The set given to \<open>select\<close>: the clients and the listening socket, and the pipes.\<close>

definition own_fds :: "control \<Rightarrow> int set" where
  "own_fds c = insert (sig_fd c) (set (pipe_fds c))"

definition select_set :: "control \<Rightarrow> loop \<Rightarrow> int set" where
  "select_set c s = fdset s \<union> own_fds c"

text \<open>
  The result of worker \<open>j\<close> is read from its pipe. When the worker has left and closed its end, \<open>readn\<close>
  returns 0, which is not tested, and the result is an uninitialised variable.
\<close>

definition read_result :: "nat \<Rightarrow> main_t \<Rightarrow> loop \<Rightarrow> (main_t \<times> loop) res" where
  "read_result j m s =
     (case pipes s ! j of
        [] \<Rightarrow> if w_at s j W_exit then UB else Stuck
      | r # rs \<Rightarrow>
          rbind (take_result r (s\<lparr>pipes := (pipes s)[j := rs]\<rparr>)) (\<lambda>s.
            Ok (if res_code r = MW_SUCCESS \<or> res_code r = MW_NON_FATAL_ERROR
                then m\<lparr>fd_max := max (res_client r) (fd_max m)\<rparr> else m, s)))"

text \<open>The loop over the pipes of the workers; whether one of them is the descriptor.\<close>

fun worker_results :: "int list \<Rightarrow> nat \<Rightarrow> int \<Rightarrow> main_t \<Rightarrow> loop \<Rightarrow> (bool \<times> main_t \<times> loop) res" where
  "worker_results [] j i m s = Ok (False, m, s)"
| "worker_results (p # ps) j i m s =
     (if i \<noteq> p then worker_results ps (Suc j) i m s
      else rbind (read_result j m s) (\<lambda>(m, s).
           rbind (worker_results ps (Suc j) i m s) (\<lambda>(_, m, s). Ok (True, m, s))))"

text \<open>
  A descriptor that is ready: \<open>acc\<close> is what \<open>accept\<close> returns (-1 makes \<open>main\<close> return) and \<open>wk\<close> chooses
  the worker that \<open>pthread_cond_signal\<close> wakes.
\<close>

definition client_request :: "control \<Rightarrow> (worker_pc list \<Rightarrow> worker_pc list) \<Rightarrow> int \<Rightarrow> main_t \<Rightarrow> loop \<Rightarrow> (main_t \<times> loop) res" where
  "client_request c wk i m s =
     (let s' = push_request i s\<lparr>workers := wk (workers s)\<rparr> in
      if i = fd_max m
      then (let k = update_max (select_set c s') (fd_max m) in
            if k = -1 then Exit else Ok (m\<lparr>fd_max := k, cur := i + 1\<rparr>, s'))
      else Ok (m\<lparr>cur := i + 1\<rparr>, s'))"

definition on_ready :: "control \<Rightarrow> int \<Rightarrow> (worker_pc list \<Rightarrow> worker_pc list) \<Rightarrow> int \<Rightarrow> main_t \<Rightarrow> loop \<Rightarrow> (main_t \<times> loop) res" where
  "on_ready c acc wk i m s =
     (if i = listen_fd c \<and> mode s = ACCEPT_CONN
      then if acc = -1 then Exit
           else rbind (accept_client acc s) (\<lambda>s. Ok (m\<lparr>fd_max := max acc (fd_max m), cur := i + 1\<rparr>, s))
      else if i = sig_fd c
      then if mode s = CLOSE_SERVER
           then Ok (m\<lparr>pc := M_after\<rparr>, s\<lparr>workers := wake_all (workers s), looping := False\<rparr>)
           else Ok (m\<lparr>cur := i + 1\<rparr>, s)
      else rbind (worker_results (pipe_fds c) 0 i m s) (\<lambda>(is_worker, m, s).
           if is_worker then Ok (m\<lparr>cur := i + 1\<rparr>, s) else client_request c wk i m s))"

text \<open>After the \<open>for\<close>; \<open>looping\<close> becomes false when it is settled that the \<open>while\<close> is going to end.\<close>

definition after_for :: "main_t \<Rightarrow> loop \<Rightarrow> main_t \<times> loop" where
  "after_for m s =
     (m\<lparr>pc := M_while\<rparr>,
      if mode s = REFUSE_CONN \<and> table_empty s
      then s\<lparr>mode := CLOSE_SERVER, workers := wake_all (workers s), looping := False\<rparr> else s)"

text \<open>What \<open>select\<close> may report: a pipe with nothing in it only when nobody can write to it any more.\<close>

definition may_be_ready :: "control \<Rightarrow> main_t \<Rightarrow> loop \<Rightarrow> int \<Rightarrow> bool" where
  "may_be_ready c m s i \<longleftrightarrow> 0 \<le> i \<and> i \<le> fd_max m \<and>
     (i \<in> fdset s \<or> i = sig_fd c \<and> sig_closed m \<or>
      (\<exists>j < length (pipe_fds c). pipe_fds c ! j = i \<and> (pipes s ! j \<noteq> [] \<or> w_at s j W_exit)))"

inductive select_step :: "control \<Rightarrow> main_t \<Rightarrow> loop \<Rightarrow> main_t \<Rightarrow> loop \<Rightarrow> bool" for c where
  sel_end: "pc m = M_while \<Longrightarrow> mode s = CLOSE_SERVER \<Longrightarrow> select_step c m s (m\<lparr>pc := M_done\<rparr>) (s\<lparr>looping := False\<rparr>)"
| sel_test: "pc m = M_while \<Longrightarrow> mode s \<noteq> CLOSE_SERVER \<Longrightarrow> select_step c m s (m\<lparr>pc := M_select\<rparr>) s"
| sel_select: "pc m = M_select \<Longrightarrow> tmp \<noteq> {} \<Longrightarrow> \<forall>i \<in> tmp. may_be_ready c m s i \<Longrightarrow>
    select_step c m s (m\<lparr>pc := M_for, tmpset := tmp, cur := 0\<rparr>) s"
| sel_skip: "pc m = M_for \<Longrightarrow> cur m \<le> fd_max m \<Longrightarrow> cur m \<notin> tmpset m \<Longrightarrow> select_step c m s (m\<lparr>cur := cur m + 1\<rparr>) s"
| sel_ready: "pc m = M_for \<Longrightarrow> cur m \<le> fd_max m \<Longrightarrow> cur m \<in> tmpset m \<Longrightarrow>
    client_fd acc \<Longrightarrow> acc \<notin># open_fds s \<Longrightarrow> acc \<notin> own_fds c \<Longrightarrow>
    (cur m \<in> fdset s \<and> \<not> (cur m = listen_fd c \<and> mode s = ACCEPT_CONN) \<Longrightarrow> queue_mtx s = None) \<Longrightarrow> wake_one (workers s) (wk (workers s)) \<Longrightarrow>
    on_ready c acc wk (cur m) m s = Ok (m', s') \<Longrightarrow> select_step c m s m' s'"
| sel_over: "pc m = M_for \<Longrightarrow> fd_max m < cur m \<Longrightarrow> select_step c m s (m\<lparr>pc := M_after\<rparr>) s"
| sel_after: "pc m = M_after \<Longrightarrow> after_for m s = (m', s') \<Longrightarrow> select_step c m s m' s'"
| sel_signal: "sig_step s s' \<Longrightarrow> select_step c m s m s'"
| sel_close: "\<not> sig_waiting s \<Longrightarrow> select_step c m s (m\<lparr>sig_closed := True\<rparr>) s"
| sel_worker: "worker_step i s s' \<Longrightarrow> select_step c m s m s'"
| sel_spurious: "w_spurious s s' \<Longrightarrow> select_step c m s m s'"
| sel_clock: "select_step c m s m (s\<lparr>store := (store s)\<lparr>clock := ts\<rparr>\<rparr>)"

text \<open>The set-up of \<open>main\<close>: \<open>fd_max\<close> is the greatest of the descriptors made so far.\<close>

definition main_init :: "control \<Rightarrow> main_t" where
  "main_init c =
     (let k = fold (\<lambda>p m. if p > m then p else m) (pipe_fds c) (sig_fd c) in
      \<lparr>pc = M_while, fd_max = (if listen_fd c > k then listen_fd c else k), tmpset = {}, cur = 0, sig_closed = False\<rparr>)"

definition control_ok :: "control \<Rightarrow> bool" where
  "control_ok c \<longleftrightarrow> client_fd (listen_fd c) \<and> 0 \<le> sig_fd c \<and> (\<forall>p \<in> set (pipe_fds c). 0 \<le> p) \<and>
     distinct (listen_fd c # sig_fd c # pipe_fds c)"

inductive select_reach :: "control \<Rightarrow> server_config_t \<Rightarrow> main_t \<Rightarrow> loop \<Rightarrow> bool" for c cfg where
  select_start: "server_init cfg ts Ample = Some st \<Longrightarrow>
    hashtbl_init HASH_N_LIST default_hashtbl_hash Ample = (Inr (), t, Ample) \<Longrightarrow>
    select_reach c cfg (main_init c) (loop_init (listen_fd c) (length (pipe_fds c)) t st)"
| select_more: "select_reach c cfg m s \<Longrightarrow> select_step c m s m' s' \<Longrightarrow> select_reach c cfg m' s'"

section \<open>update_max and the loop over the pipes\<close>

lemma update_max_works:
  assumes "i \<in> S" "0 \<le> i" "i \<le> k" "\<forall>x \<in> S. x \<le> k"
  shows "update_max S k \<in> S" "\<forall>x \<in> S. x \<le> update_max S k" "i \<le> update_max S k"
proof -
  have "update_max S k \<in> S \<and> (\<forall>x \<in> S. x \<le> update_max S k)"
    using assms
  proof (induction S k rule: update_max.induct)
    case (1 S k)
    show ?case
    proof (cases "k \<in> S")
      case True
      with 1(2-) show ?thesis by (auto simp: update_max.simps [of S k])
    next
      case False
      then have "x \<le> k - 1" if "x \<in> S" for x using 1(5) that by (cases "x = k") force+
      then have "i \<le> k - 1" "\<forall>x \<in> S. x \<le> k - 1" using 1(2) by blast+
      moreover have k: "\<not> k < 0" using 1(3,4) by simp
      moreover have "update_max S k = update_max S (k - 1)" using k False by (simp only: update_max.simps [of S k] if_False)
      ultimately show ?thesis using 1(1) [OF k False 1(2,3)] by simp
    qed
  qed
  with assms(1) show "update_max S k \<in> S" "\<forall>x \<in> S. x \<le> update_max S k" "i \<le> update_max S k" by auto
qed

lemma worker_results_none: "i \<notin> set ps \<Longrightarrow> worker_results ps k i m s = Ok (False, m, s)"
  by (induction ps arbitrary: k) auto

lemma worker_results_at:
  assumes "distinct ps" "j < length ps" "ps ! j = i"
  shows "worker_results ps k i m s = rbind (read_result (k + j) m s) (\<lambda>(m, s). Ok (True, m, s))"
  using assms
proof (induction ps arbitrary: k j)
  case (Cons p ps)
  show ?case
  proof (cases j)
    case 0
    then have "i = p" "i \<notin> set ps" using Cons.prems by auto
    then show ?thesis using 0 by (cases "read_result k m s") (auto simp: worker_results_none)
  next
    case (Suc j')
    then have "i \<noteq> p" using Cons.prems by auto
    then show ?thesis using Cons.IH [of j' "Suc k"] Cons.prems Suc by simp
  qed
qed simp

section \<open>What the other threads leave alone\<close>

definition quiet :: "loop \<Rightarrow> loop \<Rightarrow> bool" where
  "quiet s s' \<longleftrightarrow> fdset s' = fdset s \<and> open_fds s' = open_fds s \<and> looping s' = looping s \<and>
     length (pipes s') = length (pipes s) \<and>
     (\<forall>j. pipes s ! j \<noteq> [] \<longrightarrow> pipes s' ! j \<noteq> []) \<and> (\<forall>j. w_at s j W_exit \<longrightarrow> w_at s' j W_exit)"

lemma goto_same:
  assumes "w_at s i w" "w \<noteq> W_exit" "serving w = serving w'"
    and "fdset s' = fdset s" "queue s' = queue s" "pipes s' = pipes s" "looping s' = looping s" "workers s' = workers s"
    and "mode s' = mode s" "sig_waiting s' = sig_waiting s"
  shows "quiet s (w_goto i w' s') \<and> mode (w_goto i w' s') = mode s \<and> sig_waiting (w_goto i w' s') = sig_waiting s"
  using assms goto_quiet [OF assms(1,3)]
  by (auto simp: quiet_def w_goto_def open_fds_def w_at_def nth_list_update)

lemma worker_quiet: "worker_step i s s' \<Longrightarrow> quiet s s' \<and> mode s' = mode s \<and> sig_waiting s' = sig_waiting s"
proof (induction rule: worker_step.induct)
  case (w_pop s i fd q)
  then show ?case using pop_tokens [OF w_pop(1,3), of None]
    by (auto simp: quiet_def w_goto_def w_at_def nth_list_update)
next
  case (w_serve s i fd c code c' st)
  then show ?case using serve_tokens [OF w_serve(1,3), where st = st and code = code]
    by (auto simp: quiet_def w_goto_def w_at_def nth_list_update)
qed (erule goto_same; simp)+

lemma spurious_quiet: "w_spurious s s' \<Longrightarrow> quiet s s' \<and> mode s' = mode s \<and> sig_waiting s' = sig_waiting s"
  by (induction rule: w_spurious.induct) (erule goto_same; simp)

lemma wake_one_exit: "wake_one ws ws' \<Longrightarrow> j < length ws \<Longrightarrow> ws ! j = W_exit \<Longrightarrow> j < length ws' \<and> ws' ! j = W_exit"
  by (induction rule: wake_one.induct) (auto simp: nth_list_update)

lemma wake_all_exit: "j < length ws \<Longrightarrow> ws ! j = W_exit \<Longrightarrow> wake_all ws ! j = W_exit \<and> length (wake_all ws) = length ws"
  by (simp add: wake_all_def)

section \<open>The refinement\<close>

text \<open>
  The descriptors still to be looked at are in the set, the signal pipe only when it is closed, and the pipe of a
  worker only when it holds a result or its worker has left; \<open>fd_max\<close> is at least every descriptor of the set.
\<close>

definition pending :: "control \<Rightarrow> main_t \<Rightarrow> loop \<Rightarrow> int \<Rightarrow> bool" where
  "pending c m s i \<longleftrightarrow> i \<in> fdset s \<or> i = sig_fd c \<and> sig_closed m \<or>
     (\<exists>j < length (pipe_fds c). pipe_fds c ! j = i \<and> (pipes s ! j \<noteq> [] \<or> w_at s j W_exit))"

definition scanning :: "control \<Rightarrow> main_t \<Rightarrow> loop \<Rightarrow> bool" where
  "scanning c m s \<longleftrightarrow> looping s \<and> 0 \<le> cur m \<and> (\<forall>i \<in> tmpset m. cur m \<le> i \<longrightarrow> pending c m s i)"

definition modes_ok :: "main_t \<Rightarrow> loop \<Rightarrow> bool" where
  "modes_ok m s \<longleftrightarrow> (mode s \<noteq> ACCEPT_CONN \<longrightarrow> \<not> sig_waiting s) \<and> (sig_closed m \<longrightarrow> \<not> sig_waiting s) \<and>
     (\<not> looping s \<longrightarrow> mode s = CLOSE_SERVER)"

definition select_inv :: "control \<Rightarrow> main_t \<Rightarrow> loop \<Rightarrow> bool" where
  "select_inv c m s \<longleftrightarrow> (\<forall>i \<in> select_set c s. i \<le> fd_max m) \<and> (\<forall>i. i \<in># open_fds s \<longrightarrow> i \<notin> own_fds c) \<and>
     length (pipes s) = length (pipe_fds c) \<and> modes_ok m s \<and>
     (pc m = M_select \<longrightarrow> looping s) \<and> (pc m = M_for \<longrightarrow> scanning c m s)"

lemma pending_mono:
  assumes "pending c m s i" "i \<in> fdset s \<Longrightarrow> i \<in> fdset s'" "sig_closed m \<Longrightarrow> sig_closed m'"
    "\<And>j. pipe_fds c ! j = i \<Longrightarrow> pipes s ! j \<noteq> [] \<Longrightarrow> pipes s' ! j \<noteq> []" "\<And>j. w_at s j W_exit \<Longrightarrow> w_at s' j W_exit"
  shows "pending c m' s' i"
  using assms unfolding pending_def by metis

lemma select_inv_quiet:
  assumes inv: "select_inv c m s" and q: "quiet s s'" "mode s' = mode s" "sig_waiting s' = sig_waiting s"
  shows "select_inv c m s'"
proof -
  have "pending c m s i \<Longrightarrow> pending c m s' i" for i by (erule pending_mono) (use q(1) in \<open>auto simp: quiet_def\<close>)
  then have "scanning c m s \<Longrightarrow> scanning c m s'" using q(1) by (auto simp: scanning_def quiet_def)
  then show ?thesis using inv q by (auto simp: select_inv_def select_set_def quiet_def modes_ok_def)
qed

text \<open>A descriptor that is neither listening nor of a pipe is a client's.\<close>

lemma pending_client: "pending c m s i \<Longrightarrow> i \<noteq> sig_fd c \<Longrightarrow> i \<notin> set (pipe_fds c) \<Longrightarrow> i \<in> fdset s"
  by (auto simp: pending_def)

text \<open>What one descriptor does: the four cases of the code are the steps of \<open>Main_Loop\<close>, or nothing.\<close>

lemma scanning_next:
  assumes "scanning c m s" "looping s'" "cur m' = cur m + 1" "tmpset m' = tmpset m"
    "\<And>i. cur m < i \<Longrightarrow> pending c m s i \<Longrightarrow> pending c m' s' i"
  shows "scanning c m' s'"
  using assms unfolding scanning_def by auto

lemma request_case:
  assumes c: "control_ok c" and inv: "select_inv c m s" and pc: "pc m = M_for" and i: "cur m \<in> tmpset m"
    and fd: "cur m \<in> fdset s" "finite (fdset s)" and wk: "wake_one (workers s) (wk (workers s))"
  shows "\<exists>m' s'. client_request c wk (cur m) m s = Ok (m', s') \<and> s' = push_request (cur m) s\<lparr>workers := wk (workers s)\<rparr> \<and>
    select_inv c m' s'"
proof -
  let ?s = "push_request (cur m) s\<lparr>workers := wk (workers s)\<rparr>"
  have sc: "scanning c m s" using inv pc by (simp add: select_inv_def)
  have top: "\<forall>i \<in> select_set c s. i \<le> fd_max m" using inv by (simp add: select_inv_def)
  have f: "fdset ?s = fdset s - {cur m}" "mode ?s = mode s" "sig_waiting ?s = sig_waiting s" "looping ?s = looping s"
    "pipes ?s = pipes s" by (simp_all add: push_request_def)
  have sub: "\<forall>i \<in> select_set c ?s. i \<le> fd_max m" using top f(1) by (auto simp: select_set_def)
  have o: "open_fds ?s = open_fds s"
    using fd wake_one_serving [OF wk] by (simp add: open_fds_def push_request_def mset_set.remove)
  have sig: "sig_fd c \<in> select_set c ?s" "0 \<le> sig_fd c" using c by (simp_all add: select_set_def own_fds_def control_ok_def)
  define k where "k = (if cur m = fd_max m then update_max (select_set c ?s) (fd_max m) else fd_max m)"
  have k: "\<forall>i \<in> select_set c ?s. i \<le> k" "k \<noteq> -1"
    using update_max_works [OF sig, of "fd_max m"] sub sig by (auto simp: k_def)
  let ?m = "m\<lparr>fd_max := k, cur := cur m + 1\<rparr>"
  have "client_request c wk (cur m) m s = Ok (?m, ?s)"
    using k(2) by (cases "cur m = fd_max m") (simp_all add: client_request_def Let_def k_def)
  moreover have "select_inv c ?m ?s"
    unfolding select_inv_def
  proof (intro conjI impI)
    show "scanning c ?m ?s"
    proof (rule scanning_next [OF sc])
      show "pending c ?m ?s i" if "cur m < i" "pending c m s i" for i
        using that(2) by (rule pending_mono) (use that(1) f wake_one_exit [OF wk] in \<open>auto simp: w_at_def push_request_def\<close>)
    qed (use sc f in \<open>simp_all add: scanning_def\<close>)
  qed (use k o inv f in \<open>simp_all add: select_inv_def modes_ok_def\<close>)
  ultimately show ?thesis by blast
qed

lemma accept_shape:
  assumes "accept_client fd s = Ok s'"
  shows "\<exists>t st. s' = s\<lparr>fdset := insert fd (fdset s), conn_table := t, store := st\<rparr>"
  using assms by (auto simp: accept_client_def rbind_eq_Ok)

lemma take_result_shape:
  assumes "take_result r s = Ok s'"
  shows "\<exists>t st. s' = s\<lparr>conn_table := t, store := st,
    fdset := (if res_code r = MW_SUCCESS \<or> res_code r = MW_NON_FATAL_ERROR then insert (res_client r) (fdset s) else fdset s)\<rparr>"
proof (cases "res_code r = MW_SUCCESS \<or> res_code r = MW_NON_FATAL_ERROR")
  case True
  with assms have "s' = s\<lparr>conn_table := conn_table s, store := store s, fdset := insert (res_client r) (fdset s)\<rparr>"
    by (simp add: take_result_def)
  with True show ?thesis by (simp only: if_True) blast
next
  case False
  with assms obtain t st where "s' = s\<lparr>conn_table := t, store := st\<rparr>" by (auto simp: take_result_def rbind_eq_Ok)
  then have "s' = s\<lparr>conn_table := t, store := st, fdset := fdset s\<rparr>" by simp
  with False show ?thesis by (simp only: if_False) blast
qed

lemma accept_case:
  assumes inv: "select_inv c m s" and pc: "pc m = M_for" and fin: "finite (fdset s)" and acc: "acc \<notin> own_fds c"
    and run: "accept_client acc s = Ok s'"
  shows "select_inv c (m\<lparr>fd_max := max acc (fd_max m), cur := cur m + 1\<rparr>) s'"
proof -
  let ?m = "m\<lparr>fd_max := max acc (fd_max m), cur := cur m + 1\<rparr>"
  obtain t st where s': "s' = s\<lparr>fdset := insert acc (fdset s), conn_table := t, store := st\<rparr>" using accept_shape [OF run] by blast
  have sc: "scanning c m s" using inv pc by (simp add: select_inv_def)
  have o: "set_mset (open_fds s') \<subseteq> insert acc (set_mset (open_fds s))" using fin by (auto simp: open_fds_def s')
  have "scanning c ?m s'"
  proof (rule scanning_next [OF sc])
    show "pending c ?m s' i" if "pending c m s i" for i
      using that by (rule pending_mono) (auto simp: s' w_at_def)
  qed (use sc in \<open>simp_all add: scanning_def s'\<close>)
  moreover have "\<forall>i \<in> select_set c s'. i \<le> max acc (fd_max m)" using inv by (auto simp: select_inv_def select_set_def s' le_max_iff_disj)
  ultimately show ?thesis using inv o acc by (auto simp: select_inv_def modes_ok_def s')
qed

lemma result_case:
  assumes c: "control_ok c" and inv: "select_inv c m s" and pc: "pc m = M_for" and fin: "finite (fdset s)"
    and j: "j < length (pipe_fds c)" "pipe_fds c ! j = cur m" and run: "read_result j m s = Ok (m', s')"
  shows "main_step lfd s s' \<and> select_inv c (m'\<lparr>cur := cur m + 1\<rparr>) s'"
proof -
  have jp: "j < length (pipes s)" using inv j by (simp add: select_inv_def)
  obtain r rs where p: "pipes s ! j = r # rs" using run by (cases "pipes s ! j") (auto simp: read_result_def split: if_splits)
  let ?s = "s\<lparr>pipes := (pipes s)[j := rs]\<rparr>" and ?ok = "res_code r = MW_SUCCESS \<or> res_code r = MW_NON_FATAL_ERROR"
  have take: "take_result r ?s = Ok s'" and m': "m' = (if ?ok then m\<lparr>fd_max := max (res_client r) (fd_max m)\<rparr> else m)"
    using run p by (auto simp: read_result_def rbind_eq_Ok)
  obtain t st where s': "s' = ?s\<lparr>conn_table := t, store := st, fdset := (if ?ok then insert (res_client r) (fdset ?s) else fdset ?s)\<rparr>"
    using take_result_shape [OF take] by blast
  have sc: "scanning c m s" using inv pc by (simp add: select_inv_def)
  have tok: "open_fds s = add_mset (res_client r) (open_fds ?s)" using jp p by (rule pipe_tokens)
  then have o: "set_mset (open_fds s') \<subseteq> set_mset (open_fds s)" using fin by (auto simp: open_fds_def s')
  have "scanning c (m'\<lparr>cur := cur m + 1\<rparr>) s'"
  proof (rule scanning_next [OF sc])
    show "pending c (m'\<lparr>cur := cur m + 1\<rparr>) s' i" if i: "cur m < i" "pending c m s i" for i
    proof (rule pending_mono [OF i(2)])
      show "pipes s' ! k \<noteq> []" if "pipe_fds c ! k = i" "pipes s ! k \<noteq> []" for k
        using that i(1) j(2) by (cases "k = j") (simp_all add: s')
    qed (auto simp: s' m' w_at_def)
  qed (use sc in \<open>simp_all add: scanning_def s' m'\<close>)
  moreover have "\<forall>i \<in> select_set c s'. i \<le> fd_max m'" using inv by (auto simp: select_inv_def select_set_def s' m' le_max_iff_disj)
  ultimately have "select_inv c (m'\<lparr>cur := cur m + 1\<rparr>) s'"
    using inv o by (auto simp: select_inv_def modes_ok_def s' m')
  moreover have "main_step lfd s s'" using sc jp p take by (intro main_result) (simp_all add: scanning_def)
  ultimately show ?thesis by blast
qed

text \<open>Every descriptor that is looked at.\<close>

lemma ready_case:
  assumes c: "control_ok c" and inv: "select_inv c m s" and lin: "loop_inv (listen_fd c) s"
    and pc: "pc m = M_for" "cur m \<in> tmpset m"
    and acc: "client_fd acc" "acc \<notin># open_fds s" "acc \<notin> own_fds c"
    and mtx: "cur m \<in> fdset s \<and> \<not> (cur m = listen_fd c \<and> mode s = ACCEPT_CONN) \<Longrightarrow> queue_mtx s = None"
    and wk: "wake_one (workers s) (wk (workers s))" and run: "on_ready c acc wk (cur m) m s = Ok (m', s')"
  shows "(s' = s \<or> main_step (listen_fd c) s s') \<and> select_inv c m' s'"
proof -
  have sc: "scanning c m s" using inv pc by (simp add: select_inv_def)
  then have lp: "looping s" "pending c m s (cur m)" using pc(2) by (simp_all add: scanning_def)
  have fin: "finite (fdset s)" using lin by (elim loop_invE)
  consider (listen) "cur m = listen_fd c" "mode s = ACCEPT_CONN" | (sig) "\<not> (cur m = listen_fd c \<and> mode s = ACCEPT_CONN)" "cur m = sig_fd c"
    | (pipe) j where "\<not> (cur m = listen_fd c \<and> mode s = ACCEPT_CONN)" "cur m \<noteq> sig_fd c" "j < length (pipe_fds c)" "pipe_fds c ! j = cur m"
    | (client) "\<not> (cur m = listen_fd c \<and> mode s = ACCEPT_CONN)" "cur m \<noteq> sig_fd c" "cur m \<notin> set (pipe_fds c)"
    by (metis in_set_conv_nth)
  then show ?thesis
  proof cases
    case listen
    have "listen_fd c \<in> fdset s" using lin listen(2) by (elim loop_invE) simp
    moreover have "acc \<noteq> -1" using acc(1) by (auto simp: client_fd_def)
    then obtain s1 where s1: "accept_client acc s = Ok s1" "m' = m\<lparr>fd_max := max acc (fd_max m), cur := cur m + 1\<rparr>" "s' = s1"
      using run listen by (auto simp: on_ready_def rbind_eq_Ok)
    ultimately show ?thesis
      using main_accept [OF lp(1) _ listen(2) acc(1,2) s1(1)] accept_case [OF inv pc(1) fin acc(3) s1(1)] by simp
  next
    case sig
    have ne: "sig_fd c \<noteq> listen_fd c" using c by (simp add: control_ok_def)
    have "cur m \<notin> set (pipe_fds c)" using c sig(2) by (simp add: control_ok_def)
    moreover have "cur m \<notin> fdset s"
      using inv sig(2) fds_tokens [OF fin, of "cur m"] by (auto simp: select_inv_def own_fds_def)
    ultimately have closed: "sig_closed m" using lp(2) unfolding pending_def by (metis nth_mem)
    show ?thesis
    proof (cases "mode s = CLOSE_SERVER")
      case True
      then have r: "m' = m\<lparr>pc := M_after\<rparr>" "s' = s\<lparr>workers := wake_all (workers s), looping := False\<rparr>"
        using run sig(2) ne by (simp_all add: on_ready_def)
      have sw: "\<not> sig_waiting s" using inv closed by (simp add: select_inv_def modes_ok_def)
      have "open_fds s' = open_fds s" by (simp add: r open_fds_def wake_all_serving)
      then have "select_inv c m' s'" using inv True by (simp add: select_inv_def modes_ok_def select_set_def r)
      with main_signal [OF lp(1) sw True] show ?thesis by (simp add: r)
    next
      case False
      then have r: "m' = m\<lparr>cur := cur m + 1\<rparr>" "s' = s" using run sig(2) ne by (simp_all add: on_ready_def)
      have "scanning c m' s" unfolding r by (rule scanning_next [OF sc]) (use lp in \<open>auto simp: pending_def\<close>)
      then show ?thesis using inv by (simp add: r select_inv_def modes_ok_def)
    qed
  next
    case (pipe j)
    have d: "distinct (pipe_fds c)" using c by (simp add: control_ok_def)
    obtain m1 where "read_result j m s = Ok (m1, s')" "m' = m1\<lparr>cur := cur m + 1\<rparr>"
      using run pipe(1,2) by (auto simp: on_ready_def worker_results_at [OF d pipe(3,4)] rbind_eq_Ok)
    then show ?thesis using result_case [OF c inv pc(1) fin pipe(3,4)] by blast
  next
    case client
    then have fd: "cur m \<in> fdset s" using lp(2) by (intro pending_client)
    from request_case [OF c inv pc fd fin, of wk] wk obtain m1 s1 where
      r: "client_request c wk (cur m) m s = Ok (m1, s1)" "s1 = push_request (cur m) s\<lparr>workers := wk (workers s)\<rparr>" "select_inv c m1 s1"
      by blast
    have "m' = m1" "s' = s1" using run client r(1) by (auto simp: on_ready_def worker_results_none)
    then show ?thesis using main_request [OF lp(1) fd client(1) mtx wk] fd client(1) r(2,3) by simp
  qed
qed

text \<open>Every step.\<close>

lemma after_case:
  assumes "select_inv c m s" "pc m = M_after" "after_for m s = (m', s')"
  shows "(s' = s \<or> main_step lfd s s') \<and> select_inv c m' s'"
proof (cases "mode s = REFUSE_CONN \<and> table_empty s")
  case True
  then have r: "m' = m\<lparr>pc := M_while\<rparr>" "s' = s\<lparr>mode := CLOSE_SERVER, workers := wake_all (workers s), looping := False\<rparr>"
    using assms(3) by (simp_all add: after_for_def)
  have "looping s" using assms(1) True by (auto simp: select_inv_def modes_ok_def)
  moreover have "open_fds s' = open_fds s" by (simp add: r open_fds_def wake_all_serving)
  then have "select_inv c m' s'" using assms(1) True by (simp add: select_inv_def modes_ok_def select_set_def r)
  ultimately show ?thesis using main_last True by (simp add: r)
next
  case False
  then have "m' = m\<lparr>pc := M_while\<rparr>" "s' = s" using assms(3) by (auto simp: after_for_def)
  then show ?thesis using assms(1) by (simp add: select_inv_def modes_ok_def)
qed

lemma select_step_sim:
  assumes step: "select_step c m s m' s'" and c: "control_ok c" and inv: "select_inv c m s"
    and r: "loop_reach True (listen_fd c) n cfg s"
  shows "loop_reach True (listen_fd c) n cfg s' \<and> select_inv c m' s'"
proof -
  have lfd: "client_fd (listen_fd c)" using c by (simp add: control_ok_def)
  have lin: "loop_inv (listen_fd c) s" using r lfd by (rule loop_reach_inv)
  have main: "loop_reach True (listen_fd c) n cfg s'" if "s' = s \<or> main_step (listen_fd c) s s'"
    using that r reach_main by blast
  show ?thesis
    using step
  proof cases
    case sel_end
    have "s' = s \<or> main_step (listen_fd c) s s'"
      using main_exit [of s] sel_end by (cases "looping s") auto
    moreover have "open_fds s' = open_fds s" by (simp add: sel_end open_fds_def)
    ultimately show ?thesis using main inv sel_end by (simp add: select_inv_def modes_ok_def select_set_def)
  next
    case sel_test
    then show ?thesis using inv r by (auto simp: select_inv_def modes_ok_def)
  next
    case (sel_select tmp)
    have "looping s" using inv sel_select by (simp add: select_inv_def)
    then have "scanning c m' s'" using sel_select by (auto simp: scanning_def may_be_ready_def pending_def)
    then show ?thesis using inv r sel_select by (simp add: select_inv_def modes_ok_def)
  next
    case sel_skip
    then have sc: "scanning c m s" using inv by (simp add: select_inv_def)
    have "scanning c m' s'"
      by (rule scanning_next [OF sc]) (use sel_skip sc in \<open>simp_all add: scanning_def pending_def\<close>)
    then show ?thesis using inv r sel_skip by (simp add: select_inv_def modes_ok_def)
  next
    case (sel_ready acc wk)
    then have "(s' = s \<or> main_step (listen_fd c) s s') \<and> select_inv c m' s'" by (intro ready_case [OF c inv lin])
    then show ?thesis using main by blast
  next
    case sel_over
    then show ?thesis using inv r by (simp add: select_inv_def modes_ok_def)
  next
    case sel_after
    from after_case [OF inv sel_after] main show ?thesis by blast
  next
    case sel_signal
    then obtain sg where s': "s' = s\<lparr>mode := sig_mode sg, sig_waiting := False\<rparr>" "sig_waiting s" by (auto elim: sig_step.cases)
    have lp: "looping s" "mode s = ACCEPT_CONN" using inv s'(2) by (auto simp: select_inv_def modes_ok_def)
    have o: "open_fds s' = open_fds s" by (simp add: s' open_fds_def)
    have "scanning c m s \<Longrightarrow> scanning c m s'" by (simp add: s' scanning_def pending_def w_at_def)
    then have "select_inv c m s'" using inv o lp by (simp add: s' select_inv_def modes_ok_def select_set_def)
    then show ?thesis using loop_more [OF r ls_sig [OF sel_signal(2)]] sel_signal by simp
  next
    case sel_close
    have "pending c m s i \<Longrightarrow> pending c m' s i" for i by (auto simp: sel_close pending_def)
    then have "scanning c m s \<Longrightarrow> scanning c m' s" by (simp add: sel_close scanning_def)
    then show ?thesis using inv r sel_close by (simp add: select_inv_def modes_ok_def)
  next
    case (sel_worker i)
    then show ?thesis using worker_quiet select_inv_quiet [OF inv] reach_worker [OF r] by blast
  next
    case sel_spurious
    then show ?thesis using spurious_quiet select_inv_quiet [OF inv] loop_spurious [OF _ r] by blast
  next
    case (sel_clock ts)
    have "quiet s s'" by (simp add: sel_clock quiet_def open_fds_def w_at_def)
    then show ?thesis using select_inv_quiet [OF inv, of s'] loop_clock [OF r] sel_clock by simp
  qed
qed

lemma fold_max: "k \<le> fold (\<lambda>p m. if p > m then p else m) ps k \<and> (\<forall>p \<in> set ps. p \<le> fold (\<lambda>p m. if p > m then p else m) ps (k :: int))"
proof (induction ps arbitrary: k)
  case (Cons p ps)
  from Cons.IH [of "if p > k then p else k"] show ?case by (auto split: if_splits)
qed simp

lemma select_start_inv:
  assumes "control_ok c"
  shows "select_inv c (main_init c) (loop_init (listen_fd c) (length (pipe_fds c)) t st)"
proof -
  have "open_fds (loop_init (listen_fd c) (length (pipe_fds c)) t st) = {#listen_fd c#}"
    by (simp add: open_fds_def loop_init_def map_replicate_const concat_eq_Nil_conv)
  moreover have "\<forall>i \<in> select_set c (loop_init (listen_fd c) (length (pipe_fds c)) t st). i \<le> fd_max (main_init c)"
    using fold_max [of "sig_fd c" "pipe_fds c"] by (auto simp: select_set_def own_fds_def main_init_def loop_init_def Let_def)
  ultimately show ?thesis
    using assms by (auto simp: select_inv_def modes_ok_def control_ok_def own_fds_def loop_init_def main_init_def Let_def)
qed

lemma select_reach_sim:
  assumes "select_reach c cfg m s" "control_ok c"
  shows "loop_reach True (listen_fd c) (length (pipe_fds c)) cfg s \<and> select_inv c m s"
  using assms(1)
proof (induction rule: select_reach.induct)
  case (select_start ts st t)
  then show ?case using select_start_inv [OF assms(2)] by (blast intro: loop_start)
next
  case (select_more m s m' s')
  then show ?case using select_step_sim [OF select_more(2) assms(2)] by blast
qed

section \<open>Runs\<close>

lemma select_starts: "\<exists>t st. select_reach c cfg (main_init c) (loop_init (listen_fd c) (length (pipe_fds c)) t st)"
  using init_table server_init_starts [of cfg "[]"] by (blast intro: select_start)

lemma reach_select: "select_reach c cfg m s \<Longrightarrow> pc m = M_while \<Longrightarrow> mode s \<noteq> CLOSE_SERVER \<Longrightarrow> select_reach c cfg (m\<lparr>pc := M_select\<rparr>) s"
  by (blast intro: select_more sel_test)

text \<open>The \<open>for\<close> goes on to the only descriptor that is ready.\<close>

lemma skip_to:
  assumes "select_reach c cfg m s" "pc m = M_for" "tmpset m = {i}" "cur m + int k \<le> i" "i \<le> fd_max m"
  shows "select_reach c cfg (m\<lparr>cur := cur m + int k\<rparr>) s"
  using assms
proof (induction k)
  case (Suc k)
  let ?m = "m\<lparr>cur := cur m + int k\<rparr>"
  have "select_reach c cfg ?m s" using Suc by simp
  moreover have "select_step c ?m s (?m\<lparr>cur := cur ?m + 1\<rparr>) s" using Suc.prems by (intro sel_skip) simp_all
  ultimately have "select_reach c cfg (?m\<lparr>cur := cur ?m + 1\<rparr>) s" by (rule select_more)
  then show ?case by (simp add: add.commute add.left_commute)
qed simp

lemma select_one:
  assumes r: "select_reach c cfg m s" and pc: "pc m = M_select" and i: "may_be_ready c m s i"
  shows "select_reach c cfg (m\<lparr>pc := M_for, tmpset := {i}, cur := i\<rparr>) s"
proof -
  let ?m = "m\<lparr>pc := M_for, tmpset := {i}, cur := 0\<rparr>"
  have "select_reach c cfg ?m s" using r pc i by (intro select_more [OF r] sel_select) simp_all
  then have "select_reach c cfg (?m\<lparr>cur := cur ?m + int (nat i)\<rparr>) s"
    using i by (intro skip_to [where i = i]) (simp_all add: may_be_ready_def)
  then show ?thesis using i by (simp add: may_be_ready_def)
qed

section \<open>Properties\<close>

text \<open>C19: the loop of \<open>main\<close> as written refines the system of the main loop: whatever the interleaving, its states
  are reachable there. \<open>select\<close> watches every descriptor of the set, the main thread never waits
  for the pipe of a worker, and taking a request of a client never ends the server for lack of a
  descriptor.\<close>

theorem select_loop_refines:
  assumes "select_reach c cfg m s" "control_ok c"
  shows "loop_reach True (listen_fd c) (length (pipe_fds c)) cfg s \<and> (\<forall>i \<in> select_set c s. i \<le> fd_max m) \<and>
    (pc m = M_for \<and> cur m \<in> tmpset m \<longrightarrow>
      (\<forall>j < length (pipe_fds c). pipe_fds c ! j = cur m \<longrightarrow> pipes s ! j \<noteq> [] \<or> w_at s j W_exit) \<and>
      (\<forall>wk. cur m \<in> fdset s \<and> wake_one (workers s) (wk (workers s)) \<longrightarrow>
        (\<exists>m' s'. client_request c wk (cur m) m s = Ok (m', s') \<and> (\<forall>i \<in> select_set c s'. i \<le> fd_max m'))))"
proof -
  have r: "loop_reach True (listen_fd c) (length (pipe_fds c)) cfg s" and inv: "select_inv c m s"
    using select_reach_sim [OF assms] by auto
  have "loop_inv (listen_fd c) s" using assms(2) by (intro loop_reach_inv [OF r]) (simp add: control_ok_def)
  then have fin: "finite (fdset s)" by (elim loop_invE)
  have top: "\<forall>i \<in> select_set c s. i \<le> fd_max m" using inv by (simp add: select_inv_def)
  have pipe: "pipes s ! j \<noteq> [] \<or> w_at s j W_exit"
    if "pc m = M_for" "cur m \<in> tmpset m" "j < length (pipe_fds c)" "pipe_fds c ! j = cur m" for j
  proof -
    have "pending c m s (cur m)" using inv that by (simp add: select_inv_def scanning_def)
    moreover have "cur m \<in> set (pipe_fds c)" using that(3,4) by (metis nth_mem)
    then have "cur m \<notin> fdset s" "cur m \<noteq> sig_fd c" 
      using inv fds_tokens [OF fin, of "cur m"] assms(2) by (auto simp: select_inv_def own_fds_def control_ok_def)
    moreover have "k = j" if "k < length (pipe_fds c)" "pipe_fds c ! k = cur m" for k
    proof -
      have "distinct (pipe_fds c)" using assms(2) by (simp add: control_ok_def)
      from nth_eq_iff_index_eq [OF this that(1) \<open>j < length (pipe_fds c)\<close>] show ?thesis
        using that(2) \<open>pipe_fds c ! j = cur m\<close> by simp
    qed
    ultimately show ?thesis by (auto simp: pending_def)
  qed
  have req: "\<exists>m' s'. client_request c wk (cur m) m s = Ok (m', s') \<and> (\<forall>i \<in> select_set c s'. i \<le> fd_max m')"
    if "pc m = M_for" "cur m \<in> tmpset m" "cur m \<in> fdset s" "wake_one (workers s) (wk (workers s))" for wk
    using request_case [OF assms(2) inv that(1-3) fin, of wk] that(4) by (auto simp: select_inv_def)
  show ?thesis using r top pipe req by blast
qed

definition demo_control :: control where
  "demo_control = \<lparr>listen_fd = 6, sig_fd = 3, pipe_fds = [4, 5]\<rparr>"

lemma select_loop_refines_witness:
  "\<exists>m s. select_reach demo_control demo_config m s \<and> pc m = M_for \<and> cur m = 6 \<and> loop_reach True 6 2 demo_config s \<and>
     (\<forall>i \<in> select_set demo_control s. i \<le> fd_max m)"
proof -
  let ?c = demo_control
  have c: "control_ok ?c" by (simp add: control_ok_def demo_control_def client_fd_def)
  obtain t st where r: "select_reach ?c demo_config (main_init ?c) (loop_init (listen_fd ?c) (length (pipe_fds ?c)) t st)"
    using select_starts by blast
  let ?s = "loop_init (listen_fd ?c) (length (pipe_fds ?c)) t st"
  let ?m = "main_init ?c\<lparr>pc := M_select\<rparr>"
  have "select_reach ?c demo_config ?m ?s" using reach_select [OF r] by (simp add: main_init_def loop_init_def Let_def)
  moreover have "may_be_ready ?c ?m ?s 6"
    by (simp add: may_be_ready_def main_init_def loop_init_def Let_def demo_control_def)
  ultimately have r2: "select_reach ?c demo_config (?m\<lparr>pc := M_for, tmpset := {6}, cur := 6\<rparr>) ?s"
    by (intro select_one) simp_all
  from select_loop_refines [OF this c] have "loop_reach True 6 2 demo_config ?s \<and>
    (\<forall>i \<in> select_set ?c ?s. i \<le> fd_max (?m\<lparr>pc := M_for, tmpset := {6}, cur := 6\<rparr>))"
    by (simp add: demo_control_def numeral_2_eq_2)
  with r2 show ?thesis by (intro exI [of _ "?m\<lparr>pc := M_for, tmpset := {6}, cur := 6\<rparr>"] exI [of _ ?s]) simp
qed

text \<open>A closing signal can make the server use an uninitialised variable: between setting the mode and closing
  the signal pipe a worker may leave and close its pipe, and the main thread, which waits in \<open>select\<close>,
  takes the end of that pipe for a result.\<close>

theorem closing_reads_no_result:
  assumes "control_ok c" "pipe_fds c = p # ps"
  shows "\<exists>m s. select_reach c cfg m s \<and> pc m = M_for \<and> cur m = p \<and> p \<in> tmpset m \<and> (\<forall>acc wk. on_ready c acc wk p m s = UB)"
proof -
  obtain t st where r: "select_reach c cfg (main_init c) (loop_init (listen_fd c) (length (pipe_fds c)) t st)"
    using select_starts by blast
  let ?s = "loop_init (listen_fd c) (length (pipe_fds c)) t st" and ?m = "main_init c\<lparr>pc := M_select\<rparr>"
  let ?s1 = "?s\<lparr>mode := CLOSE_SERVER, sig_waiting := False\<rparr>"
  let ?s2 = "w_goto 0 W_exit ?s1"
  let ?m2 = "?m\<lparr>pc := M_for, tmpset := {p}, cur := p\<rparr>"
  have top: "\<forall>i \<in> select_set c ?s. i \<le> fd_max (main_init c)"
    using select_start_inv [OF assms(1)] by (simp add: select_inv_def)
  have p: "p \<noteq> listen_fd c" "p \<noteq> sig_fd c" "p \<notin> set ps" "0 \<le> p" using assms by (auto simp: control_ok_def)
  have w: "w_at ?s1 0 W_top" using assms(2) by (simp add: w_at_def loop_init_def)
  have r1: "select_reach c cfg ?m ?s" using reach_select [OF r] by (simp add: main_init_def loop_init_def Let_def)
  have "sig_step ?s ?s1" using sig_caught [of ?s SIGINT] by (simp add: loop_init_def sig_mode_def)
  from select_more [OF r1 sel_signal [OF this]] have r2: "select_reach c cfg ?m ?s1" .
  have "worker_step 0 ?s1 ?s2" using worker_step.w_top [OF w] by simp
  from select_more [OF r2 sel_worker [OF this]] have r3: "select_reach c cfg ?m ?s2" .
  have e: "w_at ?s2 0 W_exit" using w by (simp add: w_at_def w_goto_def)
  moreover have "p \<le> fd_max (main_init c)" using top assms(2) by (simp add: select_set_def own_fds_def)
  ultimately have "may_be_ready c ?m ?s2 p" using p(4) assms(2) by (auto simp: may_be_ready_def)
  from select_one [OF r3 _ this] have r4: "select_reach c cfg ?m2 ?s2" by simp
  have "pipes ?s2 ! 0 = []" using assms(2) by (simp add: w_goto_def loop_init_def)
  then have "worker_results (p # ps) 0 p ?m2 ?s2 = UB" using e by (simp add: read_result_def)
  then have "on_ready c acc wk p ?m2 ?s2 = UB" for acc wk using p assms(2) by (simp add: on_ready_def)
  with r4 show ?thesis by (intro exI [of _ ?m2] exI [of _ ?s2]) simp
qed

lemma closing_reads_no_result_witness:
  "\<exists>m s. select_reach demo_control demo_config m s \<and> pc m = M_for \<and> on_ready demo_control (-1) id 4 m s = UB"
  using closing_reads_no_result [of demo_control 4 "[5]" demo_config]
  by (auto simp: control_ok_def demo_control_def client_fd_def)

end
