(* ===== verification/Server_Config.thy ===== *)
theory Server_Config
  imports Printf Files_Util Workers
begin

text \<open>
  The configuration of the server (\<open>get_server_config.c\<close>): the part of \<open>fscanf\<close> and \<open>fgets\<close> that the program
  uses, the six rounds that read an option each, and what the formats accept: a printed configuration is read
  back whatever the order of its lines and the white space, and a file that is accepted had each option once.
\<close>

section \<open>Reading from a stream\<close>

text \<open>White space in a format, and the three conversions; what a stream still holds is a list of bytes.\<close>

definition skip_ws :: "byte list \<Rightarrow> byte list" where
  "skip_ws = dropWhile is_space"

text \<open>
  \<open>fscanf(f, " %9c = ", opt)\<close>: -1 (\<open>EOF\<close>) when there is nothing but white space, else 1, with up to nine
  characters put at the start of the buffer; the \<open>=\<close> and the white space after it are left when there is no \<open>=\<close>.
\<close>

definition scan_key :: "byte list \<Rightarrow> byte list \<Rightarrow> int \<times> byte list \<times> byte list" where
  "scan_key opt inp =
     (let r = skip_ws inp in
      if r = [] then (-1, opt, [])
      else let k = take 9 r; rest = skip_ws (drop 9 r) in
        (1, k @ drop (length k) opt, (case rest of [] \<Rightarrow> [] | c # cs \<Rightarrow> if c = 61 then skip_ws cs else rest)))"

text \<open>
  \<open>fscanf(f, "%u", &n)\<close> and \<open>"%lu"\<close>: -1 at the end of the stream, 0 when no number follows (a sign is
  consumed then), 1 with the number stored; a number that does not fit is undefined behaviour.
\<close>

definition scan_unsigned :: "byte list \<Rightarrow> 'w::len word \<Rightarrow> (int \<times> 'w word \<times> byte list) res" where
  "scan_unsigned inp old =
     (let r = skip_ws inp in
      if r = [] then Ok (-1, old, [])
      else let neg = (hd r = 45);
               r = (if hd r = 45 \<or> hd r = 43 then tl r else r);
               ds = takeWhile is_digit r;
               v = digits_value 0 ds
        in if ds = [] then Ok (0, old, r)
           else if 2 ^ LENGTH('w) \<le> v then UB
           else Ok (1, word_of_int (if neg then - v else v), dropWhile is_digit r))"

text \<open>\<open>fgets(buf, n, f)\<close>: a line with its newline, cut after \<open>n - 1\<close> characters; \<open>NULL\<close> at the end.\<close>

fun get_line :: "nat \<Rightarrow> byte list \<Rightarrow> byte list \<times> byte list" where
  "get_line 0 inp = ([], inp)"
| "get_line (Suc n) [] = ([], [])"
| "get_line (Suc n) (c # cs) = (if c = 10 then ([c], cs) else (case get_line n cs of (l, r) \<Rightarrow> (c # l, r)))"

definition fgets :: "nat \<Rightarrow> byte list \<Rightarrow> (byte list \<times> byte list) option" where
  "fgets n inp = (if inp = [] then None else Some (get_line (n - 1) inp))"

text \<open>The string that is left when the first newline of a buffer is overwritten with NUL.\<close>

definition chomp :: "byte list \<Rightarrow> path" where
  "chomp = takeWhile (\<lambda>c. c \<noteq> 0 \<and> c \<noteq> 10)"

section \<open>The options\<close>

definition KEY_max_files :: "byte list" where "KEY_max_files = [109, 97, 120, 95, 102, 105, 108, 101, 115]"
definition KEY_max_space :: "byte list" where "KEY_max_space = [109, 97, 120, 95, 115, 112, 97, 99, 101]"
definition KEY_no_worker :: "byte list" where "KEY_no_worker = [110, 111, 95, 119, 111, 114, 107, 101, 114]"
definition KEY_sock_path :: "byte list" where "KEY_sock_path = [115, 111, 99, 107, 95, 112, 97, 116, 104]"
definition KEY_path_dlog :: "byte list" where "KEY_path_dlog = [112, 97, 116, 104, 95, 100, 108, 111, 103]"
definition KEY_cache_pol :: "byte list" where "KEY_cache_pol = [99, 97, 99, 104, 101, 95, 112, 111, 108]"

record reading =
  stream :: "byte list"
  current_opt :: "byte list"
  conf :: server_config_t
  has_log_file :: bool
  has_max_files :: bool
  has_max_space :: bool
  has_socket_name :: bool
  has_no_workers :: bool
  has_policy :: bool

definition is_opt :: "byte list \<Rightarrow> reading \<Rightarrow> bool" where
  "is_opt key s \<longleftrightarrow> take 9 (current_opt s) = key"

text \<open>One round: 0 to go on, -1 when the function returns -1.\<close>

definition read_max_files :: "reading \<Rightarrow> (int \<times> reading) res" where
  "read_max_files s =
     rbind (scan_unsigned (stream s) (cfg_max_files (conf s))) (\<lambda>(err, n, inp).
       Ok (if err = -1 then -1 else 0,
           s\<lparr>has_max_files := True, stream := inp, conf := (conf s)\<lparr>cfg_max_files := n\<rparr>\<rparr>))"

definition read_max_space :: "reading \<Rightarrow> (int \<times> reading) res" where
  "read_max_space s =
     rbind (scan_unsigned (stream s) (cfg_max_space (conf s))) (\<lambda>(err, n, inp).
       if err = -1 then Ok (-1, s\<lparr>has_max_space := True, stream := inp\<rparr>)
       else Ok (0, s\<lparr>has_max_space := True, stream := inp, conf := (conf s)\<lparr>cfg_max_space := n * 1000000\<rparr>\<rparr>))"

definition read_no_worker :: "reading \<Rightarrow> (int \<times> reading) res" where
  "read_no_worker s =
     rbind (scan_unsigned (stream s) (cfg_n_workers (conf s))) (\<lambda>(err, n, inp).
       Ok (if err = -1 then -1 else 0,
           s\<lparr>has_no_workers := True, stream := inp, conf := (conf s)\<lparr>cfg_n_workers := n\<rparr>\<rparr>))"

definition read_sock_path :: "reading \<Rightarrow> (int \<times> reading) res" where
  "read_sock_path s =
     (let s = s\<lparr>has_socket_name := True\<rparr> in
      case fgets PATH_MAX (stream s) of
        None \<Rightarrow> Ok (-1, s)
      | Some (l, inp) \<Rightarrow> Ok (0, s\<lparr>stream := inp, conf := (conf s)\<lparr>cfg_socket_path := chomp l\<rparr>\<rparr>))"

definition read_path_dlog :: "reading \<Rightarrow> (int \<times> reading) res" where
  "read_path_dlog s =
     (let s = s\<lparr>has_log_file := True\<rparr> in
      case fgets PATH_MAX (stream s) of
        None \<Rightarrow> Ok (-1, s)
      | Some (l, inp) \<Rightarrow> Ok (0, s\<lparr>stream := inp, conf := (conf s)\<lparr>cfg_log_dir_path := chomp l\<rparr>\<rparr>))"

definition read_cache_pol :: "reading \<Rightarrow> (int \<times> reading) res" where
  "read_cache_pol s =
     (let s = s\<lparr>has_policy := True\<rparr> in
      case fgets 5 (stream s) of
        None \<Rightarrow> Ok (-1, s)
      | Some (code, inp) \<Rightarrow>
          if take 3 code = [76, 82, 85] then Ok (0, s\<lparr>stream := inp, conf := (conf s)\<lparr>cfg_policy := LRU\<rparr>\<rparr>)
          else if take 4 code = [70, 73, 70, 79] then Ok (0, s\<lparr>stream := inp, conf := (conf s)\<lparr>cfg_policy := FIFO\<rparr>\<rparr>)
          else Ok (-1, s\<lparr>stream := inp\<rparr>))"

definition config_option :: "reading \<Rightarrow> (int \<times> reading) res" where
  "config_option s =
     (case scan_key (current_opt s) (stream s) of
        (err, opt, inp) \<Rightarrow>
          let s = s\<lparr>current_opt := opt, stream := inp\<rparr> in
          if err = -1 then Ok (-1, s)
          else if is_opt KEY_max_files s \<and> \<not> has_max_files s then read_max_files s
          else if is_opt KEY_max_space s \<and> \<not> has_max_space s then read_max_space s
          else if is_opt KEY_no_worker s \<and> \<not> has_no_workers s then read_no_worker s
          else if is_opt KEY_sock_path s \<and> \<not> has_socket_name s then read_sock_path s
          else if is_opt KEY_path_dlog s \<and> \<not> has_log_file s then read_path_dlog s
          else if is_opt KEY_cache_pol s \<and> \<not> has_policy s then read_cache_pol s
          else Ok (-1, s))"

fun config_loop :: "nat \<Rightarrow> reading \<Rightarrow> (int \<times> reading) res" where
  "config_loop 0 s = Ok (0, s)"
| "config_loop (Suc n) s = rbind (config_option s) (\<lambda>(r, s). if r = -1 then Ok (-1, s) else config_loop n s)"

text \<open>
  The file is its contents, or \<open>None\<close> when it cannot be opened; \<open>garbage\<close> is what the uninitialised buffer of
  the option holds and \<open>cfg\<close> the global \<open>server_config\<close> before the call.
\<close>

definition reading_init :: "byte list \<Rightarrow> byte list \<Rightarrow> server_config_t \<Rightarrow> reading" where
  "reading_init inp garbage cfg =
     \<lparr>stream = inp, current_opt = garbage, conf = cfg, has_log_file = False, has_max_files = False,
      has_max_space = False, has_socket_name = False, has_no_workers = False, has_policy = False\<rparr>"

definition all_read :: "reading \<Rightarrow> bool" where
  "all_read s \<longleftrightarrow> has_policy s \<and> has_max_files s \<and> has_max_space s \<and> has_log_file s \<and> has_socket_name s \<and> has_no_workers s"

definition get_server_config :: "byte list option \<Rightarrow> byte list \<Rightarrow> server_config_t \<Rightarrow> (int \<times> server_config_t) res" where
  "get_server_config file garbage cfg =
     (case file of
        None \<Rightarrow> Ok (-1, cfg)
      | Some inp \<Rightarrow>
          rbind (config_loop 6 (reading_init inp garbage cfg)) (\<lambda>(r, s).
            Ok (if r = -1 \<or> \<not> all_read s then -1 else 0, conf s)))"

section \<open>Printing a configuration\<close>

lemma skip_ws_append: "\<forall>c \<in> set w. is_space c \<Longrightarrow> skip_ws (w @ r) = skip_ws r"
  by (simp add: skip_ws_def dropWhile_append2)

lemma skip_ws_stop: "\<not> is_space c \<Longrightarrow> skip_ws (c # r) = c # r"
  by (simp add: skip_ws_def)

lemma skip_ws_text: "v \<noteq> [] \<Longrightarrow> \<not> is_space (hd v) \<Longrightarrow> skip_ws (v @ r) = v @ r"
  by (cases v) (simp_all add: skip_ws_def)

lemma skip_ws_newline [simp]: "skip_ws (10 # r) = skip_ws r"
  by (simp add: skip_ws_def is_space_def)

lemma scan_decimal:
  assumes "n < 2 ^ LENGTH('w)"
  shows "scan_unsigned (decimal n @ 10 # r) (old :: 'w::len word) = Ok (1, word_of_nat n, 10 # r)"
proof -
  let ?d = "decimal n"
  have ws: "skip_ws (?d @ 10 # r) = ?d @ 10 # r" using decimal_digits(1,3) by (rule skip_ws_text)
  have nd: "\<not> is_digit 10" by (simp add: is_digit_def)
  have tw: "takeWhile is_digit (?d @ 10 # r) = ?d" "dropWhile is_digit (?d @ 10 # r) = 10 # r"
    using nd decimal_digits(2) by (simp_all add: takeWhile_append dropWhile_append)
  have "int n < 2 ^ LENGTH('w)" using assms by (metis of_nat_less_iff of_nat_numeral of_nat_power)
  then show ?thesis
    using decimal_digits(1,4,5) by (simp add: scan_unsigned_def ws tw decimal_value Let_def)
qed

lemma get_line_whole:
  assumes "10 \<notin> set l" "length l < n"
  shows "get_line n (l @ 10 # r) = (l @ [10], r)"
  using assms by (induction l arbitrary: n) (case_tac n; simp)+

lemma get_line_cut: "10 \<notin> set l \<Longrightarrow> n = length l \<Longrightarrow> get_line n (l @ r) = (l, r)"
  by (induction l arbitrary: n) simp_all

section \<open>A printed configuration is read back\<close>

datatype option_t = Max_files | Max_space | No_worker | Sock_path | Path_dlog | Cache_pol

fun key_of :: "option_t \<Rightarrow> byte list" where
  "key_of Max_files = KEY_max_files"
| "key_of Max_space = KEY_max_space"
| "key_of No_worker = KEY_no_worker"
| "key_of Sock_path = KEY_sock_path"
| "key_of Path_dlog = KEY_path_dlog"
| "key_of Cache_pol = KEY_cache_pol"

text \<open>The number of megabytes is printed; reading multiplies it, in 64 bits.\<close>

fun value_of :: "server_config_t \<Rightarrow> option_t \<Rightarrow> byte list" where
  "value_of cfg Max_files = decimal (unat (cfg_max_files cfg))"
| "value_of cfg Max_space = decimal (unat (cfg_max_space cfg))"
| "value_of cfg No_worker = decimal (unat (cfg_n_workers cfg))"
| "value_of cfg Sock_path = cfg_socket_path cfg"
| "value_of cfg Path_dlog = cfg_log_dir_path cfg"
| "value_of cfg Cache_pol = (case cfg_policy cfg of LRU \<Rightarrow> [76, 82, 85] | FIFO \<Rightarrow> [70, 73, 70, 79])"

fun put_option :: "server_config_t \<Rightarrow> option_t \<Rightarrow> server_config_t \<Rightarrow> server_config_t" where
  "put_option cfg Max_files c = c\<lparr>cfg_max_files := cfg_max_files cfg\<rparr>"
| "put_option cfg Max_space c = c\<lparr>cfg_max_space := cfg_max_space cfg * 1000000\<rparr>"
| "put_option cfg No_worker c = c\<lparr>cfg_n_workers := cfg_n_workers cfg\<rparr>"
| "put_option cfg Sock_path c = c\<lparr>cfg_socket_path := cfg_socket_path cfg\<rparr>"
| "put_option cfg Path_dlog c = c\<lparr>cfg_log_dir_path := cfg_log_dir_path cfg\<rparr>"
| "put_option cfg Cache_pol c = c\<lparr>cfg_policy := cfg_policy cfg\<rparr>"

fun seen :: "reading \<Rightarrow> option_t \<Rightarrow> bool" where
  "seen s Max_files = has_max_files s"
| "seen s Max_space = has_max_space s"
| "seen s No_worker = has_no_workers s"
| "seen s Sock_path = has_socket_name s"
| "seen s Path_dlog = has_log_file s"
| "seen s Cache_pol = has_policy s"

text \<open>The paths a line can hold: no leading white space, no newline, and room for the NUL.\<close>

definition text_ok :: "path \<Rightarrow> bool" where
  "text_ok p \<longleftrightarrow> p \<noteq> [] \<and> \<not> is_space (hd p) \<and> 0 \<notin> set p \<and> 10 \<notin> set p \<and> length p < PATH_MAX"

definition printable :: "server_config_t \<Rightarrow> bool" where
  "printable cfg \<longleftrightarrow> text_ok (cfg_socket_path cfg) \<and> text_ok (cfg_log_dir_path cfg)"

text \<open>A line with white space before the option and around the \<open>=\<close>.\<close>

record line =
  ws_start :: "byte list"
  ws_key :: "byte list"
  ws_eq :: "byte list"
  line_opt :: option_t

definition spaces :: "byte list \<Rightarrow> bool" where
  "spaces w \<longleftrightarrow> (\<forall>c \<in> set w. is_space c)"

definition line_ok :: "line \<Rightarrow> bool" where
  "line_ok l \<longleftrightarrow> spaces (ws_start l) \<and> spaces (ws_key l) \<and> spaces (ws_eq l)"

definition print_line :: "server_config_t \<Rightarrow> line \<Rightarrow> byte list" where
  "print_line cfg l = ws_start l @ key_of (line_opt l) @ ws_key l @ [61] @ ws_eq l @ value_of cfg (line_opt l) @ [10]"

lemmas key_defs = KEY_max_files_def KEY_max_space_def KEY_no_worker_def KEY_sock_path_def KEY_path_dlog_def KEY_cache_pol_def

lemma key_of_text: "length (key_of k) = 9" "key_of k \<noteq> []" "\<not> is_space (hd (key_of k))" "\<not> is_space 61"
  by (cases k; simp add: key_defs is_space_def)+

lemma value_of_text: "printable cfg \<Longrightarrow> value_of cfg k \<noteq> [] \<and> \<not> is_space (hd (value_of cfg k))"
proof -
  have "\<not> is_space 76" "\<not> is_space 70" by (simp_all add: is_space_def)
  then show "printable cfg \<Longrightarrow> ?thesis"
    by (cases k) (simp_all add: decimal_digits printable_def text_ok_def split: policy_t.split)
qed

lemma scan_key_line:
  assumes "skip_ws inp = skip_ws (print_line cfg l @ rest)" "line_ok l" "printable cfg"
  shows "scan_key opt inp = (1, key_of (line_opt l) @ drop 9 opt, value_of cfg (line_opt l) @ 10 # rest)"
proof -
  let ?k = "key_of (line_opt l)" and ?v = "value_of cfg (line_opt l)"
  note ws = skip_ws_append skip_ws_text [OF key_of_text(2,3)] skip_ws_stop [OF key_of_text(4)]
  have "skip_ws inp = ?k @ ws_key l @ 61 # ws_eq l @ ?v @ 10 # rest"
    using assms(1,2) by (simp add: print_line_def line_ok_def spaces_def ws)
  moreover have "skip_ws (?v @ 10 # rest) = ?v @ 10 # rest"
    using value_of_text [OF assms(3)] by (intro skip_ws_text) simp_all
  ultimately show ?thesis
    using assms(2) key_of_text(1,2) [of "line_opt l"]
    by (simp add: scan_key_def Let_def line_ok_def spaces_def ws)
qed

lemma key_of_inj: "key_of j = key_of k \<longleftrightarrow> j = k"
  by (cases j; cases k) (simp_all add: key_defs)

lemma is_opt_key: "is_opt (key_of j) (s\<lparr>current_opt := key_of k @ r, stream := inp\<rparr>) \<longleftrightarrow> j = k"
  using key_of_text(1) [of k] key_of_inj [of k j] by (auto simp: is_opt_def)

fun read_option :: "option_t \<Rightarrow> reading \<Rightarrow> (int \<times> reading) res" where
  "read_option Max_files = read_max_files"
| "read_option Max_space = read_max_space"
| "read_option No_worker = read_no_worker"
| "read_option Sock_path = read_sock_path"
| "read_option Path_dlog = read_path_dlog"
| "read_option Cache_pol = read_cache_pol"

lemma config_option_key:
  assumes "scan_key (current_opt s) (stream s) = (1, key_of k @ r, inp)" "\<not> seen s k"
  shows "config_option s = read_option k (s\<lparr>current_opt := key_of k @ r, stream := inp\<rparr>)"
  using assms(2) unfolding config_option_def key_of.simps [symmetric] Let_def
  by (cases k) (simp_all only: assms(1) prod.case is_opt_key option_t.distinct seen.simps simp_thms if_True if_False
    read_option.simps, simp_all)

lemma read_text:
  assumes "text_ok p"
  shows "\<exists>l r. fgets PATH_MAX (p @ 10 # rest) = Some (l, r) \<and> chomp l = p \<and> skip_ws r = skip_ws rest"
proof (cases "length p < PATH_MAX - 1")
  case True
  have "chomp (p @ [10]) = p" unfolding chomp_def
    using assms by (subst takeWhile_append2) (auto simp: text_ok_def)
  with True assms show ?thesis by (simp add: fgets_def get_line_whole text_ok_def)
next
  case False
  with assms have "length p = PATH_MAX - 1" by (simp add: text_ok_def PATH_MAX_def)
  moreover have "chomp p = p" using assms by (auto simp: chomp_def text_ok_def takeWhile_eq_all_conv)
  ultimately show ?thesis using assms get_line_cut [of p "PATH_MAX - 1" "10 # rest"] by (simp add: fgets_def text_ok_def)
qed

lemma read_policy_code: "fgets 5 (76 # 82 # 85 # 10 # rest) = Some ([76, 82, 85, 10], rest)"
  "fgets 5 (70 # 73 # 70 # 79 # 10 # rest) = Some ([70, 73, 70, 79], 10 # rest)"
proof -
  have "10 \<notin> set [76, 82, 85 :: byte]" "10 \<notin> set [70, 73, 70, 79 :: byte]" by simp_all
  from get_line_whole [OF this(1), of 4 rest] get_line_cut [OF this(2), of 4 "10 # rest"]
  show "fgets 5 (76 # 82 # 85 # 10 # rest) = Some ([76, 82, 85, 10], rest)"
    "fgets 5 (70 # 73 # 70 # 79 # 10 # rest) = Some ([70, 73, 70, 79], 10 # rest)"
    by (simp_all add: fgets_def)
qed

lemma option_round:
  assumes inp: "skip_ws (stream s) = skip_ws (print_line cfg l @ rest)" and l: "line_ok l" and cfg: "printable cfg"
    and new: "\<not> seen s (line_opt l)"
  shows "\<exists>s'. config_option s = Ok (0, s') \<and> skip_ws (stream s') = skip_ws rest \<and>
    conf s' = put_option cfg (line_opt l) (conf s) \<and> (\<forall>k. seen s' k \<longleftrightarrow> k = line_opt l \<or> seen s k)"
proof -
  note step = config_option_key [OF scan_key_line [OF inp l cfg] new]
  have all: "(\<forall>k. P k) \<longleftrightarrow> P Max_files \<and> P Max_space \<and> P No_worker \<and> P Sock_path \<and> P Path_dlog \<and> P Cache_pol" for P
    by (metis option_t.exhaust)
  have small: "unat (n :: u32) < 2 ^ LENGTH(32)" "unat (m :: u64) < 2 ^ LENGTH(64)" for n m by (rule unsigned_less)+
  show ?thesis
  proof (cases "line_opt l")
    case Max_files
    then show ?thesis using new small scan_decimal [OF small(1)]
      by (simp add: step read_max_files_def all)
  next
    case Max_space
    then show ?thesis using new scan_decimal [OF small(2)]
      by (simp add: step read_max_space_def all)
  next
    case No_worker
    then show ?thesis using new scan_decimal [OF small(1)]
      by (simp add: step read_no_worker_def all)
  next
    case Sock_path
    from read_text [of "cfg_socket_path cfg" rest] cfg Sock_path new show ?thesis
      by (auto simp: step read_sock_path_def all printable_def)
  next
    case Path_dlog
    from read_text [of "cfg_log_dir_path cfg" rest] cfg Path_dlog new show ?thesis
      by (auto simp: step read_path_dlog_def all printable_def)
  next
    case Cache_pol
    then show ?thesis using new
      by (cases "cfg_policy cfg") (simp_all add: step read_cache_pol_def all read_policy_code)
  qed
qed

text \<open>All the lines.\<close>

lemma option_rounds:
  assumes "printable cfg" "\<forall>l \<in> set ls. line_ok l" "distinct (map line_opt ls)" "\<forall>l \<in> set ls. \<not> seen s (line_opt l)"
    "skip_ws (stream s) = skip_ws (concat (map (print_line cfg) ls))"
  shows "\<exists>s'. config_loop (length ls) s = Ok (0, s') \<and> conf s' = fold (put_option cfg) (map line_opt ls) (conf s) \<and>
    (\<forall>k. seen s' k \<longleftrightarrow> k \<in> line_opt ` set ls \<or> seen s k)"
  using assms
proof (induction ls arbitrary: s)
  case (Cons l ls)
  from option_round [of s cfg l "concat (map (print_line cfg) ls)"] Cons.prems obtain s1 where
    s1: "config_option s = Ok (0, s1)" "skip_ws (stream s1) = skip_ws (concat (map (print_line cfg) ls))"
    "conf s1 = put_option cfg (line_opt l) (conf s)" "\<forall>k. seen s1 k \<longleftrightarrow> k = line_opt l \<or> seen s k" by auto
  have "line_opt l \<notin> line_opt ` set ls" using Cons.prems(3) by simp
  then have "\<forall>l \<in> set ls. \<not> seen s1 (line_opt l)" using s1(4) Cons.prems(4) by (auto simp: image_iff)
  from Cons.IH [OF _ _ _ this s1(2)] Cons.prems s1 show ?case by auto
qed simp

lemma put_options:
  "cfg_max_files (fold (put_option cfg) ks c) = (if Max_files \<in> set ks then cfg_max_files cfg else cfg_max_files c)"
  "cfg_max_space (fold (put_option cfg) ks c) = (if Max_space \<in> set ks then cfg_max_space cfg * 1000000 else cfg_max_space c)"
  "cfg_n_workers (fold (put_option cfg) ks c) = (if No_worker \<in> set ks then cfg_n_workers cfg else cfg_n_workers c)"
  "cfg_socket_path (fold (put_option cfg) ks c) = (if Sock_path \<in> set ks then cfg_socket_path cfg else cfg_socket_path c)"
  "cfg_log_dir_path (fold (put_option cfg) ks c) = (if Path_dlog \<in> set ks then cfg_log_dir_path cfg else cfg_log_dir_path c)"
  "cfg_policy (fold (put_option cfg) ks c) = (if Cache_pol \<in> set ks then cfg_policy cfg else cfg_policy c)"
proof (induction ks arbitrary: c)
  case (Cons k ks)
  { case 1 then show ?case using Cons(1) by (cases k) simp_all }
  { case 2 then show ?case using Cons(2) by (cases k) simp_all }
  { case 3 then show ?case using Cons(3) by (cases k) simp_all }
  { case 4 then show ?case using Cons(4) by (cases k) simp_all }
  { case 5 then show ?case using Cons(5) by (cases k) simp_all }
  { case 6 then show ?case using Cons(6) by (cases k) simp_all }
qed simp_all

section \<open>What an accepted file holds\<close>

definition n_seen :: "reading \<Rightarrow> nat" where
  "n_seen s = card {k. seen s k}"

lemma option_UNIV: "UNIV = {Max_files, Max_space, No_worker, Sock_path, Path_dlog, Cache_pol}"
  by (auto intro: option_t.exhaust)

lemma option_all: "(\<forall>k. P k) \<longleftrightarrow> P Max_files \<and> P Max_space \<and> P No_worker \<and> P Sock_path \<and> P Path_dlog \<and> P Cache_pol"
  by (metis option_t.exhaust)

lemma finite_options [simp]: "finite (A :: option_t set)"
  by (rule finite_subset [OF subset_UNIV]) (simp add: option_UNIV)

definition texts_ok :: "reading \<Rightarrow> bool" where
  "texts_ok s \<longleftrightarrow> (\<forall>p \<in> {cfg_socket_path (conf s), cfg_log_dir_path (conf s)}. length p < PATH_MAX \<and> 0 \<notin> set p \<and> 10 \<notin> set p)"

lemma get_line_length: "get_line n inp = (l, r) \<Longrightarrow> length l \<le> n"
  by (induction n inp arbitrary: l r rule: get_line.induct) (auto split: if_splits prod.splits)

lemma chomp_ok:
  assumes "fgets PATH_MAX inp = Some (l, r)"
  shows "length (chomp l) < PATH_MAX" "0 \<notin> set (chomp l)" "10 \<notin> set (chomp l)"
proof -
  have "length l \<le> PATH_MAX - 1" using assms get_line_length by (auto simp: fgets_def split: if_splits)
  then have "length (chomp l) \<le> PATH_MAX - 1" unfolding chomp_def by (rule le_trans [OF length_takeWhile_le])
  then show "length (chomp l) < PATH_MAX" by (simp add: PATH_MAX_def)
  show "0 \<notin> set (chomp l)" "10 \<notin> set (chomp l)" by (auto simp: chomp_def dest: set_takeWhileD)
qed

lemma scan_unsigned_returns: "scan_unsigned inp old = Ok (e, n, r) \<Longrightarrow> e \<in> {-1, 0, 1}"
  by (auto simp: scan_unsigned_def Let_def split: if_splits)

text \<open>A round that goes on has read one option more.\<close>

definition counts :: "reading \<Rightarrow> (int \<times> reading) res \<Rightarrow> bool" where
  "counts s out \<longleftrightarrow> (\<forall>r s'. out = Ok (r, s') \<longrightarrow> r \<in> {-1, 0} \<and> (r = 0 \<longrightarrow> n_seen s' = Suc (n_seen s)) \<and> texts_ok s')"

lemma countsI:
  assumes "\<not> seen s k"
    and "\<And>r s'. out = Ok (r, s') \<Longrightarrow> (r = -1 \<or> r = 0) \<and> (\<forall>j. seen s' j \<longleftrightarrow> j = k \<or> seen s j) \<and> texts_ok s'"
  shows "counts s out"
proof -
  have "n_seen s' = Suc (n_seen s)" if "\<forall>j. seen s' j \<longleftrightarrow> j = k \<or> seen s j" for s'
  proof -
    have "{j. seen s' j} = insert k {j. seen s j}" using that by auto
    then show ?thesis using assms(1) by (simp add: n_seen_def)
  qed
  with assms(2) show ?thesis unfolding counts_def by blast
qed

lemma reads_count:
  assumes "texts_ok s" "\<not> seen s k"
  shows "counts s (read_option k s)"
proof (rule countsI [OF assms(2)])
  fix r s'
  assume run: "read_option k s = Ok (r, s')"
  have same: "texts_ok s'" if "cfg_socket_path (conf s') = cfg_socket_path (conf s)" "cfg_log_dir_path (conf s') = cfg_log_dir_path (conf s)"
    using that assms(1) by (simp add: texts_ok_def)
  show "(r = -1 \<or> r = 0) \<and> (\<forall>j. seen s' j \<longleftrightarrow> j = k \<or> seen s j) \<and> texts_ok s'"
  proof (cases k)
    case Max_files
    with run obtain e n inp where sc: "scan_unsigned (stream s) (cfg_max_files (conf s)) = Ok (e, n, inp)"
      by (cases "scan_unsigned (stream s) (cfg_max_files (conf s))") (auto simp: read_max_files_def)
    from run Max_files same show ?thesis by (cases "e = -1") (auto simp: read_max_files_def sc option_all)
  next
    case Max_space
    with run obtain e n inp where sc: "scan_unsigned (stream s) (cfg_max_space (conf s)) = Ok (e, n, inp)"
      by (cases "scan_unsigned (stream s) (cfg_max_space (conf s))") (auto simp: read_max_space_def)
    from run Max_space same show ?thesis by (cases "e = -1") (auto simp: read_max_space_def sc option_all)
  next
    case No_worker
    with run obtain e n inp where sc: "scan_unsigned (stream s) (cfg_n_workers (conf s)) = Ok (e, n, inp)"
      by (cases "scan_unsigned (stream s) (cfg_n_workers (conf s))") (auto simp: read_no_worker_def)
    from run No_worker same show ?thesis by (cases "e = -1") (auto simp: read_no_worker_def sc option_all)
  next
    case Sock_path
    with run assms(1) chomp_ok show ?thesis
      by (cases "fgets PATH_MAX (stream s)") (auto simp: read_sock_path_def Let_def option_all texts_ok_def)
  next
    case Path_dlog
    with run assms(1) chomp_ok show ?thesis
      by (cases "fgets PATH_MAX (stream s)") (auto simp: read_path_dlog_def Let_def option_all texts_ok_def)
  next
    case Cache_pol
    with run same show ?thesis
      by (cases "fgets 5 (stream s)") (auto simp: read_cache_pol_def Let_def option_all split: if_splits)
  qed
qed

text \<open>A round reads a new option or fails.\<close>

lemma config_option_cases:
  obtains (fail) s' where "config_option s = Ok (-1, s')" "texts_ok s' = texts_ok s"
  | (read) k opt inp where "\<not> seen s k" "config_option s = read_option k (s\<lparr>current_opt := opt, stream := inp\<rparr>)"
proof -
  obtain e opt inp where sc: "scan_key (current_opt s) (stream s) = (e, opt, inp)" by (cases "scan_key (current_opt s) (stream s)")
  let ?s = "s\<lparr>current_opt := opt, stream := inp\<rparr>"
  note d = config_option_def sc prod.case Let_def
  define P where "P out \<longleftrightarrow> out = Ok (-1, ?s) \<or> (\<exists>k. \<not> seen s k \<and> out = read_option k ?s)" for out
  have "P (Ok (-1, ?s))" by (simp add: P_def)
  moreover have "\<not> seen s k \<Longrightarrow> P (read_option k ?s)" for k by (auto simp: P_def)
  from this [of Max_files] this [of Max_space] this [of No_worker] this [of Sock_path] this [of Path_dlog] this [of Cache_pol]
  have "\<not> has_max_files ?s \<Longrightarrow> P (read_max_files ?s)" "\<not> has_max_space ?s \<Longrightarrow> P (read_max_space ?s)"
    "\<not> has_no_workers ?s \<Longrightarrow> P (read_no_worker ?s)" "\<not> has_socket_name ?s \<Longrightarrow> P (read_sock_path ?s)"
    "\<not> has_log_file ?s \<Longrightarrow> P (read_path_dlog ?s)" "\<not> has_policy ?s \<Longrightarrow> P (read_cache_pol ?s)" by simp_all
  ultimately have "P (config_option s)" unfolding d by (simp split: if_split)
  then consider "config_option s = Ok (-1, ?s)" | k where "\<not> seen s k" "config_option s = read_option k ?s"
    unfolding P_def by blast
  then show thesis
  proof cases
    case 1
    then show thesis by (rule fail) (simp add: texts_ok_def)
  next
    case 2
    then show thesis by (rule read)
  qed
qed

lemma option_counts: "texts_ok s \<Longrightarrow> counts s (config_option s)"
proof (cases s rule: config_option_cases)
  case (read k opt inp)
  assume "texts_ok s"
  then have "counts (s\<lparr>current_opt := opt, stream := inp\<rparr>) (config_option s)"
    unfolding read(2) using read(1) by (intro reads_count) (cases k; simp add: texts_ok_def)+
  moreover have "seen (s\<lparr>current_opt := opt, stream := inp\<rparr>) j = seen s j" for j by (cases j) simp_all
  ultimately show ?thesis by (simp add: counts_def n_seen_def)
qed (simp add: counts_def)

lemma rounds_count:
  assumes "config_loop n s = Ok (r, s')" "texts_ok s"
  shows "r \<in> {-1, 0} \<and> (r = 0 \<longrightarrow> n_seen s' = n_seen s + n) \<and> texts_ok s'"
  using assms
proof (induction n arbitrary: s)
  case (Suc n)
  then obtain r1 s1 where r: "config_option s = Ok (r1, s1)" and
    n: "(if r1 = -1 then Ok (-1, s1) else config_loop n s1) = Ok (r, s')"
    by (auto simp: rbind_eq_Ok)
  from option_counts [OF Suc.prems(2)] r n Suc.IH [of s1] show ?case by (auto simp: counts_def split: if_splits)
qed simp

lemma all_counted: "n_seen s = 6 \<Longrightarrow> all_read s"
proof -
  assume "n_seen s = 6"
  then have "card (UNIV :: option_t set) \<le> card {k. seen s k}" by (simp add: n_seen_def option_UNIV)
  then have "{k. seen s k} = UNIV" by (intro card_seteq) simp_all
  then have "\<forall>k. seen s k" by auto
  then show ?thesis by (simp add: option_all all_read_def)
qed

text \<open>A missing number goes unnoticed when a character follows that is neither a digit nor a sign.\<close>

lemma missing_number_kept:
  assumes "\<not> is_digit c" "\<not> is_space c" "c \<noteq> 45" "c \<noteq> 43"
  shows "scan_unsigned (c # r) old = Ok (0, old, c # r)"
  using assms by (simp add: scan_unsigned_def skip_ws_stop)

lemma printed_read:
  assumes "printable cfg" "\<forall>l \<in> set ls. line_ok l" "distinct (map line_opt ls)" "set (map line_opt ls) = UNIV"
  shows "\<exists>s. config_loop 6 (reading_init (concat (map (print_line cfg) ls)) garbage cfg0) = Ok (0, s) \<and> all_read s \<and>
    conf s = cfg\<lparr>cfg_max_space := cfg_max_space cfg * 1000000\<rparr>"
proof -
  let ?s = "reading_init (concat (map (print_line cfg) ls)) garbage cfg0"
  have len: "length ls = 6"
    using distinct_card [OF assms(3)] assms(4) by (simp add: option_UNIV)
  have new: "\<not> seen ?s k" for k by (cases k) (simp_all add: reading_init_def)
  then have "\<forall>l \<in> set ls. \<not> seen ?s (line_opt l)" by simp
  from option_rounds [OF assms(1-3) this] obtain s' where
    s': "config_loop 6 ?s = Ok (0, s')" "conf s' = fold (put_option cfg) (map line_opt ls) cfg0"
    "\<forall>k. seen s' k \<longleftrightarrow> k \<in> line_opt ` set ls \<or> seen ?s k"
    unfolding len by (auto simp: reading_init_def)
  have "\<forall>k. seen s' k" using s'(3) assms(4) by simp
  then have "all_read s'" by (simp add: option_all all_read_def)
  moreover have "conf s' = cfg\<lparr>cfg_max_space := cfg_max_space cfg * 1000000\<rparr>"
    unfolding s'(2) by (rule server_config_t.equality) (simp_all add: put_options assms(4) del: set_map)
  ultimately show ?thesis using s'(1) by blast
qed

section \<open>Properties\<close>

text \<open>C28: a configuration written in lines \<open>option = value\<close>, in any order and with any white space before the
  option and around the \<open>=\<close>, is read back by \<open>get_server_config\<close>, whatever was in its buffer and in the
  configuration; the space is the number of the file times a million, in 64 bits.\<close>

theorem config_roundtrip:
  assumes "printable cfg" "\<forall>l \<in> set ls. line_ok l" "distinct (map line_opt ls)" "set (map line_opt ls) = UNIV"
  shows "get_server_config (Some (concat (map (print_line cfg) ls))) garbage cfg0 =
    Ok (0, cfg\<lparr>cfg_max_space := cfg_max_space cfg * 1000000\<rparr>)"
  using printed_read [OF assms, of garbage cfg0] by (auto simp: get_server_config_def)

definition demo_lines :: "line list" where
  "demo_lines = map (\<lambda>k. \<lparr>ws_start = [10, 10], ws_key = [32], ws_eq = [32, 32], line_opt = k\<rparr>)
     [No_worker, Max_space, Max_files, Cache_pol, Sock_path, Path_dlog]"

definition printed_config :: server_config_t where
  "printed_config = \<lparr>cfg_n_workers = 4, cfg_max_space = 128, cfg_max_files = 10000, cfg_socket_path = [47, 115],
     cfg_log_dir_path = [108, 111, 103], cfg_policy = FIFO\<rparr>"

lemma demo_printable: "printable printed_config" "\<forall>l \<in> set demo_lines. line_ok l" "distinct (map line_opt demo_lines)"
  "set (map line_opt demo_lines) = UNIV"
proof -
  show "printable printed_config"
    by (simp add: printable_def text_ok_def printed_config_def is_space_def PATH_MAX_def)
  show "\<forall>l \<in> set demo_lines. line_ok l" by (simp add: demo_lines_def line_ok_def spaces_def is_space_def)
  show "distinct (map line_opt demo_lines)" "set (map line_opt demo_lines) = UNIV"
    by (auto simp: demo_lines_def option_UNIV)
qed

lemma config_roundtrip_witness:
  "get_server_config (Some (concat (map (print_line printed_config) demo_lines))) [] printed_config =
     Ok (0, printed_config\<lparr>cfg_max_space := 128000000\<rparr>)"
  using config_roundtrip [OF demo_printable, of "[]" printed_config] by (simp add: printed_config_def)

text \<open>\<open>get_server_config\<close> returns 0 or -1, and when it returns 0 every option has been read (the last test of the
  function for missing ones never fires, since no option is read twice) and the two paths are strings that
  fit their arrays.\<close>

theorem accepted_config:
  assumes "config_loop 6 (reading_init inp garbage cfg) = Ok (r, s)"
    and "\<forall>p \<in> {cfg_socket_path cfg, cfg_log_dir_path cfg}. length p < PATH_MAX \<and> 0 \<notin> set p \<and> 10 \<notin> set p"
  shows "get_server_config (Some inp) garbage cfg = Ok (r, conf s) \<and> r \<in> {-1, 0} \<and> (r = 0 \<longrightarrow> all_read s) \<and>
    (\<forall>p \<in> {cfg_socket_path (conf s), cfg_log_dir_path (conf s)}. length p < PATH_MAX \<and> 0 \<notin> set p \<and> 10 \<notin> set p)"
proof -
  let ?s = "reading_init inp garbage cfg"
  have none: "\<not> seen ?s k" for k by (cases k) (simp_all add: reading_init_def)
  then have "n_seen ?s = 0" by (simp add: n_seen_def)
  moreover have "texts_ok ?s" using assms(2) by (simp add: texts_ok_def reading_init_def)
  ultimately have "r \<in> {-1, 0} \<and> (r = 0 \<longrightarrow> n_seen s = 6) \<and> texts_ok s" using rounds_count [OF assms(1)] by simp
  then have "r \<in> {-1, 0}" "r = 0 \<longrightarrow> all_read s" "texts_ok s" using all_counted by auto
  then show ?thesis using assms(1) by (auto simp: get_server_config_def texts_ok_def)
qed

lemma accepted_config_witness:
  "\<exists>s. get_server_config (Some (concat (map (print_line printed_config) demo_lines))) [] printed_config = Ok (0, conf s) \<and> all_read s"
proof -
  let ?inp = "concat (map (print_line printed_config) demo_lines)"
  obtain s where s: "config_loop 6 (reading_init ?inp [] printed_config) = Ok (0, s)"
    using printed_read [OF demo_printable] by blast
  have "\<forall>p \<in> {cfg_socket_path printed_config, cfg_log_dir_path printed_config}. length p < PATH_MAX \<and> 0 \<notin> set p \<and> 10 \<notin> set p"
    by (simp add: printed_config_def PATH_MAX_def)
  from accepted_config [OF s this] show ?thesis by auto
qed

end
