(* ===== verification/Log.thy ===== *)
theory Log
  imports Printf Transition Workers
begin

text \<open>
  \<open>server/log.c\<close>: the name of the log file, the line that \<open>logger\<close> prints, and the threads that call it at the same
  time, with the buffer of the stream; and what a worker logs for a request.
\<close>

section \<open>Time\<close>

text \<open>The fields of \<open>struct tm\<close> that are printed. \<open>localtime_r\<close> depends on the time zone: it is a parameter.\<close>

record tm =
  tm_sec :: int
  tm_min :: int
  tm_hour :: int
  tm_mday :: int
  tm_mon :: int
  tm_year :: int

definition tm_ok :: "tm \<Rightarrow> bool" where
  "tm_ok t \<longleftrightarrow> 0 \<le> tm_sec t \<and> tm_sec t \<le> 60 \<and> 0 \<le> tm_min t \<and> tm_min t \<le> 59 \<and> 0 \<le> tm_hour t \<and> tm_hour t \<le> 23 \<and>
     1 \<le> tm_mday t \<and> tm_mday t \<le> 31 \<and> 0 \<le> tm_mon t \<and> tm_mon t \<le> 11 \<and> -900 \<le> tm_year t \<and> tm_year t \<le> 8099"

definition tm_args :: "tm \<Rightarrow> c_arg list" where
  "tm_args t = [A_int (tm_year t + 1900), A_int (tm_mon t + 1), A_int (tm_mday t), A_int (tm_hour t), A_int (tm_min t), A_int (tm_sec t)]"

section \<open>The log file\<close>

text \<open>
  \<open>init_log_file\<close>: \<open>can_open\<close> says whether \<open>fopen\<close> creates the file. The result is the path of the file, or nothing for
  -1; the buffer of the path is not freed then.
\<close>

definition log_path :: "path \<Rightarrow> tm \<Rightarrow> path res" where
  "log_path dir t = snprintf (length dir + 30) ''%s/log-%4d-%02d-%02d-%02d:%02d:%02d.txt'' (A_str dir # tm_args t)"

definition init_log_file :: "server_config_t \<Rightarrow> tm \<Rightarrow> (path \<Rightarrow> bool) \<Rightarrow> mem \<Rightarrow> (path option \<times> mem) res" where
  "init_log_file cfg t can_open m =
     rbind (safe_malloc (word_of_nat (length (cfg_log_dir_path cfg) + 30)) m) (\<lambda>m.
     rbind (log_path (cfg_log_dir_path cfg) t) (\<lambda>p. Ok (if can_open p then Some p else None, m)))"

text \<open>What \<open>logger\<close> prints: the time, and the message. A message is a format with its arguments.\<close>

type_synonym message = "string \<times> c_arg list"

definition stamp :: "tm \<Rightarrow> byte list res" where
  "stamp t = sprintf ''%4d-%02d-%02d %02d:%02d:%02d  '' (tm_args t)"

definition logger :: "tm \<Rightarrow> message \<Rightarrow> byte list \<Rightarrow> byte list res" where
  "logger t msg out =
     rbind (stamp t) (\<lambda>a. rbind (sprintf (fst msg) (snd msg)) (\<lambda>b. Ok (out @ a @ b)))"

subsection \<open>The bytes of a time\<close>

definition two :: "int \<Rightarrow> byte list" where
  "two i = pad 48 2 (decimal (nat i))"

definition four :: "int \<Rightarrow> byte list" where
  "four i = pad 32 4 (decimal (nat i))"

lemma pad_two:
  "pad 48 2 (decimal (nat i)) = two i" "pad 48 (Suc (Suc 0)) (decimal (nat i)) = two i" "pad 32 4 (decimal (nat i)) = four i"
  by (simp_all add: two_def four_def numeral_2_eq_2)

lemma length_two: "0 \<le> i \<Longrightarrow> i < 100 \<Longrightarrow> length (two i) = 2"
  using length_decimal_le [of "nat i" 2] by (simp add: two_def max_def nat_less_iff)

lemma length_four: "0 \<le> i \<Longrightarrow> i < 10000 \<Longrightarrow> length (four i) = 4"
  using length_decimal_le [of "nat i" 4] by (simp add: four_def max_def nat_less_iff)

lemma stamp_bytes:
  assumes "tm_ok t"
  shows "stamp t = Ok (four (tm_year t + 1900) @ 45 # two (tm_mon t + 1) @ 45 # two (tm_mday t) @ 32 # two (tm_hour t) @
    58 # two (tm_min t) @ 58 # two (tm_sec t) @ [32, 32])"
  using assms
  by (simp add: stamp_def sprintf_def tm_args_def tm_ok_def is_digit_def print_int_def pad_two)

lemma log_path_bytes:
  assumes "tm_ok t"
  shows "log_path dir t = Ok (dir @ bytes_of ''/log-'' @ four (tm_year t + 1900) @ 45 # two (tm_mon t + 1) @ 45 # two (tm_mday t) @
    45 # two (tm_hour t) @ 58 # two (tm_min t) @ 58 # two (tm_sec t) @ bytes_of ''.txt'')"
proof -
  have "sprintf ''%s/log-%4d-%02d-%02d-%02d:%02d:%02d.txt'' (A_str dir # tm_args t) =
      Ok (dir @ bytes_of ''/log-'' @ four (tm_year t + 1900) @ 45 # two (tm_mon t + 1) @ 45 # two (tm_mday t) @
    45 # two (tm_hour t) @ 58 # two (tm_min t) @ 58 # two (tm_sec t) @ bytes_of ''.txt'')"
    using assms
    by (simp add: sprintf_def tm_args_def tm_ok_def is_digit_def print_int_def pad_two bytes_of_def pad_def [of _ 0])
  moreover have "length (four (tm_year t + 1900)) = 4" "length (two (tm_mon t + 1)) = 2" "length (two (tm_mday t)) = 2"
    "length (two (tm_hour t)) = 2" "length (two (tm_min t)) = 2" "length (two (tm_sec t)) = 2"
    using assms by (simp_all add: tm_ok_def length_two length_four)
  ultimately show ?thesis by (simp add: log_path_def snprintf_def bytes_of_def)
qed


lemma init_log_file_opened:
  assumes "init_log_file cfg t can_open m = Ok (Some p, m')"
  shows "log_path (cfg_log_dir_path cfg) t = Ok p \<and> can_open p" "m = Ample \<Longrightarrow> m' = Ample"
  using assms by (auto simp: init_log_file_def rbind_eq_Ok safe_malloc_def malloc_bytes_def split: if_splits prod.splits)

lemma init_log_file_opens:
  assumes "tm_ok t" "\<And>p. can_open p" "length (cfg_log_dir_path cfg) < 2 ^ 31"
  shows "\<exists>p. init_log_file cfg t can_open Ample = Ok (Some p, Ample)"
proof -
  have "unat (word_of_nat (length (cfg_log_dir_path cfg) + 30) :: u64) = length (cfg_log_dir_path cfg) + 30"
    using assms(3) by (simp add: unsigned_of_nat take_bit_nat_eq_self del: of_nat_add)
  then have "safe_malloc (word_of_nat (length (cfg_log_dir_path cfg) + 30)) Ample = Ok Ample"
    using assms(3) by (simp add: safe_malloc_def malloc_bytes_def)
  then show ?thesis using assms(2) log_path_bytes [OF assms(1)] by (simp add: init_log_file_def)
qed

subsection \<open>The name of the file\<close>

lemma pad_inj:
  assumes "pad 48 w (decimal m) = pad 48 w (decimal n) \<or> pad 32 w (decimal m) = pad 32 w (decimal n)"
  shows "m = n"
proof -
  have strip: "dropWhile (\<lambda>c. c = 32) (pad 32 w (decimal k)) = decimal k" for k
  proof -
    have "hd (decimal k) \<noteq> 32" using decimal_digits(3) [of k] by (auto simp: is_space_def)
    then have "dropWhile (\<lambda>c. c = 32) (decimal k) = decimal k" using decimal_digits(1) [of k] by (cases "decimal k") simp_all
    then show ?thesis by (simp add: pad_def dropWhile_append)
  qed
  from assms show ?thesis
  proof
    assume "pad 48 w (decimal m) = pad 48 w (decimal n)"
    then have "int m = int n" using padded_value [of w] by metis
    then show ?thesis by simp
  next
    assume "pad 32 w (decimal m) = pad 32 w (decimal n)"
    then have "decimal m = decimal n" using strip by metis
    then have "int m = int n" using decimal_value by metis
    then show ?thesis by simp
  qed
qed

lemma two_inj: "two i = two j \<longleftrightarrow> i = j" if "0 \<le> i" "0 \<le> j"
  using that pad_inj [of 2 "nat i" "nat j"] by (auto simp: two_def)

lemma four_inj: "four i = four j \<longleftrightarrow> i = j" if "0 \<le> i" "0 \<le> j"
  using that pad_inj [of 4 "nat i" "nat j"] by (auto simp: four_def)

text \<open>C34: the name of the log file is not cut by the buffer of \<open>init_log_file\<close>, whatever the directory, and starts
  with different local times have different log files, so that none is written over.\<close>

theorem log_path_names:
  assumes "tm_ok t" "tm_ok t'"
  shows "\<exists>p p'. log_path dir t = Ok p \<and> log_path dir t' = Ok p' \<and> length p = length dir + 28 \<and>
    drop (length dir + 24) p = bytes_of ''.txt'' \<and> (p = p' \<longrightarrow> t = t')"
proof -
  have len: "length (four (tm_year x + 1900)) = 4" "length (two (tm_mon x + 1)) = 2" "length (two (tm_mday x)) = 2"
    "length (two (tm_hour x)) = 2" "length (two (tm_min x)) = 2" "length (two (tm_sec x)) = 2" if "tm_ok x" for x
    using that by (simp_all add: tm_ok_def length_two length_four)
  show ?thesis
    unfolding log_path_bytes [OF assms(1)] log_path_bytes [OF assms(2)]
    using len [OF assms(1)] len [OF assms(2)] assms
    by (auto simp: bytes_of_def append_eq_append_conv two_inj four_inj tm_ok_def intro: tm.equality)
qed

theorem log_path_names_witness:
  "\<exists>p p'. log_path (bytes_of ''logs'') \<lparr>tm_sec = 5, tm_min = 30, tm_hour = 9, tm_mday = 21, tm_mon = 5, tm_year = 121\<rparr> = Ok p \<and>
    log_path (bytes_of ''logs'') \<lparr>tm_sec = 6, tm_min = 30, tm_hour = 9, tm_mday = 21, tm_mon = 5, tm_year = 121\<rparr> = Ok p' \<and>
    length p = 32 \<and> p \<noteq> p'"
  using log_path_names [of "\<lparr>tm_sec = 5, tm_min = 30, tm_hour = 9, tm_mday = 21, tm_mon = 5, tm_year = 121\<rparr>"
    "\<lparr>tm_sec = 6, tm_min = 30, tm_hour = 9, tm_mday = 21, tm_mon = 5, tm_year = 121\<rparr>" "bytes_of ''logs''"]
  by (auto simp: tm_ok_def bytes_of_def)

section \<open>Threads that log at the same time\<close>

text \<open>
  A call of \<open>logger\<close> waits for \<open>log_file_mtx\<close>, reads the time, prints the time and then the message to the stream,
  flushes it and unlocks. Printing goes to the buffer of the stream, which may be written out early when it is full.
  \<open>lt\<close> stands for \<open>localtime_r\<close>. \<open>log_calls\<close> holds the calls made, by thread, and \<open>log_done\<close> those that have
  returned, with the time they read, in the order of the returns.
\<close>

datatype log_pos =
    L_out | L_called message | L_locked message | L_timed message int | L_stamped message int
  | L_printed message int | L_flushed message int

record log_sys =
  log_time :: int
  log_file :: "byte list"
  log_buf :: "byte list"
  log_mtx :: "nat option"
  log_at :: "nat \<Rightarrow> log_pos"
  log_calls :: "(nat \<times> message) list"
  log_done :: "(nat \<times> message \<times> int) list"

definition log_start :: "log_sys \<Rightarrow> bool" where
  "log_start s \<longleftrightarrow> log_file s = [] \<and> log_buf s = [] \<and> log_mtx s = None \<and> log_at s = (\<lambda>_. L_out) \<and> log_calls s = [] \<and>
     log_done s = []"

definition log_goto :: "nat \<Rightarrow> log_pos \<Rightarrow> log_sys \<Rightarrow> log_sys" where
  "log_goto i p s = s\<lparr>log_at := (log_at s)(i := p)\<rparr>"

inductive log_step :: "(int \<Rightarrow> tm) \<Rightarrow> log_sys \<Rightarrow> log_sys \<Rightarrow> bool" for lt where
  log_tick: "log_time s \<le> t \<Longrightarrow> log_step lt s (s\<lparr>log_time := t\<rparr>)"
| log_call: "log_at s i = L_out \<Longrightarrow> log_step lt s (log_goto i (L_called m) s\<lparr>log_calls := log_calls s @ [(i, m)]\<rparr>)"
| log_lock: "log_at s i = L_called m \<Longrightarrow> log_mtx s = None \<Longrightarrow> log_step lt s (log_goto i (L_locked m) s\<lparr>log_mtx := Some i\<rparr>)"
| log_now: "log_at s i = L_locked m \<Longrightarrow> log_step lt s (log_goto i (L_timed m (log_time s)) s)"
| log_stamp: "log_at s i = L_timed m t \<Longrightarrow> stamp (lt t) = Ok bs \<Longrightarrow>
    log_step lt s (log_goto i (L_stamped m t) s\<lparr>log_buf := log_buf s @ bs\<rparr>)"
| log_text: "log_at s i = L_stamped m t \<Longrightarrow> sprintf (fst m) (snd m) = Ok bs \<Longrightarrow>
    log_step lt s (log_goto i (L_printed m t) s\<lparr>log_buf := log_buf s @ bs\<rparr>)"
| log_spill: "log_buf s = a @ b \<Longrightarrow> log_step lt s (s\<lparr>log_file := log_file s @ a, log_buf := b\<rparr>)"
| log_flush: "log_at s i = L_printed m t \<Longrightarrow>
    log_step lt s (log_goto i (L_flushed m t) s\<lparr>log_file := log_file s @ log_buf s, log_buf := []\<rparr>)"
| log_unlock: "log_at s i = L_flushed m t \<Longrightarrow>
    log_step lt s (log_goto i L_out s\<lparr>log_mtx := None, log_done := log_done s @ [(i, m, t)]\<rparr>)"

text \<open>Calls one after the other, each to its end.\<close>

fun log_all :: "(int \<Rightarrow> tm) \<Rightarrow> (nat \<times> message \<times> int) list \<Rightarrow> byte list \<Rightarrow> byte list res" where
  "log_all lt [] out = Ok out"
| "log_all lt ((i, m, t) # es) out = rbind (logger (lt t) m out) (log_all lt es)"

lemma log_all_append: "log_all lt (xs @ ys) out = rbind (log_all lt xs out) (log_all lt ys)"
proof (induction lt xs out rule: log_all.induct)
  case (2 lt i m t es out)
  then show ?case by (cases "logger (lt t) m out") simp_all
qed simp

subsection \<open>Invariant\<close>

text \<open>What a thread has put into the file and the buffer, after \<open>out\<close>.\<close>

fun log_part :: "(int \<Rightarrow> tm) \<Rightarrow> byte list \<Rightarrow> log_pos \<Rightarrow> log_sys \<Rightarrow> bool" where
  "log_part lt out (L_stamped m t) s = (\<exists>a. stamp (lt t) = Ok a \<and> log_file s @ log_buf s = out @ a)"
| "log_part lt out (L_printed m t) s = (logger (lt t) m out = Ok (log_file s @ log_buf s))"
| "log_part lt out (L_flushed m t) s = (logger (lt t) m out = Ok (log_file s) \<and> log_buf s = [])"
| "log_part lt out p s = (log_file s = out \<and> log_buf s = [])"

fun holds_log :: "log_pos \<Rightarrow> bool" where
  "holds_log L_out = False"
| "holds_log (L_called m) = False"
| "holds_log p = True"

text \<open>The messages of a call that has not returned, and the time it has read.\<close>

fun underway :: "log_pos \<Rightarrow> message list" where
  "underway L_out = []"
| "underway (L_called m) = [m]"
| "underway (L_locked m) = [m]"
| "underway (L_timed m t) = [m]"
| "underway (L_stamped m t) = [m]"
| "underway (L_printed m t) = [m]"
| "underway (L_flushed m t) = [m]"

fun read_time :: "log_pos \<Rightarrow> int list" where
  "read_time (L_timed m t) = [t]"
| "read_time (L_stamped m t) = [t]"
| "read_time (L_printed m t) = [t]"
| "read_time (L_flushed m t) = [t]"
| "read_time p = []"

definition said_by :: "nat \<Rightarrow> (nat \<times> message) list \<Rightarrow> message list" where
  "said_by i cs = map snd (filter (\<lambda>c. fst c = i) cs)"

definition done_by :: "nat \<Rightarrow> (nat \<times> message \<times> int) list \<Rightarrow> message list" where
  "done_by i es = map (\<lambda>e. fst (snd e)) (filter (\<lambda>e. fst e = i) es)"

definition log_inv :: "(int \<Rightarrow> tm) \<Rightarrow> log_sys \<Rightarrow> bool" where
  "log_inv lt s \<longleftrightarrow>
     (\<forall>i. holds_log (log_at s i) \<longleftrightarrow> log_mtx s = Some i) \<and>
     (\<exists>out. log_all lt (log_done s) [] = Ok out \<and> (\<exists>rest. log_file s = out @ rest) \<and>
       log_part lt out (case log_mtx s of None \<Rightarrow> L_out | Some i \<Rightarrow> log_at s i) s) \<and>
     sorted (map (snd \<circ> snd) (log_done s) @ (case log_mtx s of None \<Rightarrow> [] | Some i \<Rightarrow> read_time (log_at s i)) @ [log_time s]) \<and>
     (\<forall>i. said_by i (log_calls s) = done_by i (log_done s) @ underway (log_at s i))"

text \<open>The position of the thread that holds the mutex.\<close>

definition log_front :: "log_sys \<Rightarrow> log_pos" where
  "log_front s = (case log_mtx s of None \<Rightarrow> L_out | Some i \<Rightarrow> log_at s i)"

lemma log_front_at: "log_inv lt s \<Longrightarrow> holds_log (log_at s i) \<Longrightarrow> log_mtx s = Some i \<and> log_front s = log_at s i"
  by (auto simp: log_inv_def log_front_def)

lemma log_invE:
  assumes "log_inv lt s"
  obtains out rest where "\<And>i. holds_log (log_at s i) \<longleftrightarrow> log_mtx s = Some i" "log_all lt (log_done s) [] = Ok out"
    "log_file s = out @ rest" "log_part lt out (log_front s) s"
    "sorted (map (snd \<circ> snd) (log_done s) @ read_time (log_front s) @ [log_time s])"
    "\<And>i. said_by i (log_calls s) = done_by i (log_done s) @ underway (log_at s i)"
  using assms unfolding log_inv_def log_front_def by (auto split: option.splits)

lemma log_invI:
  assumes "\<And>i. holds_log (log_at s i) \<longleftrightarrow> log_mtx s = Some i" "log_all lt (log_done s) [] = Ok out"
    "log_file s = out @ rest" "log_part lt out (log_front s) s"
    "sorted (map (snd \<circ> snd) (log_done s) @ read_time (log_front s) @ [log_time s])"
    "\<And>i. said_by i (log_calls s) = done_by i (log_done s) @ underway (log_at s i)"
  shows "log_inv lt s"
  using assms unfolding log_inv_def log_front_def by (auto split: option.splits)

lemma by_append [simp]:
  "said_by i (cs @ ds) = said_by i cs @ said_by i ds" "done_by i (es @ fs) = done_by i es @ done_by i fs"
  "said_by i [(j, m)] = (if j = i then [m] else [])" "done_by i [(j, m, t)] = (if j = i then [m] else [])"
  by (simp_all add: said_by_def done_by_def)

lemma log_goto_simps [simp]:
  "log_at (log_goto i p s) = (log_at s)(i := p)" "log_time (log_goto i p s) = log_time s" "log_file (log_goto i p s) = log_file s"
  "log_buf (log_goto i p s) = log_buf s" "log_mtx (log_goto i p s) = log_mtx s" "log_calls (log_goto i p s) = log_calls s"
  "log_done (log_goto i p s) = log_done s"
  by (simp_all add: log_goto_def)

lemma log_goto_same [simp]:
  "log_goto i p s\<lparr>log_file := log_file s\<rparr> = log_goto i p s" "log_goto i p s\<lparr>log_file := log_file s, log_buf := b\<rparr> = log_goto i p s\<lparr>log_buf := b\<rparr>"
  "log_goto i p s\<lparr>log_buf := log_buf s\<rparr> = log_goto i p s"
  by (simp_all add: log_goto_def)

lemma log_part_cong:
  "log_file s = log_file s' \<Longrightarrow> log_buf s = log_buf s' \<Longrightarrow> log_part lt out p s = log_part lt out p s'"
  by (cases p) simp_all

text \<open>A step of the thread that holds the mutex, inside the call.\<close>

lemma log_inv_inside:
  assumes inv: "log_inv lt s" and i: "holds_log (log_at s i)" "holds_log p" "underway p = underway (log_at s i)"
    and time: "read_time p = read_time (log_at s i) \<or> read_time (log_at s i) = [] \<and> read_time p = [log_time s]"
    and part: "\<And>out. log_part lt out (log_at s i) s \<Longrightarrow> log_part lt out p (s\<lparr>log_file := log_file s @ a, log_buf := b\<rparr>)"
  shows "log_inv lt (log_goto i p s\<lparr>log_file := log_file s @ a, log_buf := b\<rparr>)"
proof -
  obtain out rest where o: "\<And>i. holds_log (log_at s i) \<longleftrightarrow> log_mtx s = Some i" "log_all lt (log_done s) [] = Ok out"
    "log_file s = out @ rest" "log_part lt out (log_front s) s"
    "sorted (map (snd \<circ> snd) (log_done s) @ read_time (log_front s) @ [log_time s])"
    "\<And>i. said_by i (log_calls s) = done_by i (log_done s) @ underway (log_at s i)" using inv by (elim log_invE) blast
  note f = log_front_at [OF inv i(1)]
  let ?s = "log_goto i p s\<lparr>log_file := log_file s @ a, log_buf := b\<rparr>"
  have "log_part lt out p ?s"
    using part [of out] o(4) f log_part_cong [of ?s "s\<lparr>log_file := log_file s @ a, log_buf := b\<rparr>"] by simp
  moreover have "sorted (map (snd \<circ> snd) (log_done s) @ read_time p @ [log_time s])"
    using time o(5) f by (auto simp: sorted_append)
  ultimately show ?thesis
    using o(1-3,6) i f by (intro log_invI [where out = out and rest = "rest @ a"]) (auto simp: log_front_def)
qed

lemma log_step_inv:
  assumes inv: "log_inv lt s" and step: "log_step lt s s'"
  shows "log_inv lt s'"
proof -
  obtain out rest where o: "\<And>i. holds_log (log_at s i) \<longleftrightarrow> log_mtx s = Some i" "log_all lt (log_done s) [] = Ok out"
    "log_file s = out @ rest" "log_part lt out (log_front s) s"
    "sorted (map (snd \<circ> snd) (log_done s) @ read_time (log_front s) @ [log_time s])"
    "\<And>i. said_by i (log_calls s) = done_by i (log_done s) @ underway (log_at s i)" using inv by (elim log_invE) blast
  from step show ?thesis
  proof cases
    case (log_tick t)
    have "log_front s' = log_front s" using log_tick by (simp add: log_front_def split: option.split)
    then show ?thesis using o log_tick log_part_cong [of s' s]
      by (intro log_invI [where out = out and rest = rest]) (fastforce simp: sorted_append)+
  next
    case (log_call i m)
    have "log_front s' = log_front s" using log_call o(1) [of i] by (auto simp: log_front_def split: option.split)
    then show ?thesis using o o(1) [of i] log_call log_part_cong [of s' s]
      by (intro log_invI [where out = out and rest = rest]) auto
  next
    case (log_lock i m)
    have "log_front s' = L_locked m" "log_front s = L_out" using log_lock by (simp_all add: log_front_def)
    then show ?thesis using o o(1) [of i] log_lock by (intro log_invI [where out = out and rest = rest]) auto
  next
    case (log_now i m)
    show ?thesis
      using log_inv_inside [OF inv, where i = i and p = "L_timed m (log_time s)" and a = "[]" and b = "log_buf s"] log_now(2)
      unfolding log_now(1) by simp
  next
    case (log_stamp i m t bs)
    show ?thesis
      using log_inv_inside [OF inv, where i = i and p = "L_stamped m t" and a = "[]" and b = "log_buf s @ bs"] log_stamp(2,3)
      unfolding log_stamp(1) by simp
  next
    case (log_text i m t bs)
    have "log_part lt out' (L_printed m t) (s\<lparr>log_file := log_file s @ [], log_buf := log_buf s @ bs\<rparr>)"
      if "log_part lt out' (log_at s i) s" for out'
      using that log_text(2,3) by (auto simp: logger_def)
    from log_inv_inside [where i = i, OF inv _ _ _ _ this] show ?thesis using log_text(2) unfolding log_text(1) by simp
  next
    case (log_spill a b)
    have "log_part lt out (log_front s) s'"
      using o(4) log_spill by (cases "log_front s") auto
    moreover have "log_front s' = log_front s" using log_spill by (simp add: log_front_def split: option.split)
    ultimately show ?thesis using o log_spill by (intro log_invI [where out = out and rest = "rest @ a"]) auto
  next
    case (log_flush i m t)
    show ?thesis
      using log_inv_inside [OF inv, where i = i and p = "L_flushed m t" and a = "log_buf s" and b = "[]"] log_flush(2)
      unfolding log_flush(1) by simp
  next
    case (log_unlock i m t)
    have f: "log_mtx s = Some i" "log_front s = L_flushed m t" using log_front_at [OF inv, of i] log_unlock(2) by simp_all
    have front: "log_front s' = L_out" using log_unlock(1) by (simp add: log_front_def)
    have "log_all lt (log_done s') [] = Ok (log_file s)" using o(2,4) f log_unlock(1) by (simp add: log_all_append)
    then show ?thesis using o f front log_unlock
      by (intro log_invI [where out = "log_file s" and rest = "[]"]) (auto simp: sorted_append)
  qed
qed

lemma log_start_inv: "log_start s \<Longrightarrow> log_inv lt s"
  by (rule log_invI [where out = "[]" and rest = "[]"]) (auto simp: log_start_def log_front_def said_by_def done_by_def)

text \<open>C7: whatever the interleaving, the calls that have returned are in the file as if they had been made one after the
  other, for each thread in the order of its calls; what follows them in the file is a part of the line under way, and
  there is nothing of it, in the file or in the buffer, when nobody holds the mutex. They are in the order of their times,
  too, the clock not being set back (\<open>log_tick\<close>; nothing else depends on it).\<close>

theorem log_in_sequence:
  assumes "reachable log_start (log_step lt) s"
  shows "\<exists>out. log_all lt (log_done s) [] = Ok out \<and> (\<exists>rest. log_file s = out @ rest) \<and>
    (log_mtx s = None \<longrightarrow> log_file s = out \<and> log_buf s = []) \<and> sorted (map (snd \<circ> snd) (log_done s)) \<and>
    (\<forall>i. said_by i (log_calls s) = done_by i (log_done s) @ underway (log_at s i))"
proof -
  have "log_inv lt s" using assms by (induction rule: reachable_induct) (use log_start_inv log_step_inv in blast)+
  then show ?thesis by (auto elim!: log_invE simp: sorted_append log_front_def)
qed

text \<open>Two threads: the second one calls \<open>logger\<close> while the first one is printing, and the buffer is written out early.\<close>

definition demo_tm :: "int \<Rightarrow> tm" where
  "demo_tm t = \<lparr>tm_sec = t, tm_min = 30, tm_hour = 9, tm_mday = 21, tm_mon = 5, tm_year = 121\<rparr>"

definition demo_msg :: "int \<Rightarrow> message" where
  "demo_msg i = (''[THREAD %d] Closing thread.'', [A_int i])"

definition demo_log :: "log_sys" where
  "demo_log = \<lparr>log_time = 7, log_file = [], log_buf = [], log_mtx = None, log_at = (\<lambda>_. L_out), log_calls = [], log_done = []\<rparr>"

lemma demo_log_run:
  "\<exists>s. reachable log_start (log_step demo_tm) s \<and> log_done s = [(0, demo_msg 0, 7)] \<and> log_at s 1 = L_locked (demo_msg 1)"
proof -
  let ?R = "reachable log_start (log_step demo_tm)" and ?m = demo_msg
  obtain a where a: "stamp (demo_tm 7) = Ok a" using stamp_bytes [of "demo_tm 7"] by (simp add: tm_ok_def demo_tm_def)
  obtain b where b: "sprintf (fst (?m 0)) (snd (?m 0)) = Ok b" by (simp add: demo_msg_def sprintf_def is_digit_def)
  let ?s1 = "log_goto 0 (L_called (?m 0)) demo_log\<lparr>log_calls := [] @ [(0, ?m 0)]\<rparr>"
  let ?s2 = "log_goto 1 (L_called (?m 1)) ?s1\<lparr>log_calls := log_calls ?s1 @ [(1, ?m 1)]\<rparr>"
  let ?s3 = "log_goto 0 (L_locked (?m 0)) ?s2\<lparr>log_mtx := Some 0\<rparr>"
  let ?s4 = "log_goto 0 (L_timed (?m 0) (log_time ?s3)) ?s3"
  let ?s5 = "log_goto 0 (L_stamped (?m 0) (log_time ?s3)) ?s4\<lparr>log_buf := log_buf ?s4 @ a\<rparr>"
  let ?s6 = "?s5\<lparr>log_file := log_file ?s5 @ take 4 a, log_buf := drop 4 a\<rparr>"
  let ?s7 = "log_goto 0 (L_printed (?m 0) (log_time ?s3)) ?s6\<lparr>log_buf := log_buf ?s6 @ b\<rparr>"
  let ?s8 = "log_goto 0 (L_flushed (?m 0) (log_time ?s3)) ?s7\<lparr>log_file := log_file ?s7 @ log_buf ?s7, log_buf := []\<rparr>"
  let ?s9 = "log_goto 0 L_out ?s8\<lparr>log_mtx := None, log_done := log_done ?s8 @ [(0, ?m 0, log_time ?s3)]\<rparr>"
  let ?s10 = "log_goto 1 (L_locked (?m 1)) ?s9\<lparr>log_mtx := Some 1\<rparr>"
  have "?R demo_log" by (rule reachable_start) (simp add: log_start_def demo_log_def)
  then have "?R ?s1" by (rule reachable_step) (use log_call [of demo_log 0] in \<open>simp add: demo_log_def\<close>)
  then have "?R ?s2" by (rule reachable_step) (rule log_call, simp add: demo_log_def)
  then have "?R ?s3" by (rule reachable_step) (rule log_lock, simp_all add: demo_log_def)
  then have "?R ?s4" by (rule reachable_step) (rule log_now, simp)
  then have "?R ?s5" by (rule reachable_step) (rule log_stamp, simp_all add: demo_log_def a)
  then have "?R ?s6" by (rule reachable_step) (rule log_spill, simp add: demo_log_def)
  then have "?R ?s7" by (rule reachable_step) (rule log_text, simp_all add: b)
  then have "?R ?s8" by (rule reachable_step) (rule log_flush, simp)
  then have "?R ?s9" by (rule reachable_step) (rule log_unlock, simp)
  then have "?R ?s10" by (rule reachable_step) (rule log_lock, simp_all)
  then show ?thesis by (intro exI conjI) (assumption, simp_all add: demo_log_def)
qed

text \<open>Applied to that run: one line is in the file, and the second thread has the mutex.\<close>

theorem log_in_sequence_witness:
  "\<exists>(s :: log_sys) out. log_done s = [(0, demo_msg 0, 7)] \<and> log_at s 1 = L_locked (demo_msg 1) \<and> log_all demo_tm [(0, demo_msg 0, 7)] [] = Ok out \<and>
    (\<exists>rest. log_file s = out @ rest)"
proof -
  obtain s where s: "reachable log_start (log_step demo_tm) s" "log_done s = [(0, demo_msg 0, 7)]" "log_at s 1 = L_locked (demo_msg 1)"
    using demo_log_run by blast
  from log_in_sequence [OF s(1)] obtain out rest where "log_all demo_tm (log_done s) [] = Ok out" "log_file s = out @ rest" by blast
  with s show ?thesis by (intro exI [of _ s] exI [of _ out]) simp
qed


section \<open>What a worker logs for a request\<close>

text \<open>
  The lines of \<open>worker_thread\<close> in \<open>workers.c\<close> for one request, along \<open>serve_request\<close>; the handlers log more of
  their own in between. A worker logs nothing when it cannot write the result to the client.
\<close>

definition log_line :: "string \<Rightarrow> c_arg list \<Rightarrow> message" where
  "log_line fmt args = (fmt @ [CHR 0x0A], args)"

definition op_name :: "int \<Rightarrow> string" where
  "op_name op =
     (if op = op_value OPEN_FILE then ''OPEN_FILE''
      else if op = op_value CLOSE_FILE then ''CLOSE_FILE''
      else if op = op_value WRITE_FILE then ''WRITE_FILE''
      else if op = op_value APPEND_TO_FILE then ''APPEND_TO_FILE''
      else if op = op_value READ_FILE then ''READ_FILE''
      else if op = op_value READ_N_FILES then ''READ_N_FILES''
      else ''REMOVE_FILE'')"

definition outcome_line :: "int \<Rightarrow> int \<Rightarrow> string \<Rightarrow> int \<Rightarrow> message list" where
  "outcome_line n fd name res =
     (if res = SA_SUCCESS then []
      else if res = SA_CLOSE \<or> res = SA_ERROR
      then [log_line (''[THREAD %d] ['' @ name @ ''_FAIL] Fatal error in '' @ name @ '' request from client %ld.'') [A_int n, A_long fd]]
      else [log_line (''[THREAD %d] ['' @ name @ ''_FAIL] Non-fatal error in '' @ name @ '' request from client %ld: %s.'')
             [A_int n, A_long fd, A_str (bytes_of (thread_res_to_msg res))]])"

definition worker_log :: "int \<Rightarrow> int \<Rightarrow> conn \<Rightarrow> server \<Rightarrow> message list res" where
  "worker_log n fd c s =
     rbind (conn_readn 4 c) (\<lambda>(l, op_code, c).
     rbind (if l = -1 then Ok [log_line ''[THREAD %d] [FATALERROR] Fatal error in reading client request.'' []]
            else if l = 0 then Ok [log_line ''[THREAD %d] [CLOSE_CONN] Closing connection with client %ld.'' [A_int n, A_long fd]]
            else case handler (dec_int op_code) of
                   None \<Rightarrow> Ok []
                 | Some h \<Rightarrow>
                     rbind (h fd c s) (\<lambda>(res, c, s).
                       let name = op_name (dec_int op_code) in
                       Ok (log_line (''[THREAD %d] ['' @ name @ ''] Request from client %ld is '' @ name @ ''.'') [A_int n, A_long fd] #
                           (if fst (conn_writen (enc_int res) c) = -1 then [] else outcome_line n fd name res)))) (\<lambda>ls.
       Ok (log_line ''[THREAD %d] [NEW_REQ] Accepted request from client %ld.'' [A_int n, A_long fd] # ls)))"

text \<open>Formats in pieces.\<close>

lemma scan_text: "CHR ''%'' \<notin> set xs \<Longrightarrow> scan_format None (xs @ ys) = map (Lit \<circ> of_char) xs @ scan_format None ys"
  by (induction xs) auto

lemma print_text: "print_pieces (map (Lit \<circ> of_char) xs @ ps) args = rbind (print_pieces ps args) (\<lambda>bs. Ok (bytes_of xs @ bs))"
  by (cases "print_pieces ps args") (induction xs; simp add: bytes_of_def)+

lemma op_name_text: "CHR ''%'' \<notin> set (op_name op)"
  by (simp add: op_name_def)

definition renders :: "message \<Rightarrow> bool" where
  "renders m \<longleftrightarrow> (\<exists>out. sprintf (fst m) (snd m) = Ok out)"

lemma renders_outcome:
  assumes "CHR ''%'' \<notin> set name" "m \<in> set (outcome_line n fd name res)"
  shows "renders m"
  using assms
  by (auto simp: outcome_line_def renders_def log_line_def sprintf_def is_digit_def scan_text print_text split: if_splits)

text \<open>
  Every line that a worker logs is printed, but for the one that reports an error in reading the operation: its format
  asks for the number of the thread, which is not given.
\<close>

lemma worker_log_renders:
  assumes "worker_log n fd c s = Ok ls" "conn_readn 4 c = Ok (l, bs, c')"
  shows "(\<forall>m \<in> set ls. renders m) \<longleftrightarrow> l \<noteq> -1"
proof -
  have fixed: "renders (log_line ''[THREAD %d] [NEW_REQ] Accepted request from client %ld.'' [A_int n, A_long fd])"
    "renders (log_line ''[THREAD %d] [CLOSE_CONN] Closing connection with client %ld.'' [A_int n, A_long fd])"
    "\<not> renders (log_line ''[THREAD %d] [FATALERROR] Fatal error in reading client request.'' [])"
    by (simp_all add: renders_def log_line_def sprintf_def is_digit_def)
  have named: "renders (log_line (''[THREAD %d] ['' @ op_name op @ ''] Request from client %ld is '' @ op_name op @ ''.'') [A_int n, A_long fd])" for op
    by (simp add: renders_def log_line_def sprintf_def is_digit_def scan_text print_text op_name_text)
  show ?thesis
    using assms fixed named renders_outcome [OF op_name_text]
    by (auto simp: worker_log_def rbind_eq_Ok Let_def split: if_splits option.splits)
qed

end
