(* ===== verification/Server_Main.thy ===== *)
theory Server_Main
  imports Node_List Select_Loop Server_Config Log
begin

text \<open>
  \<open>main\<close> in \<open>server.c\<close> around its loop: reading the configuration and setting up pipes, threads, tables and
  the listening socket (with \<open>install_sig_handler\<close> and \<open>install_workers\<close>), and after the loop joining the
  threads, closing what is open, listing the files and freeing the memory.
\<close>

section \<open>Setting up\<close>

text \<open>
  The answers of the system to \<open>pipe\<close>, \<open>socket\<close> and the calls that only succeed or fail, in order, and the
  descriptors handed out so far. \<open>None\<close> is a \<open>return -1\<close>.
\<close>

datatype sys_answer = Fails | Done | Fd int | Pipe int int

record boot =
  sys :: "sys_answer list"
  opened :: "int list"
  bmem :: mem

definition obind :: "'a option res \<Rightarrow> ('a \<Rightarrow> 'b option res) \<Rightarrow> 'b option res" where
  "obind m f = rbind m (\<lambda>x. case x of None \<Rightarrow> Ok None | Some y \<Rightarrow> f y)"

definition sys_pipe :: "boot \<Rightarrow> ((int \<times> int) \<times> boot) option" where
  "sys_pipe b =
     (case sys b of Pipe r w # as \<Rightarrow> Some ((r, w), b\<lparr>sys := as, opened := opened b @ [r, w]\<rparr>) | _ \<Rightarrow> None)"

definition sys_socket :: "boot \<Rightarrow> (int \<times> boot) option" where
  "sys_socket b = (case sys b of Fd fd # as \<Rightarrow> Some (fd, b\<lparr>sys := as, opened := opened b @ [fd]\<rparr>) | _ \<Rightarrow> None)"

definition sys_call :: "boot \<Rightarrow> boot option" where
  "sys_call b = (case sys b of Done # as \<Rightarrow> Some (b\<lparr>sys := as\<rparr>) | _ \<Rightarrow> None)"

definition boot_alloc :: "u64 \<Rightarrow> boot \<Rightarrow> boot res" where
  "boot_alloc n b = rbind (safe_malloc n (bmem b)) (\<lambda>m. Ok (b\<lparr>bmem := m\<rparr>))"

text \<open>\<open>pthread_sigmask\<close>, \<open>sigaction\<close>, \<open>pthread_create\<close>.\<close>

definition install_sig_handler :: "boot \<Rightarrow> boot option" where
  "install_sig_handler b =
     (case sys_call b of None \<Rightarrow> None
      | Some b \<Rightarrow> (case sys_call b of None \<Rightarrow> None | Some b \<Rightarrow> sys_call b))"

fun install_workers :: "nat \<Rightarrow> boot \<Rightarrow> boot option res" where
  "install_workers 0 b = Ok (Some b)"
| "install_workers (Suc n) b =
     rbind (boot_alloc 16 b) (\<lambda>b. case sys_call b of None \<Rightarrow> Ok None | Some b \<Rightarrow> install_workers n b)"

text \<open>The pipes of the workers, with the greatest read end.\<close>

fun make_pipes :: "nat \<Rightarrow> int \<Rightarrow> boot \<Rightarrow> (int list \<times> int \<times> boot) option res" where
  "make_pipes 0 k b = Ok (Some ([], k, b))"
| "make_pipes (Suc n) k b =
     rbind (boot_alloc 16 b) (\<lambda>b.
       case sys_pipe b of None \<Rightarrow> Ok None
       | Some ((r, w), b) \<Rightarrow>
           obind (make_pipes n (if r > k then r else k) b) (\<lambda>(rs, k, b). Ok (Some (r # rs, k, b))))"

text \<open>\<open>sun_path\<close> has 108 bytes and \<open>strncpy\<close> is called with the length of its source.\<close>

definition SUN_PATH :: nat where "SUN_PATH = 108"

definition listen_socket :: "server_config_t \<Rightarrow> boot \<Rightarrow> (int \<times> boot) option res" where
  "listen_socket cfg b =
     (case sys_socket b of None \<Rightarrow> Ok None
      | Some (fd, b) \<Rightarrow>
          if SUN_PATH < length (cfg_socket_path cfg) + 1 then UB
          else (case sys_call b of None \<Rightarrow> Ok None
                | Some b \<Rightarrow> (case sys_call b of None \<Rightarrow> Ok None | Some b \<Rightarrow> Ok (Some (fd, b)))))"

text \<open>From the signal pipe to the sets of descriptors; the result is what the loop starts from.\<close>

definition main_setup :: "server_config_t \<Rightarrow> timespec list \<Rightarrow> boot \<Rightarrow> (control \<times> int \<times> loop \<times> boot) option res" where
  "main_setup cfg ts b =
     (case malloc (bmem b) of
        (False, m) \<Rightarrow> Ok None
      | (True, m) \<Rightarrow>
     (case sys_pipe (b\<lparr>bmem := m\<rparr>) of
        None \<Rightarrow> Ok None
      | Some ((sig_r, sig_w), b) \<Rightarrow>
     (case install_sig_handler b of
        None \<Rightarrow> Ok None
      | Some b \<Rightarrow>
     (case hashtbl_init HASH_N_LIST default_hashtbl_hash (bmem b) of
        (Inl _, _, _) \<Rightarrow> Ok None
      | (Inr _, tbl, m) \<Rightarrow>
     (case server_init cfg ts m of
        None \<Rightarrow> Ok None
      | Some st \<Rightarrow>
     (case empty_list (smem st) of
        (Inl _, m) \<Rightarrow> Ok None
      | (Inr q, m) \<Rightarrow>
          rbind (boot_alloc (ucast (cfg_n_workers cfg) * 8) (b\<lparr>bmem := m\<rparr>)) (\<lambda>b.
          rbind (boot_alloc (ucast (cfg_n_workers cfg) * 8) b) (\<lambda>b.
          obind (make_pipes (unat (cfg_n_workers cfg)) sig_r b) (\<lambda>(rs, k, b).
          obind (install_workers (unat (cfg_n_workers cfg)) b) (\<lambda>b.
          obind (listen_socket cfg b) (\<lambda>(lfd, b).
            Ok (Some (\<lparr>listen_fd = lfd, sig_fd = sig_r, pipe_fds = rs\<rparr>, (if lfd > k then lfd else k),
              loop_init lfd (unat (cfg_n_workers cfg)) tbl (st\<lparr>smem := bmem b\<rparr>), b)))))))))))))"

text \<open>
  The start of \<open>main\<close>: \<open>None\<close> also when the configuration is refused or the log cannot be opened; \<open>t\<close> is the local time
  and \<open>can_open\<close> says which files can be made.
\<close>

definition server_start ::
  "byte list option \<Rightarrow> byte list \<Rightarrow> server_config_t \<Rightarrow> tm \<Rightarrow> (path \<Rightarrow> bool) \<Rightarrow> timespec list \<Rightarrow> boot \<Rightarrow>
   (control \<times> int \<times> loop \<times> boot) option res" where
  "server_start file garbage cfg0 t can_open ts b =
     rbind (get_server_config file garbage cfg0) (\<lambda>(r, cfg).
       if r = -1 then Ok None
       else rbind (init_log_file cfg t can_open (bmem b)) (\<lambda>(p, m).
              case p of None \<Rightarrow> Ok None | Some _ \<Rightarrow> main_setup cfg ts (b\<lparr>bmem := m\<rparr>)))"

section \<open>Closing down\<close>

text \<open>
  The threads are joined: the signal handler and the workers must have returned, otherwise \<open>pthread_join\<close> waits.
  Each of them has closed the write end of its pipe and marked it, so that only the read ends are left.
\<close>

definition yield_all_threads :: "loop \<Rightarrow> unit res" where
  "yield_all_threads s = (if sig_waiting s \<or> (\<exists>w \<in> set (workers s). w \<noteq> W_exit) then Stuck else Ok ())"

definition close_all_pipes :: "control \<Rightarrow> int list" where
  "close_all_pipes c = sig_fd c # pipe_fds c"

fun file_names :: "(path \<times> nat) list \<Rightarrow> server \<Rightarrow> path list res" where
  "file_names [] st = Ok []"
| "file_names (e # es) st = rbind (deref (snd e) st) (\<lambda>f. rbind (file_names es st) (\<lambda>ns. Ok (path_name f # ns)))"

text \<open>The descriptors closed, the names printed, and the store after the files are freed.\<close>

definition server_stop :: "control \<Rightarrow> loop \<Rightarrow> (int list \<times> path list \<times> server) res" where
  "server_stop c s =
     rbind (yield_all_threads s) (\<lambda>_.
     rbind (iter_all (conn_table s)) (\<lambda>(fds, _).
     rbind (iter_all (files (store s))) (\<lambda>(es, _).
     rbind (file_names es (store s)) (\<lambda>names.
     rbind (delete_files (map snd (fst (hashmap_free (files (store s))))) (store s)) (\<lambda>st.
       Ok (listen_fd c # close_all_pipes c @ fds, names, st\<lparr>files := None\<rparr>))))))"

section \<open>The set-up reaches the loop\<close>

lemma obind_Some: "obind m f = Ok (Some y) \<longleftrightarrow> (\<exists>x. m = Ok (Some x) \<and> f x = Ok (Some y))"
  by (auto simp: obind_def rbind_eq_Ok split: option.splits)

lemma sys_pipe_Some: "sys_pipe b = Some ((r, w), b') \<Longrightarrow> opened b' = opened b @ [r, w] \<and> bmem b' = bmem b"
  by (auto simp: sys_pipe_def split: list.splits sys_answer.splits)

lemma sys_socket_Some: "sys_socket b = Some (fd, b') \<Longrightarrow> opened b' = opened b @ [fd] \<and> bmem b' = bmem b"
  by (auto simp: sys_socket_def split: list.splits sys_answer.splits)

lemma sys_call_Some: "sys_call b = Some b' \<Longrightarrow> opened b' = opened b \<and> bmem b' = bmem b"
  by (auto simp: sys_call_def split: list.splits sys_answer.splits)

lemma boot_alloc_Ok: "boot_alloc n b = Ok b' \<Longrightarrow> opened b' = opened b \<and> (bmem b = Ample \<longrightarrow> bmem b' = Ample)"
  by (auto simp: boot_alloc_def rbind_eq_Ok safe_malloc_def malloc_bytes_def split: prod.splits bool.splits if_splits)

lemma install_sig_handler_Some: "install_sig_handler b = Some b' \<Longrightarrow> opened b' = opened b \<and> bmem b' = bmem b"
  by (auto simp: install_sig_handler_def dest!: sys_call_Some split: option.splits)

lemma install_workers_Some:
  "install_workers n b = Ok (Some b') \<Longrightarrow> opened b' = opened b \<and> (bmem b = Ample \<longrightarrow> bmem b' = Ample)"
proof (induction n arbitrary: b)
  case (Suc n)
  then obtain b1 b2 where "boot_alloc 16 b = Ok b1" "sys_call b1 = Some b2" "install_workers n b2 = Ok (Some b')"
    by (auto simp: rbind_eq_Ok split: option.splits)
  then show ?case using Suc.IH boot_alloc_Ok sys_call_Some by metis
qed simp

text \<open>The read ends are among the descriptors handed out.\<close>

lemma make_pipes_Some:
  assumes "make_pipes n k b = Ok (Some (rs, k', b'))"
  shows "length rs = n \<and> k' = fold (\<lambda>p m. if p > m then p else m) rs k \<and> (bmem b = Ample \<longrightarrow> bmem b' = Ample) \<and>
    (\<exists>ws. length ws = n \<and> opened b' = opened b @ concat (map2 (\<lambda>r w. [r, w]) rs ws))"
  using assms
proof (induction n arbitrary: k b rs)
  case (Suc n)
  then obtain b1 r w b2 rs' where s: "boot_alloc 16 b = Ok b1" "sys_pipe b1 = Some ((r, w), b2)"
    "make_pipes n (if r > k then r else k) b2 = Ok (Some (rs', k', b'))" "rs = r # rs'"
    by (auto simp: rbind_eq_Ok obind_Some split: option.splits prod.splits)
  from Suc.IH [OF s(3)] obtain ws where i: "length rs' = n" "k' = fold (\<lambda>p m. if p > m then p else m) rs' (if r > k then r else k)"
    "bmem b2 = Ample \<longrightarrow> bmem b' = Ample" "length ws = n" "opened b' = opened b2 @ concat (map2 (\<lambda>r w. [r, w]) rs' ws)" by blast
  have "opened b' = opened b @ concat (map2 (\<lambda>r w. [r, w]) rs (w # ws))"
    using i(5) sys_pipe_Some [OF s(2)] boot_alloc_Ok [OF s(1)] s(4) by simp
  then show ?case using i s(4) sys_pipe_Some [OF s(2)] boot_alloc_Ok [OF s(1)]
    by (intro conjI exI [of _ "w # ws"]) simp_all
qed simp

lemma interleaved:
  assumes "length rs = length ws" "distinct (concat (map2 (\<lambda>r w. [r, w]) rs ws))"
  shows "distinct rs" "set rs \<subseteq> set (concat (map2 (\<lambda>r w. [r, w]) rs ws))"
  using assms by (induction rs ws rule: list_induct2) auto

lemma listen_socket_Some:
  assumes "listen_socket cfg b = Ok (Some (fd, b'))"
  shows "opened b' = opened b @ [fd] \<and> bmem b' = bmem b \<and> length (cfg_socket_path cfg) < SUN_PATH"
proof -
  from assms obtain b1 b2 where "sys_socket b = Some (fd, b1)" "sys_call b1 = Some b2" "sys_call b2 = Some b'"
    "\<not> SUN_PATH < length (cfg_socket_path cfg) + 1"
    by (auto simp: listen_socket_def split: option.splits if_splits)
  then show ?thesis using sys_socket_Some sys_call_Some by fastforce
qed

text \<open>Descriptors that the system hands out: each is new, and below \<open>FD_SETSIZE\<close>.\<close>

definition fresh_fds :: "boot \<Rightarrow> bool" where
  "fresh_fds b \<longleftrightarrow> distinct (opened b) \<and> (\<forall>fd \<in> set (opened b). client_fd fd)"

text \<open>The part of the set-up after the memory of the tables.\<close>

definition setup_rest :: "server_config_t \<Rightarrow> int \<Rightarrow> hashtbl option \<Rightarrow> server \<Rightarrow> boot \<Rightarrow> (control \<times> int \<times> loop \<times> boot) option res" where
  "setup_rest cfg sr tbl st b =
     rbind (boot_alloc (ucast (cfg_n_workers cfg) * 8) b) (\<lambda>b.
     rbind (boot_alloc (ucast (cfg_n_workers cfg) * 8) b) (\<lambda>b.
     obind (make_pipes (unat (cfg_n_workers cfg)) sr b) (\<lambda>(rs, k, b).
     obind (install_workers (unat (cfg_n_workers cfg)) b) (\<lambda>b.
     obind (listen_socket cfg b) (\<lambda>(lfd, b).
       Ok (Some (\<lparr>listen_fd = lfd, sig_fd = sr, pipe_fds = rs\<rparr>, (if lfd > k then lfd else k),
         loop_init lfd (unat (cfg_n_workers cfg)) tbl (st\<lparr>smem := bmem b\<rparr>), b)))))))"

lemma main_setup_tables:
  "\<exists>tbl st. hashtbl_init HASH_N_LIST default_hashtbl_hash Ample = (Inr (), tbl, Ample) \<and>
     server_init cfg ts Ample = Some st \<and> smem st = Ample \<and>
     (\<forall>b sr sw b1 b2. bmem b = Ample \<longrightarrow> sys_pipe (b\<lparr>bmem := Ample\<rparr>) = Some ((sr, sw), b1) \<longrightarrow>
        install_sig_handler b1 = Some b2 \<longrightarrow> bmem b2 = Ample \<and> main_setup cfg ts b = setup_rest cfg sr tbl st b2)"
proof -
  obtain m where m: "hashmap_init HASH_N_LIST default_hashmap_hash Ample = (Inr (), Some (m :: nat hashmap), Ample)"
    using hashmap_init_Ample [of HASH_N_LIST] by (auto simp: HASH_N_LIST_def)
  obtain tbl where tbl: "hashtbl_init HASH_N_LIST default_hashtbl_hash Ample = (Inr (), Some tbl, Ample)" using init_table by blast
  obtain st where st: "server_init cfg ts Ample = Some st" "smem st = Ample" using m by (auto simp: server_init_def)
  have "bmem b2 = Ample \<and> main_setup cfg ts b = setup_rest cfg sr (Some tbl) st b2"
    if b: "bmem b = Ample" "sys_pipe (b\<lparr>bmem := Ample\<rparr>) = Some ((sr, sw), b1)" "install_sig_handler b1 = Some b2" for b sr sw b1 b2
  proof -
    have mem: "bmem b2 = Ample" using sys_pipe_Some [OF b(2)] install_sig_handler_Some [OF b(3)] by simp
    then have e: "b2\<lparr>bmem := Ample\<rparr> = b2" by simp
    have "main_setup cfg ts b = setup_rest cfg sr (Some tbl) st (b2\<lparr>bmem := Ample\<rparr>)"
      using b mem tbl st by (simp add: main_setup_def empty_list_def setup_rest_def)
    with mem show ?thesis unfolding e by blast
  qed
  with tbl st show ?thesis by blast
qed

lemma main_setup_parts:
  assumes "main_setup cfg ts b = Ok (Some out)" "bmem b = Ample"
  obtains tbl st sr sw b1 b2 where "hashtbl_init HASH_N_LIST default_hashtbl_hash Ample = (Inr (), tbl, Ample)"
    "server_init cfg ts Ample = Some st" "smem st = Ample" "sys_pipe (b\<lparr>bmem := Ample\<rparr>) = Some ((sr, sw), b1)"
    "install_sig_handler b1 = Some b2" "bmem b2 = Ample" "setup_rest cfg sr tbl st b2 = Ok (Some out)"
proof -
  from assms obtain sr sw b1 where p: "sys_pipe (b\<lparr>bmem := Ample\<rparr>) = Some ((sr, sw), b1)"
    by (auto simp: main_setup_def split: option.splits)
  with assms obtain b2 where "install_sig_handler b1 = Some b2"
    by (auto simp: main_setup_def split: option.splits)
  with that p assms main_setup_tables [of cfg ts] show thesis by metis
qed

lemma main_setup_Some:
  assumes "main_setup cfg ts b = Ok (Some (c, k, s, b'))" "bmem b = Ample" "opened b = []" "fresh_fds b'"
  shows "control_ok c \<and> length (pipe_fds c) = unat (cfg_n_workers cfg) \<and> k = fd_max (main_init c) \<and>
    length (cfg_socket_path cfg) < SUN_PATH \<and> select_reach c cfg (main_init c) s"
proof -
  let ?n = "unat (cfg_n_workers cfg)"
  obtain tbl st sr sw b1 b2 where p: "hashtbl_init HASH_N_LIST default_hashtbl_hash Ample = (Inr (), tbl, Ample)"
    "server_init cfg ts Ample = Some st" "smem st = Ample" "sys_pipe (b\<lparr>bmem := Ample\<rparr>) = Some ((sr, sw), b1)"
    "install_sig_handler b1 = Some b2" "bmem b2 = Ample" "setup_rest cfg sr tbl st b2 = Ok (Some (c, k, s, b'))"
    using main_setup_parts [OF assms(1,2)] by blast
  obtain b3 b4 rs k1 b5 b6 lfd where q: "boot_alloc (ucast (cfg_n_workers cfg) * 8) b2 = Ok b3"
    "boot_alloc (ucast (cfg_n_workers cfg) * 8) b3 = Ok b4" "make_pipes ?n sr b4 = Ok (Some (rs, k1, b5))"
    "install_workers ?n b5 = Ok (Some b6)" "listen_socket cfg b6 = Ok (Some (lfd, b'))"
    "c = \<lparr>listen_fd = lfd, sig_fd = sr, pipe_fds = rs\<rparr>" "k = (if lfd > k1 then lfd else k1)"
    "s = loop_init lfd ?n tbl (st\<lparr>smem := bmem b'\<rparr>)"
    using p(7) by (auto simp: setup_rest_def rbind_eq_Ok obind_Some split: prod.splits)
  note alloc = boot_alloc_Ok [OF q(1)] boot_alloc_Ok [OF q(2)]
  obtain ws where r: "length rs = ?n" "k1 = fold (\<lambda>p m. if p > m then p else m) rs sr" "bmem b4 = Ample \<longrightarrow> bmem b5 = Ample"
    "length ws = ?n" "opened b5 = opened b4 @ concat (map2 (\<lambda>r w. [r, w]) rs ws)" using make_pipes_Some [OF q(3)] by blast
  note l = listen_socket_Some [OF q(5)] and w = install_workers_Some [OF q(4)]
  have "bmem b' = Ample" using l w r(3) alloc p(6) by simp
  then have st: "st\<lparr>smem := bmem b'\<rparr> = st" using p(3) by simp
  define ends where "ends = concat (map2 (\<lambda>r w. [r, w]) rs ws)"
  have o: "opened b' = [sr, sw] @ ends @ [lfd]"
    using l w r(5) alloc install_sig_handler_Some [OF p(5)] sys_pipe_Some [OF p(4)] assms(3) by (simp add: ends_def)
  have fds: "distinct ([sr, sw] @ ends @ [lfd])" "\<forall>fd \<in> set ([sr, sw] @ ends @ [lfd]). client_fd fd"
    using assms(4) unfolding fresh_fds_def o by blast+
  have "distinct rs" "set rs \<subseteq> set ends" using interleaved [of rs ws] fds(1) r(1,4) by (simp_all add: ends_def)
  then have "control_ok c" using fds by (auto simp: q(6) control_ok_def client_fd_def)
  moreover have "k = fd_max (main_init c)" by (simp add: q(6,7) r(2) main_init_def Let_def)
  moreover have "select_reach c cfg (main_init c) s"
    using select_start [OF p(2,1), of c] by (simp add: q(6,8) r(1) st)
  ultimately show ?thesis using l r(1) q(6) by simp
qed

section \<open>Closing down releases everything\<close>

lemma file_names_ok:
  assumes "\<And>k a. (k, a) \<in> set es \<Longrightarrow> \<exists>f. fheap st a = Some f \<and> path_name f = k"
  shows "file_names es st = Ok (map fst es)"
  using assms
proof (induction es)
  case (Cons e es)
  obtain f where "fheap st (snd e) = Some f" "path_name f = fst e" using Cons.prems [of "fst e" "snd e"] by auto
  moreover have "file_names es st = Ok (map fst es)" using Cons.prems by (intro Cons.IH) auto
  ultimately show ?case by (simp add: deref_def)
qed simp

lemma stop_ok:
  assumes lin: "loop_inv lfd s" and st: "store_ok (store s)"
    and gone: "\<not> sig_waiting s" "\<forall>w \<in> set (workers s). w = W_exit"
  shows "\<exists>t names st'. conn_table s = Some t \<and> server_stop c s = Ok (listen_fd c # close_all_pipes c @ entries t, names, st') \<and>
    distinct (entries t) \<and> distinct names \<and> set names = {k. stored (store s) k \<noteq> None} \<and>
    (\<forall>k a. addr_of (store s) k = Some a \<longrightarrow> fheap st' a = None)"
proof -
  obtain t where t: "conn_table s = Some t" "fd_table_ok t" using lin by (elim loop_invE)
  obtain m where m: "files (store s) = Some m" "file_map_ok m"
    "\<And>k a. (k, a) \<in> set (entries m) \<Longrightarrow> a < fnext (store s) \<and> (\<exists>f. fheap (store s) a = Some f \<and> file_ok k f)"
    using st by (elim store_okE) blast
  have it: "iter_all (Some t) = Ok (entries t, Some (Inr False))" "iter_all (Some m) = Ok (entries m, Some (Inr False))"
    using t(2) m(2) by (simp_all add: iter_all_entries fd_table_ok_def tbl_wf_def file_map_ok_def hm_wf_def tab_wf_def)
  have names: "file_names (entries m) (store s) = Ok (map fst (entries m))"
    using m(3) by (intro file_names_ok) (fastforce simp: file_ok_def)
  have lists: "fst (hashmap_free (Some m)) = entries m" by (simp add: hashmap_free_def entries_def)
  let ?st = "(store s)\<lparr>fheap := (\<lambda>b. if b \<in> set (map snd (entries m)) then None else fheap (store s) b)\<rparr>"
  have del: "delete_files (map snd (entries m)) (store s) = Ok ?st"
  proof (rule delete_files_ok)
    show "distinct (map snd (entries m))" using m(2) by (simp add: file_map_ok_def)
    show "fheap (store s) a \<noteq> None" if "a \<in> set (map snd (entries m))" for a using that m(3) by fastforce
  qed
  have "server_stop c s = Ok (listen_fd c # close_all_pipes c @ entries t, map fst (entries m), ?st\<lparr>files := None\<rparr>)"
    unfolding server_stop_def t(1) m(1) it names lists using gone
    by (simp add: yield_all_threads_def it names lists del)
  moreover have "distinct (entries t)" "distinct (map fst (entries m))"
    using t(2) m(2) by (simp_all add: fd_table_ok_def file_map_ok_def)
  moreover have at: "addr_of (store s) k = Some a \<longleftrightarrow> (k, a) \<in> set (entries m)" for k a using addr_of_entries [OF m(1,2)] .
  have "stored (store s) k \<noteq> None \<longleftrightarrow> k \<in> set (map fst (entries m))" for k
  proof
    assume "stored (store s) k \<noteq> None"
    then obtain a where "addr_of (store s) k = Some a" by (auto simp: stored_def split: option.splits)
    then show "k \<in> set (map fst (entries m))" using at by force
  next
    assume "k \<in> set (map fst (entries m))"
    then obtain a where "(k, a) \<in> set (entries m)" by auto
    then have "addr_of (store s) k = Some a" "\<exists>f. fheap (store s) a = Some f" using at m(3) by blast+
    then show "stored (store s) k \<noteq> None" by (auto simp: stored_def)
  qed
  then have "set (map fst (entries m)) = {k. stored (store s) k \<noteq> None}" by blast
  moreover have "fheap (?st\<lparr>files := None\<rparr>) a = None" if "addr_of (store s) k = Some a" for k a
    using that at by (auto simp: image_iff intro: bexI [of _ "(k, a)"])
  ultimately show ?thesis using t(1) by (intro exI [of _ t] exI [of _ "map fst (entries m)"] exI [of _ "?st\<lparr>files := None\<rparr>"]) blast
qed

section \<open>Properties\<close>

text \<open>C20: when \<open>main\<close> gets as far as its loop, and the system has handed out each descriptor once, the
  configuration was accepted, the log was opened, the socket path fits \<open>sun_path\<close> (a longer one overflows it), there is a pipe for each
  worker, all descriptors are different, \<open>fd_max\<close> is the greatest of them, and the loop starts
  from its initial state.\<close>

theorem start_enters_loop:
  assumes "server_start file garbage cfg0 t can_open ts b = Ok (Some (c, k, s, b'))" "bmem b = Ample" "opened b = []" "fresh_fds b'"
  shows "\<exists>cfg. get_server_config file garbage cfg0 = Ok (0, cfg) \<and>
    (\<exists>p. log_path (cfg_log_dir_path cfg) t = Ok p \<and> can_open p) \<and> length (cfg_socket_path cfg) < SUN_PATH \<and> control_ok c \<and>
    length (pipe_fds c) = unat (cfg_n_workers cfg) \<and> k = fd_max (main_init c) \<and> select_reach c cfg (main_init c) s"
proof -
  from assms(1) obtain r cfg p m where g: "get_server_config file garbage cfg0 = Ok (r, cfg)" "r \<noteq> -1"
    "main_setup cfg ts (b\<lparr>bmem := m\<rparr>) = Ok (Some (c, k, s, b'))" "init_log_file cfg t can_open (bmem b) = Ok (Some p, m)"
    by (auto simp: server_start_def rbind_eq_Ok split: if_splits option.splits)
  note l = init_log_file_opened [OF g(4)]
  from g(1,2) have "r = 0" by (auto simp: get_server_config_def rbind_eq_Ok split: option.splits if_splits)
  with g(1) main_setup_Some [OF g(3)] l assms(2-4) show ?thesis by simp
qed

definition demo_boot :: boot where
  "demo_boot = \<lparr>sys = [Pipe 4 5, Done, Done, Done, Pipe 6 7, Pipe 8 9, Pipe 10 11, Pipe 12 13, Done, Done, Done, Done, Fd 14, Done, Done],
     opened = [], bmem = Ample\<rparr>"

lemma start_enters_loop_witness:
  "\<exists>c k s b'. server_start (Some (concat (map (print_line printed_config) demo_lines))) [] printed_config (demo_tm 7) (\<lambda>_. True) [] demo_boot = Ok (Some (c, k, s, b')) \<and>
     pipe_fds c = [6, 8, 10, 12] \<and> control_ok c \<and> k = fd_max (main_init c)"
proof -
  let ?inp = "concat (map (print_line printed_config) demo_lines)" and ?cfg = "printed_config\<lparr>cfg_max_space := 128000000\<rparr>"
  obtain st0 where "config_loop 6 (reading_init ?inp [] printed_config) = Ok (0, st0)" "all_read st0"
    "conf st0 = printed_config\<lparr>cfg_max_space := cfg_max_space printed_config * 1000000\<rparr>"
    using printed_read [OF demo_printable] by blast
  then have g: "get_server_config (Some ?inp) [] printed_config = Ok (0, ?cfg)"
    by (simp add: get_server_config_def printed_config_def)
  obtain tbl st where t: "\<forall>b sr sw b1 b2. bmem b = Ample \<longrightarrow> sys_pipe (b\<lparr>bmem := Ample\<rparr>) = Some ((sr, sw), b1) \<longrightarrow>
        install_sig_handler b1 = Some b2 \<longrightarrow> bmem b2 = Ample \<and> main_setup ?cfg [] b = setup_rest ?cfg sr tbl st b2"
    using main_setup_tables by metis
  let ?b1 = "\<lparr>sys = drop 1 (sys demo_boot), opened = [4, 5], bmem = Ample\<rparr>"
  let ?b2 = "\<lparr>sys = drop 4 (sys demo_boot), opened = [4, 5], bmem = Ample\<rparr>"
  have "sys_pipe (demo_boot\<lparr>bmem := Ample\<rparr>) = Some ((4, 5), ?b1)" "install_sig_handler ?b1 = Some ?b2" "bmem demo_boot = Ample"
    by (simp_all add: demo_boot_def sys_pipe_def install_sig_handler_def sys_call_def)
  with t have "main_setup ?cfg [] demo_boot = setup_rest ?cfg 4 tbl st ?b2" by blast
  moreover have n: "unat (cfg_n_workers ?cfg) = Suc (Suc (Suc (Suc 0)))" "ucast (cfg_n_workers ?cfg) * 8 = (32 :: 64 word)"
    by (simp_all add: printed_config_def)
  have "\<exists>k s b'. setup_rest ?cfg 4 tbl st ?b2 = Ok (Some (\<lparr>listen_fd = 14, sig_fd = 4, pipe_fds = [6, 8, 10, 12]\<rparr>, k, s, b')) \<and>
      opened b' = [4, 5, 6, 7, 8, 9, 10, 11, 12, 13, 14]"
    unfolding setup_rest_def n
    by (simp add: demo_boot_def boot_alloc_def safe_malloc_def malloc_bytes_def sys_pipe_def sys_call_def obind_def
      listen_socket_def sys_socket_def SUN_PATH_def printed_config_def)
  ultimately obtain k s b' where
    m: "main_setup ?cfg [] demo_boot = Ok (Some (\<lparr>listen_fd = 14, sig_fd = 4, pipe_fds = [6, 8, 10, 12]\<rparr>, k, s, b'))"
    "opened b' = [4, 5, 6, 7, 8, 9, 10, 11, 12, 13, 14]" by auto
  have "length (cfg_log_dir_path ?cfg) < 2 ^ 31" "tm_ok (demo_tm 7)" by (simp_all add: printed_config_def tm_ok_def demo_tm_def)
  with init_log_file_opens [where t = "demo_tm 7" and cfg = ?cfg and can_open = "\<lambda>_. True"]
  obtain p where p: "init_log_file ?cfg (demo_tm 7) (\<lambda>_. True) Ample = Ok (Some p, Ample)" by blast
  have "server_start (Some ?inp) [] printed_config (demo_tm 7) (\<lambda>_. True) [] demo_boot = main_setup ?cfg [] demo_boot"
    by (simp add: server_start_def g demo_boot_def p)
  note s = this [unfolded m(1)]
  have "fresh_fds b'" by (simp add: fresh_fds_def m(2) client_fd_def)
  with start_enters_loop [OF s] s show ?thesis by (auto simp: demo_boot_def)
qed

text \<open>C21: when the loop is over and the other threads have returned, \<open>main\<close> closes the listening socket, its ends of
  the pipes and every connected client, once each, prints the paths of the stored files and frees
  each of them.\<close>

theorem server_stop_releases:
  assumes "loop_reach sp (listen_fd c) n cfg s" "client_fd (listen_fd c)" "store_ok (store s)"
    and "\<not> sig_waiting s" "\<forall>w \<in> set (workers s). w = W_exit"
  shows "\<exists>t names st. conn_table s = Some t \<and>
    server_stop c s = Ok (listen_fd c # sig_fd c # pipe_fds c @ entries t, names, st) \<and> distinct (entries t) \<and>
    (\<forall>fd. fd \<in># open_fds s \<longrightarrow> fd = listen_fd c \<or> fd \<in> set (entries t)) \<and>
    distinct names \<and> set names = {k. stored (store s) k \<noteq> None} \<and>
    (\<forall>k a. addr_of (store s) k = Some a \<longrightarrow> fheap st a = None)"
proof -
  have inv: "loop_inv (listen_fd c) s" using loop_reach_inv [OF assms(1,2)] .
  from stop_ok [OF inv assms(3-5), of c] obtain t names st where
    "conn_table s = Some t" "server_stop c s = Ok (listen_fd c # close_all_pipes c @ entries t, names, st)" "distinct (entries t)"
    "distinct names" "set names = {k. stored (store s) k \<noteq> None}" "\<forall>k a. addr_of (store s) k = Some a \<longrightarrow> fheap st a = None" by blast
  moreover from this(1) inv have "\<forall>fd. fd \<in># open_fds s \<longrightarrow> fd = listen_fd c \<or> fd \<in> set (entries t)"
    by (elim loop_invE) (auto split: if_splits)
  ultimately show ?thesis by (auto simp: close_all_pipes_def)
qed

text \<open>A server with one worker that is told to close at once.\<close>

lemma server_stop_releases_witness:
  "\<exists>s st. loop_reach True 14 1 demo_config s \<and> server_stop \<lparr>listen_fd = 14, sig_fd = 4, pipe_fds = [6]\<rparr> s = Ok ([14, 4, 6], [], st)"
proof -
  let ?c = "\<lparr>listen_fd = 14, sig_fd = 4, pipe_fds = [6]\<rparr>"
  obtain t st where r: "loop_reach True 14 1 demo_config (loop_init 14 1 (Some t) st)" "server_init demo_config [] Ample = Some st"
    "entries t = []" using loop_starts by blast
  let ?s = "loop_init 14 1 (Some t) st"
  let ?s1 = "?s\<lparr>mode := CLOSE_SERVER, sig_waiting := False\<rparr>"
  let ?s2 = "w_goto 0 W_exit ?s1"
  have "sig_step ?s ?s1" using sig_caught [of ?s SIGINT] by (simp add: loop_init_def sig_mode_def)
  with r(1) have "loop_reach True 14 1 demo_config ?s1" by (blast intro: loop_more ls_sig)
  moreover have "worker_step 0 ?s1 ?s2" using worker_step.w_top [of ?s1 0] by (simp add: w_at_def loop_init_def)
  ultimately have r2: "loop_reach True (listen_fd ?c) 1 demo_config ?s2" by (simp add: reach_worker)
  have "config_ok demo_config" by (simp add: config_ok_def demo_config_def)
  note i = server_init_inv [OF r(2) this]
  have f: "store ?s2 = st" "sig_waiting ?s2 = False" "workers ?s2 = [W_exit]" "conn_table ?s2 = Some t"
    by (simp_all add: w_goto_def loop_init_def)
  have "store_ok (store ?s2)" using i(1) f(1) by (simp add: server_inv_def)
  from server_stop_releases [OF r2 _ this] f obtain names st' where
    "server_stop ?c ?s2 = Ok ([14, 4, 6], names, st')" "set names = {k. stored st k \<noteq> None}"
    using r(3) by (auto simp: client_fd_def)
  moreover have "stored st k = None" for k
  proof -
    have "abs_store st k = None" by (simp only: i(3))
    then show ?thesis by (cases "stored st k") (simp_all add: abs_store_at)
  qed
  ultimately show ?thesis using r2 by auto
qed

end
