(* ===== verification/Statistics.thy ===== *)
theory Statistics
  imports Whole_Server
begin

text \<open>
  The statistics of the server: \<open>curr_state.max_files\<close>, \<open>max_space\<close> and \<open>max_conn\<close> are the highest numbers of files, of
  bytes and of clients over the whole run, whatever the interleaving.
\<close>

section \<open>One request\<close>

text \<open>The highest number stays, or it is the number after the request and was exceeded by it.\<close>

definition raised :: "'a::linorder \<Rightarrow> 'a \<Rightarrow> 'a \<Rightarrow> bool" where
  "raised hi hi' now \<longleftrightarrow> hi' = hi \<or> (hi < hi' \<and> hi' = now)"

definition risen :: "server_state_t \<Rightarrow> server_state_t \<Rightarrow> bool" where
  "risen st st' \<longleftrightarrow> raised (st_max_files st) (st_max_files st') (st_files st') \<and>
     raised (st_max_space st) (st_max_space st') (st_space st')"

lemmas risen_defs = risen_def raised_def highs_def count_file_def Let_def

lemma risen_refl [simp]: "risen st st"
  by (simp add: risen_def raised_def)

lemma risen_highs: "highs s' = highs s \<Longrightarrow> risen (curr_state s) (curr_state s')"
  by (simp add: risen_defs)

lemma post_create: "post (open_create fd p fl s) (\<lambda>(r, s'). risen (curr_state s) (curr_state s'))"
  unfolding open_create_def
  by (auto intro!: counters.kept_rules highs.wp_expell_single simp: risen_defs split: prod.splits)

lemma post_charge: "post (charge_space a n xs s) (\<lambda>(es, s'). risen (curr_state s) (curr_state s'))"
  unfolding charge_space_def
  by (auto intro!: counters.kept_rules highs.wp_expell_multiple simp: risen_defs split: option.splits prod.splits)

lemma charged:
  "(\<And>es s'. risen (curr_state s) (curr_state s') \<Longrightarrow> Q (es, s')) \<Longrightarrow> post (charge_space a n xs s) Q"
  by (rule post_mono [OF post_charge]) auto

lemma post_writes:
  "post (write_core fd p sz b s) (\<lambda>(r, es, s'). risen (curr_state s) (curr_state s'))"
  "post (append_core fd p sz b s) (\<lambda>(r, es, s'). risen (curr_state s) (curr_state s'))"
  unfolding write_core_def append_core_def
  by (auto intro!: counters.kept_rules charged split: prod.splits option.splits bool.splits)

lemma post_remove: "post (remove_core fd p s) (\<lambda>(r, s'). risen (curr_state s) (curr_state s'))"
  by (auto intro!: highs.wp_remove_kept simp: risen_highs)

text \<open>Every first part of a request, every step of a reply, and a client that leaves.\<close>

lemma risen_core:
  assumes "request_core r fd s = Ok (k, s')"
  shows "risen (curr_state s) (curr_state s')"
proof -
  have "post (request_core r fd s) (\<lambda>(k, s'). risen (curr_state s) (curr_state s'))"
  proof (cases r)
    case (Req_open p fl)
    have p: "post (if is_flag_set fl O_CREATE then open_create fd p fl s else open_existing fd p fl s)
        (\<lambda>(r, s'). risen (curr_state s) (curr_state s'))"
      using post_create by (auto intro!: counters.kept_rules)
    show ?thesis unfolding Req_open request_core.simps by (intro post_bind, rule post_mono [OF p]) auto
  next
    case (Req_write p bs)
    show ?thesis unfolding Req_write request_core.simps by (intro post_bind, rule post_mono [OF post_writes(1)]) auto
  next
    case (Req_append p bs)
    show ?thesis unfolding Req_append request_core.simps by (intro post_bind, rule post_mono [OF post_writes(2)]) auto
  next
    case (Req_remove p)
    show ?thesis unfolding Req_remove request_core.simps by (intro post_bind, rule post_mono [OF post_remove]) auto
  qed (auto intro!: counters.kept_rules)
  from postD [OF this assms] show ?thesis by simp
qed

lemma reply_counters:
  assumes "task_step t s = Ok (t', s')"
  shows "curr_state s' = curr_state s"
proof -
  have g: "curr_state q' = curr_state q" if "give_back x q = Ok q'" for x q q'
  proof -
    have "post (give_back x q) (\<lambda>q'. curr_state q' = curr_state q)" by (cases x) (auto intro!: counters.kept_rules)
    from postD [OF this that] show ?thesis .
  qed
  show ?thesis using assms
    by (induction t s rule: task_step.induct) (auto simp: rbind_eq_Ok dest: g split: prod.splits if_splits)
qed

lemma leave_counters:
  assumes "close_client fd s = Ok s'"
  shows "highs s' = highs s" "st_files (curr_state s') = st_files (curr_state s)" "st_space (curr_state s') = st_space (curr_state s)"
proof -
  have "post (close_client fd s) (\<lambda>s'. highs s' = highs s \<and> st_files (curr_state s') = st_files (curr_state s) \<and>
      st_space (curr_state s') = st_space (curr_state s))"
    unfolding close_client_def
    by (auto intro!: post_bind post_read post_mono [OF counters.post_close_client_files] simp: highs_def)
  from postD [OF this assms] show "highs s' = highs s" "st_files (curr_state s') = st_files (curr_state s)"
    "st_space (curr_state s') = st_space (curr_state s)" by simp_all
qed

section \<open>Steps of the server\<close>

text \<open>The files in the map, their bytes, and the clients in the table of connections.\<close>

definition stored_files :: "loop \<Rightarrow> nat" where
  "stored_files s = (case files (store s) of None \<Rightarrow> 0 | Some m \<Rightarrow> length (entries m))"

definition stored_bytes :: "loop \<Rightarrow> nat" where
  "stored_bytes s = (case files (store s) of None \<Rightarrow> 0 | Some m \<Rightarrow> space_of (fheap (store s)) (entries m))"

definition clients :: "loop \<Rightarrow> nat" where
  "clients s = (case conn_table s of None \<Rightarrow> 0 | Some t \<Rightarrow> card (set (entries t)))"

abbreviation counts :: "loop \<Rightarrow> server_state_t" where
  "counts s \<equiv> curr_state (store s)"

lemma settled_size: "a \<notin> D \<Longrightarrow> size_at (settle_heap D h) a = size_at h a"
  by (simp add: size_at_def settle_heap_def split: option.split)

text \<open>The counters are what is stored.\<close>

lemma counters_true:
  assumes inv: "server_inv (settle D (store s))"
  shows "unat (st_files (counts s)) = stored_files s" "unat (st_space (counts s)) = stored_bytes s"
    "unat (st_files (counts s)) \<le> unat (st_max_files (counts s))" "unat (st_space (counts s)) \<le> unat (st_max_space (counts s))"
proof -
  obtain m where m: "files (store s) = Some m"
    "\<And>k a. (k, a) \<in> set (entries m) \<Longrightarrow> \<exists>f. fheap (settle D (store s)) a = Some f"
    "unat (st_files (counts s)) = length (entries m)" "unat (st_space (counts s)) = space_of (settle_heap D (fheap (store s))) (entries m)"
    using server_inv_store [OF inv] by (elim store_okE) (simp, blast)
  have "a \<notin> D" if "(k, a) \<in> set (entries m)" for k a using m(2) [OF that] by (auto simp: settle_heap_def split: if_splits)
  then have "space_of (settle_heap D (fheap (store s))) (entries m) = space_of (fheap (store s)) (entries m)"
    unfolding space_of_def by (intro arg_cong [where f = sum_list] map_cong) (auto simp: settled_size)
  with m show "unat (st_files (counts s)) = stored_files s" "unat (st_space (counts s)) = stored_bytes s"
    by (simp_all add: stored_files_def stored_bytes_def)
  show "unat (st_files (counts s)) \<le> unat (st_max_files (counts s))" "unat (st_space (counts s)) \<le> unat (st_max_space (counts s))"
    using inv by (simp_all add: server_inv_def watermarks_ok_def)
qed

lemma raised_max: "raised hi hi' now \<Longrightarrow> unat now \<le> unat hi' \<Longrightarrow> unat hi' = max (unat hi) (unat now)"
  for hi :: "'n::len word"
  by (auto simp: raised_def word_less_nat_alt max_def)

lemma main_risen:
  assumes inv: "loop_inv lfd s" and lfd: "client_fd lfd" and step: "main_step lfd s s'"
  shows "risen (counts s) (counts s')"
  using main_step_store [OF assms]
proof cases
  case (2 n)
  then show ?thesis by (simp add: put_conn_def risen_defs)
next
  case (3 fd)
  then show ?thesis using risen_highs leave_counters(1) by blast
qed simp

text \<open>The connections: an \<open>accept\<close> counts one more, and nobody else raises the highest number.\<close>

lemma clients_bound: "fd_table_ok t \<Longrightarrow> (\<And>fd. fd \<in> set (entries t) \<Longrightarrow> client_fd fd) \<Longrightarrow> card (set (entries t)) \<le> 1024"
proof -
  assume "\<And>fd. fd \<in> set (entries t) \<Longrightarrow> client_fd fd"
  then have "set (entries t) \<subseteq> {0..<1024}" by (auto simp: client_fd_def)
  from card_mono [OF _ this] show ?thesis by simp
qed

definition conn_raised :: "loop \<Rightarrow> loop \<Rightarrow> bool" where
  "conn_raised s s' \<longleftrightarrow>
     (clients s \<le> unat (st_max_conn (counts s)) \<longrightarrow>
      unat (st_max_conn (counts s')) = max (unat (st_max_conn (counts s))) (clients s'))"

lemma conn_raised_same: "st_max_conn (counts s') = st_max_conn (counts s) \<Longrightarrow> clients s' \<le> clients s \<Longrightarrow> conn_raised s s'"
  by (simp add: conn_raised_def)

lemma accept_raised:
  assumes inv: "loop_inv lfd s" and lfd: "lfd \<in> fdset s" and fd: "client_fd fd" "fd \<notin># open_fds s"
    and run: "accept_client fd s = Ok s'"
  shows "conn_raised s s'"
proof -
  obtain t b where i: "finite (fdset s)" "conn_table s = Some t" "fd_table_ok t" "\<And>fd. fd \<in> set (entries t) \<Longrightarrow> client_fd fd"
    "lfd \<notin> set (entries t)" "open_fds s = mset_set (set (entries t) \<union> (if b then {lfd} else {}))"
    "st_conn (counts s) = word_of_nat (card (set (entries t))) - (if b then 0 else 1)"
    using inv by (elim loop_invE) blast
  have "lfd \<in># open_fds s" using fds_tokens [OF i(1) lfd] .
  then have b: "b" using i(5,6) by (auto split: if_splits)
  have new: "fd \<notin> set (entries t)" using fd(2) inv_member [OF inv i(2)] by blast
  from fd_insert [OF i(3) fd(1) new] obtain t' where t': "hashtbl_insert (Some t) fd Ample = Ok (Inr (), Some t', Ample)"
    "fd_table_ok t'" "set (entries t') = insert fd (set (entries t))" by blast
  then have s': "conn_table s' = Some t'" "store s' = put_conn (st_conn (counts s) + 1) (store s)"
    using run i(2) by (auto simp: accept_client_def)
  have "card (set (entries t')) \<le> 1024" using clients_bound [OF t'(2)] t'(3) i(4) fd(1) by auto
  moreover have "st_conn (counts s) + 1 = word_of_nat (clients s')"
    using i(7) b new t'(3) s'(1) by (simp add: clients_def)
  ultimately have "unat (st_conn (counts s) + 1) = clients s'"
    using s'(1) by (simp add: clients_def unsigned_of_nat take_bit_nat_eq_self)
  then show ?thesis by (auto simp: conn_raised_def s'(2) put_conn_def word_less_nat_alt max_def)
qed

lemma main_conn:
  assumes inv: "loop_inv lfd s" and lfd: "client_fd lfd" and step: "main_step lfd s s'"
  shows "conn_raised s s'"
  using step
proof cases
  case (main_accept fd)
  then show ?thesis using accept_raised [OF inv] by blast
next
  case (main_request fd ws)
  then show ?thesis by (intro conn_raised_same) (simp_all add: push_request_def clients_def)
next
  case (main_result j r rs)
  have fd: "client_fd (res_client r)" by (rule result_client_fd [OF inv lfd main_result(2,3)])
  obtain t where t: "conn_table s = Some t" "fd_table_ok t" using inv by (elim loop_invE) blast
  from fd_remove [OF t(2) fd] obtain x t' where t': "hashtbl_remove (Some t) (res_client r) = Ok (x, Some t')"
    "set (entries t') = set (entries t) - {res_client r}" by blast
  have "card (set (entries t) - {res_client r}) \<le> card (set (entries t))" by (rule card_mono) auto
  moreover have "st_max_conn (curr_state st) = st_max_conn (counts s)" if "close_client (res_client r) (store s) = Ok st" for st
    using postD [OF post_close_client that] by simp
  ultimately show ?thesis using main_result(4) t t'
    by (intro conn_raised_same) (auto simp: take_result_def clients_def rbind_eq_Ok split: if_splits)
qed (auto intro!: conn_raised_same simp: clients_def)

lemma core_static:
  assumes "request_core r fd s = Ok (k, s')"
  shows "static s' = static s"
proof -
  have "post (request_core r fd s) (\<lambda>(k, s'). static s' = static s)"
    by (cases r) (auto intro!: keeps_wp post_if)
  from postD [OF this assms] show ?thesis by simp
qed

lemma worker_quiet_store:
  assumes "worker_step i s s'" "\<And>fd. \<not> w_at s i (W_serve fd)"
  shows "store s' = store s" "conn_table s' = conn_table s"
  using assms by (cases rule: worker_step.cases; auto simp: w_goto_def)+

lemma whole_raised:
  assumes inv: "loop_inv lfd s" and lfd: "client_fd lfd" and step: "whole_step sp lfd (s, W) (s', W')"
  shows "risen (counts s) (counts s') \<and> conn_raised s s'"
  using step
proof (cases rule: whole_step.cases)
  case ws_main
  then show ?thesis using main_risen [OF inv lfd] main_conn [OF inv lfd] by blast
next
  case ws_sig
  then show ?thesis by (auto elim!: sig_step.cases intro!: conn_raised_same simp: clients_def)
next
  case (ws_worker i)
  from worker_quiet_store [OF this(2,3)] show ?thesis by (auto intro!: conn_raised_same simp: clients_def)
next
  case ws_spurious
  then show ?thesis by (auto elim!: w_spurious.cases intro!: conn_raised_same simp: clients_def w_goto_def)
next
  case (ws_core i fd c r rest ts k st)
  from risen_core [OF ws_core(6)] core_static [OF ws_core(6)] show ?thesis
    unfolding ws_core(1) by (auto intro!: conn_raised_same simp: clients_def static_def)
next
  case (ws_reply i fd t st)
  from reply_counters [OF this(4)] show ?thesis unfolding ws_reply(1) by (auto intro!: conn_raised_same simp: clients_def)
qed (auto intro!: conn_raised_same simp: clients_def served_def w_goto_def)

section \<open>Runs\<close>

lemma start_counters:
  assumes "start_of lfd n cfg s"
  shows "unat (st_max_files (counts s)) = stored_files s" "unat (st_max_space (counts s)) = stored_bytes s"
    "unat (st_max_conn (counts s)) = clients s"
proof -
  obtain ts t st where s: "server_init cfg ts Ample = Some st"
    "hashtbl_init HASH_N_LIST default_hashtbl_hash Ample = (Inr (), t, Ample)" "s = loop_init lfd n t st"
    using assms by (auto simp: start_of_def)
  obtain m where m: "hashmap_init HASH_N_LIST default_hashmap_hash Ample = (Inr (), Some (m :: nat hashmap), Ample)" "entries m = []"
    using hashmap_init_Ample [of HASH_N_LIST] by (auto simp: HASH_N_LIST_def)
  obtain t0 where "t = Some t0" "entries t0 = []" using init_table s(2) by auto
  moreover have "files st = Some m" "st_max_files (curr_state st) = 0" "st_max_space (curr_state st) = 0" "st_max_conn (curr_state st) = 0"
    using s(1) m(1) by (auto simp: server_init_def)
  ultimately show "unat (st_max_files (counts s)) = stored_files s" "unat (st_max_space (counts s)) = stored_bytes s"
    "unat (st_max_conn (counts s)) = clients s"
    using m(2) s(3) by (simp_all add: loop_init_def stored_files_def stored_bytes_def clients_def space_of_def)
qed

text \<open>The highest value over a run, newest state first.\<close>

definition highest :: "(loop \<Rightarrow> nat) \<Rightarrow> (loop \<times> (nat \<Rightarrow> task)) list \<Rightarrow> nat" where
  "highest f xs = Max (f ` fst ` set xs)"

lemma highest_simps [simp]:
  "highest f [x] = f (fst x)" "highest f (x # y # xs) = max (f (fst x)) (highest f (y # xs))"
  by (simp_all add: highest_def)

lemma highest_hd: "f (fst x) \<le> highest f (x # xs)"
  by (cases xs) simp_all

lemma run_highest:
  assumes "behaviour (whole_init lfd n cfg) (whole_step sp lfd) xs" "n < 2 ^ 32" "config_ok cfg" "client_fd lfd"
  shows "unat (st_max_files (counts (fst (hd xs)))) = highest stored_files xs \<and>
    unat (st_max_space (counts (fst (hd xs)))) = highest stored_bytes xs \<and>
    unat (st_max_conn (counts (fst (hd xs)))) = highest clients xs"
  using assms(1)
proof (induction rule: behaviour.induct)
  case (behaviour_start x)
  then show ?case using start_counters [of lfd n cfg "fst x"] by (simp add: whole_init_def)
next
  case (behaviour_step x xs y)
  obtain s W s' W' where xy: "x = (s, W)" "y = (s', W')" by force
  have r: "whole sp lfd n cfg (s, W)" using behaviour_step.hyps(1) xy by (auto simp: reachable_def)
  from reachable_step [OF r] behaviour_step.hyps(2) xy have r': "whole sp lfd n cfg (s', W')" by simp
  note raised = whole_raised [OF whole_loop_inv(1) [OF r assms(2-4)] assms(4) behaviour_step.hyps(2) [unfolded xy]]
  note true' = counters_true [OF whole_loop_inv(2) [OF r' assms(2-4)]]
  have "unat (st_max_files (counts s')) = max (unat (st_max_files (counts s))) (stored_files s')"
    "unat (st_max_space (counts s')) = max (unat (st_max_space (counts s))) (stored_bytes s')"
    using raised raised_max true' unfolding risen_def by metis+
  moreover have "clients s \<le> unat (st_max_conn (counts s))" using behaviour_step.IH highest_hd [of clients x xs] xy by simp
  then have "unat (st_max_conn (counts s')) = max (unat (st_max_conn (counts s))) (clients s')" using raised by (simp add: conn_raised_def)
  ultimately show ?case using behaviour_step.IH xy by (simp add: max.commute)
qed

end
