(* ===== verification/Summary.thy ===== *)
theory Summary
  imports Printf Server_Main Statistics
begin

text \<open>
  What \<open>main\<close> prints when the server has stopped: the statistics and the names of the files that are stored. The
  numbers are the highest ones of the run.
\<close>

section \<open>The summary\<close>

definition esc :: "string \<Rightarrow> string" where
  "esc s = CHR 0x1B # s"

definition nl :: "string \<Rightarrow> string" where
  "nl s = s @ [CHR 0x0A]"

definition summary_title :: string where
  "summary_title = nl (CHR 0x09 # esc ''[0;32mPrinting summary of server statistics.'' @ esc ''[0m'')"

definition summary_lines :: "server_state_t \<Rightarrow> (string \<times> c_arg list) list" where
  "summary_lines st =
     [(summary_title, []),
      (nl ''    Maximum number of stored files:  %15u'', [A_uint (st_max_files st)]),
      (nl ''    Maximum space occupied in bytes: %15lu'', [A_ulong (st_max_space st)]),
      (nl ''    Maximum number of connected clients: %11u'', [A_uint (st_max_conn st)]),
      (nl ''    Number of file expulsion by LRU: %15u'', [A_uint (st_no_LRU st)]),
      (nl ''    List of files stored at the end:'', [])]"

definition name_line :: "path \<Rightarrow> string \<times> c_arg list" where
  "name_line p = (nl (CHR 0x09 # ''%s''), [A_str p])"

fun print_all :: "(string \<times> c_arg list) list \<Rightarrow> byte list res" where
  "print_all [] = Ok []"
| "print_all (l # ls) = rbind (sprintf (fst l) (snd l)) (\<lambda>bs. rbind (print_all ls) (\<lambda>rest. Ok (bs @ rest)))"

definition summary :: "server_state_t \<Rightarrow> path list \<Rightarrow> byte list res" where
  "summary st names = print_all (summary_lines st @ map name_line names)"

text \<open>The end of \<open>main\<close>: what the closing down does, and the text it prints before the files are freed.\<close>

definition server_end :: "control \<Rightarrow> loop \<Rightarrow> (int list \<times> byte list \<times> server) res" where
  "server_end c s =
     rbind (server_stop c s) (\<lambda>(fds, names, st). rbind (summary (curr_state (store s)) names) (\<lambda>out. Ok (fds, out, st)))"

section \<open>Its bytes\<close>

lemma print_all_append: "print_all (xs @ ys) = rbind (print_all xs) (\<lambda>a. rbind (print_all ys) (\<lambda>b. Ok (a @ b)))"
proof (induction xs)
  case Nil
  then show ?case by (cases "print_all ys") simp_all
next
  case (Cons l xs)
  then show ?case
    by (cases "sprintf (fst l) (snd l)"; cases "print_all xs"; cases "print_all ys") simp_all
qed

lemma print_names: "print_all (map name_line names) = Ok (concat (map (\<lambda>p. 9 # p @ [10]) names))"
  by (induction names) (simp_all add: name_line_def nl_def sprintf_def pad_def is_digit_def)

definition shown :: "string \<Rightarrow> nat \<Rightarrow> nat \<Rightarrow> byte list" where
  "shown label width n = bytes_of label @ pad 32 width (decimal n) @ [10]"

definition report :: "nat \<Rightarrow> nat \<Rightarrow> nat \<Rightarrow> nat \<Rightarrow> path list \<Rightarrow> byte list" where
  "report fs bs cs es names =
     bytes_of summary_title @ shown ''    Maximum number of stored files:  '' 15 fs @ shown ''    Maximum space occupied in bytes: '' 15 bs @
     shown ''    Maximum number of connected clients: '' 11 cs @ shown ''    Number of file expulsion by LRU: '' 15 es @
     bytes_of (nl ''    List of files stored at the end:'') @ concat (map (\<lambda>p. 9 # p @ [10]) names)"

lemma summary_report:
  "summary st names = Ok (report (unat (st_max_files st)) (unat (st_max_space st)) (unat (st_max_conn st)) (unat (st_no_LRU st)) names)"
proof -
  have "print_all (summary_lines st) = Ok (bytes_of summary_title @
     shown ''    Maximum number of stored files:  '' 15 (unat (st_max_files st)) @
     shown ''    Maximum space occupied in bytes: '' 15 (unat (st_max_space st)) @
     shown ''    Maximum number of connected clients: '' 11 (unat (st_max_conn st)) @
     shown ''    Number of file expulsion by LRU: '' 15 (unat (st_no_LRU st)) @
     bytes_of (nl ''    List of files stored at the end:''))"
    by (simp add: summary_lines_def sprintf_def summary_title_def nl_def esc_def bytes_of_def shown_def is_digit_def
      print_int_def flip: nat_uint_eq)
  then show ?thesis by (simp add: summary_def print_all_append print_names report_def)
qed

section \<open>The numbers are those of the run\<close>

text \<open>C6: whatever the interleaving, the numbers that are printed at the end are the highest numbers of stored files, of
  stored bytes and of connected clients over the whole run.\<close>

theorem summary_true:
  assumes "behaviour (whole_init lfd n cfg) (whole_step sp lfd) xs" "n < 2 ^ 32" "config_ok cfg" "client_fd lfd"
  shows "\<exists>es. summary (curr_state (store (fst (hd xs)))) names =
    Ok (report (highest stored_files xs) (highest stored_bytes xs) (highest clients xs) es names)"
  using run_highest [OF assms] unfolding summary_report by (intro exI) simp

lemma demo_connected: "\<exists>s W. whole True 3 1 demo_config (s, W) \<and> 0 < clients s"
proof -
  have cfg: "config_ok demo_config" "client_fd 3" by (simp_all add: config_ok_def demo_config_def client_fd_def)
  obtain s where s: "whole True 3 1 demo_config (s, \<lambda>_. Free)" "w_at s 0 (W_serve 5)" using demo_core by blast
  have inv: "loop_inv 3 s" using whole_loop_inv(1) [OF s(1) _ cfg] by simp
  obtain t b where
    t: "conn_table s = Some t" "open_fds s = mset_set (set (entries t) \<union> (if b then {3} else {}))"
    using inv by (elim loop_invE) (rule that)
  have "W_serve 5 \<in> set (workers s)" using s(2) nth_mem [of 0 "workers s"] by (simp add: w_at_def)
  then have "5 \<in># open_fds s" by (auto simp: open_fds_def intro: rev_bexI)
  then have "5 \<in> set (entries t)" using t(2) by (auto split: if_splits)
  then have "0 < clients s" using t(1) by (auto simp: clients_def card_gt_0_iff)
  with s(1) show ?thesis by blast
qed

lemma summary_true_witness:
  "\<exists>xs es. behaviour (whole_init 3 1 demo_config) (whole_step True 3) xs \<and> 0 < highest clients xs \<and>
    summary (curr_state (store (fst (hd xs)))) [bytes_of ''/a''] =
      Ok (report (highest stored_files xs) (highest stored_bytes xs) (highest clients xs) es [bytes_of ''/a''])"
proof -
  have cfg: "config_ok demo_config" "client_fd 3" by (simp_all add: config_ok_def demo_config_def client_fd_def)
  obtain s W where s: "whole True 3 1 demo_config (s, W)" "0 < clients s" using demo_connected by blast
  obtain xs where xs: "behaviour (whole_init 3 1 demo_config) (whole_step True 3) ((s, W) # xs)" using s(1) by (auto simp: reachable_def)
  have "0 < highest clients ((s, W) # xs)" using s(2) highest_hd [of clients "(s, W)" xs] by simp
  then show ?thesis using summary_true [OF xs _ cfg, of "[bytes_of ''/a'']"] xs by (intro exI [of _ "(s, W) # xs"]) simp
qed

end
