(* ===== verification/Client_Nodes.thy ===== *)
theory Client_Nodes
  imports Execute Printf
begin

text \<open>
  The nodes of the lists of the client: the debug print of the requests (\<open>print_request_q\<close> in \<open>client.c\<close>), and the
  memory of the lists of files that are read (\<open>clean_node_buf\<close> in \<open>execute_requests.c\<close>) or sent by the server
  (\<open>free_node_size_n_buf\<close> in \<open>files.c\<close>).
\<close>

section \<open>Printing the requests\<close>

definition newline :: string where "newline = [CHR 0x0A]"

fun print_names_of :: "path list \<Rightarrow> byte list res" where
  "print_names_of [] = sprintf newline []"
| "print_names_of (f # fs) = rbind (sprintf '' %s'' [A_str f]) (\<lambda>a. rbind (print_names_of fs) (\<lambda>b. Ok (a @ b)))"

text \<open>The letter decides how the data of the node is read.\<close>

definition print_node :: "req_node \<Rightarrow> byte list res" where
  "print_node n =
     (let k = fst n; c = (of_char (fst n) :: byte)
      in if k = CHR ''t'' then (case snd n of Number i \<Rightarrow> sprintf (''-t %ld'' @ newline) [A_long i] | _ \<Rightarrow> UB)
         else if k = CHR ''w'' then (case snd n of Dir_and_number d i \<Rightarrow> sprintf (''-w %s %ld'' @ newline) [A_str d, A_long i] | _ \<Rightarrow> UB)
         else if k = CHR ''R'' then (case snd n of Number i \<Rightarrow> sprintf (''-R %ld'' @ newline) [A_long i] | _ \<Rightarrow> UB)
         else if k \<in> {CHR ''D'', CHR ''d''} then (case snd n of Dir_name d \<Rightarrow> sprintf (''-%c %s'' @ newline) [A_char c, A_str d] | _ \<Rightarrow> UB)
         else if k \<in> {CHR ''W'', CHR ''r'', CHR ''l'', CHR ''u'', CHR ''c''}
         then (case snd n of
                 File_list fs \<Rightarrow> rbind (sprintf ''-%c'' [A_char c]) (\<lambda>a. rbind (print_names_of fs) (\<lambda>b. Ok (a @ b)))
               | _ \<Rightarrow> UB)
         else Ok [])"

fun print_request_q :: "req_node list \<Rightarrow> byte list res" where
  "print_request_q [] = Ok []"
| "print_request_q (n # ns) = rbind (print_node n) (\<lambda>a. rbind (print_request_q ns) (\<lambda>b. Ok (a @ b)))"

lemma print_names_ok: "print_names_of fs = Ok (concat (map ((#) 32) fs) @ [10])"
  by (induction fs) (simp_all add: sprintf_def newline_def is_digit_def pad_def)

lemma print_node_ok: "node_ok n \<Longrightarrow> \<exists>out. print_node n = Ok out"
  by (cases n; cases "snd n") (auto simp: node_ok_def print_node_def print_names_ok sprintf_def newline_def is_digit_def)

text \<open>Every request is printed as what it is, whatever the options were.\<close>

lemma print_request_q_ok:
  assumes "parse_options realpath opts (options_init m) = Ok (r, st)"
  shows "\<exists>out. print_request_q (request_q st) = Ok out"
proof -
  have "queue_ok (options_init m)" by (simp add: queue_ok_def options_init_def)
  then have "queue_ok st" using parse_options_queue [OF assms] by blast
  moreover have "\<exists>out. print_request_q ns = Ok out" if "\<forall>n \<in> set ns. node_ok n" for ns
    using that
  proof (induction ns)
    case (Cons n ns)
    then show ?case using print_node_ok [of n] by auto
  qed simp
  ultimately show ?thesis by (simp add: queue_ok_def)
qed

section \<open>Lists of files\<close>

text \<open>
  The memory of a node of such a list: the node, the pair of size and buffer, the buffer, and the key, which for the
  files of \<open>-r\<close> is a string of the list of requests.
\<close>

datatype file_block = File_node | Snb_block | Buf_block "byte list" | Key_block path

type_synonym file_node = "path \<times> size_n_buf_t"

definition buf_blocks :: "file_node \<Rightarrow> file_block list" where
  "buf_blocks n = (case snb_buf (snd n) of None \<Rightarrow> [] | Some b \<Rightarrow> [Buf_block b])"

definition clean_node_buf :: "file_node \<Rightarrow> file_block list" where
  "clean_node_buf n = buf_blocks n @ [Snb_block, File_node]"

definition free_node_size_n_buf :: "file_node \<Rightarrow> file_block list" where
  "free_node_size_n_buf n = buf_blocks n @ [Snb_block, Key_block (fst n), File_node]"

text \<open>What \<open>write_files_sent_by_server\<close> frees at its end, by the number of files written.\<close>

definition release_received :: "int \<Rightarrow> file_node list \<Rightarrow> file_block list" where
  "release_received n_files fs =
     (if (word_of_int n_files :: u32) < word_of_nat (length fs) \<and> n_files \<noteq> -1 then []
      else concat (map free_node_size_n_buf fs))"

lemma alloc_or_exit:
  "(case malloc m of (ok, m') \<Rightarrow> case ok of True \<Rightarrow> g m' | False \<Rightarrow> Exit) = Ok y \<longleftrightarrow> fst (malloc m) \<and> g (snd (malloc m)) = Ok y"
  by (cases "malloc m") (simp split: bool.split)

text \<open>The keys of the files that are read belong to the list of requests, which frees them at exit.\<close>

lemma fetch_borrows:
  assumes "fetch_files fs tw a = Ok (tw', a')"
  shows "set (map fst tw') \<subseteq> set (map fst tw) \<union> set fs"
  using assms
proof (induction fs arbitrary: tw a)
  case (Cons f fs)
  then obtain tw1 a1 where f: "fetch_file f tw a = Ok (tw1, a1)" "fetch_files fs tw1 a1 = Ok (tw', a')"
    by (auto simp: rbind_eq_Ok)
  have "set (map fst tw1) \<subseteq> insert f (set (map fst tw))"
    using f(1) by (auto simp: fetch_file_def rbind_eq_Ok alloc_or_exit split: if_splits)
  with Cons.IH [OF f(2)] show ?case by (simp del: set_map) blast
qed simp

text \<open>When some of the files could not be written, none of the list is freed.\<close>

lemma release_received_leaks:
  assumes "0 \<le> n_files" "n_files < int (length fs)" "length fs < 2 ^ 31"
  shows "release_received n_files fs = []"
proof -
  have "uint (word_of_int n_files :: u32) = n_files" "uint (word_of_nat (length fs) :: u32) = int (length fs)"
    using assms by (simp_all add: uint_word_of_int unsigned_of_nat take_bit_nat_eq_self)
  then show ?thesis using assms by (simp add: release_received_def word_less_def)
qed

lemma release_received_all: "release_received (int (length fs)) fs = concat (map free_node_size_n_buf fs)"
  by (simp add: release_received_def)

end
