(* ===== verification/Spec2Isabelle.thy ===== *)
theory Spec2Isabelle
  imports File_Locks Client_Server Progress Summary Client_Nodes
begin

text \<open>
  \<^bold>\<open>A file storage server and its clients, in C, verified.\<close>

  The program is a server that keeps files in memory (\<open>src/server\<close>), a library through which a process
  talks to it over a local socket (\<open>src/api\<close>), a client program with command-line options (\<open>src/client\<close>) and
  the containers and helpers these share (\<open>src/util\<close>). The main thread of the server accepts connections and
  queues the descriptors of clients that have sent something; workers take them from the queue, read one
  request, run its handler on the shared map of files and send the reply; each result goes back to the main
  thread through a pipe. A signal thread makes the server refuse connections or close.

  \<^bold>\<open>Theories and code.\<close>

  \<^item> \<open>Prelude\<close>: how a C function ends (\<open>res\<close>: a value, \<open>exit\<close>, undefined behaviour, or waiting for ever; an
    \<open>option\<close> around it where a loop may not end), machine types, \<open>errno\<close>, the allocator, lemmas on lists and words.
  \<^item> \<open>Node_List\<close>: \<open>util/node.c\<close>, \<open>util/list.c\<close> on a heap of pointers. The queue of requests is a FIFO queue
    (locale \<open>fifo_queue\<close>); unlinking a node of a bucket, as the hash tables do, removes one element of the list.
  \<^item> \<open>Buckets\<close>, \<open>Hashtable\<close>, \<open>Hashmap\<close>: \<open>util/hash\<close> and \<open>util/hash.c\<close>. The two containers share their code up to
    the types; the locale \<open>keyed_bag\<close> states what both provide and is interpreted on each (\<open>tbl\<close>, \<open>hm\<close>). A
    bucket is a list here, which \<open>Node_List\<close> relates to the pointers.
  \<^item> \<open>Util\<close>, \<open>Protocol\<close>: \<open>util/util.c\<close> and \<open>server-api-protocol.h\<close>: \<open>readn\<close> and \<open>writen\<close> over the answers that the
    system may give, and what they amount to on a connection (\<open>conn\<close>: the bytes to be received, what comes
    after them, the bytes sent and the room for more); the codes and their bytes.
  \<^item> \<open>Printf\<close>: the directives of \<open>printf\<close> that the program uses, on bytes, and numbers in decimal.
  \<^item> \<open>Server_State\<close>: \<open>server.h\<close> and the globals of \<open>server.c\<close>. The state of the server is the record \<open>server\<close>;
    the files are a heap of \<open>file_t\<close> and a map from paths to addresses. \<open>server_inv\<close> is its invariant: every
    entry of the map points to a file of its own with that path, data of its size and a table of clients, no
    file is locked, the counters are the number of files and their total size, and both are within the limits.
  \<^item> \<open>Replacement\<close>: \<open>replacement.c\<close>. The locale \<open>time_policy\<close> is the order of a policy, interpreted on both.
  \<^item> \<open>Handlers\<close>: \<open>open_file.c\<close>, \<open>close_file.c\<close>, \<open>read_file.c\<close>, \<open>read_n_files.c\<close>, \<open>write_file.c\<close>,
    \<open>append_to_file.c\<close>, \<open>remove_file.c\<close>, \<open>send_files_to_client.c\<close> and \<open>close_client\<close>.
  \<^item> \<open>Requests\<close>, \<open>Writes\<close>, \<open>Wire\<close>, \<open>Service\<close>: the abstract store (\<open>astore\<close>: contents, lock and openers of each
    path) with one specification for each request (\<open>spec_open\<close>, \<open>spec_create\<close>, ...), and the proofs that the
    handlers implement it, from the bytes of a request to the bytes of the reply, on every branch.
  \<^item> \<open>Frame\<close>, \<open>Workers\<close>: \<open>workers.c\<close>. What no handler changes, by three locales over a part of the state (\<open>kept\<close>,
    \<open>kept_out\<close>, \<open>kept_all\<close>), interpreted on the configuration, the counters and their highest values; what a worker does with one request; and
    \<open>session_safe\<close>, the invariant over every sequence of requests.
  \<^item> \<open>Cores\<close>, \<open>Overlap\<close>: requests that overlap. Each handler is cut where it gives back \<open>files_mtx\<close>; the first
    parts of some workers and the replies of others interleave message by message. \<open>settle\<close> maps a state to the
    store without the replies under way, and the whole refines the system in which a request is one step.
  \<^item> \<open>File_Locks\<close>: \<open>file_locks.c\<close> as a system of interleaved threads with a mutex and a condition variable. The
    sequential functions that the handlers use are its runs with one thread.
  \<^item> \<open>Main_Loop\<close>: the loop of \<open>server.c\<close>, \<open>worker_thread\<close> and \<open>sig_handler.c\<close> as one transition system over the
    queue, the table of clients, the pipes and the store; \<open>stale_step\<close> is what the code does where C leaves it undefined.
  \<^item> \<open>Select_Loop\<close>: the same loop as it is written, with \<open>select\<close>, the \<open>for\<close> over the descriptors and \<open>fd_max\<close>,
    and the two actions of the signal handler apart; it refines \<open>Main_Loop\<close>.
  \<^item> \<open>Transition\<close>: behaviours, reachable states and the simulation of one system by another (locale \<open>simulation\<close>).
  \<^item> \<open>Whole_Server\<close>: all threads of \<open>Main_Loop\<close> with the overlapping requests of \<open>Overlap\<close>. By the interpretation
    \<open>ws\<close> of \<open>simulation\<close> it refines the system in which a request is one step, so that the invariants of
    \<open>Main_Loop\<close> and \<open>Workers\<close> hold of it.
  \<^item> \<open>Progress\<close>: the steps of the workers of \<open>Whole_Server\<close> alone, with what their clients have sent: they end, and
    only when the queue is empty and the result of every client is in a pipe, or a worker was led astray or is asked for all the files of an empty store.
  \<^item> \<open>Statistics\<close>, \<open>Summary\<close>: the highest numbers of files, bytes and clients that the server keeps, and the
    text that \<open>main\<close> prints at its end.
  \<^item> \<open>Log\<close>: \<open>log.c\<close>: the name of the file, \<open>logger\<close> as run by threads at the same time with the mutex, the clock
    and the buffer of the stream, and the lines of \<open>worker_thread\<close>.
  \<^item> \<open>Server_Config\<close>, \<open>Server_Main\<close>: \<open>get_server_config.c\<close>, and \<open>main\<close> before and after its loop.
  \<^item> \<open>Files_Util\<close>: \<open>util/files.c\<close> over a record of the disk of the client.
  \<^item> \<open>Api\<close>, \<open>Api_Calls\<close>: the client library; its globals are the record \<open>api\<close>.
  \<^item> \<open>End_To_End\<close>: each call of the library composed with the worker that serves it.
  \<^item> \<open>Client_Options\<close>, \<open>Execute\<close>: \<open>parse_options.c\<close>, \<open>execute_requests.c\<close>, \<open>client.c\<close>.
  \<^item> \<open>Client_Nodes\<close>: the debug print of the requests, and what the cleaners of the lists of files free.
  \<^item> \<open>Client_Server\<close>: the option \<open>-W\<close> of the client program against the server, through the locale
    \<open>file_service\<close>, interpreted on the worker.

  \<^bold>\<open>What is shown.\<close> The containers behave as a queue, a set and a map and free what they own. Every handler
  refines its abstract operation, keeps the invariant and the limits, and tells the client the result; no
  sequence of requests breaks the server, but for the two that the code gets wrong (below). A call of the library and the worker that serves it
  agree on every byte, so that the call returns what the abstract operation says; the client program composes
  these calls. Under every interleaving each client is in exactly one place and its requests are served one
  at a time, until a worker pops from an empty queue; requests that overlap do what they would do one after the other, no reply reads a file that is
  gone, and the lock of a file excludes writers. All threads together, with the replies under way, refine the
  server that serves a request in one step. No request is lost, unless a worker was led astray: the workers come to an
  end in any order, with every request that was taken answered. The statistics that are printed are the highest numbers of the run, and the log is
  what the calls would have printed one after the other. A configuration that is printed
  is read back; the set-up
  reaches the loop with the descriptors the loop needs, and closing down releases what is open. Where the
  code does not do what it should, the behaviour is a theorem too: the lock that \<open>read_file\<close> leaves taken, the
  worker that pops from an empty queue, the shutdown that hangs or reads a result that is not there, the loop of \<open>write_list_of_files_into_dir\<close>
  that does not end, the scan of directories that sends more files than were asked for, the stream that an empty file leaves out of step.

  \<^bold>\<open>Bounds.\<close> Integers have the width of the code wherever they can wrap: counters and sizes are \<open>32 word\<close> and
  \<open>64 word\<close>. \<open>int\<close> and \<open>long\<close> are unbounded integers where the program cannot leave their range, with the
  conversions written out. A request is well formed (\<open>request_ok\<close>) when its path has fewer than \<open>2^31 - 1\<close> bytes and its
  contents are not empty and below \<open>2^31\<close> bytes. Where a theorem says that the server goes on after a request, two requests are left
  out that the code gets wrong (\<open>can_reply\<close>, which is part of \<open>event_ok\<close>, \<open>can_start\<close> and, but for the second one, of \<open>asks_well\<close>): \<open>READ_FILE\<close> of a client that may
  go away before it has taken the whole reply, which leaves a lock (\<open>read_file_leaks_lock\<close>), and \<open>READ_N_FILES\<close> with a number that is not
  positive on an empty store, which is undefined behaviour (\<open>read_n_files_empty_store\<close>). The replies to all other requests may
  break off at any byte. The limits of the configuration are below \<open>2^27\<close> files and
  \<open>2^63\<close> bytes. Recursion is structural or has a measure, and a
  loop that may not end (the scan of directories, the writing of received files) is a \<open>partial_function (option)\<close>,
  with theorems that it ends, or that it does not. Two walks along pointers, \<open>list_delete_loop\<close> and \<open>list_search\<close>,
  have fuel: as many steps as addresses were ever handed out, which the lemmas show to be enough for every list
  that is well formed. The loop over the options of the configuration has the six rounds of the code.

  \<^bold>\<open>Not modelled.\<close> The messages to the terminal other than the summary and the lines that \<open>main\<close> and the handlers log; the freeing of the
  arrays of \<open>main\<close> at the end of the server. \<open>safe_malloc\<close> stands for \<open>safe_realloc\<close> too. Clients of \<open>Whole_Server\<close> send
  well-formed requests with the two exceptions above, break off or close (\<open>can_start\<close>, \<open>no_request\<close>). A worker that has popped from an empty queue is at \<open>W_ub\<close>, where the systems
  have no further step for it: what the server does afterwards, with the indeterminate descriptor that this worker serves
  (\<open>stale_step\<close>), is not covered, and the invariants and the progress of the threads are claimed for states without such a worker only.
  The clock of the log is not set back.
  A worker that waits for the lock of a file while it holds \<open>files_mtx\<close> is a step that cannot be taken yet. System calls are parameters: the answers of \<open>read\<close>, \<open>write\<close>, \<open>connect\<close>, \<open>clock_gettime\<close>, \<open>mkdir\<close> and \<open>fopen\<close> come from
  the state. A file is written with the buffer of its stream, and a disk that is full is noticed when a block is written or, unnoticed
  by the program, when the stream is closed (\<open>fwrite\<close>).
\<close>

end
